(* ===== verification/Prelude.thy ===== *)
theory Prelude
  imports Main "HOL-Library.Word" "HOL-Library.Char_ord" "HOL-Library.Monad_Syntax"
    "HOL-Library.Code_Target_Nat"
begin

text \<open>
  Shared vocabulary of the development: the Go run-time conventions every component
  model uses, and the list and string lemmas the component proofs share.

  \<^item> A Go string is the list of its bytes, as HOL's \<open>string\<close> (an 8-bit \<open>char\<close> each);
    a \<open>[]byte\<close> that is a wire buffer is a list of \<open>8 word\<close>.
  \<^item> A run-time panic is the value \<^term>\<open>None\<close> of an option: reads and slices go through
    \<open>idx\<close> and \<open>sub\<close>, which are \<^term>\<open>None\<close> exactly where Go panics (a slice may not reach
    past the length here, which is stricter than Go's capacity rule).
  \<^item> A \<open>time.Time\<close> is its distance in nanoseconds from Go's zero time, as an \<open>int\<close>:
    \<open>IsZero\<close> is equality with 0. A \<open>time.Duration\<close> is an \<open>int\<close> number of nanoseconds.
\<close>

named_theorems go_idx \<open>reads and slices that are in range\<close>

section \<open>Bytes and slices\<close>

type_synonym byte = "8 word"
type_synonym bytes = "8 word list"

definition idx :: "'a list \<Rightarrow> nat \<Rightarrow> 'a option" where
  "idx xs i = (if i < length xs then Some (xs ! i) else None)"

definition sub :: "'a list \<Rightarrow> nat \<Rightarrow> nat \<Rightarrow> 'a list option" where
  "sub xs a b = (if a \<le> b \<and> b \<le> length xs then Some (take (b - a) (drop a xs)) else None)"

definition be16 :: "byte \<Rightarrow> byte \<Rightarrow> nat" where
  "be16 hi lo = 256 * unat hi + unat lo"

lemma idx_Some [go_idx]: "i < length xs \<Longrightarrow> idx xs i = Some (xs ! i)"
  by (simp add: idx_def)

lemma sub_Some [go_idx]:
  "a \<le> b \<Longrightarrow> b \<le> length xs \<Longrightarrow> sub xs a b = Some (take (b - a) (drop a xs))"
  by (simp add: sub_def)

lemma sub_length: "sub xs a b = Some ys \<Longrightarrow> length ys = b - a"
  by (auto simp: sub_def split: if_splits)

lemma byte_bound [simp]: "unat (b :: byte) < 256"
  using unsigned_less [of b, where ?'a = nat] by simp

lemma be16_bound: "be16 hi lo < 65536"
  using byte_bound [of hi] byte_bound [of lo] unfolding be16_def by linarith

lemma be16_eq_0_iff: "be16 hi lo = 0 \<longleftrightarrow> hi = 0 \<and> lo = 0"
  by (simp add: be16_def unat_eq_zero)

text \<open>The shifted-and-or form the source writes, \<open>int(hi)<<8 | int(lo)\<close>.\<close>

lemma be16_is_shift_or: "be16 hi lo = or (push_bit 8 (unat hi)) (unat lo)"
proof -
  have "take_bit 8 (unat lo) = unat lo"
    using byte_bound [of lo] by (simp add: take_bit_nat_eq_self)
  have "and (push_bit 8 (unat hi)) (take_bit 8 (unat lo)) = 0"
    by (rule bit_eqI) (auto simp: bit_and_iff bit_push_bit_iff bit_take_bit_iff)
  with \<open>take_bit 8 (unat lo) = unat lo\<close> have "and (push_bit 8 (unat hi)) (unat lo) = 0"
    by simp
  then have "push_bit 8 (unat hi) + unat lo = or (push_bit 8 (unat hi)) (unat lo)"
    by (rule disjunctive_add_eq_or)
  then show ?thesis by (simp add: be16_def push_bit_eq_mult)
qed

definition byte_of :: "nat \<Rightarrow> byte" where
  "byte_of n = word_of_nat n"

lemma unat_byte_of: "unat (byte_of n) = n mod 256"
  by (simp add: byte_of_def unat_of_nat)

definition str_of_bytes :: "bytes \<Rightarrow> string" where
  "str_of_bytes bs = map (\<lambda>b. char_of (unat b)) bs"

lemma length_str_of_bytes [simp]: "length (str_of_bytes bs) = length bs"
  by (simp add: str_of_bytes_def)

definition bytes_of_str :: "string \<Rightarrow> bytes" where
  "bytes_of_str s = map (\<lambda>c. byte_of (of_char c)) s"

lemma length_bytes_of_str [simp]: "length (bytes_of_str s) = length s"
  by (simp add: bytes_of_str_def)

lemma of_char_bound [simp]: "of_char c < (256 :: nat)"
  using range_nat_of_char by (metis atLeastLessThan_iff rangeI)

lemma str_of_bytes_of_str [simp]: "str_of_bytes (bytes_of_str s) = s"
  by (induction s) (simp_all add: str_of_bytes_def bytes_of_str_def unat_byte_of)

lemma small_byte_high_bits:
  assumes "unat (w :: byte) < 64" shows "and w 0xc0 = 0"
proof -
  have "unat (take_bit 6 w) = unat w"
    using assms by (simp add: unsigned_take_bit_eq take_bit_nat_eq_self)
  then have "take_bit 6 w = w" by (simp add: word_unat_eq_iff)
  moreover have "(0xc0 :: byte) = push_bit 6 3" by simp
  moreover have "\<not> bit (push_bit 6 (3 :: byte)) n" if "n < 6" for n
    using that unfolding bit_push_bit_iff by simp
  then have "and (take_bit 6 w) (push_bit 6 (3 :: byte)) = 0"
    by (intro bit_eqI) (auto simp only: bit_and_iff bit_take_bit_iff bit_0_eq bot_apply bot_bool_def)
  ultimately show ?thesis by metis
qed

lemma or_and_absorb: "and (or a b) b = (b :: 'a :: len word)"
  by (rule bit_eqI) (auto simp: bit_and_iff bit_or_iff)

section \<open>Fixed-width integers on the wire\<close>

text \<open>\<open>binary.BigEndian\<close> and \<open>binary.LittleEndian\<close>, for any width.\<close>

fun le_bytes :: "nat \<Rightarrow> nat \<Rightarrow> bytes" where
  "le_bytes 0 n = []"
| "le_bytes (Suc k) n = byte_of n # le_bytes k (n div 256)"

fun le_val :: "bytes \<Rightarrow> nat" where
  "le_val [] = 0"
| "le_val (b # bs) = unat b + 256 * le_val bs"

definition be_bytes :: "nat \<Rightarrow> nat \<Rightarrow> bytes" where
  "be_bytes k n = rev (le_bytes k n)"

definition be_val :: "bytes \<Rightarrow> nat" where
  "be_val bs = le_val (rev bs)"

lemma length_le_bytes [simp]: "length (le_bytes k n) = k"
  by (induction k arbitrary: n) auto

lemma length_be_bytes [simp]: "length (be_bytes k n) = k"
  by (simp add: be_bytes_def)

lemma le_val_le_bytes: "n < 256 ^ k \<Longrightarrow> le_val (le_bytes k n) = n"
proof (induction k arbitrary: n)
  case (Suc k)
  then have "n div 256 < 256 ^ k" by (simp add: less_mult_imp_div_less mult.commute)
  then show ?case using Suc.IH by (simp add: unat_byte_of)
qed simp

lemma byte_of_unat [simp]: "byte_of (unat b) = b"
  by (simp add: byte_of_def)

lemma le_bytes_le_val: "le_bytes (length bs) (le_val bs) = bs"
proof (induction bs)
  case (Cons b bs)
  have "byte_of (unat b + 256 * le_val bs) = b"
    by (rule word_unat_eq_iff [THEN iffD2]) (simp add: unat_byte_of)
  moreover have "(unat b + 256 * le_val bs) div 256 = le_val bs" by simp
  ultimately show ?case using Cons by simp
qed simp

lemma be_val_be_bytes: "n < 256 ^ k \<Longrightarrow> be_val (be_bytes k n) = n"
  by (simp add: be_val_def be_bytes_def le_val_le_bytes)

lemma le_val_bound: "le_val bs < 256 ^ length bs"
proof (induction bs)
  case (Cons b bs)
  have "unat b + 256 * le_val bs < 256 * (le_val bs + 1)" by simp
  also have "\<dots> \<le> 256 * 256 ^ length bs" using Cons by (intro mult_le_mono2) simp
  finally show ?case by simp
qed simp

lemma be_val_bound: "be_val bs < 256 ^ length bs"
  using le_val_bound [of "rev bs"] by (simp add: be_val_def)

section \<open>Reading a stream\<close>

text \<open>
  \<open>io.ReadFull\<close> on the bytes a connection will still deliver before it fails: the bytes asked for
  and the rest, or the source's error (\<open>io.EOF\<close> when not a byte came, else \<open>io.ErrUnexpectedEOF\<close>).
\<close>

datatype io_error = EOF | UnexpectedEOF

definition read_full :: "nat \<Rightarrow> bytes \<Rightarrow> io_error + (bytes \<times> bytes)" where
  "read_full n stream =
     (if n \<le> length stream then Inr (take n stream, drop n stream)
      else if stream = [] then Inl EOF else Inl UnexpectedEOF)"

lemma read_full_append: "n = length a \<Longrightarrow> read_full n (a @ b) = Inr (a, b)"
  by (simp add: read_full_def)

lemma read_full_Inr:
  "read_full n s = Inr (a, b) \<longleftrightarrow> n \<le> length s \<and> a = take n s \<and> b = drop n s"
  by (auto simp: read_full_def)

lemma read_full_length: "read_full n s = Inr (a, b) \<Longrightarrow> length a = n \<and> length b + n = length s"
  by (auto simp: read_full_def split: if_splits)

section \<open>First matches\<close>

lemma find_append: "find P (xs @ ys) = (case find P xs of None \<Rightarrow> find P ys | Some x \<Rightarrow> Some x)"
  by (induction xs) auto

lemma find_filter_irrelevant:
  "(\<And>x. x \<in> set xs \<Longrightarrow> P x \<Longrightarrow> Q x) \<Longrightarrow> find P (filter Q xs) = find P xs"
  by (induction xs) auto

section \<open>Branches\<close>

text \<open>A computation that cannot panic, branch by branch.\<close>

lemma some_case: "x \<noteq> None \<Longrightarrow> (\<And>y. f y \<noteq> None) \<Longrightarrow> (case x of None \<Rightarrow> None | Some y \<Rightarrow> f y) \<noteq> None"
  by (cases x) auto

lemma sum_case: "(\<And>e. f e \<noteq> None) \<Longrightarrow> (\<And>v. g v \<noteq> None) \<Longrightarrow> (case x of Inl e \<Rightarrow> f e | Inr v \<Rightarrow> g v) \<noteq> None"
  by (cases x) auto

lemma option_case: "f \<noteq> None \<Longrightarrow> (\<And>v. g v \<noteq> None) \<Longrightarrow> (case x of None \<Rightarrow> f | Some v \<Rightarrow> g v) \<noteq> None"
  by (cases x) auto

lemma if_case: "(b \<Longrightarrow> x \<noteq> None) \<Longrightarrow> (\<not> b \<Longrightarrow> y \<noteq> None) \<Longrightarrow> (if b then x else y) \<noteq> None"
  by auto

text \<open>The branches a result may come from, the branch conditions dropped or kept.\<close>

lemma if_drop: "(if b then x else y) = z \<Longrightarrow> (x = z \<Longrightarrow> P) \<Longrightarrow> (y = z \<Longrightarrow> P) \<Longrightarrow> P"
  by (cases b) auto

lemma option_drop: "(case x of None \<Rightarrow> a | Some y \<Rightarrow> f y) = z \<Longrightarrow> (x = None \<Longrightarrow> a = z \<Longrightarrow> P) \<Longrightarrow> (\<And>y. x = Some y \<Longrightarrow> f y = z \<Longrightarrow> P) \<Longrightarrow> P"
  by (cases x) auto

lemma prod_drop: "(case x of (a, b) \<Rightarrow> f a b) = z \<Longrightarrow> (\<And>a b. x = (a, b) \<Longrightarrow> f a b = z \<Longrightarrow> P) \<Longrightarrow> P"
  by (cases x) auto

lemma sum_drop: "(case x of Inl a \<Rightarrow> f a | Inr b \<Rightarrow> g b) = z \<Longrightarrow> (\<And>a. x = Inl a \<Longrightarrow> f a = z \<Longrightarrow> P) \<Longrightarrow> (\<And>b. x = Inr b \<Longrightarrow> g b = z \<Longrightarrow> P) \<Longrightarrow> P"
  by (cases x) auto

lemma if_keep: "(if b then x else y) = z \<Longrightarrow> (b \<Longrightarrow> x = z \<Longrightarrow> P) \<Longrightarrow> (\<not> b \<Longrightarrow> y = z \<Longrightarrow> P) \<Longrightarrow> P"
  by (cases b) auto

end
