(* ===== verification/Go_Strings.thy ===== *)
theory Go_Strings
  imports Prelude
begin

text \<open>
  The functions of Go's \<open>strings\<close> and \<open>net\<close> packages the source uses, on strings as byte
  lists. \<open>to_lower\<close> maps the ASCII capitals and leaves every other byte alone, which is what
  \<open>strings.ToLower\<close> does on ASCII text (host names, rule prefixes); \<open>trim_space\<close> removes the
  UTF-8 encoding of every code point \<open>unicode.IsSpace\<close> accepts.
\<close>

section \<open>Case\<close>

definition lower_char :: "char \<Rightarrow> char" where
  "lower_char c = (let n = of_char c :: nat in if 65 \<le> n \<and> n \<le> 90 then char_of (n + 32) else c)"

definition to_lower :: "string \<Rightarrow> string" where
  "to_lower s = map lower_char s"

lemma lower_char_idem [simp]: "lower_char (lower_char c) = lower_char c"
  by (simp add: lower_char_def Let_def)

lemma to_lower_idem [simp]: "to_lower (to_lower s) = to_lower s"
  by (simp add: to_lower_def comp_def)

lemma length_to_lower [simp]: "length (to_lower s) = length s"
  by (simp add: to_lower_def)

lemma to_lower_append [simp]: "to_lower (a @ b) = to_lower a @ to_lower b"
  by (simp add: to_lower_def)

lemma to_lower_Nil [simp]: "to_lower [] = []"
  by (simp add: to_lower_def)

lemma to_lower_Cons: "to_lower (c # s) = lower_char c # to_lower s"
  by (simp add: to_lower_def)

text \<open>\<open>strings.EqualFold\<close> on ASCII text.\<close>

definition equal_fold :: "string \<Rightarrow> string \<Rightarrow> bool" where
  "equal_fold a b \<longleftrightarrow> to_lower a = to_lower b"

section \<open>Prefixes and suffixes\<close>

definition has_prefix :: "string \<Rightarrow> string \<Rightarrow> bool" where
  "has_prefix s p \<longleftrightarrow> take (length p) s = p"

definition has_suffix :: "string \<Rightarrow> string \<Rightarrow> bool" where
  "has_suffix s p \<longleftrightarrow> length p \<le> length s \<and> drop (length s - length p) s = p"

definition trim_prefix :: "string \<Rightarrow> string \<Rightarrow> string" where
  "trim_prefix s p = (if has_prefix s p then drop (length p) s else s)"

definition trim_suffix :: "string \<Rightarrow> string \<Rightarrow> string" where
  "trim_suffix s p = (if has_suffix s p then take (length s - length p) s else s)"

lemma has_prefix_iff: "has_prefix s p \<longleftrightarrow> (\<exists>t. s = p @ t)"
proof
  assume "has_prefix s p"
  then have "s = p @ drop (length p) s"
    unfolding has_prefix_def by (metis append_take_drop_id)
  then show "\<exists>t. s = p @ t" ..
qed (auto simp: has_prefix_def)

lemma has_suffix_iff: "has_suffix s p \<longleftrightarrow> (\<exists>t. s = t @ p)"
proof
  assume "has_suffix s p"
  then have "s = take (length s - length p) s @ p"
    unfolding has_suffix_def by (metis append_take_drop_id)
  then show "\<exists>t. s = t @ p" ..
qed (auto simp: has_suffix_def)

lemma has_suffix_append [simp]: "has_suffix (a @ b) b"
  by (auto simp: has_suffix_iff)

lemma has_suffix_trans: "has_suffix a b \<Longrightarrow> has_suffix b c \<Longrightarrow> has_suffix a c"
  by (auto simp: has_suffix_iff)

lemma trim_suffix_append [simp]: "trim_suffix (a @ b) b = a"
  by (simp add: trim_suffix_def)

lemma trim_prefix_append [simp]: "trim_prefix (a @ b) a = b"
  by (simp add: trim_prefix_def has_prefix_def)

lemma length_trim_suffix: "length (trim_suffix s p) \<le> length s"
  by (simp add: trim_suffix_def)

section \<open>Trimming white space\<close>

definition utf8_spaces :: "nat list list" where
  "utf8_spaces = [[9], [10], [11], [12], [13], [32], [194, 133], [194, 160], [225, 154, 128],
     [226, 128, 128], [226, 128, 129], [226, 128, 130], [226, 128, 131], [226, 128, 132],
     [226, 128, 133], [226, 128, 134], [226, 128, 135], [226, 128, 136], [226, 128, 137],
     [226, 128, 138], [226, 128, 168], [226, 128, 169], [226, 128, 175], [226, 129, 159],
     [227, 128, 128]]"

definition codes :: "string \<Rightarrow> nat list" where
  "codes s = map of_char s"

text \<open>The length of the white-space character \<open>s\<close> begins with, 0 if none.\<close>

definition space_len :: "string \<Rightarrow> nat" where
  "space_len s = (case find (\<lambda>w. take (length w) (codes s) = w) utf8_spaces of
     None \<Rightarrow> 0 | Some w \<Rightarrow> length w)"

definition space_len_end :: "string \<Rightarrow> nat" where
  "space_len_end s = (case find (\<lambda>w. length w \<le> length s \<and> drop (length s - length w) (codes s) = w)
     utf8_spaces of None \<Rightarrow> 0 | Some w \<Rightarrow> length w)"

function trim_left :: "string \<Rightarrow> string" where
  "trim_left s = (if s = [] \<or> space_len s = 0 then s else trim_left (drop (space_len s) s))"
  by pat_completeness auto
termination
  by (relation "measure length") auto

function trim_right :: "string \<Rightarrow> string" where
  "trim_right s = (if s = [] \<or> space_len_end s = 0 then s
     else trim_right (take (length s - space_len_end s) s))"
  by pat_completeness auto
termination
  by (relation "measure length") auto

declare trim_left.simps [simp del] trim_right.simps [simp del]

definition trim_space :: "string \<Rightarrow> string" where
  "trim_space s = trim_right (trim_left s)"

lemma trim_left_Nil [simp]: "trim_left [] = []" by (simp add: trim_left.simps)
lemma trim_right_Nil [simp]: "trim_right [] = []" by (simp add: trim_right.simps)
lemma trim_space_Nil [simp]: "trim_space [] = []" by (simp add: trim_space_def)

lemma space_len_0_iff: "space_len s = 0 \<longleftrightarrow> (\<forall>w \<in> set utf8_spaces. take (length w) (codes s) \<noteq> w)"
proof -
  have "\<forall>w \<in> set utf8_spaces. w \<noteq> []" by (simp add: utf8_spaces_def)
  then have ne: "w \<in> set utf8_spaces \<Longrightarrow> length w \<noteq> 0" for w by auto
  define P where "P = (\<lambda>w. take (length w) (codes s) = w)"
  have "(case find P utf8_spaces of None \<Rightarrow> 0 | Some w \<Rightarrow> length w) = 0 \<longleftrightarrow> (\<forall>w \<in> set utf8_spaces. \<not> P w)"
  proof (cases "find P utf8_spaces")
    case None
    then have "\<forall>w \<in> set utf8_spaces. \<not> P w" using find_None_iff [of P utf8_spaces] by blast
    then show ?thesis using None by simp
  next
    case (Some w)
    then have "w \<in> set utf8_spaces" "P w" by (auto simp: find_Some_iff)
    then show ?thesis using ne [of w] Some by auto
  qed
  then show ?thesis by (simp add: space_len_def P_def)
qed

lemma space_len_take: "space_len s = 0 \<Longrightarrow> space_len (take k s) = 0"
proof -
  have "take (length w) (codes s) = w" if "take (length w) (codes (take k s)) = w" for w
  proof -
    have "codes (take k s) = take k (codes s)" by (simp add: codes_def take_map)
    then have w: "take (min (length w) k) (codes s) = w" using that by (simp add: min.commute)
    then have "length w \<le> k \<or> length w = length (codes s)" by (metis length_take min.cobounded2 min.commute min_def nat_le_linear)
    then show ?thesis using w by (auto simp: min_def split: if_splits)
  qed
  then show "space_len s = 0 \<Longrightarrow> ?thesis" unfolding space_len_0_iff by blast
qed

lemma trim_left_fixed: "trim_left s = [] \<or> space_len (trim_left s) = 0"
  by (induction s rule: trim_left.induct) (subst (1 2) trim_left.simps, auto)

lemma trim_right_fixed: "trim_right s = [] \<or> space_len_end (trim_right s) = 0"
  by (induction s rule: trim_right.induct) (subst (1 2) trim_right.simps, auto)

lemma trim_right_take: "\<exists>k. trim_right s = take k s"
proof (induction s rule: trim_right.induct)
  case (1 s)
  show ?case
  proof (cases "s = [] \<or> space_len_end s = 0")
    case True
    then have "trim_right s = take (length s) s" by (subst trim_right.simps) simp
    then show ?thesis ..
  next
    case False
    then obtain k where "trim_right (take (length s - space_len_end s) s) = take k (take (length s - space_len_end s) s)"
      using "1.IH" [OF False] by auto
    then show ?thesis using False by (subst trim_right.simps) auto
  qed
qed

lemma trim_space_idem [simp]: "trim_space (trim_space s) = trim_space s"
proof -
  define t where "t = trim_left s"
  define r where "r = trim_right t"
  obtain k where "r = take k t" using trim_right_take unfolding r_def by blast
  then have "r = [] \<or> space_len r = 0"
    using trim_left_fixed [of s] space_len_take unfolding t_def [symmetric] by auto
  then have "trim_left r = r" by (subst trim_left.simps) auto
  moreover have "trim_right r = r"
    using trim_right_fixed [of t] unfolding r_def [symmetric] by (subst trim_right.simps) auto
  ultimately show ?thesis by (simp add: trim_space_def t_def [symmetric] r_def [symmetric])
qed

section \<open>Splitting and joining\<close>

text \<open>\<open>strings.Split\<close> with a one-byte separator: never empty.\<close>

fun split_on :: "char \<Rightarrow> string \<Rightarrow> string list" where
  "split_on sep [] = [[]]"
| "split_on sep (c # s) =
     (if c = sep then [] # split_on sep s
      else (case split_on sep s of [] \<Rightarrow> [[c]] | l # ls \<Rightarrow> (c # l) # ls))"

fun join_on :: "string \<Rightarrow> string list \<Rightarrow> string" where
  "join_on sep [] = []"
| "join_on sep [s] = s"
| "join_on sep (s # t # ss) = s @ sep @ join_on sep (t # ss)"

lemma split_on_nonempty [simp]: "split_on sep s \<noteq> []"
  by (induction s) (auto split: list.splits)

lemma join_split: "join_on [sep] (split_on sep s) = s"
proof (induction s)
  case (Cons c s)
  then show ?case
    by (cases "split_on sep s" rule: list.exhaust; cases "tl (split_on sep s)") auto
qed simp

lemma split_on_no_sep: "l \<in> set (split_on sep s) \<Longrightarrow> sep \<notin> set l"
  by (induction s arbitrary: l) (auto split: list.splits if_splits)

lemma split_on_append_sep:
  "sep \<notin> set a \<Longrightarrow> split_on sep (a @ sep # b) = a # split_on sep b"
  by (induction a) auto

section \<open>Numbers and addresses\<close>

fun dec_digits :: "nat \<Rightarrow> string" where
  "dec_digits n = (if n < 10 then [char_of (48 + n)] else dec_digits (n div 10) @ [char_of (48 + n mod 10)])"

declare dec_digits.simps [simp del]

definition hex_char :: "nat \<Rightarrow> char" where
  "hex_char d = (if d < 10 then char_of (48 + d) else char_of (87 + d))"

fun hex_digits :: "nat \<Rightarrow> string" where
  "hex_digits n = (if n < 16 then [hex_char n] else hex_digits (n div 16) @ [hex_char (n mod 16)])"

declare hex_digits.simps [simp del]

text \<open>\<open>net.IP.String\<close>: dotted decimal for IPv4 and for IPv4-mapped addresses, RFC 5952 otherwise.\<close>

definition ip_to4 :: "bytes \<Rightarrow> bytes option" where
  "ip_to4 ip = (if length ip = 4 then Some ip
     else if length ip = 16 \<and> take 12 ip = replicate 10 0 @ [255, 255] then Some (drop 12 ip)
     else None)"

definition ipv4_string :: "bytes \<Rightarrow> string" where
  "ipv4_string ip = join_on ''.'' (map (\<lambda>b. dec_digits (unat b)) ip)"

fun ip_groups :: "bytes \<Rightarrow> nat list" where
  "ip_groups (a # b # rest) = be16 a b # ip_groups rest"
| "ip_groups _ = []"

definition zero_run :: "nat list \<Rightarrow> nat \<Rightarrow> nat" where
  "zero_run gs i = length (takeWhile (\<lambda>g. g = 0) (drop i gs))"

text \<open>The first longest run of at least two zero groups, as (start, length).\<close>

definition best_run :: "nat list \<Rightarrow> (nat \<times> nat) option" where
  "best_run gs = fold (\<lambda>i best. let l = zero_run gs i in
     if 2 \<le> l \<and> (case best of None \<Rightarrow> True | Some (_, bl) \<Rightarrow> bl < l) then Some (i, l) else best)
     [0..<length gs] None"

definition ipv6_string :: "bytes \<Rightarrow> string" where
  "ipv6_string ip = (let gs = ip_groups ip; h = (\<lambda>xs. join_on '':'' (map hex_digits xs)) in
     case best_run gs of
       None \<Rightarrow> h gs
     | Some (i, l) \<Rightarrow> h (take i gs) @ ''::'' @ h (drop (i + l) gs))"

definition ip_string :: "bytes \<Rightarrow> string" where
  "ip_string ip = (case ip_to4 ip of
     Some v4 \<Rightarrow> ipv4_string v4
   | None \<Rightarrow> if length ip = 16 then ipv6_string ip
      else if ip = [] then ''<nil>''
      else ''?'' @ concat (map (\<lambda>b. [hex_char (unat b div 16), hex_char (unat b mod 16)]) ip))"

lemma ip_string_examples:
  "ip_string [192, 168, 1, 50] = ''192.168.1.50''"
  "ip_string (replicate 16 0) = ''::''"
  "ip_string ([32, 1, 13, 184] @ replicate 11 0 @ [1]) = ''2001:db8::1''"
  "ip_string (replicate 10 0 @ [255, 255, 10, 0, 0, 1]) = ''10.0.0.1''"
  by code_simp+

end
