(* ===== verification/Dns_Wire.thy ===== *)
theory Dns_Wire
  imports Go_Strings
begin

text \<open>
  \<open>internal/services/awg/dnswire.go\<close>: the read-only DNS wire helpers of the split-routing DNS
  proxy. Every index and slice of the source is an \<open>idx\<close> or \<open>sub\<close> here, so the outer option is
  "no panic"; the inner option of \<open>read_name\<close>, \<open>question_info\<close> and \<open>parse_ecs\<close> is the source's
  \<open>ok\<close> result. Positions are naturals: they start at 12 and only grow or come from a pointer.
\<close>

unbundle bit_operations_syntax

declare One_nat_def [simp del] add_2_eq_Suc [simp del] add_2_eq_Suc' [simp del]
  \<comment> \<open>keeps the offsets of the source, \<open>pos + 1\<close> and \<open>pos + 2\<close>, as they are written\<close>

section \<open>Names\<close>

definition join_labels :: "string list \<Rightarrow> string" where
  "join_labels labels = (case labels of [] \<Rightarrow> [] | _ \<Rightarrow> to_lower (join_on ''.'' labels))"

function read_name_loop ::
  "bytes \<Rightarrow> nat \<Rightarrow> nat option \<Rightarrow> nat \<Rightarrow> string list \<Rightarrow> (string \<times> nat) option option" where
  "read_name_loop msg pos nxt jumps labels =
     (if length msg \<le> pos then Some None
      else do {
        b \<leftarrow> idx msg pos;
        if b = 0 then Some (Some (join_labels labels, case nxt of None \<Rightarrow> pos + 1 | Some n \<Rightarrow> n))
        else if b AND 0xc0 = 0xc0 then
          (if length msg \<le> pos + 1 then Some None
           else do {
             c \<leftarrow> idx msg (pos + 1);
             (if jumps + 1 > 16 then Some None
              else read_name_loop msg (be16 (b AND 0x3f) c)
                     (case nxt of None \<Rightarrow> Some (pos + 2) | Some n \<Rightarrow> Some n) (jumps + 1) labels)})
        else (if length msg < pos + 1 + unat b then Some None
              else do {
                label \<leftarrow> sub msg (pos + 1) (pos + 1 + unat b);
                read_name_loop msg (pos + 1 + unat b) nxt jumps (labels @ [str_of_bytes label])})})"
  by pat_completeness auto
termination
  by (relation "measures [\<lambda>(msg, pos, nxt, jumps, labels). 17 - jumps,
                         \<lambda>(msg, pos, nxt, jumps, labels). length msg - pos]") auto

declare read_name_loop.simps [simp del]

definition read_name :: "bytes \<Rightarrow> nat \<Rightarrow> (string \<times> nat) option option" where
  "read_name msg pos = read_name_loop msg pos None 0 []"

section \<open>The question\<close>

definition question_name :: "bytes \<Rightarrow> string option option" where
  "question_name msg =
     (if length msg < 12 then Some None
      else do {
        q0 \<leftarrow> idx msg 4; q1 \<leftarrow> idx msg 5;
        if be16 q0 q1 < 1 then Some None
        else do {
          r \<leftarrow> read_name msg 12;
          Some (case r of None \<Rightarrow> None | Some (name, _) \<Rightarrow> Some name)}})"

definition question_info :: "bytes \<Rightarrow> (string \<times> nat) option option" where
  "question_info msg =
     (if length msg < 12 then Some None
      else do {
        q0 \<leftarrow> idx msg 4; q1 \<leftarrow> idx msg 5;
        if be16 q0 q1 < 1 then Some None
        else do {
          r \<leftarrow> read_name msg 12;
          case r of None \<Rightarrow> Some None
          | Some (name, nxt) \<Rightarrow>
              (if nxt + 2 > length msg then Some None
               else do { t0 \<leftarrow> idx msg nxt; t1 \<leftarrow> idx msg (nxt + 1); Some (Some (name, be16 t0 t1)) })}})"

text \<open>\<open>emptyNoErrorResponse\<close>: the query turned into an empty NOERROR reply, in a fresh copy.\<close>

definition empty_noerror_response :: "bytes \<Rightarrow> bytes" where
  "empty_noerror_response query =
     (if length query < 12 then query
      else query[2 := (query ! 2) OR 0x80, 3 := 0x80, 6 := 0, 7 := 0, 8 := 0, 9 := 0, 10 := 0, 11 := 0])"

section \<open>Answers\<close>

fun skip_questions :: "bytes \<Rightarrow> nat \<Rightarrow> nat \<Rightarrow> nat option option" where
  "skip_questions msg 0 pos = Some (Some pos)"
| "skip_questions msg (Suc n) pos = do {
     r \<leftarrow> read_name msg pos;
     case r of None \<Rightarrow> Some None
     | Some (_, np) \<Rightarrow> (if np + 4 > length msg then Some None else skip_questions msg n (np + 4)) }"

text \<open>The addresses of an SVCB hint value: \<open>n\<close> slices of \<open>w\<close> bytes.\<close>

fun hint_ips :: "bytes \<Rightarrow> nat \<Rightarrow> nat \<Rightarrow> nat \<Rightarrow> string list option" where
  "hint_ips msg pos w 0 = Some []"
| "hint_ips msg pos w (Suc n) = do {
     ip \<leftarrow> sub msg pos (pos + w); rest \<leftarrow> hint_ips msg (pos + w) w n; Some (ip_string ip # rest) }"

function hints_loop :: "bytes \<Rightarrow> nat \<Rightarrow> nat \<Rightarrow> int \<Rightarrow> string list \<Rightarrow> string list option" where
  "hints_loop msg pos stop last_key out =
     (if pos \<ge> stop then Some out
      else if stop - pos < 4 then Some []
      else do {
        k0 \<leftarrow> idx msg pos; k1 \<leftarrow> idx msg (pos + 1);
        l0 \<leftarrow> idx msg (pos + 2); l1 \<leftarrow> idx msg (pos + 3);
        let key = be16 k0 k1; len = be16 l0 l1; pos' = pos + 4 in
        if int key \<le> last_key \<or> len > stop - pos' then Some []
        else if key = 4 then
          (if len = 0 \<or> len mod 4 \<noteq> 0 then Some []
           else do { ips \<leftarrow> hint_ips msg pos' 4 (len div 4);
                     hints_loop msg (pos' + len) stop (int key) (out @ ips) })
        else if key = 6 then
          (if len = 0 \<or> len mod 16 \<noteq> 0 then Some []
           else do { ips \<leftarrow> hint_ips msg pos' 16 (len div 16);
                     hints_loop msg (pos' + len) stop (int key) (out @ ips) })
        else hints_loop msg (pos' + len) stop (int key) out })"
  by pat_completeness auto
termination
  by (relation "measure (\<lambda>(msg, pos, stop, last_key, out). stop - pos)") auto

declare hints_loop.simps [simp del]

definition service_binding_hints :: "bytes \<Rightarrow> nat \<Rightarrow> nat \<Rightarrow> string list option" where
  "service_binding_hints msg start stop =
     (if stop > length msg \<or> stop < start + 3 then Some []
      else do {
        p0 \<leftarrow> idx msg start; p1 \<leftarrow> idx msg (start + 1);
        if p0 = 0 \<and> p1 = 0 then Some []
        else do {
          r \<leftarrow> read_name msg (start + 2);
          case r of None \<Rightarrow> Some []
          | Some (_, pos) \<Rightarrow> (if pos > stop then Some [] else hints_loop msg pos stop (- 1) []) }})"

text \<open>\<open>add\<close>: append unless already present.\<close>

definition add_unique :: "string list \<Rightarrow> string \<Rightarrow> string list" where
  "add_unique out ip = (if ip \<in> set out then out else out @ [ip])"

definition record_ips :: "bytes \<Rightarrow> nat \<Rightarrow> nat \<Rightarrow> nat \<Rightarrow> string list option" where
  "record_ips msg typ pos rdlen =
     (if typ = 1 \<and> rdlen = 4 then do {
        a \<leftarrow> idx msg pos; b \<leftarrow> idx msg (pos + 1); c \<leftarrow> idx msg (pos + 2); d \<leftarrow> idx msg (pos + 3);
        Some [ip_string [a, b, c, d]] }
      else if typ = 28 \<and> rdlen = 16 then do { ip \<leftarrow> sub msg pos (pos + 16); Some [ip_string ip] }
      else if typ = 64 \<or> typ = 65 then service_binding_hints msg pos (pos + rdlen)
      else Some [])"

fun answers_loop :: "bytes \<Rightarrow> nat \<Rightarrow> nat \<Rightarrow> string list \<Rightarrow> string list option" where
  "answers_loop msg 0 pos out = Some out"
| "answers_loop msg (Suc n) pos out = do {
     r \<leftarrow> read_name msg pos;
     case r of None \<Rightarrow> Some out
     | Some (_, np) \<Rightarrow>
         (if np + 10 > length msg then Some out
          else do {
            t0 \<leftarrow> idx msg np; t1 \<leftarrow> idx msg (np + 1);
            l0 \<leftarrow> idx msg (np + 8); l1 \<leftarrow> idx msg (np + 9);
            (if np + 10 + be16 l0 l1 > length msg then Some out
             else do {
               ips \<leftarrow> record_ips msg (be16 t0 t1) (np + 10) (be16 l0 l1);
               answers_loop msg n (np + 10 + be16 l0 l1) (foldl add_unique out ips) })}) }"

definition answer_ips :: "bytes \<Rightarrow> string list option" where
  "answer_ips msg =
     (if length msg < 12 then Some []
      else do {
        q0 \<leftarrow> idx msg 4; q1 \<leftarrow> idx msg 5; a0 \<leftarrow> idx msg 6; a1 \<leftarrow> idx msg 7;
        r \<leftarrow> skip_questions msg (be16 q0 q1) 12;
        case r of None \<Rightarrow> Some [] | Some pos \<Rightarrow> answers_loop msg (be16 a0 a1) pos [] })"

definition is_sinkhole_response :: "bytes \<Rightarrow> bool option" where
  "is_sinkhole_response msg =
     (if length msg < 12 then Some False
      else do {
        f \<leftarrow> idx msg 3; a0 \<leftarrow> idx msg 6; a1 \<leftarrow> idx msg 7;
        if f AND 0x0F = 3 then Some True
        else if f AND 0x0F \<noteq> 0 then Some False
        else if a0 = 0 \<and> a1 = 0 then Some True
        else do {
          ips \<leftarrow> answer_ips msg;
          Some (ips \<noteq> [] \<and> list_all (\<lambda>ip. ip = ''0.0.0.0'' \<or> ip = ''::'') ips) }})"

section \<open>The client subnet of a query\<close>

fun skip_records :: "bytes \<Rightarrow> nat \<Rightarrow> nat \<Rightarrow> nat option option" where
  "skip_records msg 0 pos = Some (Some pos)"
| "skip_records msg (Suc n) pos = do {
     r \<leftarrow> read_name msg pos;
     case r of None \<Rightarrow> Some None
     | Some (_, np) \<Rightarrow>
         (if np + 10 > length msg then Some None
          else do {
            l0 \<leftarrow> idx msg (np + 8); l1 \<leftarrow> idx msg (np + 9);
            (if np + 10 + be16 l0 l1 > length msg then Some None
             else skip_records msg n (np + 10 + be16 l0 l1))}) }"

text \<open>
  The options of one OPT record, from \<open>op\<close> up to \<open>stop\<close>. \<open>Some (Some ip)\<close> is the source's
  \<open>return ip, true\<close>; \<open>Some None\<close> is leaving the inner loop.
\<close>

function opt_loop :: "bytes \<Rightarrow> nat \<Rightarrow> nat \<Rightarrow> string option option" where
  "opt_loop msg op stop =
     (if op + 4 > stop then Some None
      else do {
        c0 \<leftarrow> idx msg op; c1 \<leftarrow> idx msg (op + 1);
        l0 \<leftarrow> idx msg (op + 2); l1 \<leftarrow> idx msg (op + 3);
        let code = be16 c0 c1; len = be16 l0 l1 in
        if op + 4 + len > stop then Some None
        else if code = 8 \<and> len \<ge> 4 then do {
          f0 \<leftarrow> idx msg (op + 4); f1 \<leftarrow> idx msg (op + 5);
          let family = be16 f0 f1; n = len - 4 in
          if family = 1 \<and> 1 \<le> n \<and> n \<le> 4 then do {
            a \<leftarrow> sub msg (op + 8) (op + 8 + n); Some (Some (ip_string (a @ replicate (4 - n) 0))) }
          else if family = 2 \<and> 1 \<le> n \<and> n \<le> 16 then do {
            a \<leftarrow> sub msg (op + 8) (op + 8 + n); Some (Some (ip_string (a @ replicate (16 - n) 0))) }
          else opt_loop msg (op + 4 + len) stop }
        else opt_loop msg (op + 4 + len) stop })"
  by pat_completeness auto
termination
  by (relation "measure (\<lambda>(msg, op, stop). stop - op)") auto

declare opt_loop.simps [simp del]

fun additional_loop :: "bytes \<Rightarrow> nat \<Rightarrow> nat \<Rightarrow> string option option" where
  "additional_loop msg 0 pos = Some None"
| "additional_loop msg (Suc n) pos = do {
     r \<leftarrow> read_name msg pos;
     case r of None \<Rightarrow> Some None
     | Some (_, np) \<Rightarrow>
         (if np + 10 > length msg then Some None
          else do {
            t0 \<leftarrow> idx msg np; t1 \<leftarrow> idx msg (np + 1);
            l0 \<leftarrow> idx msg (np + 8); l1 \<leftarrow> idx msg (np + 9);
            (if np + 10 + be16 l0 l1 > length msg then Some None
             else if be16 t0 t1 = 41 then do {
               found \<leftarrow> opt_loop msg (np + 10) (np + 10 + be16 l0 l1);
               case found of Some ip \<Rightarrow> Some (Some ip)
               | None \<Rightarrow> additional_loop msg n (np + 10 + be16 l0 l1) }
             else additional_loop msg n (np + 10 + be16 l0 l1))}) }"

definition parse_ecs_from_query :: "bytes \<Rightarrow> string option option" where
  "parse_ecs_from_query msg =
     (if length msg < 12 then Some None
      else do {
        q0 \<leftarrow> idx msg 4; q1 \<leftarrow> idx msg 5; a0 \<leftarrow> idx msg 6; a1 \<leftarrow> idx msg 7;
        n0 \<leftarrow> idx msg 8; n1 \<leftarrow> idx msg 9; r0 \<leftarrow> idx msg 10; r1 \<leftarrow> idx msg 11;
        if be16 r0 r1 = 0 then Some None
        else do {
          q \<leftarrow> skip_questions msg (be16 q0 q1) 12;
          case q of None \<Rightarrow> Some None
          | Some pos \<Rightarrow> do {
              s \<leftarrow> skip_records msg (be16 a0 a1 + be16 n0 n1) pos;
              case s of None \<Rightarrow> Some None | Some pos' \<Rightarrow> additional_loop msg (be16 r0 r1) pos' } }})"

section \<open>No wire input makes a helper panic\<close>

lemma read_name_loop_total: "\<exists>r. read_name_loop msg pos nxt jumps labels = Some r"
proof (induction msg pos nxt jumps labels rule: read_name_loop.induct)
  case (1 msg pos nxt jumps labels)
  then show ?case
    by (subst read_name_loop.simps) (auto simp: go_idx Let_def)
qed

text \<open>The four steps of the loop, as conditional equations.\<close>

lemma read_name_past: "length msg \<le> pos \<Longrightarrow> read_name_loop msg pos nxt jumps labels = Some None"
  by (subst read_name_loop.simps) simp

lemma read_name_root:
  "pos < length msg \<Longrightarrow> msg ! pos = 0 \<Longrightarrow> read_name_loop msg pos nxt jumps labels =
     Some (Some (join_labels labels, case nxt of None \<Rightarrow> pos + 1 | Some n \<Rightarrow> n))"
  by (subst read_name_loop.simps) (simp add: go_idx)

lemma read_name_pointer:
  "pos < length msg \<Longrightarrow> (msg ! pos) AND 0xc0 = 0xc0 \<Longrightarrow> read_name_loop msg pos nxt jumps labels =
     (if length msg \<le> pos + 1 \<or> jumps + 1 > 16 then Some None
      else read_name_loop msg (be16 ((msg ! pos) AND 0x3f) (msg ! (pos + 1)))
             (case nxt of None \<Rightarrow> Some (pos + 2) | Some n \<Rightarrow> Some n) (jumps + 1) labels)"
  by (subst read_name_loop.simps) (auto simp: go_idx)

lemma read_name_label:
  "pos < length msg \<Longrightarrow> msg ! pos \<noteq> 0 \<Longrightarrow> (msg ! pos) AND 0xc0 \<noteq> 0xc0 \<Longrightarrow>
   read_name_loop msg pos nxt jumps labels =
     (if length msg < pos + 1 + unat (msg ! pos) then Some None
      else read_name_loop msg (pos + 1 + unat (msg ! pos)) nxt jumps
             (labels @ [str_of_bytes (take (unat (msg ! pos)) (drop (pos + 1) msg))]))"
  by (subst read_name_loop.simps) (auto simp: go_idx)

lemmas read_name_steps = read_name_past read_name_root read_name_pointer read_name_label

lemma read_name_loop_next:
  "read_name_loop msg pos nxt jumps labels = Some (Some (name, np)) \<Longrightarrow>
   (case nxt of Some n \<Rightarrow> np = n | None \<Rightarrow> pos < np \<and> np \<le> length msg)"
proof (induction msg pos nxt jumps labels rule: read_name_loop.induct)
  case (1 msg pos nxt jumps labels)
  show ?case
  proof (cases "pos < length msg")
    case False
    then show ?thesis using "1.prems" by (simp add: read_name_past)
  next
    case pos: True
    consider (root) "msg ! pos = 0" | (ptr) "msg ! pos \<noteq> 0" "(msg ! pos) AND 0xc0 = 0xc0"
      | (label) "msg ! pos \<noteq> 0" "(msg ! pos) AND 0xc0 \<noteq> 0xc0" by blast
    then show ?thesis
    proof cases
      case root
      then show ?thesis using "1.prems" pos by (auto simp: read_name_root split: option.splits)
    next
      case ptr
      then show ?thesis
        using "1.prems" pos "1.IH"(1) [of "msg ! pos" "msg ! (pos + 1)"]
        by (simp add: read_name_pointer go_idx split: if_splits option.splits)
    next
      case label
      then show ?thesis
        using "1.prems" pos "1.IH"(2) [of "msg ! pos"]
        by (fastforce simp: read_name_label go_idx split: if_splits option.splits)
    qed
  qed
qed

lemma read_name_total: "\<exists>r. read_name msg pos = Some r"
  unfolding read_name_def by (rule read_name_loop_total)

lemma read_name_next: "read_name msg pos = Some (Some (name, np)) \<Longrightarrow> pos < np \<and> np \<le> length msg"
  using read_name_loop_next [of msg pos None 0 "[]" name np] by (simp add: read_name_def)

lemma total_bind:
  "\<exists>r. m = Some r \<Longrightarrow> (\<And>r. m = Some r \<Longrightarrow> \<exists>q. f r = Some q) \<Longrightarrow> \<exists>q. m \<bind> f = Some q"
  by auto

lemma skip_questions_total: "\<exists>r. skip_questions msg n pos = Some r"
proof (induction n arbitrary: pos)
  case (Suc n)
  obtain r where "read_name msg pos = Some r" using read_name_total by blast
  then show ?case using Suc.IH by (auto split: option.splits)
qed simp

lemma hint_ips_total: "pos + w * n \<le> length msg \<Longrightarrow> \<exists>r. hint_ips msg pos w n = Some r"
proof (induction n arbitrary: pos)
  case (Suc n)
  have "pos + w + w * n \<le> length msg" using Suc.prems by (simp add: algebra_simps)
  then obtain r where "hint_ips msg (pos + w) w n = Some r" using Suc.IH by blast
  moreover have "pos + w \<le> length msg" using Suc.prems by simp
  ultimately show ?case by (simp add: go_idx)
qed simp

lemma hints_loop_total:
  "stop \<le> length msg \<Longrightarrow> \<exists>r. hints_loop msg pos stop last_key out = Some r"
proof (induction "stop - pos" arbitrary: pos last_key out rule: less_induct)
  case less
  show ?case
  proof (cases "pos < stop \<and> 4 \<le> stop - pos")
    case False
    then show ?thesis by (subst hints_loop.simps) auto
  next
    case True
    define key len where "key = be16 (msg ! pos) (msg ! (pos + 1))"
      and "len = be16 (msg ! (pos + 2)) (msg ! (pos + 3))"
    have reads: "idx msg pos = Some (msg ! pos)" "idx msg (pos + 1) = Some (msg ! (pos + 1))"
      "idx msg (pos + 2) = Some (msg ! (pos + 2))" "idx msg (pos + 3) = Some (msg ! (pos + 3))"
      using True less.prems by (auto simp: go_idx)
    have IH: "\<exists>r. hints_loop msg (pos + 4 + len) stop k out' = Some r" for k out'
      using True less.prems by (intro less.hyps) auto
    have ips: "\<exists>r. hint_ips msg (pos + 4) w (len div w) = Some r"
      if "len \<le> stop - (pos + 4)" for w
    proof (rule hint_ips_total)
      have "w * (len div w) \<le> len" by simp
      then show "pos + 4 + w * (len div w) \<le> length msg" using that True less.prems by linarith
    qed
    show ?thesis
    proof (cases "int key \<le> last_key \<or> len > stop - (pos + 4)")
      case bad: True
      then show ?thesis
        using True by (subst hints_loop.simps)
          (simp add: reads key_def [symmetric] len_def [symmetric] Let_def)
    next
      case False
      then obtain a b where "hint_ips msg (pos + 4) 4 (len div 4) = Some a"
        "hint_ips msg (pos + 4) 16 (len div 16) = Some b"
        using ips [of 4] ips [of 16] by auto
      with False True show ?thesis
        by (subst hints_loop.simps)
          (simp add: reads key_def [symmetric] len_def [symmetric] Let_def IH)
    qed
  qed
qed

lemma service_binding_hints_total: "\<exists>r. service_binding_hints msg start stop = Some r"
proof (cases "stop \<le> length msg \<and> start + 3 \<le> stop")
  case True
  obtain r where r: "read_name msg (start + 2) = Some r" using read_name_total by blast
  show ?thesis
    using True hints_loop_total [of stop msg] r
    by (auto simp: service_binding_hints_def go_idx split: option.splits)
qed (auto simp: service_binding_hints_def)

lemma record_ips_total: "pos + rdlen \<le> length msg \<Longrightarrow> \<exists>r. record_ips msg typ pos rdlen = Some r"
  using service_binding_hints_total [of msg pos "pos + rdlen"]
  by (auto simp: record_ips_def go_idx)

lemma answers_loop_total: "\<exists>r. answers_loop msg n pos out = Some r"
proof (induction n arbitrary: pos out)
  case (Suc n)
  obtain r where r: "read_name msg pos = Some r" using read_name_total by blast
  show ?case
  proof (cases r)
    case None
    then show ?thesis using r by simp
  next
    case (Some q)
    obtain name np where q: "q = (name, np)" by (cases q)
    define len where "len = be16 (msg ! (np + 8)) (msg ! (np + 9))"
    show ?thesis
      using r Some q Suc.IH record_ips_total [of "np + 10" len msg "be16 (msg ! np) (msg ! (np + 1))"]
      by (cases "np + 10 > length msg"; cases "np + 10 + len > length msg")
         (auto simp: go_idx len_def)
  qed
qed simp

lemma answer_ips_total: "\<exists>r. answer_ips msg = Some r"
proof (cases "length msg < 12")
  case False
  obtain r where "skip_questions msg (be16 (msg ! 4) (msg ! 5)) 12 = Some r"
    using skip_questions_total by blast
  then show ?thesis
    using False answers_loop_total by (auto simp: answer_ips_def go_idx split: option.splits)
qed (simp add: answer_ips_def)

lemma skip_records_total: "\<exists>r. skip_records msg n pos = Some r"
proof (induction n arbitrary: pos)
  case (Suc n)
  obtain r where "read_name msg pos = Some r" using read_name_total by blast
  then show ?case using Suc.IH by (auto simp: go_idx split: option.splits)
qed simp

lemma opt_loop_total: "stop \<le> length msg \<Longrightarrow> \<exists>r. opt_loop msg op stop = Some r"
proof (induction "stop - op" arbitrary: op rule: less_induct)
  case less
  show ?case
  proof (cases "op + 4 \<le> stop")
    case False
    then show ?thesis by (subst opt_loop.simps) simp
  next
    case True
    define code len where "code = be16 (msg ! op) (msg ! (op + 1))"
      and "len = be16 (msg ! (op + 2)) (msg ! (op + 3))"
    have reads: "idx msg op = Some (msg ! op)" "idx msg (op + 1) = Some (msg ! (op + 1))"
      "idx msg (op + 2) = Some (msg ! (op + 2))" "idx msg (op + 3) = Some (msg ! (op + 3))"
      using True less.prems by (auto simp: go_idx)
    have IH: "\<exists>r. opt_loop msg (op + 4 + len) stop = Some r"
      using True less.prems by (intro less.hyps) auto
    show ?thesis
      using True less.prems
      by (subst opt_loop.simps)
         (auto simp: reads code_def [symmetric] len_def [symmetric] Let_def IH go_idx)
  qed
qed

lemma additional_loop_total: "\<exists>r. additional_loop msg n pos = Some r"
proof (induction n arbitrary: pos)
  case (Suc n)
  obtain r where r: "read_name msg pos = Some r" using read_name_total by blast
  show ?case
  proof (cases r)
    case (Some q)
    obtain name np where q: "q = (name, np)" by (cases q)
    define len where "len = be16 (msg ! (np + 8)) (msg ! (np + 9))"
    show ?thesis
    proof (cases "np + 10 + len \<le> length msg")
      case True
      then obtain f where "opt_loop msg (np + 10) (np + 10 + len) = Some f"
        using opt_loop_total by blast
      then show ?thesis
        using r Some q True Suc.IH by (auto simp: go_idx len_def split: option.splits)
    next
      case False
      then show ?thesis using r Some q by (auto simp: go_idx len_def)
    qed
  qed (use r in simp)
qed simp

lemma parse_ecs_total: "\<exists>r. parse_ecs_from_query msg = Some r"
proof (cases "length msg < 12")
  case False
  obtain q where q: "skip_questions msg (be16 (msg ! 4) (msg ! 5)) 12 = Some q"
    using skip_questions_total by blast
  show ?thesis
  proof (cases q)
    case (Some pos)
    obtain s where s: "skip_records msg (be16 (msg ! 6) (msg ! 7) + be16 (msg ! 8) (msg ! 9)) pos = Some s"
      using skip_records_total by blast
    show ?thesis
      using False q Some s additional_loop_total
      by (auto simp: parse_ecs_from_query_def go_idx split: option.splits)
  qed (use False q in \<open>auto simp: parse_ecs_from_query_def go_idx\<close>)
qed (simp add: parse_ecs_from_query_def)

lemma question_total:
  "\<exists>r. question_name msg = Some r" "\<exists>r. question_info msg = Some r"
proof -
  obtain r where r: "read_name msg 12 = Some r" using read_name_total by blast
  show "\<exists>r. question_name msg = Some r"
    by (auto simp: question_name_def go_idx r)
  show "\<exists>r. question_info msg = Some r"
    by (auto simp: question_info_def go_idx r split: option.splits)
qed

lemma is_sinkhole_total: "\<exists>r. is_sinkhole_response msg = Some r"
  using answer_ips_total [of msg] by (auto simp: is_sinkhole_response_def go_idx)

section \<open>The empty reply\<close>

lemma answer_ips_no_answers:
  assumes "msg ! 6 = 0" "msg ! 7 = 0" shows "answer_ips msg = Some []"
proof (cases "length msg < 12")
  case False
  obtain r where "skip_questions msg (be16 (msg ! 4) (msg ! 5)) 12 = Some r"
    using skip_questions_total by blast
  with False assms show ?thesis
    by (auto simp: answer_ips_def go_idx be16_def split: option.splits)
qed (simp add: answer_ips_def)

text \<open>
  The synthesised "no AAAA" reply: it is as long as the query, keeps the transaction id, the
  question count and everything after the header, has the response bit set and RCODE 0, carries no
  answer for any reader, and is the reply the trace layer calls a sinkhole.
\<close>
theorem empty_reply_is_empty_noerror:
  assumes "12 \<le> length query"
  shows "let r = empty_noerror_response query in
     length r = length query \<and> r ! 0 = query ! 0 \<and> r ! 1 = query ! 1
     \<and> r ! 4 = query ! 4 \<and> r ! 5 = query ! 5 \<and> drop 12 r = drop 12 query
     \<and> (r ! 2) AND 0x80 = 0x80 \<and> (r ! 3) AND 0x0F = 0
     \<and> answer_ips r = Some [] \<and> is_sinkhole_response r = Some True"
proof -
  define r where "r = empty_noerror_response query"
  have r: "r = query[2 := (query ! 2) OR 0x80, 3 := 0x80, 6 := 0, 7 := 0, 8 := 0, 9 := 0, 10 := 0, 11 := 0]"
    using assms by (simp add: r_def empty_noerror_response_def)
  have len: "length r = length query" by (simp add: r)
  have at: "r ! 0 = query ! 0" "r ! 1 = query ! 1" "r ! 4 = query ! 4" "r ! 5 = query ! 5"
    "r ! 2 = (query ! 2) OR 0x80" "r ! 3 = 0x80" "r ! 6 = 0" "r ! 7 = 0"
    using assms by (simp_all add: r nth_list_update)
  have "drop 12 r = drop 12 query" by (simp add: r drop_update_cancel)
  moreover have "((query ! 2) OR 0x80) AND 0x80 = (0x80 :: byte)"
    by (rule or_and_absorb)
  moreover have "answer_ips r = Some []" using at by (intro answer_ips_no_answers)
  moreover have "is_sinkhole_response r = Some True"
    using at assms len by (simp add: is_sinkhole_response_def go_idx)
  ultimately show ?thesis using len at by (simp add: r_def [symmetric] Let_def)
qed

theorem empty_reply_witness:
  "answer_ips (empty_noerror_response [0, 7, 1, 0, 0, 1, 0, 0, 0, 0, 0, 0, 1, 97, 0, 0, 28, 0, 1]) = Some []"
proof -
  have "12 \<le> length ([0, 7, 1, 0, 0, 1, 0, 0, 0, 0, 0, 0, 1, 97, 0, 0, 28, 0, 1] :: bytes)" by simp
  from empty_reply_is_empty_noerror [OF this] show ?thesis unfolding Let_def by blast
qed

end
