(* ===== verification/Dns_Query.thy ===== *)
theory Dns_Query
  imports Dns_Wire
begin

text \<open>
  \<open>internal/tools/dns/wire.go\<close>: the encoder of A queries and the reader of A answers used by the
  DoH and DoT clients. The random transaction id is an argument. Errors are values of
  \<open>wire_error\<close>; as in \<open>Dns_Wire\<close>, \<^term>\<open>None\<close> is a panic.
\<close>

datatype wire_error = ErrShort | ErrNoA | ErrBadName | RcodeError byte

fun encode_labels :: "string list \<Rightarrow> bytes" where
  "encode_labels [] = []"
| "encode_labels (l # ls) = byte_of (length l) # bytes_of_str l @ encode_labels ls"

definition query_host :: "string \<Rightarrow> string" where
  "query_host host = trim_suffix (trim_space host) ''.''"

definition build_query :: "byte \<Rightarrow> byte \<Rightarrow> string \<Rightarrow> wire_error + bytes" where
  "build_query id0 id1 host =
     (if query_host host = [] then Inl ErrBadName
      else let labels = split_on CHR ''.'' (query_host host) in
        if list_ex (\<lambda>l. length l = 0 \<or> length l > 63) labels then Inl ErrBadName
        else Inr ([id0, id1, 1, 0, 0, 1, 0, 0, 0, 0, 0, 0] @ encode_labels labels @ [0] @ [0, 1] @ [0, 1]))"

function skip_name :: "bytes \<Rightarrow> nat \<Rightarrow> (wire_error + nat) option" where
  "skip_name msg pos =
     (if pos \<ge> length msg then Some (Inl ErrShort)
      else do {
        b \<leftarrow> idx msg pos;
        if b = 0 then Some (Inr (pos + 1))
        else if b AND 0xc0 = 0xc0 then
          (if pos + 2 > length msg then Some (Inl ErrShort) else Some (Inr (pos + 2)))
        else skip_name msg (pos + (1 + unat b)) })"
  by pat_completeness auto
termination
  by (relation "measure (\<lambda>(msg, pos). length msg - pos)") auto

declare skip_name.simps [simp del]

fun skip_query_part :: "bytes \<Rightarrow> nat \<Rightarrow> nat \<Rightarrow> (wire_error + nat) option" where
  "skip_query_part msg 0 pos = Some (Inr pos)"
| "skip_query_part msg (Suc n) pos = do {
     r \<leftarrow> skip_name msg pos;
     case r of Inl e \<Rightarrow> Some (Inl e)
     | Inr p \<Rightarrow> (if p + 4 > length msg then Some (Inl ErrShort) else skip_query_part msg n (p + 4)) }"

fun find_a :: "bytes \<Rightarrow> nat \<Rightarrow> nat \<Rightarrow> (wire_error + string) option" where
  "find_a msg 0 pos = Some (Inl ErrNoA)"
| "find_a msg (Suc n) pos = do {
     r \<leftarrow> skip_name msg pos;
     case r of Inl e \<Rightarrow> Some (Inl e)
     | Inr p \<Rightarrow>
         (if p + 10 > length msg then Some (Inl ErrShort)
          else do {
            t0 \<leftarrow> idx msg p; t1 \<leftarrow> idx msg (p + 1);
            l0 \<leftarrow> idx msg (p + 8); l1 \<leftarrow> idx msg (p + 9);
            let rdlen = be16 l0 l1 in
            if p + 10 + rdlen > length msg then Some (Inl ErrShort)
            else if be16 t0 t1 = 1 \<and> rdlen = 4 then do {
              a \<leftarrow> idx msg (p + 10); b \<leftarrow> idx msg (p + 11);
              c \<leftarrow> idx msg (p + 12); d \<leftarrow> idx msg (p + 13);
              Some (Inr (ip_string [a, b, c, d])) }
            else find_a msg n (p + 10 + rdlen) }) }"

definition parse_a :: "bytes \<Rightarrow> (wire_error + string) option" where
  "parse_a msg =
     (if length msg < 12 then Some (Inl ErrShort)
      else do {
        f \<leftarrow> idx msg 3;
        if f AND 0x0f \<noteq> 0 then Some (Inl (RcodeError (f AND 0x0f)))
        else do {
          q0 \<leftarrow> idx msg 4; q1 \<leftarrow> idx msg 5; a0 \<leftarrow> idx msg 6; a1 \<leftarrow> idx msg 7;
          r \<leftarrow> skip_query_part msg (be16 q0 q1) 12;
          case r of Inl e \<Rightarrow> Some (Inl e) | Inr pos \<Rightarrow> find_a msg (be16 a0 a1) pos }})"

section \<open>Lemmas\<close>

lemma skip_name_total: "\<exists>r. skip_name msg pos = Some r"
  by (induction msg pos rule: skip_name.induct) (subst skip_name.simps, auto simp: go_idx)

lemma skip_query_part_total: "\<exists>r. skip_query_part msg n pos = Some r"
proof (induction n arbitrary: pos)
  case (Suc n)
  obtain r where "skip_name msg pos = Some r" using skip_name_total by blast
  then show ?case using Suc.IH by (auto split: sum.splits)
qed simp

lemma find_a_total: "\<exists>r. find_a msg n pos = Some r"
proof (induction n arbitrary: pos)
  case (Suc n)
  obtain r where "skip_name msg pos = Some r" using skip_name_total by blast
  then show ?case using Suc.IH by (auto simp: go_idx Let_def split: sum.splits)
qed simp

lemma parse_a_total: "\<exists>r. parse_a msg = Some r"
proof (cases "length msg < 12")
  case False
  obtain r where r: "skip_query_part msg (be16 (msg ! 4) (msg ! 5)) 12 = Some r"
    using skip_query_part_total by blast
  show ?thesis
  proof (cases r)
    case (Inr pos)
    obtain s where "find_a msg (be16 (msg ! 6) (msg ! 7)) pos = Some s" using find_a_total by blast
    then show ?thesis using False r Inr by (simp add: parse_a_def go_idx)
  qed (use False r in \<open>simp add: parse_a_def go_idx\<close>)
qed (simp add: parse_a_def)

text \<open>A name in wire form is read back label by label.\<close>

lemma read_name_loop_labels:
  assumes "\<forall>l \<in> set ls. 0 < length l \<and> length l \<le> 63"
  shows "read_name_loop (pre @ encode_labels ls @ 0 # post) (length pre) None j acc =
    Some (Some (join_labels (acc @ ls), length pre + length (encode_labels ls) + 1))"
  using assms
proof (induction ls arbitrary: pre acc)
  case Nil
  then show ?case by (simp add: read_name_root nth_append)
next
  case (Cons l ls)
  define msg where "msg = pre @ encode_labels (l # ls) @ 0 # post"
  define pre' where "pre' = pre @ byte_of (length l) # bytes_of_str l"
  have len: "0 < length l" "length l \<le> 63" using Cons.prems by auto
  then have b: "unat (byte_of (length l)) = length l" by (simp add: unat_byte_of)
  then have "byte_of (length l) AND 0xc0 = 0" using len by (intro small_byte_high_bits) simp
  moreover have "byte_of (length l) \<noteq> 0" using b len by (metis unsigned_0 less_irrefl)
  moreover have at: "msg ! length pre = byte_of (length l)" by (simp add: msg_def nth_append)
  moreover have "take (length l) (drop (length pre + 1) msg) = bytes_of_str l"
    by (simp add: msg_def One_nat_def)
  moreover have "length pre + 1 + length l \<le> length msg" by (simp add: msg_def)
  ultimately have "read_name_loop msg (length pre) None j acc =
      read_name_loop msg (length pre + 1 + length l) None j (acc @ [l])"
    using b by (subst read_name_label) (auto simp: msg_def One_nat_def)
  also have "\<dots> = read_name_loop (pre' @ encode_labels ls @ 0 # post) (length pre') None j (acc @ [l])"
    by (simp add: msg_def pre'_def One_nat_def)
  also have "\<dots> = Some (Some (join_labels ((acc @ [l]) @ ls), length pre' + length (encode_labels ls) + 1))"
    using Cons.prems by (intro Cons.IH) auto
  finally show ?case by (simp add: msg_def pre'_def)
qed

lemma question_info_query:
  assumes "labels \<noteq> []" "\<forall>l \<in> set labels. 0 < length l \<and> length l \<le> 63"
  shows "question_info ([i0, i1, 1, 0, 0, 1, 0, 0, 0, 0, 0, 0] @ encode_labels labels @ [0] @ [0, 1] @ [0, 1]) =
    Some (Some (to_lower (join_on ''.'' labels), 1))"
proof -
  define hdr :: bytes where "hdr = [i0, i1, 1, 0, 0, 1, 0, 0, 0, 0, 0, 0]"
  define msg where "msg = hdr @ encode_labels labels @ 0 # [0, 1, 0, 1]"
  have hdr: "length hdr = 12" by (simp add: hdr_def)
  have name: "read_name msg 12 =
      Some (Some (to_lower (join_on ''.'' labels), 12 + length (encode_labels labels) + 1))"
    using read_name_loop_labels [OF assms(2), of hdr "[0, 1, 0, 1]" 0 "[]"] assms(1) hdr
    by (simp add: read_name_def msg_def join_labels_def split: list.splits)
  have "msg ! 4 = 0" "msg ! 5 = 1" by (simp_all add: msg_def hdr_def)
  moreover have "length msg = 12 + length (encode_labels labels) + 5" by (simp add: msg_def hdr)
  moreover have "msg ! (12 + length (encode_labels labels) + 1) = 0"
    and "msg ! (12 + length (encode_labels labels) + 1 + 1) = 1"
    by (simp_all add: msg_def nth_append hdr)
  ultimately have "question_info msg = Some (Some (to_lower (join_on ''.'' labels), 1))"
    by (simp add: question_info_def go_idx name be16_def)
  then show ?thesis by (simp add: msg_def hdr_def)
qed

text \<open>
  Round trip between the program's two DNS codecs: a query \<open>buildQuery\<close> encodes for a host is
  read back by the proxy's \<open>questionInfo\<close> as the host without surrounding space and trailing dot,
  in lower case, with type A; and encoding fails exactly for an empty name or a bad label.
\<close>
theorem build_query_roundtrip:
  assumes "build_query i0 i1 host = Inr q"
  shows "question_info q = Some (Some (to_lower (query_host host), 1))
       \<and> query_host host \<noteq> []
       \<and> (\<forall>l \<in> set (split_on CHR ''.'' (query_host host)). 0 < length l \<and> length l \<le> 63)"
proof -
  define labels where "labels = split_on CHR ''.'' (query_host host)"
  have ok: "\<forall>l \<in> set labels. 0 < length l \<and> length l \<le> 63" and ne: "query_host host \<noteq> []"
    and q: "q = [i0, i1, 1, 0, 0, 1, 0, 0, 0, 0, 0, 0] @ encode_labels labels @ [0] @ [0, 1] @ [0, 1]"
    using assms by (auto simp: build_query_def labels_def [symmetric] Let_def list_ex_iff
        split: if_splits)
  have "join_on ''.'' labels = query_host host" by (simp add: labels_def join_split)
  then have "question_info q = Some (Some (to_lower (query_host host), 1))"
    unfolding q by (subst question_info_query [OF _ ok]) (simp_all add: labels_def)
  with ok ne show ?thesis by (simp add: labels_def)
qed

theorem build_query_roundtrip_witness:
  "\<exists>q. build_query 7 9 '' wWw.Example.com. '' = Inr q
     \<and> question_info q = Some (Some (''www.example.com'', 1))"
proof -
  obtain q where q: "build_query 7 9 '' wWw.Example.com. '' = Inr q"
  proof -
    have "\<not> isl (build_query 7 9 '' wWw.Example.com. '')" by code_simp
    then show ?thesis using that by (metis sum.collapse(2))
  qed
  have "to_lower (query_host '' wWw.Example.com. '') = ''www.example.com''" by code_simp
  with build_query_roundtrip [OF q] q show ?thesis by simp
qed

text \<open>
  (C24) The DNS readers of both packages are panic free: whatever bytes arrive (truncated, with
  compression loops, with lying counts or lengths), every index and slice they take is in range,
  and each of them returns.
\<close>
theorem dns_readers_never_panic:
  "question_name msg \<noteq> None \<and> question_info msg \<noteq> None \<and> answer_ips msg \<noteq> None
   \<and> is_sinkhole_response msg \<noteq> None \<and> parse_ecs_from_query msg \<noteq> None \<and> parse_a msg \<noteq> None"
  using question_total [of msg] answer_ips_total [of msg] is_sinkhole_total [of msg]
    parse_ecs_total [of msg] parse_a_total [of msg] by auto

end
