(* ===== verification/Tgws_Ws.thy ===== *)
theory Tgws_Ws
  imports Prelude
begin

text \<open>
  \<open>internal/services/tgws/websocket.go\<close>: the WebSocket framing of the Telegram relay.
  \<open>build_frame\<close> and \<open>read_frame\<close> are \<open>buildFrame\<close> and \<open>readFrame\<close>; \<open>recv\<close> is the receive loop, over
  the bytes the peer will still send before the connection fails. The random mask is an argument.
  The frames \<open>recv\<close> writes (pongs, the close echo) are the list of \<open>(opcode, data)\<close> it hands to
  \<open>buildFrame\<close>; whether the write lock is free when a close arrives (\<open>TryLock\<close>) is an argument.
\<close>

unbundle bit_operations_syntax

section \<open>Frames\<close>

abbreviation (input) "ws_op_cont \<equiv> 0 :: nat"
abbreviation (input) "ws_op_text \<equiv> 1 :: nat"
abbreviation (input) "ws_op_binary \<equiv> 2 :: nat"
abbreviation (input) "ws_op_close \<equiv> 8 :: nat"
abbreviation (input) "ws_op_ping \<equiv> 9 :: nat"
abbreviation (input) "ws_op_pong \<equiv> 10 :: nat"

definition ws_max_message_len :: nat where
  "ws_max_message_len = 16 * 1024 * 1024"

datatype ws_error = WsIo io_error | FrameTooLarge nat | MessageTooLarge

definition xor_mask :: "bytes \<Rightarrow> bytes \<Rightarrow> bytes" where
  "xor_mask key data = map (\<lambda>i. (data ! i) XOR (key ! (i AND 3))) [0..<length data]"

definition frame_head :: "nat \<Rightarrow> nat \<Rightarrow> bytes" where
  "frame_head opcode len =
     (let flags = byte_of (0x80 OR opcode) in
      if len < 126 then [flags, byte_of (0x80 OR len)]
      else if len < 65536 then [flags, byte_of (0x80 OR 126), byte_of (len div 256), byte_of len]
      else [flags, byte_of (0x80 OR 127)] @ be_bytes 8 len)"

definition build_frame :: "bytes \<Rightarrow> nat \<Rightarrow> bytes \<Rightarrow> bytes" where
  "build_frame key opcode data =
     frame_head opcode (length data) @ key @ xor_mask key data"

text \<open>The length field, of 7 bits, or of 16 or 64 when it is 126 or 127.\<close>

definition read_length :: "byte \<Rightarrow> bytes \<Rightarrow> io_error + (nat \<times> bytes)" where
  "read_length h1 stream =
     (let len = unat (h1 AND 0x7F) in
      if len = 126 then (case read_full 2 stream of Inl e \<Rightarrow> Inl e | Inr (b, s) \<Rightarrow> Inr (be_val b, s))
      else if len = 127 then (case read_full 8 stream of Inl e \<Rightarrow> Inl e | Inr (b, s) \<Rightarrow> Inr (be_val b, s))
      else Inr (len, stream))"

definition read_frame :: "bytes \<Rightarrow> ws_error + (nat \<times> bytes \<times> bool \<times> bytes)" where
  "read_frame stream =
     (case read_full 2 stream of Inl e \<Rightarrow> Inl (WsIo e)
      | Inr (header, s1) \<Rightarrow>
        (let opcode = unat ((header ! 0) AND 0x0F); fin = ((header ! 0) AND 0x80 \<noteq> 0) in
         case read_length (header ! 1) s1 of Inl e \<Rightarrow> Inl (WsIo e)
         | Inr (len, s2) \<Rightarrow>
           (if len > ws_max_message_len then Inl (FrameTooLarge len)
            else case (if (header ! 1) AND 0x80 \<noteq> 0 then
                         (case read_full 4 s2 of Inl e \<Rightarrow> Inl e | Inr (m, s3) \<Rightarrow> Inr (Some m, s3))
                       else Inr (None, s2)) of Inl e \<Rightarrow> Inl (WsIo e)
            | Inr (mk, s3) \<Rightarrow>
              (case read_full len s3 of Inl e \<Rightarrow> Inl (WsIo e)
               | Inr (payload, s4) \<Rightarrow>
                   Inr (opcode, case mk of None \<Rightarrow> payload | Some m \<Rightarrow> xor_mask m payload, fin, s4)))))"

section \<open>The receive loop\<close>

text \<open>
  \<open>recv\<close> returns the message or the error, the frames it wrote, the \<open>closed\<close> flag and the unread
  bytes. An unknown opcode matches no case of the switch and is skipped, as in the source.
\<close>

type_synonym recv_result = "(ws_error + bytes) \<times> (nat \<times> bytes) list \<times> bool \<times> bytes"

lemma read_frame_consumes: "read_frame s = Inr (op, p, fin, s') \<Longrightarrow> length s' < length s"
  unfolding read_frame_def read_length_def Let_def
  by (auto split: sum.splits prod.splits if_splits option.splits dest!: read_full_length)

function recv_loop :: "bool \<Rightarrow> bytes \<Rightarrow> bool \<Rightarrow> bool \<Rightarrow> bytes \<Rightarrow> (nat \<times> bytes) list \<Rightarrow> recv_result" where
  "recv_loop lock_free fragments fragmented closed stream out =
     (if closed then (Inl (WsIo EOF), out, True, stream)
      else case read_frame stream of Inl e \<Rightarrow> (Inl e, out, False, stream)
      | Inr (opcode, payload, fin, rest) \<Rightarrow>
        (if opcode = ws_op_close then
           (Inl (WsIo EOF),
            (if lock_free then out @ [(ws_op_close, if length payload \<ge> 2 then take 2 payload else [])]
             else out), True, rest)
         else if opcode = ws_op_ping then
           recv_loop lock_free fragments fragmented False rest (out @ [(ws_op_pong, payload)])
         else if opcode = ws_op_pong then
           recv_loop lock_free fragments fragmented False rest out
         else if opcode = ws_op_cont \<or> opcode = ws_op_text \<or> opcode = ws_op_binary then
           (if fin \<and> \<not> fragmented then (Inr payload, out, False, rest)
            else if length fragments + length payload > ws_max_message_len
              then (Inl MessageTooLarge, out, False, rest)
            else if fin then (Inr (fragments @ payload), out, False, rest)
            else recv_loop lock_free (fragments @ payload) True False rest out)
         else recv_loop lock_free fragments fragmented False rest out))"
  by pat_completeness auto
termination
  by (relation "measure (\<lambda>(lf, fr, fd, closed, stream, out). length stream)")
    (auto dest: read_frame_consumes)

declare recv_loop.simps [simp del]

definition recv :: "bool \<Rightarrow> bool \<Rightarrow> bytes \<Rightarrow> recv_result" where
  "recv lock_free closed stream = recv_loop lock_free [] False closed stream []"

section \<open>Masking and lengths\<close>

lemma length_xor_mask [simp]: "length (xor_mask m d) = length d"
  by (simp add: xor_mask_def)

lemma xor_mask_involution [simp]: "xor_mask m (xor_mask m d) = d"
  by (rule nth_equalityI) (simp_all add: xor_mask_def xor.assoc)

lemma length_frame_head_ge: "2 \<le> length (frame_head opcode len)"
  by (simp add: frame_head_def Let_def)

lemma byte_of_or_80:
  assumes "n < 128"
  shows "(byte_of (0x80 OR n)) AND 0x80 \<noteq> 0" "unat ((byte_of (0x80 OR n)) AND 0x7F) = n"
    "n < 16 \<Longrightarrow> unat ((byte_of (0x80 OR n)) AND 0x0F) = n"
proof -
  have b: "byte_of (0x80 OR n) = 0x80 OR (word_of_nat n :: byte)"
    by (simp add: byte_of_def of_nat_or_eq)
  show "(byte_of (0x80 OR n)) AND 0x80 \<noteq> 0"
  proof
    assume "(byte_of (0x80 OR n)) AND 0x80 = 0"
    then have "\<not> bit ((byte_of (0x80 OR n)) AND 0x80) 7" by simp
    moreover have "bit (0x80 :: byte) 7" by simp
    ultimately show False by (simp add: b bit_and_iff bit_or_iff)
  qed
  have m7: "(0x7F :: byte) = mask 7" and m4: "(0x0F :: byte) = mask 4" and p: "(0x80 :: byte) = push_bit 7 1"
    by (simp_all add: mask_numeral)
  have z7: "take_bit 7 (0x80 :: byte) = 0" and z4: "take_bit 4 (0x80 :: byte) = 0"
    unfolding p by (simp_all only: take_bit_push_bit) simp_all
  have "unat (take_bit 7 (word_of_nat n :: byte)) = n" "n < 16 \<Longrightarrow> unat (take_bit 4 (word_of_nat n :: byte)) = n"
    using assms by (simp_all add: unsigned_take_bit_eq unat_of_nat take_bit_nat_eq_self)
  moreover have "(0x80 OR w) AND 0x7F = take_bit 7 w" "(0x80 OR w) AND 0x0F = take_bit 4 w" for w :: byte
    by (simp_all only: m7 m4 take_bit_eq_mask [symmetric] take_bit_or z7 z4 or.left_neutral)
  ultimately show "unat ((byte_of (0x80 OR n)) AND 0x7F) = n"
    "n < 16 \<Longrightarrow> unat ((byte_of (0x80 OR n)) AND 0x0F) = n"
    by (simp_all only: b)
qed

lemma byte_of_low:
  assumes "n < 128"
  shows "(byte_of n) AND 0x80 = 0" "unat ((byte_of n) AND 0x7F) = n" "n < 16 \<Longrightarrow> unat ((byte_of n) AND 0x0F) = n"
proof -
  have m7: "(0x7F :: byte) = mask 7" and m4: "(0x0F :: byte) = mask 4"
    by (simp_all add: mask_numeral)
  have t: "unat (take_bit k (byte_of n)) = n" if "n < 2 ^ k" "k < 8" for k
  proof -
    have "unat (byte_of n) = n" using assms by (simp add: unat_byte_of)
    then show ?thesis using that by (simp add: unsigned_take_bit_eq take_bit_nat_eq_self)
  qed
  show "unat ((byte_of n) AND 0x7F) = n"
    unfolding m7 take_bit_eq_mask [symmetric] using t [of 7] assms by simp
  show "n < 16 \<Longrightarrow> unat ((byte_of n) AND 0x0F) = n"
    unfolding m4 take_bit_eq_mask [symmetric] using t [of 4] by simp
  have "take_bit 7 (byte_of n) = byte_of n" using t [of 7] assms by (simp add: word_unat_eq_iff unat_byte_of)
  moreover have "(0x80 :: byte) = push_bit 7 1" by simp
  moreover have "and (take_bit 7 w) (push_bit 7 1) = 0" for w :: byte
    by (intro bit_eqI) (auto simp only: bit_and_iff bit_push_bit_iff bit_take_bit_iff bit_0_eq bot_apply bot_bool_def)
  ultimately show "(byte_of n) AND 0x80 = 0" by metis
qed

section \<open>What a peer may put on the wire\<close>

text \<open>
  A frame as RFC 6455 lays it out: final bit, opcode, optional mask, payload, in the shortest
  length form. The frames \<open>build_frame\<close> writes are those with the final bit and a mask.
\<close>

datatype frame = Frame (is_fin: bool) (opcode_of: nat) (key_of: "bytes option") (payload_of: bytes)

definition wire_head :: "bool \<Rightarrow> nat \<Rightarrow> bool \<Rightarrow> nat \<Rightarrow> bytes" where
  "wire_head fin opcode masked len =
     (let b0 = byte_of (if fin then 0x80 OR opcode else opcode);
          b1 = (\<lambda>n. byte_of (if masked then 0x80 OR n else n)) in
      if len < 126 then [b0, b1 len]
      else if len < 65536 then [b0, b1 126] @ be_bytes 2 len
      else [b0, b1 127] @ be_bytes 8 len)"

fun wire_frame :: "frame \<Rightarrow> bytes" where
  "wire_frame (Frame fin opcode key data) =
     wire_head fin opcode (key \<noteq> None) (length data) @
     (case key of None \<Rightarrow> data | Some k \<Rightarrow> k @ xor_mask k data)"

definition frame_ok :: "frame \<Rightarrow> bool" where
  "frame_ok f \<longleftrightarrow> opcode_of f < 16 \<and> length (payload_of f) \<le> ws_max_message_len
     \<and> (case key_of f of None \<Rightarrow> True | Some k \<Rightarrow> length k = 4)"

lemma build_frame_wire: "build_frame key opcode data = wire_frame (Frame True opcode (Some key) data)"
  by (simp add: build_frame_def frame_head_def wire_head_def Let_def be_bytes_def numeral_2_eq_2)

lemma read_length_short: "unat (h1 AND 0x7F) < 126 \<Longrightarrow> read_length h1 s = Inr (unat (h1 AND 0x7F), s)"
  by (simp add: read_length_def)

lemma read_length_16:
  "unat (h1 AND 0x7F) = 126 \<Longrightarrow> n < 65536 \<Longrightarrow> read_length h1 (be_bytes 2 n @ s) = Inr (n, s)"
  by (simp add: read_length_def read_full_append be_val_be_bytes)

lemma read_length_64:
  "unat (h1 AND 0x7F) = 127 \<Longrightarrow> n < 2 ^ 64 \<Longrightarrow> read_length h1 (be_bytes 8 n @ s) = Inr (n, s)"
  by (simp add: read_length_def read_full_append be_val_be_bytes)

definition len_code :: "bool \<Rightarrow> nat \<Rightarrow> byte" where
  "len_code masked n = byte_of (if masked then 0x80 OR n else n)"

lemma len_code [simp]:
  "n < 128 \<Longrightarrow> unat ((len_code masked n) AND 0x7F) = n"
  "n < 128 \<Longrightarrow> ((len_code masked n) AND 0x80 = 0) = (\<not> masked)"
  by (simp_all add: len_code_def byte_of_or_80 byte_of_low)

lemma wire_head_split:
  assumes "opcode < 16" "len \<le> ws_max_message_len"
  shows "\<exists>b0 b1 ext. wire_head fin opcode masked len = [b0, b1] @ ext
     \<and> unat (b0 AND 0x0F) = opcode \<and> (b0 AND 0x80 \<noteq> 0) = fin \<and> (b1 AND 0x80 \<noteq> 0) = masked
     \<and> (\<forall>s. read_length b1 (ext @ s) = Inr (len, s))"
proof -
  define n where "n = (if len < 126 then len else if len < 65536 then 126 else 127)"
  define ext where "ext = (if len < 126 then [] else if len < 65536 then be_bytes 2 len else be_bytes 8 len)"
  have n: "n < 128" by (simp add: n_def)
  have "wire_head fin opcode masked len = [len_code fin opcode, len_code masked n] @ ext"
    by (simp add: wire_head_def Let_def len_code_def n_def ext_def)
  moreover have "unat ((len_code fin opcode) AND 0x0F) = opcode"
    using assms by (simp add: len_code_def byte_of_or_80 byte_of_low)
  moreover have "read_length (len_code masked n) (ext @ s) = Inr (len, s)" for s
    using n assms(2) by (simp add: n_def ext_def read_length_short read_length_16 read_length_64
        ws_max_message_len_def)
  ultimately show ?thesis using assms n by (intro exI [of _ "len_code fin opcode"] exI [of _ "len_code masked n"] exI [of _ ext]) simp
qed

lemma read_full_two: "read_full 2 (a # b # s) = Inr ([a, b], s)"
  by (simp add: read_full_def numeral_2_eq_2)

lemma read_frame_wire:
  assumes "frame_ok f"
  shows "read_frame (wire_frame f @ rest) = Inr (opcode_of f, payload_of f, is_fin f, rest)"
proof -
  obtain fin opcode key data where f: "f = Frame fin opcode key data" by (cases f)
  obtain b0 b1 ext where h: "wire_head fin opcode (key \<noteq> None) (length data) = [b0, b1] @ ext"
    "unat (b0 AND 0x0F) = opcode" "(b0 AND 0x80 \<noteq> 0) = fin" "(b1 AND 0x80 \<noteq> 0) = (key \<noteq> None)"
    and len: "\<And>s. read_length b1 (ext @ s) = Inr (length data, s)"
    using wire_head_split [of opcode "length data" fin "key \<noteq> None"] assms
    by (auto simp: frame_ok_def f)
  define body where "body = (case key of None \<Rightarrow> data | Some k \<Rightarrow> k @ xor_mask k data)"
  have "wire_frame f @ rest = [b0, b1] @ (ext @ body @ rest)"
    unfolding f wire_frame.simps h(1) body_def by simp
  moreover have "length data \<le> ws_max_message_len" using assms by (simp add: frame_ok_def f)
  ultimately show ?thesis
    using h(2-4) assms
    by (cases key) (simp_all add: f read_frame_def read_full_two read_full_append len Let_def body_def frame_ok_def)
qed

section \<open>Round trip, reassembly and bound\<close>

text \<open>
  (C19) What \<open>buildFrame\<close> writes, \<open>readFrame\<close> reads back: for every opcode of 4 bits, every mask and
  every payload up to the 16 MiB limit (all three length forms), the reader returns the opcode, the
  unmasked payload and the final bit, and leaves exactly the bytes that follow the frame; beyond the
  limit it refuses the frame with the length it announced.
\<close>
theorem frame_roundtrip:
  assumes "opcode < 16" "length key = 4" "length data < 2 ^ 64"
  shows "read_frame (build_frame key opcode data @ rest) =
    (if length data \<le> ws_max_message_len then Inr (opcode, data, True, rest)
     else Inl (FrameTooLarge (length data)))"
proof (cases "length data \<le> ws_max_message_len")
  case True
  then show ?thesis
    using read_frame_wire [of "Frame True opcode (Some key) data" rest] assms
    by (simp add: build_frame_wire frame_ok_def)
next
  case False
  then have long: "\<not> length data < 65536" by (simp add: ws_max_message_len_def)
  have "build_frame key opcode data @ rest =
      [len_code True opcode, len_code True 127] @ (be_bytes 8 (length data) @ key @ xor_mask key data @ rest)"
    using long by (simp add: build_frame_def frame_head_def Let_def len_code_def)
  then show ?thesis
    using False assms(3)
    by (simp only: read_frame_def append.simps read_full_two Let_def sum.case prod.case)
      (simp add: read_length_64)
qed

theorem frame_roundtrip_witness:
  "read_frame (build_frame [1, 2, 3, 4] 2 [10, 20, 30, 40, 50] @ [9]) = Inr (2, [10, 20, 30, 40, 50], True, [9])"
  using frame_roundtrip [of 2 "[1, 2, 3, 4]" "[10, 20, 30, 40, 50]" "[9]"]
  by (simp add: ws_max_message_len_def)

lemma recv_loop_frame:
  "frame_ok f \<Longrightarrow> recv_loop lf frs fd False (wire_frame f @ rest) out =
    (if opcode_of f = 8 then
       (Inl (WsIo EOF), (if lf then out @ [(8, if length (payload_of f) \<ge> 2 then take 2 (payload_of f) else [])]
         else out), True, rest)
     else if opcode_of f = 9 then recv_loop lf frs fd False rest (out @ [(10, payload_of f)])
     else if opcode_of f \<in> {0, 1, 2} then
       (if is_fin f \<and> \<not> fd then (Inr (payload_of f), out, False, rest)
        else if length frs + length (payload_of f) > ws_max_message_len
          then (Inl MessageTooLarge, out, False, rest)
        else if is_fin f then (Inr (frs @ payload_of f), out, False, rest)
        else recv_loop lf (frs @ payload_of f) True False rest out)
     else recv_loop lf frs fd False rest out)"
  by (subst recv_loop.simps) (simp add: read_frame_wire)

definition is_data :: "frame \<Rightarrow> bool" where "is_data f \<longleftrightarrow> opcode_of f \<in> {0, 1, 2}"

definition message_of :: "frame list \<Rightarrow> bytes" where
  "message_of fs = concat (map payload_of (filter is_data fs))"

definition pongs_for :: "frame list \<Rightarrow> (nat \<times> bytes) list" where
  "pongs_for fs = map (\<lambda>f. (10, payload_of f)) (filter (\<lambda>f. opcode_of f = 9) fs)"

lemma message_of_simps [simp]:
  "message_of [] = []" "message_of (f # fs) = (if is_data f then payload_of f else []) @ message_of fs"
  "message_of (fs @ gs) = message_of fs @ message_of gs"
  by (simp_all add: message_of_def)

lemma pongs_for_simps [simp]:
  "pongs_for [] = []" "pongs_for (f # fs) = (if opcode_of f = 9 then [(10, payload_of f)] else []) @ pongs_for fs"
  by (simp_all add: pongs_for_def)

lemma recv_loop_frames:
  assumes "\<forall>f \<in> set fs. frame_ok f \<and> opcode_of f \<noteq> 8 \<and> (is_data f \<longrightarrow> \<not> is_fin f)"
    and "length (frs @ message_of fs) \<le> ws_max_message_len" "fd \<or> frs = []"
  shows "recv_loop lf frs fd False (concat (map wire_frame fs) @ rest) out =
    recv_loop lf (frs @ message_of fs) (fd \<or> list_ex is_data fs) False rest (out @ pongs_for fs)"
  using assms
proof (induction fs arbitrary: frs fd out)
  case (Cons f fs)
  have f: "frame_ok f" "opcode_of f \<noteq> 8" and fin: "is_data f \<Longrightarrow> \<not> is_fin f" using Cons.prems by auto
  have step: "recv_loop lf frs fd False (wire_frame f @ concat (map wire_frame fs) @ rest) out =
      recv_loop lf (frs @ (if is_data f then payload_of f else [])) (fd \<or> is_data f) False
        (concat (map wire_frame fs) @ rest) (out @ (if opcode_of f = 9 then [(10, payload_of f)] else []))"
    using f fin Cons.prems(2) by (auto simp: recv_loop_frame is_data_def)
  define p where "p = (if is_data f then payload_of f else [])"
  define q :: "(nat \<times> bytes) list" where "q = (if opcode_of f = 9 then [(10, payload_of f)] else [])"
  have "\<forall>f \<in> set fs. frame_ok f \<and> opcode_of f \<noteq> 8 \<and> (is_data f \<longrightarrow> \<not> is_fin f)"
    using Cons.prems(1) by simp
  moreover have "length ((frs @ p) @ message_of fs) \<le> ws_max_message_len"
    using Cons.prems(2) by (simp add: p_def)
  moreover have "(fd \<or> is_data f) \<or> frs @ p = []" using Cons.prems(3) by (auto simp: p_def)
  ultimately have "recv_loop lf (frs @ p) (fd \<or> is_data f) False (concat (map wire_frame fs) @ rest) (out @ q) =
      recv_loop lf ((frs @ p) @ message_of fs) ((fd \<or> is_data f) \<or> list_ex is_data fs) False rest
        ((out @ q) @ pongs_for fs)"
    by (rule Cons.IH)
  then show ?case
    using step by (simp add: p_def [symmetric] q_def [symmetric])
qed simp

text \<open>
  (C20) Reassembly: on any message the peer sends in fragments, with pings and pongs in between and
  total size at most 16 MiB, \<open>recv\<close> returns exactly the concatenated payloads, answers every ping in
  order with a pong of the same payload, writes nothing else, and leaves the following bytes unread.
\<close>
theorem recv_reassembles:
  assumes "\<forall>f \<in> set fs. frame_ok f \<and> opcode_of f \<noteq> 8 \<and> (is_data f \<longrightarrow> \<not> is_fin f)"
    and "frame_ok l" "is_data l" "is_fin l"
    and "length (message_of (fs @ [l])) \<le> ws_max_message_len"
  shows "recv lf False (concat (map wire_frame (fs @ [l])) @ rest) =
    (Inr (message_of (fs @ [l])), pongs_for fs, False, rest)"
proof -
  have "list_ex is_data fs \<or> message_of fs = []"
    by (auto simp: message_of_def list_ex_iff)
  moreover have "recv lf False (concat (map wire_frame (fs @ [l])) @ rest) =
      recv_loop lf (message_of fs) (list_ex is_data fs) False (wire_frame l @ rest) (pongs_for fs)"
    using recv_loop_frames [OF assms(1), of "[]" False lf "wire_frame l @ rest" "[]"] assms(5)
    by (simp add: recv_def)
  ultimately show ?thesis
    using assms(2-5) by (auto simp: recv_loop_frame is_data_def [of l])
qed

theorem recv_reassembles_witness:
  "recv True False (concat (map wire_frame
      ([Frame False 2 None [1, 2], Frame True 9 None [7]] @ [Frame True 0 None [3]])) @ [42]) =
    (Inr [1, 2, 3], [(10, [7])], False, [42])"
  using recv_reassembles [of "[Frame False 2 None [1, 2], Frame True 9 None [7]]" "Frame True 0 None [3]" True "[42]"]
  by (simp add: frame_ok_def ws_max_message_len_def is_data_def del: wire_frame.simps)

lemma read_frame_bound: "read_frame s = Inr (op, p, fin, s') \<Longrightarrow> length p \<le> ws_max_message_len"
  unfolding read_frame_def Let_def
  by (auto split: sum.splits prod.splits if_splits option.splits dest!: read_full_length)

lemma recv_loop_delivers:
  assumes "recv_loop lf frs fd closed stream out = (Inr msg, out', c, rest)"
    and "\<forall>(op, p) \<in> set out. op = 10"
  shows "length msg \<le> ws_max_message_len \<and> \<not> c \<and> \<not> closed \<and> length rest < length stream
    \<and> (\<forall>(op, p) \<in> set out'. op = 10)"
  using assms
proof (induction lf frs fd closed stream out rule: recv_loop.induct)
  case (1 lf frs fd closed stream out)
  have c: "\<not> closed" and "\<not> isl (read_frame stream)"
    using "1.prems"(1) by (subst (asm) recv_loop.simps, auto split: if_splits sum.splits)+
  then obtain op p fin s where r: "read_frame stream = Inr (op, p, fin, s)"
    by (metis isl_def obj_sumE surj_pair)
  note IH = "1.IH" [OF c r refl refl refl]
  have less: "length s < length stream" by (rule read_frame_consumes [OF r])
  show ?case
    using "1.prems" IH read_frame_bound [OF r] c less
    by (subst (asm) recv_loop.simps) (auto simp: r split: if_splits)
qed

text \<open>
  Memory bound on arbitrary input: whatever bytes an upstream sends, a message that \<open>recv\<close> hands
  to the relay is at most 16 MiB and was read from a connection that is and stays open; at least one
  frame was consumed, and the only frames written while waiting for it are pongs.
\<close>
theorem recv_bounded:
  assumes "recv lf closed stream = (Inr msg, out, c, rest)"
  shows "length msg \<le> ws_max_message_len \<and> \<not> c \<and> \<not> closed \<and> length rest < length stream
    \<and> (\<forall>(op, p) \<in> set out. op = 10)"
  using recv_loop_delivers [OF assms [unfolded recv_def]] by simp

theorem recv_bounded_witness:
  "recv True False (wire_frame (Frame True 2 None [5])) = (Inr [5], [], False, [])
   \<and> length ([5] :: bytes) \<le> ws_max_message_len"
proof -
  have "recv True False (wire_frame (Frame True 2 None [5])) = (Inr [5], [], False, [])" by code_simp
  with recv_bounded [OF this] show ?thesis by simp
qed

end
