(* ===== verification/Tgws_Packets.thy ===== *)
theory Tgws_Packets
  imports Prelude
begin

text \<open>
  The MTProto transport packets of the Telegram relay: \<open>internal/services/tgws/bridge.go\<close> (the
  message splitter and the client-to-upstream loop of \<open>bridgeWS\<close>) and
  \<open>internal/services/tgws/h2_packets.go\<close> (\<open>readH2Packet\<close>, \<open>encodeH2Reply\<close>).

  A \<open>cipher.Stream\<close> is its key stream: the byte it XORs at each position since it was made.
  Integers are 64 bits wide in the source's arithmetic on lengths, which never overflows here.
\<close>

unbundle bit_operations_syntax

section \<open>Transport variants\<close>

definition proto_abridged :: nat where "proto_abridged = 0xEFEFEFEF"
definition proto_intermediate :: nat where "proto_intermediate = 0xEEEEEEEE"
definition proto_padded :: nat where "proto_padded = 0xDDDDDDDD"

lemmas proto_defs = proto_abridged_def proto_intermediate_def proto_padded_def

section \<open>The message splitter\<close>

text \<open>\<open>None\<close> is "need more bytes", \<open>Some 0\<close> the unknown shape.\<close>

definition abridged_len :: "bytes \<Rightarrow> nat option" where
  "abridged_len plain =
     (let first = plain ! 0 in
      if (first = 0x7F \<or> first = 0xFF) \<and> length plain < 4 then None
      else let
        payload = (if first = 0x7F \<or> first = 0xFF then le_val [plain ! 1, plain ! 2, plain ! 3] * 4
                   else unat (first AND 0x7F) * 4);
        header = (if first = 0x7F \<or> first = 0xFF then 4 else 1) in
        if payload = 0 then Some 0
        else if length plain \<ge> header + payload then Some (header + payload) else None)"

definition intermediate_len :: "bytes \<Rightarrow> nat option" where
  "intermediate_len plain =
     (if length plain < 4 then None
      else let payload = take_bit 31 (le_val (take 4 plain)) in
        if payload = 0 then Some 0
        else if length plain \<ge> 4 + payload then Some (4 + payload) else None)"

definition next_packet_len :: "nat \<Rightarrow> bytes \<Rightarrow> nat option" where
  "next_packet_len proto plain =
     (if plain = [] then None
      else if proto = proto_abridged then abridged_len plain
      else if proto = proto_intermediate \<or> proto = proto_padded then intermediate_len plain
      else Some 0)"

record splitter =
  sp_proto :: nat
  sp_cipher :: bytes
  sp_plain :: bytes
  sp_off :: bool

definition new_splitter :: "nat \<Rightarrow> splitter" where
  "new_splitter proto = \<lparr>sp_proto = proto, sp_cipher = [], sp_plain = [], sp_off = False\<rparr>"

text \<open>The loop of \<open>splitPlain\<close>: parts, the two buffers and the \<open>off\<close> flag; \<^term>\<open>None\<close> is a slice panic.\<close>

function split_loop :: "nat \<Rightarrow> bytes \<Rightarrow> bytes \<Rightarrow> bytes list \<Rightarrow> (bytes list \<times> bytes \<times> bytes \<times> bool) option" where
  "split_loop proto c p parts =
     (if c = [] then Some (parts, c, p, False)
      else case next_packet_len proto p of
        None \<Rightarrow> Some (parts, c, p, False)
      | Some n \<Rightarrow>
          (if n = 0 then Some (parts @ [c], [], [], True)
           else do {
             part \<leftarrow> sub c 0 n;
             c' \<leftarrow> sub c n (length c);
             p' \<leftarrow> sub p n (length p);
             split_loop proto c' p' (parts @ [part]) }))"
  by pat_completeness auto
termination
  by (relation "measure (\<lambda>(proto, c, p, parts). length c)") (auto dest!: sub_length)

declare split_loop.simps [simp del]

definition split_plain :: "splitter \<Rightarrow> bytes \<Rightarrow> bytes \<Rightarrow> (bytes list \<times> splitter) option" where
  "split_plain m chunk plain =
     (if length chunk \<noteq> length plain then None
      else if chunk = [] then Some ([], m)
      else if sp_off m then Some ([chunk], m)
      else do {
        (parts, c, p, now_off) \<leftarrow> split_loop (sp_proto m) (sp_cipher m @ chunk) (sp_plain m @ plain) [];
        Some (parts, m\<lparr>sp_cipher := c, sp_plain := p, sp_off := now_off\<rparr>) })"

definition flush :: "splitter \<Rightarrow> bytes option \<times> splitter" where
  "flush m = (if sp_cipher m = [] then (None, m)
              else (Some (sp_cipher m), m\<lparr>sp_cipher := [], sp_plain := []\<rparr>))"

section \<open>The upload direction of the bridge\<close>

text \<open>
  \<open>xor_at ks pos data\<close> is \<open>XORKeyStream\<close> of a stream that has produced \<open>pos\<close> bytes. A chunk read from
  the client is decrypted with one key stream, encrypted with the other and split; each part is one
  binary WebSocket frame. When the client read ends the splitter's tail is sent.
\<close>

definition xor_at :: "(nat \<Rightarrow> byte) \<Rightarrow> nat \<Rightarrow> bytes \<Rightarrow> bytes" where
  "xor_at ks pos data = map (\<lambda>i. (data ! i) XOR ks (pos + i)) [0..<length data]"

record uplink =
  up_pos :: nat
  up_splitter :: splitter
  up_sent :: "bytes list"

definition uplink_chunk :: "(nat \<Rightarrow> byte) \<Rightarrow> (nat \<Rightarrow> byte) \<Rightarrow> bytes \<Rightarrow> uplink \<Rightarrow> uplink option" where
  "uplink_chunk kd ku chunk u =
     (let plain = xor_at kd (up_pos u) chunk; reenc = xor_at ku (up_pos u) plain in
      do { (parts, sp) \<leftarrow> split_plain (up_splitter u) reenc plain;
           Some \<lparr>up_pos = up_pos u + length chunk, up_splitter = sp, up_sent = up_sent u @ parts\<rparr> })"

fun uplink_chunks :: "(nat \<Rightarrow> byte) \<Rightarrow> (nat \<Rightarrow> byte) \<Rightarrow> bytes list \<Rightarrow> uplink \<Rightarrow> uplink option" where
  "uplink_chunks kd ku [] u = Some u"
| "uplink_chunks kd ku (c # cs) u = do { u' \<leftarrow> uplink_chunk kd ku c u; uplink_chunks kd ku cs u' }"

definition bridge_upload :: "(nat \<Rightarrow> byte) \<Rightarrow> (nat \<Rightarrow> byte) \<Rightarrow> nat \<Rightarrow> bytes list \<Rightarrow> bytes list option" where
  "bridge_upload kd ku proto chunks = do {
     u \<leftarrow> uplink_chunks kd ku chunks \<lparr>up_pos = 0, up_splitter = new_splitter proto, up_sent = []\<rparr>;
     Some (case flush (up_splitter u) of (None, _) \<Rightarrow> up_sent u | (Some tail, _) \<Rightarrow> up_sent u @ [tail]) }"

section \<open>Splitting: totality and conservation\<close>

lemma next_packet_len_bounds: "next_packet_len proto p = Some n \<Longrightarrow> n \<le> length p"
  by (auto simp: next_packet_len_def abridged_len_def intermediate_len_def Let_def split: if_splits)

lemma abridged_len_append:
  assumes "p \<noteq> []" "abridged_len p = Some n" shows "abridged_len (p @ q) = Some n"
proof (cases "p ! 0 = 0x7F \<or> p ! 0 = 0xFF")
  case True
  then have "4 \<le> length p" using assms(2) by (auto simp: abridged_len_def Let_def split: if_splits)
  then have at: "(p @ q) ! 0 = p ! 0" "(p @ q) ! 1 = p ! 1" "(p @ q) ! 2 = p ! 2" "(p @ q) ! 3 = p ! 3"
    using assms(1) by (simp_all add: nth_append)
  show ?thesis
    using assms(2) True \<open>4 \<le> length p\<close> unfolding abridged_len_def Let_def at
    by (simp only: True) (simp split: if_splits)
next
  case False
  have at: "(p @ q) ! 0 = p ! 0" using assms(1) by (simp add: nth_append)
  show ?thesis
    using assms(2) unfolding abridged_len_def Let_def at
    by (simp only: False) (simp split: if_splits)
qed

lemma intermediate_len_append: "intermediate_len p = Some n \<Longrightarrow> intermediate_len (p @ q) = Some n"
  by (simp add: intermediate_len_def Let_def split: if_splits)

lemma next_packet_len_append:
  "next_packet_len proto p = Some n \<Longrightarrow> next_packet_len proto (p @ q) = Some n"
  by (auto simp: next_packet_len_def abridged_len_append intermediate_len_append split: if_splits)

lemma split_loop_step:
  assumes "c \<noteq> []" "next_packet_len proto p = Some n" "n \<noteq> 0" "length c = length p"
  shows "split_loop proto c p parts = split_loop proto (drop n c) (drop n p) (parts @ [take n c])"
  using assms next_packet_len_bounds [OF assms(2)]
  by (subst split_loop.simps) (simp add: go_idx)

lemma split_loop_off:
  "c \<noteq> [] \<Longrightarrow> next_packet_len proto p = Some 0 \<Longrightarrow> split_loop proto c p parts = Some (parts @ [c], [], [], True)"
  by (subst split_loop.simps) simp

lemma split_loop_wait:
  "c = [] \<or> next_packet_len proto p = None \<Longrightarrow> split_loop proto c p parts = Some (parts, c, p, False)"
  by (subst split_loop.simps) auto

text \<open>Induction over the packets the loop takes: stop, unknown shape, or one more packet.\<close>

lemma split_loop_cases [consumes 1, case_names wait off step]:
  assumes "length c = length p"
    and "\<And>c p. length c = length p \<Longrightarrow> c = [] \<or> next_packet_len proto p = None \<Longrightarrow> P c p"
    and "\<And>c p. length c = length p \<Longrightarrow> c \<noteq> [] \<Longrightarrow> next_packet_len proto p = Some 0 \<Longrightarrow> P c p"
    and "\<And>c p n. length c = length p \<Longrightarrow> c \<noteq> [] \<Longrightarrow> next_packet_len proto p = Some n \<Longrightarrow> n \<noteq> 0 \<Longrightarrow>
      n \<le> length p \<Longrightarrow> P (drop n c) (drop n p) \<Longrightarrow> P c p"
  shows "P c p"
  using assms(1)
proof (induction "length c" arbitrary: c p rule: less_induct)
  case less
  consider "c = [] \<or> next_packet_len proto p = None" | "c \<noteq> []" "next_packet_len proto p = Some 0"
    | n where "c \<noteq> []" "next_packet_len proto p = Some n" "n \<noteq> 0"
    by (metis option.exhaust)
  then show ?case
  proof cases
    case (3 n)
    then show ?thesis
      using less next_packet_len_bounds [of proto p n] by (intro assms(4) [of c p n]) auto
  qed (use less.prems assms(2,3) in auto)
qed

lemma split_loop_total:
  assumes "length c = length p"
  shows "\<exists>ps c' p' w. split_loop proto c p parts = Some (parts @ ps, c', p', w)
    \<and> length c' = length p' \<and> concat ps @ c' = c \<and> (w \<longrightarrow> c' = [])"
  using assms
proof (induction c p arbitrary: parts rule: split_loop_cases [where proto = proto])
  case (step c p n)
  obtain ps c' p' w where *: "split_loop proto (drop n c) (drop n p) (parts @ [take n c]) =
      Some ((parts @ [take n c]) @ ps, c', p', w)" "length c' = length p'"
      "concat ps @ c' = drop n c" "w \<longrightarrow> c' = []"
    using step.IH by meson
  moreover have "concat (take n c # ps) @ c' = c" using *(3) by simp
  ultimately show ?case
    by (intro exI [of _ "take n c # ps"] exI [of _ c'] exI [of _ p'] exI [of _ w])
      (simp add: split_loop_step [OF step(2,3,4,1)])
qed (auto simp: split_loop_wait split_loop_off)

lemma split_loop_append:
  assumes "length c = length p" "length d = length q"
  shows "case split_loop proto c p parts of
      Some (ps, c', p', False) \<Rightarrow> split_loop proto (c @ d) (p @ q) parts = split_loop proto (c' @ d) (p' @ q) ps
    | Some (ps, c', p', True) \<Rightarrow> \<exists>ps'. split_loop proto (c @ d) (p @ q) parts = Some (ps', [], [], True)
    | None \<Rightarrow> True"
  using assms(1)
proof (induction c p arbitrary: parts rule: split_loop_cases [where proto = proto])
  case (step c p n)
  have "split_loop proto (c @ d) (p @ q) parts =
      split_loop proto (drop n c @ d) (drop n p @ q) (parts @ [take n c])"
    using step assms(2) by (subst split_loop_step [where n = n]) (auto intro: next_packet_len_append)
  moreover have "split_loop proto c p parts = split_loop proto (drop n c) (drop n p) (parts @ [take n c])"
    using step by (intro split_loop_step)
  ultimately show ?case using step.IH [of "parts @ [take n c]"] by (simp only:)
next
  case (off c p)
  then have "split_loop proto (c @ d) (p @ q) parts = Some (parts @ [c @ d], [], [], True)"
    by (intro split_loop_off) (auto intro: next_packet_len_append)
  then show ?case using off by (simp add: split_loop_off)
qed (simp add: split_loop_wait)

definition sp_inv :: "splitter \<Rightarrow> bool" where
  "sp_inv m \<longleftrightarrow> length (sp_cipher m) = length (sp_plain m) \<and> (sp_off m \<longrightarrow> sp_cipher m = [])"

lemma split_loop_acc:
  assumes "length c = length p"
  shows "split_loop proto c p parts =
    map_option (\<lambda>(ps, rest). (parts @ ps, rest)) (split_loop proto c p [])"
  using assms
proof (induction c p arbitrary: parts rule: split_loop_cases [where proto = proto])
  case (step c p n)
  have "split_loop proto c p qs = split_loop proto (drop n c) (drop n p) (qs @ [take n c])" for qs
    using step by (intro split_loop_step)
  then show ?case
    using step.IH [of "parts @ [take n c]"] step.IH [of "[take n c]"]
    by (auto simp: option.map_comp comp_def split_beta)
qed (simp_all add: split_loop_wait split_loop_off)

text \<open>One chunk: no panic, the invariant is kept, no ciphertext byte is lost, added or reordered.\<close>

lemma split_plain_conserves:
  assumes "sp_inv m" "length chunk = length plain"
  shows "\<exists>parts m'. split_plain m chunk plain = Some (parts, m') \<and> sp_inv m' \<and> sp_proto m' = sp_proto m
    \<and> concat parts @ sp_cipher m' = sp_cipher m @ chunk"
proof (cases "chunk = [] \<or> sp_off m")
  case False
  have "length (sp_cipher m @ chunk) = length (sp_plain m @ plain)" using assms by (simp add: sp_inv_def)
  from split_loop_total [OF this, of "sp_proto m" "[]"] show ?thesis
    using assms False by (auto simp: split_plain_def sp_inv_def)
qed (use assms in \<open>auto simp: split_plain_def sp_inv_def\<close>)

lemma length_xor_at [simp]: "length (xor_at ks pos d) = length d"
  by (simp add: xor_at_def)

lemma xor_at_append: "xor_at ks pos (a @ b) = xor_at ks pos a @ xor_at ks (pos + length a) b"
  by (rule nth_equalityI) (auto simp: xor_at_def nth_append)

lemma xor_at_involution [simp]: "xor_at ks pos (xor_at ks pos d) = d"
  by (rule nth_equalityI) (simp_all add: xor_at_def xor.assoc)

lemma xor_at_Nil [simp]: "xor_at ks pos [] = []"
  by (simp add: xor_at_def)

lemma uplink_chunks_conserve:
  assumes "sp_inv (up_splitter u)"
  shows "\<exists>u'. uplink_chunks kd ku cs u = Some u' \<and> sp_inv (up_splitter u')
    \<and> concat (up_sent u') @ sp_cipher (up_splitter u') =
      concat (up_sent u) @ sp_cipher (up_splitter u) @ xor_at ku (up_pos u) (xor_at kd (up_pos u) (concat cs))"
  using assms
proof (induction cs arbitrary: u)
  case (Cons c cs)
  define plain where "plain = xor_at kd (up_pos u) c"
  define reenc where "reenc = xor_at ku (up_pos u) plain"
  have "length reenc = length plain" by (simp add: reenc_def plain_def)
  from split_plain_conserves [OF Cons.prems this] obtain parts m' where m':
    "split_plain (up_splitter u) reenc plain = Some (parts, m')" "sp_inv m'"
    "concat parts @ sp_cipher m' = sp_cipher (up_splitter u) @ reenc" by blast
  define u1 where "u1 = \<lparr>up_pos = up_pos u + length c, up_splitter = m', up_sent = up_sent u @ parts\<rparr>"
  have "uplink_chunk kd ku c u = Some u1"
    by (simp add: uplink_chunk_def Let_def plain_def [symmetric] reenc_def [symmetric] m' u1_def)
  moreover obtain u' where "uplink_chunks kd ku cs u1 = Some u'" "sp_inv (up_splitter u')"
    "concat (up_sent u') @ sp_cipher (up_splitter u') =
      concat (up_sent u1) @ sp_cipher (up_splitter u1) @ xor_at ku (up_pos u1) (xor_at kd (up_pos u1) (concat cs))"
    using Cons.IH [of u1] m'(2) by (auto simp: u1_def)
  moreover have "concat (up_sent u1) @ sp_cipher (up_splitter u1) =
      concat (up_sent u) @ sp_cipher (up_splitter u) @ reenc"
    using m'(3) by (simp add: u1_def)
  ultimately show ?case
    by (simp add: u1_def reenc_def plain_def xor_at_append)
qed simp

text \<open>
  The upload direction of the bridge is transparent: however the client's bytes are chunked by
  the socket, whatever they decode to, and for every transport variant, known or not, the payloads of
  the WebSocket frames the bridge sends, taken together, are exactly the re-encrypted stream, and no
  slice of the splitter panics.
\<close>
theorem bridge_upload_conserves:
  "\<exists>sent. bridge_upload kd ku proto chunks = Some sent
     \<and> concat sent = xor_at ku 0 (xor_at kd 0 (concat chunks))"
proof -
  define u0 where "u0 = \<lparr>up_pos = 0, up_splitter = new_splitter proto, up_sent = []\<rparr>"
  have "sp_inv (up_splitter u0)" by (simp add: u0_def sp_inv_def new_splitter_def)
  from uplink_chunks_conserve [OF this, of kd ku chunks] obtain u' where
    "uplink_chunks kd ku chunks u0 = Some u'"
    "concat (up_sent u') @ sp_cipher (up_splitter u') = xor_at ku 0 (xor_at kd 0 (concat chunks))"
    by (auto simp: u0_def new_splitter_def)
  then show ?thesis by (auto simp: bridge_upload_def u0_def [symmetric] flush_def)
qed

section \<open>Packet boundaries do not depend on the chunking\<close>

lemma split_loop_stop:
  assumes "length c = length p" "split_loop proto c p parts = Some (ps, a, b, False)"
  shows "next_packet_len proto b = None \<or> a = []"
  using assms
proof (induction c p arbitrary: parts rule: split_loop_cases [where proto = proto])
  case (step c p n)
  then show ?case by (metis split_loop_step)
qed (auto simp: split_loop_wait split_loop_off)

lemma uplink_chunks_whole:
  assumes "sp_inv (up_splitter u)" "\<not> sp_off (up_splitter u)" "sp_proto (up_splitter u) = proto"
    and "d = xor_at kd (up_pos u) (concat cs)"
    and "split_loop proto (sp_cipher (up_splitter u) @ xor_at ku (up_pos u) d) (sp_plain (up_splitter u) @ d) (up_sent u)
      = Some (ps, c', p', False)"
    and "next_packet_len proto (sp_plain (up_splitter u)) = None \<or> sp_cipher (up_splitter u) = []"
  shows "\<exists>u'. uplink_chunks kd ku cs u = Some u' \<and> up_sent u' = ps \<and> sp_cipher (up_splitter u') = c'"
  using assms
proof (induction cs arbitrary: u d)
  case Nil
  then show ?case by (auto simp: split_loop_wait sp_inv_def)
next
  case (Cons c cs)
  define sp where "sp = up_splitter u"
  define plain where "plain = xor_at kd (up_pos u) c"
  define reenc where "reenc = xor_at ku (up_pos u) plain"
  define plain2 where "plain2 = xor_at kd (up_pos u + length c) (concat cs)"
  define reenc2 where "reenc2 = xor_at ku (up_pos u + length c) plain2"
  have d: "d = plain @ plain2" "xor_at ku (up_pos u) d = reenc @ reenc2"
    using Cons.prems(4) by (simp_all add: plain_def plain2_def reenc_def reenc2_def xor_at_append)
  have len: "length (sp_cipher sp @ reenc) = length (sp_plain sp @ plain)" "length reenc2 = length plain2"
    and loop: "split_loop proto ((sp_cipher sp @ reenc) @ reenc2) ((sp_plain sp @ plain) @ plain2) (up_sent u)
      = Some (ps, c', p', False)"
    using Cons.prems(1,5) d by (simp_all add: sp_def sp_inv_def reenc_def reenc2_def plain_def)
  obtain qs a b w where first: "split_loop proto (sp_cipher sp @ reenc) (sp_plain sp @ plain) [] = Some (qs, a, b, w)"
    and ab: "length a = length b"
    using split_loop_total [OF len(1), of proto "[]"] by auto
  have sent: "split_loop proto (sp_cipher sp @ reenc) (sp_plain sp @ plain) (up_sent u)
      = Some (up_sent u @ qs, a, b, w)"
    by (subst split_loop_acc [OF len(1)]) (simp add: first)
  have w: "\<not> w" and loop2: "split_loop proto (a @ reenc2) (b @ plain2) (up_sent u @ qs) = Some (ps, c', p', False)"
    using split_loop_append [OF len, of proto "up_sent u"] loop by (cases w; auto simp: sent)+
  have stop: "next_packet_len proto b = None \<or> a = []"
    using split_loop_stop [OF len(1) ] first w by auto
  define u1 where "u1 = \<lparr>up_pos = up_pos u + length c,
    up_splitter = sp\<lparr>sp_cipher := a, sp_plain := b, sp_off := False\<rparr>, up_sent = up_sent u @ qs\<rparr>"
  have "split_plain sp reenc plain = Some (qs, sp\<lparr>sp_cipher := a, sp_plain := b, sp_off := False\<rparr>)"
  proof (cases "c = []")
    case True
    then have "reenc = []" "plain = []" by (simp_all add: reenc_def plain_def)
    then show ?thesis
      using Cons.prems(2,6) first by (auto simp: split_plain_def split_loop_wait sp_def)
  next
    case False
    then have "reenc \<noteq> []" "length reenc = length plain" by (auto simp: reenc_def plain_def xor_at_def)
    then show ?thesis using Cons.prems(2,3) first w by (simp add: split_plain_def sp_def)
  qed
  then have step: "uplink_chunk kd ku c u = Some u1"
    by (simp add: uplink_chunk_def Let_def plain_def [symmetric] reenc_def [symmetric] sp_def [symmetric] u1_def)
  have "\<exists>u'. uplink_chunks kd ku cs u1 = Some u' \<and> up_sent u' = ps \<and> sp_cipher (up_splitter u') = c'"
    by (rule Cons.IH [where d = plain2])
      (use ab stop loop2 Cons.prems(3) in \<open>auto simp: u1_def sp_inv_def sp_def plain2_def reenc2_def\<close>)
  then show ?case by (simp add: step)
qed

lemma split_loop_packets:
  assumes "\<forall>p \<in> set pkts. p \<noteq> [] \<and> next_packet_len proto p = Some (length p)"
    and "length c = length (concat pkts)"
  shows "\<exists>ps. split_loop proto c (concat pkts) parts = Some (parts @ ps, [], [], False)
    \<and> concat ps = c \<and> map length ps = map length pkts"
  using assms
proof (induction pkts arbitrary: c parts)
  case (Cons p pkts)
  define n where "n = length p"
  have n: "next_packet_len proto (p @ concat pkts) = Some n" "n \<noteq> 0" "length (drop n c) = length (concat pkts)"
    using Cons.prems by (auto simp: n_def intro!: next_packet_len_append)
  then obtain ps where "split_loop proto (drop n c) (concat pkts) (parts @ [take n c]) =
      Some ((parts @ [take n c]) @ ps, [], [], False)" "concat ps = drop n c" "map length ps = map length pkts"
    using Cons.IH [of "drop n c" "parts @ [take n c]"] Cons.prems by auto
  moreover have "split_loop proto c (concat (p # pkts)) parts = split_loop proto (drop n c) (concat pkts) (parts @ [take n c])"
    using n Cons.prems by (subst split_loop_step [where n = n]) (auto simp: n_def)
  moreover have "length (take n c) = n" using Cons.prems(2) by (simp add: n_def)
  ultimately show ?case
    by (intro exI [of _ "take n c # ps"]) (simp add: n_def)
qed (simp add: split_loop_wait)

text \<open>
  The transport framing of the MTProto specification: a body of whole words behind a length header,
  with the quick-acknowledgment bit.
\<close>

definition transport_header :: "nat \<Rightarrow> bool \<Rightarrow> nat \<Rightarrow> bytes" where
  "transport_header proto quick len =
     (if proto = proto_abridged then
        (let words = len div 4; q = (if quick then 128 else 0) in
         if words < 0x7F then [byte_of (q + words)] else byte_of (q + 0x7F) # le_bytes 3 words)
      else le_bytes 4 (len + (if quick then 2 ^ 31 else 0)))"

definition transport_ok :: "nat \<Rightarrow> nat \<Rightarrow> bool" where
  "transport_ok proto len \<longleftrightarrow> 0 < len \<and>
     (if proto = proto_abridged then len mod 4 = 0 \<and> len div 4 < 2 ^ 24 else len < 2 ^ 31)"

lemma length_transport_header_pos [simp]: "transport_header proto quick len \<noteq> []"
  by (simp add: transport_header_def Let_def) (metis length_le_bytes list.size(3) zero_neq_numeral)

lemma unat_and_7F: "unat ((b :: byte) AND 0x7F) = unat b mod 128"
proof -
  have "(0x7F :: byte) = mask 7" by (simp add: mask_numeral)
  then show ?thesis by (simp only: take_bit_eq_mask [symmetric]) (simp add: unsigned_take_bit_eq, simp add: take_bit_eq_mod)
qed

lemma abridged_packet:
  assumes "transport_ok proto_abridged (length body)"
  shows "abridged_len (transport_header proto_abridged quick (length body) @ body) =
    Some (length (transport_header proto_abridged quick (length body) @ body))"
proof -
  define words where "words = length body div 4"
  define q :: nat where "q = (if quick then 128 else 0)"
  have len: "length body = 4 * words" "words < 2 ^ 24" "0 < words"
  proof -
    have a: "0 < length body" "length body mod 4 = 0" "length body div 4 < 2 ^ 24"
      using assms by (simp_all add: transport_ok_def)
    show "length body = 4 * words" using a(2) unfolding words_def by presburger
    then show "0 < words" using a(1) by linarith
    show "words < 2 ^ 24" using a(3) by (simp only: words_def)
  qed
  have h: "transport_header proto_abridged quick (length body) =
      (if words < 0x7F then [byte_of (q + words)] else byte_of (q + 0x7F) # le_bytes 3 words)"
    by (simp add: transport_header_def words_def q_def Let_def)
  show ?thesis
  proof (cases "words < 0x7F")
    case True
    then have "unat (byte_of (q + words)) = q + words" by (simp add: unat_byte_of q_def)
    then have "byte_of (q + words) \<noteq> 0x7F" "byte_of (q + words) \<noteq> 0xFF"
      and "unat (byte_of (q + words) AND 0x7F) = words"
      using True by (auto simp: word_unat_eq_iff q_def unat_and_7F)
    then show ?thesis using True len unfolding h by (simp add: abridged_len_def Let_def)
  next
    case False
    have "byte_of (q + 0x7F) = 0x7F \<or> byte_of (q + 0x7F) = 0xFF" by (simp add: q_def byte_of_def)
    moreover have "le_val (le_bytes 3 words) = words" using len by (intro le_val_le_bytes) simp
    moreover obtain a b c where abc: "le_bytes 3 words = [a, b, c]" by (simp add: numeral_3_eq_3)
    ultimately show ?thesis
      using False len unfolding h
      by (auto simp: abridged_len_def Let_def nth_Cons numeral_2_eq_2 numeral_3_eq_3)
  qed
qed

lemma intermediate_header:
  assumes "len < 2 ^ 31"
  shows "take_bit 31 (le_val (le_bytes 4 (len + (if quick then 2 ^ 31 else 0)))) = len"
    and "bit (le_val (le_bytes 4 (len + (if quick then 2 ^ 31 else 0)))) 31 = quick"
proof -
  define n where "n = len + (if quick then 2 ^ 31 else 0)"
  have v: "le_val (le_bytes 4 n) = n" using assms by (intro le_val_le_bytes) (simp add: n_def)
  show "take_bit 31 (le_val (le_bytes 4 (len + (if quick then 2 ^ 31 else 0)))) = len"
    using assms unfolding n_def [symmetric] v by (simp add: n_def take_bit_eq_mod)
  show "bit (le_val (le_bytes 4 (len + (if quick then 2 ^ 31 else 0)))) 31 = quick"
    using assms unfolding n_def [symmetric] v by (auto simp: n_def bit_iff_odd div_add_self2)
qed

lemma transport_packet_len:
  assumes "transport_ok proto (length body)" "proto \<in> {proto_abridged, proto_intermediate, proto_padded}"
  shows "next_packet_len proto (transport_header proto quick (length body) @ body) =
    Some (length (transport_header proto quick (length body) @ body))"
proof (cases "proto = proto_abridged")
  case True
  then show ?thesis using assms abridged_packet [of body quick] by (simp add: next_packet_len_def)
next
  case False
  then have h: "transport_header proto quick (length body) = le_bytes 4 (length body + (if quick then 2 ^ 31 else 0))"
    by (simp add: transport_header_def)
  have "intermediate_len (transport_header proto quick (length body) @ body) = Some (4 + length body)"
    using assms(1) False intermediate_header(1) [of "length body" quick]
    by (simp add: intermediate_len_def h transport_ok_def Let_def)
  moreover have "transport_header proto quick (length body) @ body \<noteq> []" by simp
  ultimately show ?thesis using False assms(2) unfolding next_packet_len_def by (simp add: h)
qed

text \<open>
  (C21) One WebSocket frame per transport packet: when the client's decrypted stream is a sequence of
  well-formed packets of the negotiated transport (short and long abridged headers, either quick
  acknowledgment bit), the bridge sends exactly one frame for each packet, holding that packet's
  re-encrypted bytes, whatever pieces the socket delivered the stream in.
\<close>
theorem bridge_upload_packets:
  assumes "proto \<in> {proto_abridged, proto_intermediate, proto_padded}"
    and "\<forall>(quick, body) \<in> set msgs. transport_ok proto (length body)"
    and "xor_at kd 0 (concat chunks) =
      concat (map (\<lambda>(quick, body). transport_header proto quick (length body) @ body) msgs)"
  shows "\<exists>sent. bridge_upload kd ku proto chunks = Some sent
     \<and> map length sent = map (\<lambda>(quick, body). length (transport_header proto quick (length body) @ body)) msgs
     \<and> concat sent = xor_at ku 0 (xor_at kd 0 (concat chunks))"
proof -
  define pkts where "pkts = map (\<lambda>(quick, body). transport_header proto quick (length body) @ body) msgs"
  define d where "d = xor_at kd 0 (concat chunks)"
  define u0 where "u0 = \<lparr>up_pos = 0, up_splitter = new_splitter proto, up_sent = []\<rparr>"
  have "\<forall>p \<in> set pkts. p \<noteq> [] \<and> next_packet_len proto p = Some (length p)"
    using assms(1,2) by (auto simp: pkts_def intro!: transport_packet_len)
  then obtain ps where ps: "split_loop proto (xor_at ku 0 d) d [] = Some (ps, [], [], False)"
    "concat ps = xor_at ku 0 d" "map length ps = map length pkts"
    using split_loop_packets [of pkts proto "xor_at ku 0 d" "[]"] assms(3) by (auto simp: pkts_def d_def)
  have "\<exists>u'. uplink_chunks kd ku chunks u0 = Some u' \<and> up_sent u' = ps \<and> sp_cipher (up_splitter u') = []"
    by (rule uplink_chunks_whole [where d = d])
      (use ps in \<open>simp_all add: u0_def new_splitter_def sp_inv_def d_def\<close>)
  then have "bridge_upload kd ku proto chunks = Some ps"
    by (auto simp: bridge_upload_def u0_def [symmetric] flush_def)
  then show ?thesis using ps(2,3) by (auto simp: pkts_def d_def comp_def split_def)
qed

theorem bridge_upload_packets_witness:
  "\<exists>sent. bridge_upload (\<lambda>i. 3) (\<lambda>i. 5) proto_abridged [[2, 4], [5, 6, 7, 2], [8, 9, 10, 11]] = Some sent
     \<and> map length sent = [5, 5]"
proof -
  have "xor_at (\<lambda>i. 3) 0 (concat [[2, 4], [5, 6, 7, 2], [8, 9, 10, 11]]) =
      concat (map (\<lambda>(quick, body). transport_header proto_abridged quick (length body) @ body)
        [(False, [7, 6, 5, 4]), (False, [11, 10, 9, 8])])"
    by code_simp
  moreover have "\<forall>(quick, body) \<in> set [(False, [7, 6, 5, 4]), (False, [11, 10, 9, 8])].
      transport_ok proto_abridged (length (body :: bytes))" by (simp add: transport_ok_def)
  moreover have "map (\<lambda>(quick, body). length (transport_header proto_abridged quick (length body) @ body))
      [(False, [7, 6, 5, 4]), (False, [11, 10, 9, 8 :: byte])] = [5, 5]" by code_simp
  ultimately show ?thesis
    using bridge_upload_packets [of proto_abridged "[(False, [7, 6, 5, 4]), (False, [11, 10, 9, 8])]"
        "\<lambda>i. 3" "[[2, 4], [5, 6, 7, 2], [8, 9, 10, 11]]" "\<lambda>i. 5"] by auto
qed

section \<open>Packets of the HTTP/2 relay\<close>

definition h2_max_packet :: nat where "h2_max_packet = 4 * 1024 * 1024"
definition h2_max_plain_padding :: nat where "h2_max_plain_padding = 256"

datatype h2_error = H2Io io_error | UnsupportedTransport nat | LengthOutOfRange nat
  | InvalidPadding nat nat | InvalidAlignment | InvalidReplyLength nat

text \<open>\<open>plaintext\<close>: read \<open>n\<close> bytes and decrypt them; the key stream position is part of the state.\<close>

definition h2_plain :: "(nat \<Rightarrow> byte) \<Rightarrow> nat \<Rightarrow> nat \<times> bytes \<Rightarrow> h2_error + (bytes \<times> nat \<times> bytes)" where
  "h2_plain ks n st =
     (case read_full n (snd st) of Inl e \<Rightarrow> Inl (H2Io e)
      | Inr (raw, rest) \<Rightarrow> Inr (xor_at ks (fst st) raw, fst st + n, rest))"

definition h2_length :: "(nat \<Rightarrow> byte) \<Rightarrow> nat \<Rightarrow> nat \<times> bytes \<Rightarrow> h2_error + (nat \<times> bool \<times> nat \<times> bytes)" where
  "h2_length ks proto st =
     (if proto = proto_abridged then
        (case h2_plain ks 1 st of Inl e \<Rightarrow> Inl e
         | Inr (h, st1) \<Rightarrow>
           (let quick = (h ! 0 AND 0x80 \<noteq> 0); words = unat (h ! 0 AND 0x7f) in
            if words = 0x7f then
              (case h2_plain ks 3 st1 of Inl e \<Rightarrow> Inl e
               | Inr (h3, st2) \<Rightarrow> Inr (le_val h3 * 4, quick, st2))
            else Inr (words * 4, quick, st1)))
      else if proto = proto_intermediate \<or> proto = proto_padded then
        (case h2_plain ks 4 st of Inl e \<Rightarrow> Inl e
         | Inr (h, st1) \<Rightarrow> Inr (take_bit 31 (le_val h), bit (le_val h) 31, st1))
      else Inl (UnsupportedTransport proto))"

text \<open>The packet inside a padded frame: its length and the padding its kind may carry.\<close>

definition padded_packet :: "bytes \<Rightarrow> nat \<times> nat" where
  "padded_packet body =
     (if le_val (take 8 body) = 0 then (20 + le_val (take 4 (drop 16 body)), h2_max_plain_padding)
      else (24 + (length body - 24) div 16 * 16, 15))"

definition read_h2_packet :: "(nat \<Rightarrow> byte) \<Rightarrow> nat \<Rightarrow> nat \<times> bytes \<Rightarrow> h2_error + (bytes \<times> bool \<times> nat \<times> bytes)" where
  "read_h2_packet ks proto st =
     (case h2_length ks proto st of Inl e \<Rightarrow> Inl e
      | Inr (len, quick, st1) \<Rightarrow>
        (if len < 24 \<or> len > h2_max_packet + (if proto = proto_padded then h2_max_plain_padding else 0)
         then Inl (LengthOutOfRange len)
         else case h2_plain ks len st1 of Inl e \<Rightarrow> Inl e
         | Inr (body, st2) \<Rightarrow>
           (let (plen, pad) = padded_packet body in
            if proto = proto_padded \<and> (plen < 24 \<or> plen > len \<or> len - plen > pad)
            then Inl (InvalidPadding len plen)
            else let body' = (if proto = proto_padded then take plen body else body) in
              if length body' mod 4 \<noteq> 0 \<or> length body' > h2_max_packet then Inl InvalidAlignment
              else Inr (body', quick, st2))))"

text \<open>\<open>encodeH2Reply\<close>; the four random bytes of the padded transport are an argument.\<close>

definition encode_h2_reply :: "bytes \<Rightarrow> nat \<Rightarrow> bytes \<Rightarrow> h2_error + bytes" where
  "encode_h2_reply body proto padding =
     (if length body = 0 \<or> length body mod 4 \<noteq> 0 \<or> length body > h2_max_packet
      then Inl (InvalidReplyLength (length body))
      else if proto = proto_abridged then
        (let words = length body div 4 in
         if words < 0x7f then Inr (byte_of words # body)
         else Inr ([0x7f, byte_of words, byte_of (words div 256), byte_of (words div 65536)] @ body))
      else if proto \<noteq> proto_intermediate \<and> proto \<noteq> proto_padded then Inl (UnsupportedTransport proto)
      else let pad = (if proto = proto_padded then unat (padding ! 0) mod 4 else 0) in
        Inr (le_bytes 4 (length body + pad) @ body @ take pad (drop 1 padding)))"

section \<open>HTTP/2 packets: round trip and safety\<close>

lemma h2_plain_append:
  "n = length a \<Longrightarrow> h2_plain ks n (pos, xor_at ks pos a @ b) = Inr (a, pos + n, b)"
  by (simp add: h2_plain_def read_full_append)

lemma xor_at_Cons: "xor_at ks pos (x # xs) = xor_at ks pos [x] @ xor_at ks (pos + 1) xs"
  using xor_at_append [of ks pos "[x]" xs] by simp

lemma byte_quick:
  assumes "n < 128"
  shows "unat ((byte_of ((if quick then 128 else 0) + n)) AND 0x7F) = n"
    and "(byte_of ((if quick then 128 else 0) + n)) AND 0x80 \<noteq> 0 \<longleftrightarrow> quick"
proof -
  show "unat ((byte_of ((if quick then 128 else 0) + n)) AND 0x7F) = n"
    using assms by (simp add: unat_and_7F unat_byte_of)
  have p: "(0x80 :: byte) = push_bit 7 1" by simp
  have "w AND 0x80 = (if bit w 7 then 0x80 else 0)" for w :: byte
    unfolding p
    by (rule bit_eqI) (auto simp only: bit_and_iff bit_push_bit_iff bit_1_iff bit_0_eq bot_apply
        bot_bool_def split: if_splits; metis diff_is_0_eq le_antisym)
  then have "w AND 0x80 \<noteq> 0 \<longleftrightarrow> bit w 7" for w :: byte by simp
  moreover have "bit (byte_of ((if quick then 128 else 0) + n)) 7 = quick"
    using assms unfolding byte_of_def bit_of_nat_iff by (auto simp: bit_iff_odd possible_bit_word div_add_self1)
  ultimately show "(byte_of ((if quick then 128 else 0) + n)) AND 0x80 \<noteq> 0 \<longleftrightarrow> quick" by simp
qed

lemma h2_length_transport:
  assumes "transport_ok proto len" "proto \<in> {proto_abridged, proto_intermediate, proto_padded}"
  shows "h2_length ks proto (pos, xor_at ks pos (transport_header proto quick len @ s)) =
    (let k = length (transport_header proto quick len) in
     Inr (len, quick, pos + k, xor_at ks (pos + k) s))"
proof (cases "proto = proto_abridged")
  case True
  define words where "words = len div 4"
  define q :: nat where "q = (if quick then 128 else 0)"
  have a: "0 < len" "len mod 4 = 0" "len div 4 < 2 ^ 24"
    using assms True by (simp_all add: transport_ok_def)
  have len: "len = words * 4" using a(2) unfolding words_def by presburger
  have w24: "words < 2 ^ 24" using a(3) by (simp only: words_def)
  show ?thesis
  proof (cases "words < 0x7F")
    case short: True
    have h: "transport_header proto quick len = [byte_of (q + words)]"
      using True short by (simp add: transport_header_def words_def q_def Let_def)
    have "h2_plain ks 1 (pos, xor_at ks pos ([byte_of (q + words)] @ s)) = Inr ([byte_of (q + words)], pos + 1, xor_at ks (pos + 1) s)"
      unfolding xor_at_append by (simp add: h2_plain_append)
    then show ?thesis
      using True short len byte_quick [of words quick] unfolding h
      by (simp add: h2_length_def Let_def q_def)
  next
    case long: False
    have h: "transport_header proto quick len = [byte_of (q + 127)] @ le_bytes 3 words"
      using True long by (simp add: transport_header_def words_def q_def Let_def)
    have 1: "h2_plain ks 1 (pos, xor_at ks pos ([byte_of (q + 127)] @ t)) = Inr ([byte_of (q + 127)], pos + 1, xor_at ks (pos + 1) t)" for t
      unfolding xor_at_append by (simp add: h2_plain_append)
    have 3: "h2_plain ks 3 (p, xor_at ks p (le_bytes 3 words @ t)) = Inr (le_bytes 3 words, p + 3, xor_at ks (p + 3) t)" for p t
      unfolding xor_at_append by (simp add: h2_plain_append)
    have "le_val (le_bytes 3 words) = words" using w24 by (intro le_val_le_bytes) simp
    then show ?thesis
      using True len byte_quick [of 127 quick] 1 [of "le_bytes 3 words @ s"] 3 [of "pos + 1" s] unfolding h
      by (simp add: h2_length_def Let_def q_def add.commute [of 4])
  qed
next
  case False
  define n where "n = len + (if quick then 2 ^ 31 else 0)"
  have h: "transport_header proto quick len = le_bytes 4 n"
    using False by (simp add: transport_header_def n_def)
  have "h2_plain ks 4 (pos, xor_at ks pos (le_bytes 4 n @ s)) = Inr (le_bytes 4 n, pos + 4, xor_at ks (pos + 4) s)"
    unfolding xor_at_append by (simp add: h2_plain_append)
  then show ?thesis
    using False assms intermediate_header [of len quick]
    unfolding h by (simp add: h2_length_def n_def transport_ok_def)
qed

text \<open>The body of an encrypted message, behind at most 15 padding bytes, or of a plain one.\<close>

definition padding_ok :: "nat \<Rightarrow> bytes \<Rightarrow> bytes \<Rightarrow> bool" where
  "padding_ok proto body pad \<longleftrightarrow>
     (if proto = proto_padded then
        (if le_val (take 8 body) = 0 then length body = 20 + le_val (take 4 (drop 16 body)) \<and> length pad \<le> 256
         else length body mod 16 = 8 \<and> length pad \<le> 15)
      else pad = [])"

lemma padded_packet_body:
  assumes "padding_ok proto_padded body pad" "24 \<le> length body"
  shows "fst (padded_packet (body @ pad)) = length body" "length pad \<le> snd (padded_packet (body @ pad))"
proof -
  have t: "take 8 (body @ pad) = take 8 body" "take 4 (drop 16 (body @ pad)) = take 4 (drop 16 body)"
    using assms(2) by simp_all
  have pad16: "24 + (length (body @ pad) - 24) div 16 * 16 = length body"
    if "length body mod 16 = 8" "length pad \<le> 15"
  proof -
    have "length body = length body div 16 * 16 + 8" using div_mult_mod_eq [of "length body" 16] that(1) by simp
    moreover have "length body div 16 \<noteq> 0" using assms(2) by (simp add: div_eq_0_iff)
    then obtain k where "length body div 16 = Suc k" by (cases "length body div 16") auto
    ultimately have "length body = 24 + k * 16" by simp
    then show ?thesis using that(2) by simp
  qed
  have "fst (padded_packet (body @ pad)) = length body \<and> length pad \<le> snd (padded_packet (body @ pad))"
  proof (cases "le_val (take 8 body) = 0")
    case True
    then have "padded_packet (body @ pad) = (20 + le_val (take 4 (drop 16 body)), h2_max_plain_padding)"
      unfolding padded_packet_def t by (rule if_P)
    moreover have "length body = 20 + le_val (take 4 (drop 16 body)) \<and> length pad \<le> 256"
      using assms(1) True unfolding padding_ok_def by argo
    ultimately show ?thesis unfolding h2_max_plain_padding_def by (simp only: fst_conv snd_conv)
  next
    case False
    then have "padded_packet (body @ pad) = (24 + (length (body @ pad) - 24) div 16 * 16, 15)"
      unfolding padded_packet_def t by (rule if_not_P)
    moreover have "length body mod 16 = 8 \<and> length pad \<le> 15"
      using assms(1) False unfolding padding_ok_def by argo
    ultimately show ?thesis using pad16 by (simp only: fst_conv snd_conv)
  qed
  then show "fst (padded_packet (body @ pad)) = length body" "length pad \<le> snd (padded_packet (body @ pad))"
    by simp_all
qed

lemma padding_ok_length:
  assumes "padding_ok proto body pad" shows "length pad \<le> (if proto = proto_padded then 256 else 0)"
proof (cases "proto = proto_padded")
  case True
  then have "length pad \<le> 256 \<or> length pad \<le> 15"
    using assms unfolding padding_ok_def by argo
  then show ?thesis using True by auto
qed (use assms in \<open>simp add: padding_ok_def\<close>)

text \<open>
  \<open>readH2Packet\<close> inverts the transport framing for each of the three variants: at any position of
  the client's key stream it returns the message body without header and padding (both of the padding
  rules of the padded transport) and the quick-acknowledgment bit, and consumes exactly the frame.
\<close>
theorem read_h2_packet_roundtrip:
  assumes "proto \<in> {proto_abridged, proto_intermediate, proto_padded}"
    and "24 \<le> length body" "length body mod 4 = 0" "length body \<le> h2_max_packet"
    and "padding_ok proto body pad"
  shows "read_h2_packet ks proto (pos, xor_at ks pos
      (transport_header proto quick (length (body @ pad)) @ body @ pad) @ rest) =
    Inr (body, quick, pos + length (transport_header proto quick (length (body @ pad))) + length (body @ pad), rest)"
proof -
  define h where "h = transport_header proto quick (length (body @ pad))"
  define st where "st = (pos + length h, xor_at ks (pos + length h) (body @ pad) @ rest)"
  have pad: "length pad \<le> (if proto = proto_padded then 256 else 0)"
    by (rule padding_ok_length [OF assms(5)])
  have ok: "transport_ok proto (length (body @ pad))"
  proof -
    have "0 < length (body @ pad)" "length (body @ pad) < 2 ^ 31"
      using assms(2,4) pad by (auto simp: h2_max_packet_def split: if_splits)
    moreover have "length (body @ pad) mod 4 = 0 \<and> length (body @ pad) div 4 < 2 ^ 24" if "proto = proto_abridged"
      using that assms(3,4) pad by (simp add: h2_max_packet_def proto_defs)
    ultimately show ?thesis unfolding transport_ok_def by (simp only: split: if_split) blast
  qed
  have 1: "h2_length ks proto (pos, xor_at ks pos (h @ body @ pad) @ rest) = Inr (length (body @ pad), quick, st)"
  proof -
    have "xor_at ks pos (h @ body @ pad) @ rest =
        xor_at ks pos (h @ (body @ pad @ xor_at ks (pos + length h + length (body @ pad)) rest))"
      by (simp add: xor_at_append add.assoc)
    then show ?thesis
      using h2_length_transport [OF ok assms(1), of ks pos quick
          "body @ pad @ xor_at ks (pos + length h + length (body @ pad)) rest", folded h_def]
      by (simp add: st_def xor_at_append add.assoc Let_def)
  qed
  have 2: "h2_plain ks (length (body @ pad)) st = Inr (body @ pad, pos + length h + length (body @ pad), rest)"
    unfolding st_def by (simp only: h2_plain_append)
  define n where "n = length (body @ pad)"
  have range: "\<not> (n < 24 \<or> n > h2_max_packet + (if proto = proto_padded then h2_max_plain_padding else 0))"
    using assms(2,4) pad by (auto simp: n_def h2_max_plain_padding_def split: if_splits)
  obtain plen lim where pp: "padded_packet (body @ pad) = (plen, lim)" by (cases "padded_packet (body @ pad)")
  have padded: "plen = length body" "length pad \<le> lim" if "proto = proto_padded"
    using padded_packet_body [of body pad] assms(2,5) that by (simp_all add: pp)
  have cut: "\<not> (proto = proto_padded \<and> (plen < 24 \<or> plen > n \<or> n - plen > lim))"
    using padded assms(2) by (auto simp: n_def)
  have body: "(if proto = proto_padded then take plen (body @ pad) else body @ pad) = body"
    using padded pad by auto
  have "read_h2_packet ks proto (pos, xor_at ks pos (h @ body @ pad) @ rest) =
      Inr (body, quick, pos + length h + n, rest)"
    unfolding read_h2_packet_def 1 [folded n_def]
    using 2 [folded n_def] range cut assms(3,4)
    by (simp only: sum.case prod.case pp Let_def if_False body) simp
  then show ?thesis by (simp only: h_def n_def)
qed

theorem read_h2_packet_roundtrip_witness:
  "read_h2_packet (\<lambda>i. 9) proto_padded (5, xor_at (\<lambda>i. 9) 5
      (transport_header proto_padded True 27 @ [1, 0, 0, 0, 0, 0, 0, 0] @ replicate 16 7 @ [1, 2, 3]) @ [4]) =
    Inr ([1, 0, 0, 0, 0, 0, 0, 0] @ replicate 16 7, True, 36, [4])"
proof -
  have "padding_ok proto_padded ([1, 0, 0, 0, 0, 0, 0, 0] @ replicate 16 7) [1, 2, 3]" by code_simp
  from read_h2_packet_roundtrip [OF _ _ _ _ this, of "\<lambda>i. 9" 5 True "[4]"] show ?thesis
    by (simp add: h2_max_packet_def transport_header_def proto_defs)
qed

text \<open>
  A reply the relay encodes for a client is exactly the transport framing of the body the API
  returned (no quick-acknowledgment bit, under four padding bytes on the padded transport, none
  otherwise), so the client's reader recovers it; encoding fails exactly on an empty, unaligned or
  oversized body or an unknown transport.
\<close>
theorem encode_h2_reply_framing:
  assumes "length padding = 4"
  shows "case encode_h2_reply body proto padding of
      Inr out \<Rightarrow> \<exists>pad. out = transport_header proto False (length (body @ pad)) @ body @ pad
         \<and> length pad < 4 \<and> (proto \<noteq> proto_padded \<longrightarrow> pad = [])
    | Inl e \<Rightarrow> body = [] \<or> length body mod 4 \<noteq> 0 \<or> length body > h2_max_packet
         \<or> proto \<notin> {proto_abridged, proto_intermediate, proto_padded}"
proof (cases "length body = 0 \<or> length body mod 4 \<noteq> 0 \<or> length body > h2_max_packet")
  case False
  show ?thesis
  proof (cases "proto = proto_abridged")
    case True
    have "le_bytes 3 w = [byte_of w, byte_of (w div 256), byte_of (w div 65536)]" for w
      by (simp add: numeral_3_eq_3 div_mult2_eq [symmetric])
    moreover have "byte_of 127 = 0x7f" by (simp add: byte_of_def)
    ultimately show ?thesis
      using False True by (simp add: encode_h2_reply_def transport_header_def Let_def proto_defs)
  next
    case False': False
    define n where "n = (if proto = proto_padded then unat (padding ! 0) mod 4 else 0)"
    have "length (take n (drop 1 padding)) = n" using assms by (auto simp: n_def)
    then show ?thesis
      using False False'
      by (auto simp: encode_h2_reply_def transport_header_def Let_def n_def [symmetric]
          intro!: exI [of _ "take n (drop 1 padding)"]) (auto simp: n_def)
  qed
qed (auto simp: encode_h2_reply_def)

theorem encode_h2_reply_framing_witness:
  "\<exists>pad. [1, 1, 2, 3, 4] = transport_header proto_abridged False (length ([1, 2, 3, 4] @ pad)) @ [1, 2, 3, 4] @ pad
    \<and> length pad < 4"
proof -
  have "encode_h2_reply [1, 2, 3, 4] proto_abridged [0, 0, 0, 0] = Inr [1, 1, 2, 3, 4]" by code_simp
  then show ?thesis
    using encode_h2_reply_framing [of "[0, 0, 0, 0]" "[1, 2, 3, 4]" proto_abridged] by auto
qed

end
