(* ===== verification/Tgws_FakeTls.thy ===== *)
theory Tgws_FakeTls
  imports Prelude
begin

text \<open>
  \<open>internal/services/tgws/faketls.go\<close>: the Fake-TLS camouflage of the Telegram listener: the record
  framing of the byte stream, the authentication of a client hello and the forged server hello.
  HMAC-SHA-256 is a parameter \<open>hmac secret data\<close>; the random bytes and the clock are arguments.

  The buffered reader under the stream is what the socket will still deliver, plus a script of how
  many bytes each \<open>Read\<close> hands out; a script that has run out hands out everything asked for.
\<close>

unbundle bit_operations_syntax

section \<open>Records\<close>

definition tls_app_data_max :: nat where "tls_app_data_max = 16384"

definition append_u16be :: "bytes \<Rightarrow> nat \<Rightarrow> bytes" where
  "append_u16be b v = b @ [byte_of (v div 256), byte_of v]"

function wrap_tls_records :: "bytes \<Rightarrow> bytes" where
  "wrap_tls_records data =
     (if data = [] then []
      else let chunk = take tls_app_data_max data in
        append_u16be [0x17, 0x03, 0x03] (length chunk) @ chunk @ wrap_tls_records (drop tls_app_data_max data))"
  by pat_completeness auto
termination by (relation "measure length") (auto simp: tls_app_data_max_def)

declare wrap_tls_records.simps [simp del]

record tls_stream =
  ts_stream :: bytes
  ts_script :: "nat list"
  ts_pending :: bytes
  ts_record_left :: nat

text \<open>
  \<open>bufio.Reader.Read\<close> with room for \<open>n\<close> bytes (\<open>n > 0\<close>): at least one byte, or \<open>io.EOF\<close> once the
  connection has delivered everything.
\<close>

definition raw_read :: "nat \<Rightarrow> tls_stream \<Rightarrow> (io_error + bytes) \<times> tls_stream" where
  "raw_read n s =
     (if ts_stream s = [] then (Inl EOF, s)
      else let want = (case ts_script s of [] \<Rightarrow> n | k # _ \<Rightarrow> Suc k);
               m = min n (min want (length (ts_stream s))) in
        (Inr (take m (ts_stream s)),
         s\<lparr>ts_stream := drop m (ts_stream s), ts_script := tl (ts_script s)\<rparr>))"

text \<open>The loop over records: skip change-cipher-spec and empty records, stop at any other type.\<close>

function record_loop :: "tls_stream \<Rightarrow> (io_error + bytes) \<times> tls_stream" where
  "record_loop s =
     (case read_full 5 (ts_stream s) of Inl e \<Rightarrow> (Inl e, s\<lparr>ts_stream := []\<rparr>)
      | Inr (header, rest) \<Rightarrow>
        (let rec_len = be_val (take 2 (drop 3 header)) in
         if header ! 0 = 0x14 then
           (case read_full rec_len rest of
              Inl e \<Rightarrow> (Inl EOF, s\<lparr>ts_stream := []\<rparr>)
            | Inr (_, rest') \<Rightarrow> record_loop (s\<lparr>ts_stream := rest'\<rparr>))
         else if header ! 0 \<noteq> 0x17 then (Inl EOF, s\<lparr>ts_stream := rest\<rparr>)
         else if rec_len = 0 then record_loop (s\<lparr>ts_stream := rest\<rparr>)
         else
           (case raw_read (min rec_len 65536) (s\<lparr>ts_stream := rest\<rparr>) of
              (Inl e, s') \<Rightarrow> (Inl e, s')
            | (Inr buf, s') \<Rightarrow>
                (Inr buf, if rec_len - length buf > 0
                          then s'\<lparr>ts_record_left := rec_len - length buf\<rparr> else s'))))"
  by pat_completeness auto
termination
  by (relation "measure (\<lambda>s. length (ts_stream s))") (auto dest!: read_full_length)

declare record_loop.simps [simp del]

definition read_record_chunk :: "tls_stream \<Rightarrow> (io_error + bytes) \<times> tls_stream" where
  "read_record_chunk s =
     (if ts_record_left s > 0 then
        (case raw_read (min (ts_record_left s) 65536) s of
           (Inl e, s') \<Rightarrow> (Inl e, s')
         | (Inr buf, s') \<Rightarrow> (Inr buf, s'\<lparr>ts_record_left := ts_record_left s' - length buf\<rparr>))
      else record_loop s)"

text \<open>\<open>Read(p)\<close> with \<open>len(p) = n\<close>.\<close>

definition tls_read :: "nat \<Rightarrow> tls_stream \<Rightarrow> (io_error + bytes) \<times> tls_stream" where
  "tls_read n s =
     (if n = 0 then (Inr [], s)
      else if ts_pending s = [] then
        (case read_record_chunk s of
           (Inl e, s') \<Rightarrow> (Inl e, s')
         | (Inr chunk, s') \<Rightarrow>
             (if chunk = [] then (Inl EOF, s')
              else (Inr (take n chunk), s'\<lparr>ts_pending := drop n chunk\<rparr>)))
      else (Inr (take n (ts_pending s)), s\<lparr>ts_pending := drop n (ts_pending s)\<rparr>))"

text \<open>
  \<open>Write(p)\<close>: the framed bytes go out in as many socket writes as the socket takes; a write that
  fails, or reports an impossible count, ends it. \<open>accepts\<close> is what each socket write reports.
\<close>

datatype write_result = Wrote int | WriteFailed

fun write_loop :: "bytes \<Rightarrow> write_result list \<Rightarrow> bytes \<Rightarrow> bool \<times> bytes" where
  "write_loop framed accepts wire =
     (if framed = [] then (True, wire)
      else case accepts of [] \<Rightarrow> (True, wire @ framed)
      | WriteFailed # _ \<Rightarrow> (False, wire)
      | Wrote n # rest \<Rightarrow>
          (if n \<le> 0 \<or> n > int (length framed) then (False, wire)
           else write_loop (drop (nat n) framed) rest (wire @ take (nat n) framed)))"

definition tls_write :: "bytes \<Rightarrow> write_result list \<Rightarrow> bool \<times> bytes" where
  "tls_write p accepts = write_loop (wrap_tls_records p) accepts []"

section \<open>The hello messages\<close>

definition verify_client_hello ::
  "(bytes \<Rightarrow> bytes \<Rightarrow> bytes) \<Rightarrow> int \<Rightarrow> bytes \<Rightarrow> bytes \<Rightarrow> (bytes \<times> bytes) option option" where
  "verify_client_hello hmac now data secret =
     (if length data < 43 then Some None
      else do {
        d0 \<leftarrow> idx data 0; d5 \<leftarrow> idx data 5;
        if d0 \<noteq> 0x16 \<or> d5 \<noteq> 0x01 then Some None
        else do {
          client_random \<leftarrow> sub data 11 43;
          let zeroed = take 11 data @ replicate 32 0 @ drop 43 data; expected = hmac secret zeroed in
          do {
            e28 \<leftarrow> sub expected 0 28;
            if e28 \<noteq> take 28 client_random then Some None
            else do {
              eb \<leftarrow> sub expected 28 32;
              let ts_xor = map2 (XOR) (drop 28 client_random) eb;
                  diff = now - int (le_val ts_xor) in
              if diff > 120 \<or> diff < - 120 then Some None
              else if length data \<ge> 76 \<and> data ! 43 = 32 then do {
                sid \<leftarrow> sub data 44 76; Some (Some (client_random, sid)) }
              else Some (Some (client_random, replicate 32 0)) }}}})"

definition ccs_frame :: bytes where "ccs_frame = [0x14, 0x03, 0x03, 0x00, 0x01, 0x01]"

definition server_hello_template :: bytes where
  "server_hello_template =
     [0x16, 0x03, 0x03, 0x00, 0x7a] @ [0x02, 0x00, 0x00, 0x76] @ [0x03, 0x03] @ replicate 32 0 @ [0x20]
     @ replicate 32 0 @ [0x13, 0x01, 0x00] @ [0x00, 0x2e] @ [0x00, 0x33, 0x00, 0x24, 0x00, 0x1d, 0x00, 0x20]
     @ replicate 32 0 @ [0x00, 0x2b, 0x00, 0x02, 0x03, 0x04]"

text \<open>\<open>copy(b[off:off+32], src)\<close>\<close>

definition put32 :: "bytes \<Rightarrow> nat \<Rightarrow> bytes \<Rightarrow> bytes" where
  "put32 b off src = take off b @ (take 32 src @ drop (length (take 32 src)) (take 32 (drop off b))) @ drop (off + 32) b"

definition build_server_hello ::
  "(bytes \<Rightarrow> bytes \<Rightarrow> bytes) \<Rightarrow> bytes \<Rightarrow> bytes \<Rightarrow> bytes \<Rightarrow> bytes \<Rightarrow> bytes \<Rightarrow> bytes" where
  "build_server_hello hmac secret client_random session_id pub appdata =
     (let hello = put32 (put32 server_hello_template 44 session_id) 89 pub;
          app_record = append_u16be [0x17, 0x03, 0x03] (length appdata) @ appdata;
          response = hello @ ccs_frame @ app_record
      in put32 response 11 (hmac secret (client_random @ response)))"

section \<open>The stream a reader sees\<close>

text \<open>The application data of a record stream, up to its end or the first foreign record.\<close>

function tls_payload :: "bytes \<Rightarrow> bytes" where
  "tls_payload stream =
     (case read_full 5 stream of Inl e \<Rightarrow> []
      | Inr (header, rest) \<Rightarrow>
        (let rec_len = be_val (take 2 (drop 3 header)) in
         if header ! 0 = 0x14 then
           (if rec_len \<le> length rest then tls_payload (drop rec_len rest) else [])
         else if header ! 0 \<noteq> 0x17 then []
         else take rec_len rest @ tls_payload (drop rec_len rest)))"
  by pat_completeness auto
termination by (relation "measure length") (auto dest!: read_full_length)

declare tls_payload.simps [simp del]

definition unread :: "tls_stream \<Rightarrow> bytes" where
  "unread s = ts_pending s @ take (ts_record_left s) (ts_stream s) @ tls_payload (drop (ts_record_left s) (ts_stream s))"

lemma tls_payload_Nil [simp]: "tls_payload [] = []"
  by (subst tls_payload.simps) (simp add: read_full_def)

lemma raw_read_EOF: "ts_stream s = [] \<Longrightarrow> raw_read n s = (Inl EOF, s)"
  by (simp add: raw_read_def)

lemma raw_read_some:
  assumes "ts_stream s \<noteq> []" "0 < n"
  obtains m where "raw_read n s = (Inr (take m (ts_stream s)),
      s\<lparr>ts_stream := drop m (ts_stream s), ts_script := tl (ts_script s)\<rparr>)"
    and "0 < m" "m \<le> n" "m \<le> length (ts_stream s)"
  by (rule that [of "min n (min (case ts_script s of [] \<Rightarrow> n | k # _ \<Rightarrow> Suc k) (length (ts_stream s)))"])
    (use assms in \<open>auto simp: raw_read_def Let_def split: list.splits\<close>)

abbreviation (input) rec_len_of :: "bytes \<Rightarrow> nat" where
  "rec_len_of header \<equiv> be_val (take 2 (drop 3 header))"

text \<open>One record at a time.\<close>

lemma tls_payload_step:
  assumes "read_full 5 stream = Inr (header, rest)"
  shows "header ! 0 = 0x14 \<Longrightarrow> tls_payload stream =
      (if rec_len_of header \<le> length rest then tls_payload (drop (rec_len_of header) rest) else [])"
    and "header ! 0 \<noteq> 0x14 \<Longrightarrow> header ! 0 \<noteq> 0x17 \<Longrightarrow> tls_payload stream = []"
    and "header ! 0 = 0x17 \<Longrightarrow> tls_payload stream =
      take (rec_len_of header) rest @ tls_payload (drop (rec_len_of header) rest)"
  by (subst tls_payload.simps, simp add: assms Let_def)+

lemma record_loop_step:
  assumes "read_full 5 (ts_stream s) = Inr (header, rest)"
  shows "header ! 0 = 0x14 \<Longrightarrow> record_loop s =
      (if rec_len_of header \<le> length rest then record_loop (s\<lparr>ts_stream := drop (rec_len_of header) rest\<rparr>)
       else (Inl EOF, s\<lparr>ts_stream := []\<rparr>))"
    and "header ! 0 \<noteq> 0x14 \<Longrightarrow> header ! 0 \<noteq> 0x17 \<Longrightarrow> record_loop s = (Inl EOF, s\<lparr>ts_stream := rest\<rparr>)"
    and "header ! 0 = 0x17 \<Longrightarrow> rec_len_of header = 0 \<Longrightarrow> record_loop s = record_loop (s\<lparr>ts_stream := rest\<rparr>)"
    and "header ! 0 = 0x17 \<Longrightarrow> rec_len_of header > 0 \<Longrightarrow> record_loop s =
      (case raw_read (min (rec_len_of header) 65536) (s\<lparr>ts_stream := rest\<rparr>) of
         (Inl e, s') \<Rightarrow> (Inl e, s')
       | (Inr buf, s') \<Rightarrow> (Inr buf, if rec_len_of header - length buf > 0
                          then s'\<lparr>ts_record_left := rec_len_of header - length buf\<rparr> else s'))"
  by (subst record_loop.simps, simp add: assms Let_def read_full_def [of "rec_len_of header"])+

definition chunk_ok :: "bytes \<Rightarrow> (io_error + bytes) \<times> tls_stream \<Rightarrow> bool" where
  "chunk_ok whole r = (case r of
      (Inr buf, s') \<Rightarrow> buf \<noteq> [] \<and> ts_pending s' = [] \<and> whole = buf @ unread s'
    | (Inl e, s') \<Rightarrow> whole = [])"

lemma record_loop_refines:
  assumes "ts_record_left s = 0" "ts_pending s = []"
  shows "chunk_ok (tls_payload (ts_stream s)) (record_loop s)"
  using assms
proof (induction "length (ts_stream s)" arbitrary: s rule: less_induct)
  case less
  show ?case
  proof (cases "read_full 5 (ts_stream s)")
    case (Inl e)
    then show ?thesis
      by (subst record_loop.simps, subst tls_payload.simps) (simp add: chunk_ok_def)
  next
    case (Inr p)
    obtain header rest where p: "read_full 5 (ts_stream s) = Inr (header, rest)" using Inr by (cases p) auto
    define n where "n = rec_len_of header"
    note payload = tls_payload_step [OF p, folded n_def] and loop = record_loop_step [OF p, folded n_def]
    have IH: "chunk_ok (tls_payload r) (record_loop (s\<lparr>ts_stream := r\<rparr>))" if "length r \<le> length rest" for r
      using less.hyps [of "s\<lparr>ts_stream := r\<rparr>"] less.prems that read_full_length [OF p] by simp
    consider (ccs) "header ! 0 = 0x14" | (other) "header ! 0 \<noteq> 0x14" "header ! 0 \<noteq> 0x17"
      | (empty) "header ! 0 = 0x17" "n = 0" | (dry) "header ! 0 = 0x17" "n > 0" "rest = []"
      | (app) "header ! 0 = 0x17" "n > 0" "rest \<noteq> []" by fastforce
    then show ?thesis
    proof cases
      case ccs
      then show ?thesis using IH [of "drop n rest"] by (simp add: payload loop chunk_ok_def)
    next
      case empty
      then show ?thesis using IH [of rest] by (simp add: payload loop)
    next
      case app
      obtain m where m: "raw_read (min n 65536) (s\<lparr>ts_stream := rest\<rparr>) = (Inr (take m rest),
          s\<lparr>ts_stream := drop m rest, ts_script := tl (ts_script s)\<rparr>)"
        "0 < m" "m \<le> min n 65536" "m \<le> length rest"
        using raw_read_some [of "s\<lparr>ts_stream := rest\<rparr>" "min n 65536"] app by auto
      have "take n rest = take m rest @ take (n - m) (drop m rest)"
        using m(3) by (simp add: take_add [symmetric])
      moreover have "drop n rest = drop (n - m) (drop m rest)" using m(3) by simp
      moreover have "record_loop s = (Inr (take m rest),
          s\<lparr>ts_stream := drop m rest, ts_script := tl (ts_script s), ts_record_left := n - m\<rparr>)"
        using app m less.prems by (auto simp: loop min_def)
      ultimately show ?thesis
        using app m less.prems by (simp add: payload unread_def chunk_ok_def)
    qed (simp_all add: payload loop chunk_ok_def raw_read_EOF)
  qed
qed

lemma read_record_chunk_refines:
  assumes "ts_pending s = []"
  shows "chunk_ok (unread s) (read_record_chunk s)"
proof (cases "ts_record_left s = 0")
  case True
  then show ?thesis using record_loop_refines [OF True assms] assms by (simp add: read_record_chunk_def unread_def)
next
  case left: False
  define n where "n = ts_record_left s"
  show ?thesis
  proof (cases "ts_stream s = []")
    case True
    then show ?thesis using left assms by (simp add: read_record_chunk_def raw_read_EOF chunk_ok_def unread_def)
  next
    case False
    obtain m where m: "raw_read (min n 65536) s = (Inr (take m (ts_stream s)),
        s\<lparr>ts_stream := drop m (ts_stream s), ts_script := tl (ts_script s)\<rparr>)"
      "0 < m" "m \<le> min n 65536" "m \<le> length (ts_stream s)"
      using raw_read_some [of s "min n 65536"] False left by (auto simp: n_def)
    have "take n (ts_stream s) = take m (ts_stream s) @ take (n - m) (drop m (ts_stream s))"
      using m(3) by (simp add: take_add [symmetric])
    moreover have "drop n (ts_stream s) = drop (n - m) (drop m (ts_stream s))" using m(3) by simp
    ultimately show ?thesis
      using m False left assms
      by (simp add: read_record_chunk_def n_def [symmetric] chunk_ok_def unread_def)
  qed
qed

lemma tls_read_refines:
  assumes "0 < n"
  shows "case tls_read n s of
      (Inr buf, s') \<Rightarrow> buf \<noteq> [] \<and> length buf \<le> n \<and> unread s = buf @ unread s'
    | (Inl e, s') \<Rightarrow> unread s = []"
proof (cases "ts_pending s = []")
  case True
  obtain r s' where rs: "read_record_chunk s = (r, s')" by fastforce
  have ok: "chunk_ok (unread s) (r, s')" using read_record_chunk_refines [OF True] rs by simp
  show ?thesis
  proof (cases r)
    case (Inr chunk)
    then show ?thesis
      using ok rs True assms by (simp add: tls_read_def chunk_ok_def) (simp add: unread_def)
  qed (use ok rs True assms in \<open>simp add: tls_read_def chunk_ok_def\<close>)
qed (use assms in \<open>simp add: tls_read_def unread_def\<close>)

lemma wrap_tls_records_chunk:
  "data \<noteq> [] \<Longrightarrow> wrap_tls_records data =
    [0x17, 0x03, 0x03] @ be_bytes 2 (length (take tls_app_data_max data)) @ take tls_app_data_max data
      @ wrap_tls_records (drop tls_app_data_max data)"
  by (subst wrap_tls_records.simps) (simp add: append_u16be_def Let_def be_bytes_def numeral_2_eq_2)

lemma tls_payload_wrap: "tls_payload (wrap_tls_records data @ rest) = data @ tls_payload rest"
proof (induction data rule: wrap_tls_records.induct)
  case (1 data)
  show ?case
  proof (cases "data = []")
    case True
    then show ?thesis by (simp add: wrap_tls_records.simps)
  next
    case False
    define c where "c = take tls_app_data_max data"
    define d where "d = drop tls_app_data_max data"
    have cd: "data = c @ d" by (simp add: c_def d_def)
    have "length c < 65536" by (simp add: c_def tls_app_data_max_def)
    then have v: "be_val (be_bytes 2 (length c)) = length c" by (simp add: be_val_be_bytes)
    have "wrap_tls_records data = [0x17, 0x03, 0x03] @ be_bytes 2 (length c) @ c @ wrap_tls_records d"
      unfolding c_def d_def by (rule wrap_tls_records_chunk [OF False])
    then have "read_full 5 (wrap_tls_records data @ rest) =
        Inr ([0x17, 0x03, 0x03] @ be_bytes 2 (length c), c @ wrap_tls_records d @ rest)"
      using read_full_append [of 5 "[0x17, 0x03, 0x03] @ be_bytes 2 (length c)"] by simp
    from tls_payload_step(3) [OF this] show ?thesis
      using "1.IH" [OF False refl, folded d_def] by (simp add: v cd)
  qed
qed

lemma write_loop_wire:
  "write_loop framed accepts wire = (True, out) \<Longrightarrow> out = wire @ framed"
proof (induction framed accepts wire rule: write_loop.induct)
  case (1 framed accepts wire)
  then show ?case
    by (cases accepts) (auto split: if_splits write_result.splits)
qed

text \<open>A reader that calls \<open>Read\<close> with the given buffer sizes until the first error.\<close>

fun read_many :: "nat list \<Rightarrow> tls_stream \<Rightarrow> bytes \<times> bool" where
  "read_many [] s = ([], False)"
| "read_many (n # ns) s =
     (case tls_read n s of
        (Inl e, s') \<Rightarrow> ([], True)
      | (Inr buf, s') \<Rightarrow> (case read_many ns s' of (later, ended) \<Rightarrow> (buf @ later, ended)))"

lemma read_many_unread:
  assumes "\<forall>n \<in> set ns. 0 < n" "read_many ns s = (got, ended)"
  shows "\<exists>rest. unread s = got @ rest \<and> (ended \<longrightarrow> rest = []) \<and> (\<not> ended \<longrightarrow> length ns \<le> length got)"
  using assms
proof (induction ns arbitrary: s got)
  case (Cons n ns)
  have n: "0 < n" using Cons.prems(1) by simp
  obtain r s' where rs: "tls_read n s = (r, s')" by fastforce
  show ?case
  proof (cases r)
    case (Inl e)
    then show ?thesis using Cons.prems(2) rs tls_read_refines [OF n, of s] by auto
  next
    case (Inr buf)
    obtain later e where later: "read_many ns s' = (later, e)" by fastforce
    with Cons.prems obtain rest where
      "unread s' = later @ rest \<and> (e \<longrightarrow> rest = []) \<and> (\<not> e \<longrightarrow> length ns \<le> length later)"
      using Cons.IH [of s' later] rs Inr by auto
    moreover have "buf \<noteq> []" "unread s = buf @ unread s'"
      using tls_read_refines [OF n, of s] by (simp_all add: rs Inr)
    moreover have "got = buf @ later" "ended = e" using Cons.prems(2) by (simp_all add: rs Inr later)
    ultimately show ?thesis by (cases buf) auto
  qed
qed simp

text \<open>
  (C22) The Fake-TLS stream is a transparent byte pipe: if a \<open>Write\<close> of \<open>p\<close> succeeds, however many
  socket writes it took, then a peer stream that reads those bytes in any buffer sizes, with the
  socket fragmenting them in any way and with change-cipher-spec records before them, gets a prefix
  of \<open>p\<close>, gets all of \<open>p\<close> by the time a read reports an error, and makes progress with every read.
\<close>
theorem fake_tls_transparent:
  assumes "tls_write p accepts = (True, wire)" "\<forall>n \<in> set ns. 0 < n"
    and "read_many ns \<lparr>ts_stream = ccs_frame @ wire, ts_script = script, ts_pending = [], ts_record_left = 0\<rparr>
      = (got, ended)"
  shows "\<exists>rest. p = got @ rest \<and> (ended \<longrightarrow> got = p) \<and> (\<not> ended \<longrightarrow> length ns \<le> length got)"
proof -
  define s where "s = \<lparr>ts_stream = ccs_frame @ wire, ts_script = script, ts_pending = [], ts_record_left = 0\<rparr>"
  have wire: "wire = wrap_tls_records p @ []"
    using assms(1) write_loop_wire [of "wrap_tls_records p" accepts "[]" wire] by (simp add: tls_write_def)
  have "read_full 5 (ccs_frame @ wire) = Inr ([0x14, 0x03, 0x03, 0x00, 0x01], 0x01 # wire)"
    using read_full_append [of 5 "[0x14, 0x03, 0x03, 0x00, 0x01]" "0x01 # wire"] by (simp add: ccs_frame_def)
  then have "tls_payload (ccs_frame @ wire) = tls_payload wire"
    using tls_payload_step(1) [of "ccs_frame @ wire"] by (simp add: be_val_def)
  then have "unread s = p" using tls_payload_wrap [of p "[]"] by (simp add: s_def unread_def wire)
  then show ?thesis
    using read_many_unread [OF assms(2), of s got ended] assms(3) by (auto simp: s_def)
qed

theorem fake_tls_transparent_witness:
  "let s = \<lparr>ts_stream = ccs_frame @ [0x17, 0x03, 0x03, 0, 3, 7, 8, 9], ts_script = [0, 4],
      ts_pending = [], ts_record_left = 0\<rparr>
   in read_many [2, 9, 1] s = ([7, 8, 9], True)
     \<and> (\<exists>rest. [7, 8, 9] = [7, 8, 9] @ rest \<and> (True \<longrightarrow> [7, 8, 9] = ([7, 8, 9] :: bytes)))"
proof -
  have w: "tls_write [7, 8, 9] [Wrote 5, Wrote 3] = (True, [0x17, 0x03, 0x03, 0, 3, 7, 8, 9])" by code_simp
  have r: "read_many [2, 9, 1] \<lparr>ts_stream = ccs_frame @ [0x17, 0x03, 0x03, 0, 3, 7, 8, 9],
      ts_script = [0, 4], ts_pending = [], ts_record_left = 0\<rparr> = ([7, 8, 9], True)" by code_simp
  show ?thesis using fake_tls_transparent [OF w _ r] r by (simp add: Let_def)
qed

section \<open>The hello messages\<close>

lemma put32_append:
  "length a = off \<Longrightarrow> length b = 32 \<Longrightarrow> length src = 32 \<Longrightarrow> put32 (a @ b @ c) off src = a @ src @ c"
  by (simp add: put32_def)

definition hello_with :: "bytes \<Rightarrow> bytes \<Rightarrow> bytes \<Rightarrow> bytes" where
  "hello_with random sid pub =
     ([0x16, 0x03, 0x03, 0x00, 0x7a] @ [0x02, 0x00, 0x00, 0x76] @ [0x03, 0x03]) @ random @ [0x20] @ sid
     @ ([0x13, 0x01, 0x00] @ [0x00, 0x2e] @ [0x00, 0x33, 0x00, 0x24, 0x00, 0x1d, 0x00, 0x20])
     @ pub @ [0x00, 0x2b, 0x00, 0x02, 0x03, 0x04]"

lemma hello_template:
  assumes "length sid = 32" "length pub = 32"
  shows "put32 (put32 server_hello_template 44 sid) 89 pub = hello_with (replicate 32 0) sid pub"
proof -
  define a where "a = ([0x16, 0x03, 0x03, 0x00, 0x7a] @ [0x02, 0x00, 0x00, 0x76] @ [0x03, 0x03] :: bytes)"
  define m where "m = ([0x13, 0x01, 0x00] @ [0x00, 0x2e] @ [0x00, 0x33, 0x00, 0x24, 0x00, 0x1d, 0x00, 0x20] :: bytes)"
  define z where "z = ([0x00, 0x2b, 0x00, 0x02, 0x03, 0x04] :: bytes)"
  have "server_hello_template = (a @ replicate 32 0 @ [0x20]) @ replicate 32 0 @ (m @ replicate 32 0 @ z)"
    by (simp add: server_hello_template_def a_def m_def z_def)
  moreover have "put32 ((a @ replicate 32 0 @ [0x20]) @ replicate 32 0 @ (m @ replicate 32 0 @ z)) 44 sid =
      (a @ replicate 32 0 @ [0x20]) @ sid @ (m @ replicate 32 0 @ z)"
    by (rule put32_append) (use assms in \<open>simp_all add: a_def\<close>)
  moreover have "put32 ((a @ replicate 32 0 @ [0x20] @ sid @ m) @ replicate 32 0 @ z) 89 pub =
      (a @ replicate 32 0 @ [0x20] @ sid @ m) @ pub @ z"
    by (rule put32_append) (use assms in \<open>simp_all add: a_def m_def\<close>)
  ultimately have "put32 (put32 server_hello_template 44 sid) 89 pub =
      (a @ replicate 32 0 @ [0x20] @ sid @ m) @ pub @ z" by (simp only: append_assoc)
  then show ?thesis by (simp add: hello_with_def a_def m_def z_def)
qed

lemma hello_with_random:
  assumes "length random = 32" "length random' = 32"
  shows "put32 (hello_with random sid pub @ tail_part) 11 random' = hello_with random' sid pub @ tail_part"
proof -
  define a where "a = ([0x16, 0x03, 0x03, 0x00, 0x7a] @ [0x02, 0x00, 0x00, 0x76] @ [0x03, 0x03] :: bytes)"
  obtain z where z: "\<And>r. hello_with r sid pub @ tail_part = a @ r @ z"
    by (simp add: hello_with_def a_def)
  show ?thesis unfolding z by (rule put32_append) (use assms in \<open>simp_all add: a_def\<close>)
qed

text \<open>
  The forged server hello authenticates: it is the 122-byte hello record with the client's
  session id and a fresh public key, the change-cipher-spec record and one application-data record;
  its server random is the HMAC of the client random followed by the same message with a zero random,
  which is what a Telegram client recomputes.
\<close>
theorem server_hello_authentic:
  assumes "\<And>d. length (hmac secret d) = 32"
    and "length session_id = 32" "length pub = 32" "length appdata < 65536"
  shows "let r = build_server_hello hmac secret client_random session_id pub appdata in
     length r = 127 + 6 + 5 + length appdata
     \<and> take 32 (drop 11 r) = hmac secret (client_random @ put32 r 11 (replicate 32 0))
     \<and> take 32 (drop 44 r) = session_id \<and> take 32 (drop 89 r) = pub
     \<and> tls_payload (drop 127 r) = appdata"
proof -
  define app where "app = append_u16be [0x17, 0x03, 0x03] (length appdata) @ appdata"
  define mac where "mac = hmac secret (client_random @ hello_with (replicate 32 0) session_id pub @ ccs_frame @ app)"
  define r where "r = build_server_hello hmac secret client_random session_id pub appdata"
  have mac: "length mac = 32" by (simp add: mac_def assms(1))
  have r: "r = hello_with mac session_id pub @ (ccs_frame @ app)"
    using assms(2,3) mac
    by (simp add: r_def build_server_hello_def Let_def hello_template app_def [symmetric] mac_def [symmetric]
        hello_with_random)
  have zeroed: "put32 r 11 (replicate 32 0) = hello_with (replicate 32 0) session_id pub @ ccs_frame @ app"
    unfolding r by (rule hello_with_random) (simp_all add: mac)
  have len: "length (hello_with mac session_id pub) = 127"
    using assms mac by (simp add: hello_with_def)
  have "be_val (be_bytes 2 (length appdata)) = length appdata" using assms(4) by (simp add: be_val_be_bytes)
  moreover have app: "app = [0x17, 0x03, 0x03] @ be_bytes 2 (length appdata) @ appdata"
    by (simp add: app_def append_u16be_def be_bytes_def numeral_2_eq_2)
  moreover have "read_full 5 (ccs_frame @ app) = Inr ([0x14, 0x03, 0x03, 0x00, 0x01], 0x01 # app)"
    using read_full_append [of 5 "[0x14, 0x03, 0x03, 0x00, 0x01]" "0x01 # app"] by (simp add: ccs_frame_def)
  moreover have "read_full 5 app = Inr ([0x17, 0x03, 0x03] @ be_bytes 2 (length appdata), appdata)"
    using read_full_append [of 5 "[0x17, 0x03, 0x03] @ be_bytes 2 (length appdata)" appdata] by (simp add: app)
  ultimately have pay: "tls_payload (ccs_frame @ app) = appdata"
    using tls_payload_step(1) [of "ccs_frame @ app"] tls_payload_step(3) [of app]
    by (simp add: be_val_def [of "[0, 1]"])
  have "take 32 (drop 11 r) = mac" "take 32 (drop 44 r) = session_id" "take 32 (drop 89 r) = pub"
    using assms(2,3) mac by (simp_all add: r hello_with_def)
  then show ?thesis
    unfolding r_def [symmetric] Let_def zeroed mac_def [symmetric]
    using pay len by (simp add: r) (simp add: ccs_frame_def app)
qed

theorem server_hello_authentic_witness:
  "take 32 (drop 44 (build_server_hello (\<lambda>k d. replicate 32 7) [1] [2] (replicate 32 5) (replicate 32 6) [9])) =
    replicate 32 5"
  using server_hello_authentic [of "\<lambda>k d. replicate 32 7" "[1]" "replicate 32 5" "replicate 32 6" "[9]" "[2]"]
  by (simp only: Let_def length_replicate) simp

lemma map2_xor_swap:
  "length a = length b \<Longrightarrow> length b = length t \<Longrightarrow>
    map2 (XOR) a b = t \<longleftrightarrow> a = map2 (XOR) b (t :: bytes)"
proof (induction a b t rule: list_induct3)
  case (Cons x xs y ys z zs)
  have "x XOR y = z \<longleftrightarrow> x = y XOR z"
    by (metis xor.assoc xor.commute xor_self_eq xor.right_neutral)
  then show ?case using Cons by simp
qed simp

definition hello_expected :: "(bytes \<Rightarrow> bytes \<Rightarrow> bytes) \<Rightarrow> bytes \<Rightarrow> bytes \<Rightarrow> bytes" where
  "hello_expected hmac secret data = hmac secret (take 11 data @ replicate 32 0 @ drop 43 data)"

lemma masked_timestamp:
  assumes "length e = 32" "length r = 32"
  shows "(take 28 e = take 28 r \<and> P (le_val (map2 (XOR) (drop 28 r) (drop 28 e)))) \<longleftrightarrow>
    (\<exists>ts < 2 ^ 32. P ts \<and> r = take 28 e @ map2 (XOR) (drop 28 e) (le_bytes 4 ts))" (is "?L \<longleftrightarrow> ?R")
proof -
  define t where "t = map2 (XOR) (drop 28 r) (drop 28 e)"
  have t: "length t = 4" using assms by (simp add: t_def)
  have r: "r = take 28 r @ drop 28 r" by simp
  have swap: "drop 28 r = map2 (XOR) (drop 28 e) u \<longleftrightarrow> t = u" if "length u = 4" for u
    using map2_xor_swap [of "drop 28 r" "drop 28 e" u] assms that by (auto simp: t_def)
  have inv: "le_bytes 4 (le_val t) = t" using le_bytes_le_val [of t] t by simp
  have "le_val t < 2 ^ 32" using le_val_bound [of t] t by simp
  moreover have "r = take 28 e @ map2 (XOR) (drop 28 e) (le_bytes 4 ts) \<longleftrightarrow> take 28 e = take 28 r \<and> t = le_bytes 4 ts" for ts
    using swap [of "le_bytes 4 ts"] assms by (subst r, subst append_eq_append_conv) (auto simp: min_def)
  ultimately show ?thesis
    unfolding t_def [symmetric] using inv le_val_le_bytes [where k = 4] by auto
qed

text \<open>
  (C23) A client hello authenticates exactly when it is a handshake record with a client hello whose 32
  random bytes are the HMAC of the hello with those bytes zeroed, the last four of them masking a
  timestamp within 120 seconds of now; then its random and its 32-byte session id (or zeros) are
  returned. Whatever its bytes, the check does not panic.
\<close>
theorem verify_client_hello_iff:
  assumes "\<And>d. length (hmac secret d) = 32"
  shows "verify_client_hello hmac now data secret \<noteq> None \<and>
    (verify_client_hello hmac now data secret = Some (Some (random, sid)) \<longleftrightarrow>
      43 \<le> length data \<and> data ! 0 = 0x16 \<and> data ! 5 = 0x01
      \<and> random = take 32 (drop 11 data)
      \<and> sid = (if 76 \<le> length data \<and> data ! 43 = 32 then take 32 (drop 44 data) else replicate 32 0)
      \<and> (\<exists>ts < 2 ^ 32. \<bar>now - int ts\<bar> \<le> 120
          \<and> random = take 28 (hello_expected hmac secret data)
              @ map2 (XOR) (drop 28 (hello_expected hmac secret data)) (le_bytes 4 ts)))"
proof (cases "43 \<le> length data \<and> data ! 0 = 0x16 \<and> data ! 5 = 0x01")
  case False
  have "verify_client_hello hmac now data secret = Some None"
  proof (cases "length data < 43")
    case long: False
    then have "idx data 0 = Some (data ! 0)" "idx data 5 = Some (data ! 5)"
      by (auto simp: idx_def not_less)
    then show ?thesis using long False by (auto simp: verify_client_hello_def)
  qed (simp add: verify_client_hello_def)
  then show ?thesis using False by auto
next
  case True
  define e where "e = hello_expected hmac secret data"
  define r where "r = take 32 (drop 11 data)"
  define near where "near = (\<lambda>ts. \<bar>now - int ts\<bar> \<le> 120)"
  have e: "length e = 32" "hmac secret (take 11 data @ replicate 32 0 @ drop 43 data) = e"
    using assms by (simp_all add: e_def hello_expected_def)
  have r: "length r = 32" "sub data 11 43 = Some r" using True by (auto simp: r_def go_idx min_def)
  have i: "idx data 0 = Some 0x16" "idx data 5 = Some 0x01" using True by (auto simp: idx_def)
  have se: "sub e 0 28 = Some (take 28 e)" "sub e 28 32 = Some (drop 28 e)"
    using e by (simp_all add: go_idx)
  have sid: "76 \<le> length data \<Longrightarrow> sub data 44 76 = Some (take 32 (drop 44 data))"
    by (simp add: go_idx)
  have near: "(now - int n > 120 \<or> now - int n < - 120) \<longleftrightarrow> \<not> near n" for n by (auto simp: near_def)
  define s where "s = (if 76 \<le> length data \<and> data ! 43 = 32 then take 32 (drop 44 data) else replicate 32 0)"
  have eq: "verify_client_hello hmac now data secret =
      Some (if take 28 e = take 28 r \<and> near (le_val (map2 (XOR) (drop 28 r) (drop 28 e))) then Some (r, s) else None)"
    using True unfolding verify_client_hello_def Let_def e(2)
    by (simp add: i r(2) se near sid s_def)
  have "(verify_client_hello hmac now data secret = Some (Some (random, sid))) \<longleftrightarrow>
      random = r \<and> sid = s \<and> (take 28 e = take 28 r \<and> near (le_val (map2 (XOR) (drop 28 r) (drop 28 e))))"
    unfolding eq by auto
  then show ?thesis
    unfolding masked_timestamp [OF e(1) r(1), of near]
    using True eq by (auto simp: s_def r_def [symmetric] e_def [symmetric] near_def)
qed

theorem verify_client_hello_witness:
  "let hello = [0x16, 3, 1, 2, 0, 1, 0, 0, 0, 3, 3] @ replicate 28 1 @ [101, 1, 1, 1] @ [0, 0, 0] in
   verify_client_hello (\<lambda>k d. replicate 32 1) 150 hello [5] = Some (Some (replicate 28 1 @ [101, 1, 1, 1], replicate 32 0))
   \<and> (\<exists>ts < 2 ^ 32. \<bar>150 - int ts\<bar> \<le> 120)"
proof -
  have "verify_client_hello (\<lambda>k d. replicate 32 1) 150
      ([0x16, 3, 1, 2, 0, 1, 0, 0, 0, 3, 3] @ replicate 28 1 @ [101, 1, 1, 1] @ [0, 0, 0]) [5] =
    Some (Some (replicate 28 1 @ [101, 1, 1, 1], replicate 32 0))" by code_simp
  moreover have "length ((\<lambda>k d. replicate 32 (1 :: byte)) [5 :: byte] d) = 32" for d :: bytes by simp
  ultimately show ?thesis
    using verify_client_hello_iff [of "\<lambda>k d. replicate 32 1" "[5]" 150
        "[0x16, 3, 1, 2, 0, 1, 0, 0, 0, 3, 3] @ replicate 28 1 @ [101, 1, 1, 1] @ [0, 0, 0]"
        "replicate 28 1 @ [101, 1, 1, 1]" "replicate 32 0"]
    unfolding Let_def by blast
qed

end
