(* ===== verification/Go_Net.thy ===== *)
theory Go_Net
  imports Go_Strings
begin

text \<open>
  The address functions of Go's \<open>net\<close> package the source uses: \<open>ParseIP\<close>, \<open>ParseCIDR\<close>,
  \<open>IPNet.Contains\<close> and \<open>IP.Equal\<close>, byte for byte as the standard library does them (no leading
  zeros in dotted decimals, \<open>::\<close> stands for at least one group, no zones). An address is the
  16-byte form, an IPv4 address being IPv4-mapped.
\<close>

section \<open>IPv4\<close>

definition is_digit :: "char \<Rightarrow> bool" where
  "is_digit c \<longleftrightarrow> 48 \<le> (of_char c :: nat) \<and> of_char c \<le> (57 :: nat)"

definition digit_val :: "char \<Rightarrow> nat" where
  "digit_val c = of_char c - 48"

definition dec_val :: "string \<Rightarrow> nat" where
  "dec_val s = foldl (\<lambda>n c. n * 10 + digit_val c) 0 s"

definition octet_ok :: "string \<Rightarrow> bool" where
  "octet_ok s \<longleftrightarrow> s \<noteq> [] \<and> list_all is_digit s \<and> (length s > 1 \<longrightarrow> hd s \<noteq> CHR ''0'')
     \<and> length s \<le> 3 \<and> dec_val s \<le> 255"

definition parse_ipv4 :: "string \<Rightarrow> bytes option" where
  "parse_ipv4 s = (let fs = split_on CHR ''.'' s in
     if length fs = 4 \<and> list_all octet_ok fs then Some (map (\<lambda>f. byte_of (dec_val f)) fs) else None)"

definition v4_in_v6 :: "bytes \<Rightarrow> bytes" where
  "v4_in_v6 b = replicate 10 0 @ [255, 255] @ b"

section \<open>IPv6\<close>

definition hex_digit_val :: "char \<Rightarrow> nat option" where
  "hex_digit_val c = (let n = of_char c :: nat in
     if 48 \<le> n \<and> n \<le> 57 then Some (n - 48)
     else if 97 \<le> n \<and> n \<le> 102 then Some (n - 87)
     else if 65 \<le> n \<and> n \<le> 70 then Some (n - 55) else None)"

definition is_hex :: "char \<Rightarrow> bool" where
  "is_hex c \<longleftrightarrow> hex_digit_val c \<noteq> None"

definition hex_val :: "string \<Rightarrow> nat" where
  "hex_val s = foldl (\<lambda>n c. n * 16 + the (hex_digit_val c)) 0 s"

text \<open>
  The group loop: the bytes so far, where the ellipsis is, the text left. Each turn reads one to four
  hex digits; a dot hands the rest to the IPv4 reader.
\<close>

function ipv6_loop :: "bytes \<Rightarrow> nat option \<Rightarrow> string \<Rightarrow> (bytes \<times> nat option) option" where
  "ipv6_loop ip ell s =
     (if length ip \<ge> 16 then (if s = [] then Some (ip, ell) else None)
      else let g = takeWhile is_hex s; rest = dropWhile is_hex s in
        if g = [] \<or> length g > 4 then None
        else if rest \<noteq> [] \<and> hd rest = CHR ''.'' then
          (if ell = None \<and> length ip \<noteq> 12 then None
           else if length ip + 4 > 16 then None
           else case parse_ipv4 s of None \<Rightarrow> None | Some b \<Rightarrow> Some (ip @ b, ell))
        else let ip' = ip @ be_bytes 2 (hex_val g) in
          (case rest of
             [] \<Rightarrow> Some (ip', ell)
           | c # more \<Rightarrow>
               (if c \<noteq> CHR '':'' \<or> more = [] then None
                else if hd more = CHR '':'' then
                  (if ell \<noteq> None then None
                   else if tl more = [] then Some (ip', Some (length ip'))
                   else ipv6_loop ip' (Some (length ip')) (tl more))
                else ipv6_loop ip' ell more)))"
  by pat_completeness auto
termination by (relation "measure (\<lambda>(ip, ell, s). 16 - length ip)") auto

declare ipv6_loop.simps [simp del]

definition parse_ipv6 :: "string \<Rightarrow> bytes option" where
  "parse_ipv6 s =
     (if s = ''::'' then Some (replicate 16 0)
      else case (if has_prefix s ''::'' then ipv6_loop [] (Some 0) (drop 2 s) else ipv6_loop [] None s) of
        None \<Rightarrow> None
      | Some (ip, ell) \<Rightarrow>
          (if length ip < 16 then
             (case ell of None \<Rightarrow> None
              | Some e \<Rightarrow> Some (take e ip @ replicate (16 - length ip) 0 @ drop e ip))
           else if ell \<noteq> None then None else Some ip))"

text \<open>\<open>netip.ParseAddr\<close> picks the family by the first of \<open>.\<close>, \<open>:\<close> and \<open>%\<close>; a zone is refused.\<close>

datatype addr = V4 bytes | V6 bytes

definition parse_addr :: "string \<Rightarrow> addr option" where
  "parse_addr s = (case find (\<lambda>c. c \<in> set ''.:%'') s of
     None \<Rightarrow> None
   | Some c \<Rightarrow>
       (if c = CHR ''.'' then map_option V4 (parse_ipv4 s)
        else if c = CHR '':'' \<and> CHR ''%'' \<notin> set s then map_option V6 (parse_ipv6 s)
        else None))"

definition as16 :: "addr \<Rightarrow> bytes" where
  "as16 a = (case a of V4 b \<Rightarrow> v4_in_v6 b | V6 b \<Rightarrow> b)"

definition parse_ip :: "string \<Rightarrow> bytes option" where
  "parse_ip s = map_option as16 (parse_addr s)"

section \<open>Prefixes\<close>

definition cidr_mask :: "nat \<Rightarrow> nat \<Rightarrow> bytes" where
  "cidr_mask ones len = map (\<lambda>i. byte_of (256 - 2 ^ (8 - min 8 (ones - 8 * i)))) [0..<len]"

text \<open>\<open>ParseCIDR\<close>: the network number and the mask, 4 or 16 bytes each by the family.\<close>

definition parse_cidr :: "string \<Rightarrow> (bytes \<times> bytes) option" where
  "parse_cidr s =
     (case split_on CHR ''/'' s of
        a # b # more \<Rightarrow>
          (let m = join_on ''/'' (b # more) in
           case parse_addr a of
             None \<Rightarrow> None
           | Some ad \<Rightarrow>
               (let len = (case ad of V4 _ \<Rightarrow> 4 | V6 _ \<Rightarrow> 16);
                    raw = (case ad of V4 x \<Rightarrow> x | V6 x \<Rightarrow> x) in
                if m \<noteq> [] \<and> list_all is_digit m \<and> dec_val m \<le> 8 * len
                then let mk = cidr_mask (dec_val m) len in Some (map2 (and) raw mk, mk)
                else None))
      | _ \<Rightarrow> None)"

definition net_contains :: "bytes \<times> bytes \<Rightarrow> bytes \<Rightarrow> bool" where
  "net_contains n ip =
     (let (num, mk) = (case ip_to4 (fst n) of
            Some x \<Rightarrow> (x, if length (snd n) = 16 then drop 12 (snd n) else snd n)
          | None \<Rightarrow> n);
          x = (case ip_to4 ip of Some y \<Rightarrow> y | None \<Rightarrow> ip) in
      length x = length num \<and> map2 (and) num mk = map2 (and) x mk)"

text \<open>\<open>IP.Equal\<close> is equality of the 16-byte forms.\<close>

lemma parse_examples:
  "map_option ip_string (parse_ip ''192.168.1.50'') = Some ''192.168.1.50''"
  "parse_ip ''192.168.01.5'' = None" "parse_ip ''1.2.3'' = None" "parse_ip ''1.2.3.256'' = None"
  "map_option ip_string (parse_ip ''2001:DB8::1'') = Some ''2001:db8::1''"
  "map_option ip_string (parse_ip ''::ffff:10.0.0.1'') = Some ''10.0.0.1''"
  "parse_ip ''1::2::3'' = None" "parse_ip ''fe80::1%eth0'' = None" "parse_ip ''1:2:3:4:5:6:7:8:9'' = None"
  "parse_ip ''::'' = Some (replicate 16 0)" "parse_ip ''12345::'' = None" "parse_ip '''' = None"
  by code_simp+

lemma cidr_examples:
  "(case parse_cidr ''192.168.1.7/24'' of Some n \<Rightarrow> map_option (net_contains n) (parse_ip ''192.168.1.200'') | None \<Rightarrow> None) = Some True"
  "(case parse_cidr ''192.168.1.0/24'' of Some n \<Rightarrow> map_option (net_contains n) (parse_ip ''192.168.2.1'') | None \<Rightarrow> None) = Some False"
  "(case parse_cidr ''2001:db8::/33'' of Some n \<Rightarrow> map_option (net_contains n) (parse_ip ''2001:db8:7fff::5'') | None \<Rightarrow> None) = Some True"
  "(case parse_cidr ''2001:db8::/33'' of Some n \<Rightarrow> map_option (net_contains n) (parse_ip ''2001:db8:8000::5'') | None \<Rightarrow> None) = Some False"
  "parse_cidr ''10.0.0.0/33'' = None" "parse_cidr ''10.0.0.0'' = None"
  by code_simp+

end
