(* ===== verification/Zones.thy ===== *)
theory Zones
  imports Go_Net
begin

text \<open>
  The routing rules of split routing and the pure functions on them: \<open>Zone\<close> of
  \<open>internal/services/awg/config.go\<close>, \<open>internal/services/awgroute/mode.go\<close> (catch-all rules, the
  effective rule list, the firewall mode), \<open>expand.go\<close> (the expansion of rule entries) and
  \<open>subdomains.go\<close> (the subdomain policy). Geosite and geoip categories and the list files are
  parameters: a function from the category or list name to its entries.
\<close>

section \<open>Rules\<close>

record zone =
  z_waiting :: bool
  z_name :: string
  z_tunnel_id :: string
  z_fallbacks :: "string list"
  z_order :: int
  z_route :: string
  z_mode :: string
  z_domains :: "string list"
  z_subdomains :: "bool option"
  z_ips :: "string list"
  z_source_ips :: "string list"
  z_enabled :: bool

definition route_value :: "zone \<Rightarrow> string" where
  "route_value z =
     (if z_route z = ''tunnel'' \<or> z_route z = ''direct'' then z_route z
      else if z_mode z = ''exclude'' then ''direct'' else ''tunnel'')"

definition is_catch_all :: "zone \<Rightarrow> bool" where
  "is_catch_all z \<longleftrightarrow>
     list_ex (\<lambda>d. trim_space d = ''*'') (z_domains z)
     \<or> list_ex (\<lambda>ip. trim_space ip = ''0.0.0.0/0'' \<or> trim_space ip = ''::/0'') (z_ips z)"

record routing_config =
  rc_mode :: string
  rc_zones :: "zone list"
  rc_domain_source :: string

section \<open>mode.go\<close>

definition is_mask_entry :: "string \<Rightarrow> bool" where
  "is_mask_entry s = (let t = to_lower (trim_space s) in
     list_ex (\<lambda>c. c = CHR ''*'' \<or> c = CHR ''#'') t \<or> has_prefix t ''[re]'')"

definition awg_is_catch_all :: "string \<Rightarrow> bool" where
  "awg_is_catch_all s \<longleftrightarrow> trim_space s \<in> {''*'', ''0.0.0.0/0'', ''::/0''}"

definition drop_catch_all :: "string list \<Rightarrow> string list" where
  "drop_catch_all entries = filter (\<lambda>e. \<not> awg_is_catch_all e) entries"

text \<open>A rule the global walk considers: enabled, connected and not bound to source addresses.\<close>

definition global_zone :: "zone \<Rightarrow> bool" where
  "global_zone z \<longleftrightarrow> z_enabled z \<and> \<not> z_waiting z \<and> z_source_ips z = []"

fun first_catch_all_from :: "nat \<Rightarrow> zone list \<Rightarrow> int" where
  "first_catch_all_from i [] = - 1"
| "first_catch_all_from i (z # zs) =
     (if \<not> z_enabled z \<or> z_waiting z \<or> length (z_source_ips z) > 0 then first_catch_all_from (i + 1) zs
      else if is_catch_all z then int i
      else first_catch_all_from (i + 1) zs)"

definition first_catch_all :: "zone list \<Rightarrow> int" where
  "first_catch_all zs = first_catch_all_from 0 zs"

definition effective_zones :: "routing_config \<Rightarrow> zone list" where
  "effective_zones r =
     (let idx = first_catch_all (rc_zones r) in
      if idx < 0 then
        (if \<not> list_ex z_waiting (rc_zones r) then rc_zones r
         else filter (\<lambda>z. \<not> z_waiting z) (rc_zones r))
      else filter (\<lambda>z. \<not> z_waiting z) (take (nat (idx + 1)) (rc_zones r))
         @ filter (\<lambda>z. \<not> z_waiting z \<and> length (z_source_ips z) > 0) (drop (nat (idx + 1)) (rc_zones r)))"

definition zones_have_mask :: "routing_config \<Rightarrow> bool" where
  "zones_have_mask r = list_ex (\<lambda>z. z_enabled z \<and>
     list_ex (\<lambda>d. \<not> awg_is_catch_all d \<and> is_mask_entry d) (z_domains z)) (effective_zones r)"

definition uses_dns_proxy :: "routing_config \<Rightarrow> bool" where
  "uses_dns_proxy r =
     (if rc_domain_source r = ''dnsproxy'' \<or> zones_have_mask r then True
      else list_ex (\<lambda>z. (z_enabled z \<and> z_subdomains z = Some True \<and> length (z_domains z) > 0)
        \<or> (z_enabled z \<and> length (z_source_ips z) \<noteq> 0 \<and> length (z_domains z) > 0)) (effective_zones r))"

definition effective_mode :: "routing_config \<Rightarrow> string" where
  "effective_mode r =
     (if rc_mode r = ''off'' then ''off'' else if rc_mode r = ''full'' then ''full''
      else let idx = first_catch_all (rc_zones r) in
        if idx \<ge> 0 then
          (let ca = route_value (rc_zones r ! nat idx);
               earlier_opposite = list_ex (\<lambda>z. \<not> (\<not> z_enabled z \<or> z_waiting z \<or> length (z_source_ips z) > 0)
                 \<and> \<not> (length (z_domains z) = 0 \<and> length (z_ips z) = 0) \<and> route_value z \<noteq> ca)
                 (take (nat idx) (rc_zones r)) in
           if ca = ''tunnel'' then (if earlier_opposite then ''exclude'' else ''full'')
           else (if earlier_opposite then ''include'' else ''''))
        else
          (let live = filter (\<lambda>z. \<not> (\<not> z_enabled z \<or> z_waiting z \<or> (length (z_domains z) = 0 \<and> length (z_ips z) = 0))
                 \<and> \<not> length (z_source_ips z) > 0) (rc_zones r);
               has_inc = list_ex (\<lambda>z. route_value z \<noteq> ''direct'') live;
               has_exc = list_ex (\<lambda>z. route_value z = ''direct'') live in
           if has_inc then ''include'' else if has_exc then ''exclude'' else ''''))"

section \<open>Entries\<close>

definition is_ipish :: "string \<Rightarrow> bool" where
  "is_ipish s \<longleftrightarrow> (if parse_cidr s \<noteq> None then True else parse_ip s \<noteq> None)"

definition push :: "string \<Rightarrow> string list \<Rightarrow> string list" where
  "push s out = (let t = trim_space s in if t = [] then out else if t \<in> set out then out else out @ [t])"

definition push_auto :: "string \<Rightarrow> string list \<times> string list \<Rightarrow> string list \<times> string list" where
  "push_auto s = (\<lambda>(domains, ips). if is_ipish s then (domains, push s ips) else (push s domains, ips))"

definition push_domain :: "string \<Rightarrow> string list \<times> string list \<Rightarrow> string list \<times> string list" where
  "push_domain s = (\<lambda>(domains, ips). (push s domains, ips))"

record sources =
  src_geosite :: "string \<Rightarrow> string list"
  src_geoip :: "string \<Rightarrow> string list"
  src_list :: "string \<Rightarrow> string list"

definition expand_entry :: "sources \<Rightarrow> string \<Rightarrow> string list \<times> string list \<Rightarrow> string list \<times> string list" where
  "expand_entry src raw0 acc =
     (let raw = trim_space raw0; low = to_lower raw;
          arg = (\<lambda>p. trim_space (drop (length p) raw)) in
      if raw = [] then acc
      else if has_prefix low ''domain:'' then push_domain (arg ''domain:'') acc
      else if has_prefix low ''full:'' then push_domain (arg ''full:'') acc
      else if has_prefix low ''geosite:'' then fold push_auto (src_geosite src (arg ''geosite:'')) acc
      else if has_prefix low ''geoip:'' then fold push_auto (src_geoip src (arg ''geoip:'')) acc
      else if has_prefix low ''list:'' then fold push_auto (src_list src (arg ''list:'')) acc
      else if has_prefix low ''regexp:'' then
        (if arg ''regexp:'' \<noteq> [] then push_domain (''[re]'' @ arg ''regexp:'') acc else acc)
      else if has_prefix low ''keyword:'' then
        (if arg ''keyword:'' \<noteq> [] then push_domain (''*'' @ arg ''keyword:'' @ ''*'') acc else acc)
      else push_auto raw acc)"

definition expand_entries :: "sources \<Rightarrow> string list \<Rightarrow> string list \<times> string list" where
  "expand_entries src entries = fold (expand_entry src) entries ([], [])"

definition host_char :: "char \<Rightarrow> bool" where
  "host_char c = (let n = of_char c :: nat in
     (97 \<le> n \<and> n \<le> 122) \<or> (48 \<le> n \<and> n \<le> 57) \<or> c = CHR ''-'' \<or> c = CHR ''_'')"

definition routing_hostname :: "string \<Rightarrow> bool" where
  "routing_hostname name \<longleftrightarrow>
     \<not> (name = [] \<or> length name > 253 \<or> parse_ip name \<noteq> None)
     \<and> list_all (\<lambda>l. length l \<noteq> 0 \<and> length l \<le> 63 \<and> list_all host_char l) (split_on CHR ''.'' name)"

definition domain_subdomain_policy :: "string \<Rightarrow> bool \<Rightarrow> string" where
  "domain_subdomain_policy raw incl =
     (let n0 = to_lower (trim_space raw);
          n1 = (if has_prefix n0 ''full:'' then trim_space (trim_prefix n0 ''full:'')
                else if has_prefix n0 ''domain:'' then trim_space (trim_prefix n0 ''domain:'') else n0);
          n2 = trim_suffix n1 ''.'';
          n3 = (if incl \<and> has_prefix n2 ''*.'' then trim_prefix n2 ''*.'' else n2);
          name = trim_prefix n3 ''.'' in
      if \<not> routing_hostname name then raw
      else if incl then name else ''full:'' @ name)"

definition expand_zone_entries :: "sources \<Rightarrow> zone \<Rightarrow> string list \<times> string list" where
  "expand_zone_entries src z =
     (let (domains, ips) = expand_entries src (z_domains z) in
      case z_subdomains z of None \<Rightarrow> (domains, ips)
      | Some incl \<Rightarrow> (map (\<lambda>raw. domain_subdomain_policy raw incl) domains, ips))"

definition source_bound_zones :: "zone list \<Rightarrow> zone list" where
  "source_bound_zones zs = filter (\<lambda>z. z_enabled z \<and> \<not> z_waiting z \<and> length (z_source_ips z) > 0) zs"

definition source_zone_set_name :: "nat \<Rightarrow> string" where
  "source_zone_set_name i = ''awg2_z'' @ dec_digits i"

section \<open>First match wins\<close>

text \<open>
  The reference: \<open>M\<close> says which rules match a destination; the first live global rule that matches
  decides. A rule without entries matches nothing, a catch-all everything.
\<close>

definition first_route :: "(zone \<Rightarrow> bool) \<Rightarrow> zone list \<Rightarrow> string option" where
  "first_route M zs = map_option route_value (find (\<lambda>z. global_zone z \<and> M z) zs)"

definition matching_ok :: "(zone \<Rightarrow> bool) \<Rightarrow> bool" where
  "matching_ok M \<longleftrightarrow> (\<forall>z. (is_catch_all z \<longrightarrow> M z) \<and> (z_domains z = [] \<and> z_ips z = [] \<longrightarrow> \<not> M z))"

lemma first_catch_all_from:
  "(\<exists>k < length zs. first_catch_all_from i zs = int (i + k) \<and> global_zone (zs ! k) \<and> is_catch_all (zs ! k)
      \<and> (\<forall>z \<in> set (take k zs). \<not> (global_zone z \<and> is_catch_all z)))
   \<or> first_catch_all_from i zs = - 1 \<and> (\<forall>z \<in> set zs. \<not> (global_zone z \<and> is_catch_all z))"
proof (induction zs arbitrary: i)
  case (Cons z zs)
  show ?case
  proof (cases "global_zone z \<and> is_catch_all z")
    case True
    then show ?thesis by (intro disjI1 exI [of _ 0]) (simp add: global_zone_def)
  next
    case False
    then have "first_catch_all_from i (z # zs) = first_catch_all_from (i + 1) zs"
      by (auto simp: global_zone_def)
    with False Cons.IH [of "i + 1"] show ?thesis
    proof (elim disjE exE conjE)
      fix k assume "k < length zs" "first_catch_all_from (i + 1) zs = int (i + 1 + k)"
        "global_zone (zs ! k)" "is_catch_all (zs ! k)"
        "\<forall>z \<in> set (take k zs). \<not> (global_zone z \<and> is_catch_all z)"
      then show ?thesis
        using False \<open>first_catch_all_from i (z # zs) = _\<close> by (intro disjI1 exI [of _ "Suc k"]) auto
    qed auto
  qed
qed simp

lemma first_catch_all_cases [case_names catch none]:
  assumes "\<And>k. k < length zs \<Longrightarrow> first_catch_all zs = int k \<Longrightarrow> global_zone (zs ! k) \<Longrightarrow> is_catch_all (zs ! k) \<Longrightarrow>
      (\<forall>z \<in> set (take k zs). \<not> (global_zone z \<and> is_catch_all z)) \<Longrightarrow> P"
    and "first_catch_all zs = - 1 \<Longrightarrow> (\<forall>z \<in> set zs. \<not> (global_zone z \<and> is_catch_all z)) \<Longrightarrow> P"
  shows P
  using first_catch_all_from [of zs 0] assms by (auto simp: first_catch_all_def)

lemma route_value_cases: "route_value z = ''tunnel'' \<or> route_value z = ''direct''"
  by (simp add: route_value_def)

lemma first_route_split:
  assumes "k < length zs" "global_zone (zs ! k)" "M (zs ! k)"
  shows "first_route M zs = (case first_route M (take k zs) of
    Some r \<Rightarrow> Some r | None \<Rightarrow> Some (route_value (zs ! k)))"
proof -
  obtain front rear where z: "zs = front @ zs ! k # rear" "front = take k zs"
    using id_take_nth_drop [OF assms(1)] by blast
  obtain x where x: "x = zs ! k" by simp
  have "first_route M (front @ x # rear) = (case first_route M front of Some r \<Rightarrow> Some r | None \<Rightarrow> Some (route_value x))"
    using assms(2,3) x by (auto simp: first_route_def find_append split: option.split)
  then show ?thesis using z x by metis
qed

lemma first_route_None: "first_route M zs = None \<longleftrightarrow> (\<forall>z \<in> set zs. \<not> (global_zone z \<and> M z))"
  by (auto simp: first_route_def find_None_iff)

lemma first_route_Some: "first_route M zs = Some r \<Longrightarrow> \<exists>z \<in> set zs. global_zone z \<and> M z \<and> route_value z = r"
  by (auto simp: first_route_def find_Some_iff)

text \<open>
  (C13) Dropping dead rules is sound: for every way rules can match a destination, the first live rule
  of \<open>effectiveZones\<close> that matches routes it as the first one of the full list does; and rules bound to
  source addresses are all kept, in order.
\<close>
theorem effective_zones_first_match:
  assumes "matching_ok M"
  shows "first_route M (effective_zones r) = first_route M (rc_zones r)
    \<and> source_bound_zones (effective_zones r) = source_bound_zones (rc_zones r)"
proof -
  define zs where "zs = rc_zones r"
  have live: "first_route M (filter (\<lambda>z. \<not> z_waiting z) ys) = first_route M ys" for ys
    unfolding first_route_def by (subst find_filter_irrelevant) (auto simp: global_zone_def)
  have bound: "source_bound_zones (filter (\<lambda>z. \<not> z_waiting z) ys) = source_bound_zones ys" for ys
    by (auto simp: source_bound_zones_def intro!: filter_cong)
  show ?thesis
  proof (cases rule: first_catch_all_cases [of zs])
    case none
    then show ?thesis using live bound by (simp add: effective_zones_def zs_def)
  next
    case (catch k)
    define front where "front = take (Suc k) zs"
    define rear where "rear = drop (Suc k) zs"
    have eff: "effective_zones r = filter (\<lambda>z. \<not> z_waiting z) front
        @ filter (\<lambda>z. \<not> z_waiting z \<and> length (z_source_ips z) > 0) rear"
      using catch by (simp add: effective_zones_def zs_def [symmetric] front_def rear_def nat_add_distrib)
    have "zs ! k \<in> set front" using catch(1) by (auto simp: front_def in_set_conv_nth)
    then have "first_route M front \<noteq> None"
      using catch assms by (auto simp: first_route_None matching_ok_def)
    then have "find (\<lambda>z. global_zone z \<and> M z) front \<noteq> None" by (simp add: first_route_def)
    moreover have "find (\<lambda>z. global_zone z \<and> M z) (filter (\<lambda>z. \<not> z_waiting z) front) = find (\<lambda>z. global_zone z \<and> M z) front"
      by (rule find_filter_irrelevant) (simp add: global_zone_def)
    ultimately have "first_route M (effective_zones r) = first_route M (front @ rear)"
      by (auto simp: eff first_route_def find_append split: option.splits)
    moreover have "source_bound_zones (effective_zones r) = source_bound_zones (front @ rear)"
      using bound [of front] by (auto simp: eff source_bound_zones_def intro!: filter_cong)
    ultimately show ?thesis by (simp add: front_def rear_def zs_def)
  qed
qed

text \<open>
  The firewall mode means what first-match-wins says. In "full" every destination is tunnelled, in
  the empty mode none is; in "include" a destination only a catch-all (or no rule) matches is not
  tunnelled, in "exclude" such a destination is not routed directly by any rule.
\<close>
theorem effective_mode_meaning:
  assumes "matching_ok M" "rc_mode r \<noteq> ''off''" "rc_mode r \<noteq> ''full''"
  shows "(effective_mode r = ''full'' \<longrightarrow> first_route M (rc_zones r) = Some ''tunnel'')
    \<and> (effective_mode r = '''' \<longrightarrow> first_route M (rc_zones r) \<noteq> Some ''tunnel'')
    \<and> (effective_mode r = ''include'' \<and> (\<forall>z \<in> set (rc_zones r). M z \<longrightarrow> is_catch_all z)
         \<longrightarrow> first_route M (rc_zones r) \<noteq> Some ''tunnel'')
    \<and> (effective_mode r = ''exclude'' \<and> (\<forall>z \<in> set (rc_zones r). M z \<longrightarrow> is_catch_all z)
         \<longrightarrow> first_route M (rc_zones r) \<noteq> Some ''direct'')"
proof (cases rule: first_catch_all_cases [of "rc_zones r"])
  case (catch k)
  define zs where "zs = rc_zones r"
  define ca where "ca = route_value (zs ! k)"
  define opp where "opp = list_ex (\<lambda>z. \<not> (\<not> z_enabled z \<or> z_waiting z \<or> length (z_source_ips z) > 0)
      \<and> \<not> (length (z_domains z) = 0 \<and> length (z_ips z) = 0) \<and> route_value z \<noteq> ca) (take k zs)"
  have mode: "effective_mode r = (if ca = ''tunnel'' then if opp then ''exclude'' else ''full''
      else if opp then ''include'' else '''')"
    using assms(2,3) catch(2) by (simp add: effective_mode_def Let_def zs_def ca_def opp_def)
  have at: "M (zs ! k)" using catch(4) assms(1) by (simp add: matching_ok_def zs_def)
  have split: "first_route M zs = (case first_route M (take k zs) of Some x \<Rightarrow> Some x | None \<Rightarrow> Some ca)"
    unfolding ca_def using first_route_split [of k zs M] at catch by (simp add: zs_def)
  have same: "x = ca" if *: "\<not> opp" "first_route M (take k zs) = Some x" for x
  proof -
    obtain z where z: "z \<in> set (take k zs)" "global_zone z" "M z" "route_value z = x"
      using first_route_Some [OF *(2)] by blast
    then have "\<not> (z_domains z = [] \<and> z_ips z = [])" using assms(1) by (auto simp: matching_ok_def)
    then show ?thesis using *(1) z by (auto simp: opp_def list_ex_iff global_zone_def)
  qed
  have only: "first_route M zs = Some ca" if "\<forall>z \<in> set zs. M z \<longrightarrow> is_catch_all z"
  proof -
    have "first_route M (take k zs) = None"
      using that catch(5) by (auto simp: first_route_None zs_def dest: in_set_takeD)
    then show ?thesis by (simp add: split)
  qed
  show ?thesis
    using same only split route_value_cases [of "zs ! k"] unfolding mode zs_def [symmetric] ca_def [symmetric]
    by (auto split: if_splits option.splits)
next
  case none
  define zs where "zs = rc_zones r"
  define live where "live = filter (\<lambda>z. \<not> (\<not> z_enabled z \<or> z_waiting z \<or> (length (z_domains z) = 0 \<and> length (z_ips z) = 0))
      \<and> \<not> length (z_source_ips z) > 0) zs"
  have mode: "effective_mode r = (if list_ex (\<lambda>z. route_value z \<noteq> ''direct'') live then ''include''
      else if list_ex (\<lambda>z. route_value z = ''direct'') live then ''exclude'' else '''')"
    using assms(2,3) none(1) by (simp add: effective_mode_def Let_def zs_def live_def)
  have in_live: "z \<in> set live" if "z \<in> set zs" "global_zone z" "M z" for z
    using that assms(1) by (auto simp: live_def global_zone_def matching_ok_def)
  have quiet: "first_route M zs = None" if "\<forall>z \<in> set zs. M z \<longrightarrow> is_catch_all z"
    using that none(2) by (auto simp: first_route_None zs_def)
  have "first_route M zs \<noteq> Some ''tunnel''" if "\<not> list_ex (\<lambda>z. route_value z \<noteq> ''direct'') live"
  proof
    assume "first_route M zs = Some ''tunnel''"
    then obtain z where "z \<in> set live" "route_value z = ''tunnel''"
      using first_route_Some [of M zs] in_live by blast
    then show False using that by (auto simp: list_ex_iff)
  qed
  then show ?thesis
    using quiet unfolding mode zs_def [symmetric] by (auto split: if_splits)
qed

definition plain_zone :: "string \<Rightarrow> string list \<Rightarrow> string list \<Rightarrow> zone" where
  "plain_zone route domains sources =
     \<lparr>z_waiting = False, z_name = [], z_tunnel_id = ''t1'', z_fallbacks = [], z_order = 0, z_route = route,
      z_mode = [], z_domains = domains, z_subdomains = None, z_ips = [], z_source_ips = sources, z_enabled = True\<rparr>"

lemma catch_all_matching_ok: "matching_ok is_catch_all"
  by (simp add: matching_ok_def is_catch_all_def)

theorem effective_zones_first_match_witness:
  "first_route is_catch_all (effective_zones \<lparr>rc_mode = ''zones'',
      rc_zones = [plain_zone ''direct'' [''a.b''] [], plain_zone ''tunnel'' [''*''] [], plain_zone ''direct'' [''*''] []],
      rc_domain_source = []\<rparr>) = Some ''tunnel''"
  (is "first_route _ (effective_zones ?r) = _")
proof -
  have "first_route is_catch_all (rc_zones ?r) = Some ''tunnel''" by code_simp
  then show ?thesis using effective_zones_first_match [OF catch_all_matching_ok, of ?r] by simp
qed

theorem effective_mode_meaning_witness:
  "first_route is_catch_all [plain_zone ''direct'' [''*''] [''10.0.0.1''], plain_zone ''direct'' [''a.b''] [],
     plain_zone ''tunnel'' [''*''] []] \<noteq> Some ''direct''"
proof -
  let ?r = "\<lparr>rc_mode = ''zones'', rc_zones = [plain_zone ''direct'' [''*''] [''10.0.0.1''],
    plain_zone ''direct'' [''a.b''] [], plain_zone ''tunnel'' [''*''] []], rc_domain_source = []\<rparr>"
  have "effective_mode ?r = ''exclude''" by code_simp
  then show ?thesis using effective_mode_meaning [OF catch_all_matching_ok, of ?r] by simp
qed

end
