(* ===== verification/Domain_Match.thy ===== *)
theory Domain_Match
  imports Go_Strings
begin

text \<open>
  \<open>internal/services/awg/match.go\<close>: the zone entries of split routing and their compiled form, a
  trie of reversed bases beside the regular expressions and the exact names.

  Go's regular expressions are a parameter, the record \<open>'r regex_engine\<close>; what the deduplication
  relies on is the named hypothesis \<open>regex_ok\<close>: \<open>String\<close> returns the compiled text, two expressions
  of the same text match the same names, and a quoted literal followed by \<open>$\<close> matches the names that
  end with it. \<open>MustCompile\<close> is only called on the texts \<open>globToRegexp\<close> builds, which always compile.
\<close>

section \<open>Regular expressions\<close>

record 'r regex_engine =
  rx_compile :: "string \<Rightarrow> 'r option"
  rx_must_compile :: "string \<Rightarrow> 'r"
  rx_source :: "'r \<Rightarrow> string"
  rx_matches :: "'r \<Rightarrow> string \<Rightarrow> bool"
  rx_literal_prefix :: "'r \<Rightarrow> string"

definition meta_chars :: "char set" where
  "meta_chars = set (char_of (92 :: nat) # ''.+*?()|[]{}^$'')"

definition quote_meta :: "string \<Rightarrow> string" where
  "quote_meta s = concat (map (\<lambda>c. if c \<in> meta_chars then [char_of (92 :: nat), c] else [c]) s)"

definition regex_ok :: "'r regex_engine \<Rightarrow> bool" where
  "regex_ok R \<longleftrightarrow>
     (\<forall>e r. rx_compile R e = Some r \<longrightarrow> rx_source R r = e)
   \<and> (\<forall>e. rx_source R (rx_must_compile R e) = e)
   \<and> (\<forall>r r' n. rx_source R r = rx_source R r' \<longrightarrow> rx_matches R r n = rx_matches R r' n)
   \<and> (\<forall>r lit n. rx_source R r = quote_meta lit @ ''$'' \<longrightarrow> rx_matches R r n = has_suffix n lit)"

section \<open>One entry\<close>

record 'r domain_matcher =
  dm_raw :: string
  dm_re :: "'r option"
  dm_base :: string
  dm_exact :: bool

datatype matcher_error = EmptyPattern | EmptyExactName | EmptyRegexp | BadRegexp

definition normalized_name :: "string \<Rightarrow> string" where
  "normalized_name name = trim_suffix (to_lower (trim_space name)) ''.''"

definition glob_to_regexp :: "string \<Rightarrow> string" where
  "glob_to_regexp glob =
     ''^'' @ concat (map (\<lambda>c. if c = CHR ''*'' then ''.*'' else if c = CHR ''#'' then ''.''
                              else quote_meta [c]) glob) @ ''$''"

definition new_domain_matcher :: "'r regex_engine \<Rightarrow> string \<Rightarrow> matcher_error + 'r domain_matcher" where
  "new_domain_matcher R pattern =
     (let m = \<lparr>dm_raw = pattern, dm_re = None, dm_base = [], dm_exact = False\<rparr>;
          p = to_lower (trim_space pattern) in
      if p = [] then Inl EmptyPattern
      else if has_prefix p ''full:'' then
        (let base = normalized_name (trim_prefix p ''full:'') in
         if base = [] then Inl EmptyExactName else Inr (m\<lparr>dm_base := base, dm_exact := True\<rparr>))
      else if has_prefix p ''[re]'' then
        (let expr = trim_space (trim_prefix p ''[re]'') in
         if expr = [] then Inl EmptyRegexp
         else case rx_compile R expr of None \<Rightarrow> Inl BadRegexp | Some re \<Rightarrow> Inr (m\<lparr>dm_re := Some re\<rparr>))
      else if list_ex (\<lambda>c. c = CHR ''*'' \<or> c = CHR ''#'') p then
        Inr (m\<lparr>dm_re := Some (rx_must_compile R (glob_to_regexp p))\<rparr>)
      else Inr (m\<lparr>dm_base := trim_prefix p ''.''\<rparr>))"

definition match_lower :: "'r regex_engine \<Rightarrow> 'r domain_matcher \<Rightarrow> string \<Rightarrow> bool" where
  "match_lower R m n =
     (if n = [] then False
      else case dm_re m of
        Some re \<Rightarrow> rx_matches R re n
      | None \<Rightarrow>
        (if dm_base m = [] then False
         else if n = dm_base m then True
         else if dm_exact m then False
         else let bl = length (dm_base m) in
           if length n \<le> bl then False
           else n ! (length n - bl - 1) = CHR ''.'' \<and> drop (length n - bl) n = dm_base m))"

definition match_name :: "'r regex_engine \<Rightarrow> 'r domain_matcher \<Rightarrow> string \<Rightarrow> bool" where
  "match_name R m name = match_lower R m (trim_suffix (to_lower (trim_space name)) ''.'')"

fun compile_matchers :: "'r regex_engine \<Rightarrow> string list \<Rightarrow> 'r domain_matcher list \<times> string list" where
  "compile_matchers R [] = ([], [])"
| "compile_matchers R (e # es) =
     (if trim_space e = [] then compile_matchers R es
      else case (new_domain_matcher R e, compile_matchers R es) of
        (Inr m, ms, bad) \<Rightarrow> (m # ms, bad)
      | (Inl _, ms, bad) \<Rightarrow> (ms, e # bad))"

section \<open>The suffix trie\<close>

datatype suffix_trie = SuffixTrie (trie_end: bool) (trie_children: "char \<Rightarrow> suffix_trie option")

definition new_suffix_trie :: suffix_trie where
  "new_suffix_trie = SuffixTrie False (\<lambda>_. None)"

text \<open>The walks from the last byte to the first are recursions on the reversed name.\<close>

fun add_rev :: "suffix_trie \<Rightarrow> string \<Rightarrow> suffix_trie" where
  "add_rev (SuffixTrie e ch) [] = SuffixTrie True ch"
| "add_rev (SuffixTrie e ch) (c # cs) =
     SuffixTrie e (ch(c := Some (add_rev (case ch c of None \<Rightarrow> new_suffix_trie | Some t \<Rightarrow> t) cs)))"

definition add_base :: "suffix_trie \<Rightarrow> string \<Rightarrow> suffix_trie" where
  "add_base t base = (if base = [] then t else add_rev t (rev base))"

fun match_rev :: "suffix_trie \<Rightarrow> string \<Rightarrow> bool" where
  "match_rev t [] = False"
| "match_rev t (c # cs) =
     (case trie_children t c of
        None \<Rightarrow> False
      | Some nxt \<Rightarrow>
          (if trie_end nxt \<and> (cs = [] \<or> hd cs = CHR ''.'') then True else match_rev nxt cs))"

definition trie_match :: "suffix_trie \<Rightarrow> string \<Rightarrow> bool" where
  "trie_match t name = match_rev t (rev name)"

section \<open>The matcher set\<close>

record 'r matcher_set =
  ms_trie :: suffix_trie
  ms_regexes :: "'r domain_matcher list"
  ms_plain_count :: nat
  ms_exact :: "string list"

definition match_any :: "'r regex_engine \<Rightarrow> 'r matcher_set option \<Rightarrow> string \<Rightarrow> bool" where
  "match_any R s name =
     (case s of None \<Rightarrow> False
      | Some s \<Rightarrow>
        (let n = normalized_name name in
         if n = [] then False
         else if trie_match (ms_trie s) n then True
         else if n \<in> set (ms_exact s) then True
         else list_ex (\<lambda>m. match_lower R m n) (ms_regexes s)))"

definition set_len :: "'r matcher_set option \<Rightarrow> nat" where
  "set_len s = (case s of None \<Rightarrow> 0
     | Some s \<Rightarrow> ms_plain_count s + length (ms_regexes s) + length (ms_exact s))"

text \<open>
  The pools of \<open>CompileMatcherSet\<close>: plain entries and expressions, first occurrence of each base
  and of each source kept, and the set of exact names (a duplicate-free list; the source's map has
  no order).
\<close>

definition split_pool :: "'r regex_engine \<Rightarrow> 'r domain_matcher \<Rightarrow>
    'r domain_matcher list \<times> 'r domain_matcher list \<times> string list \<Rightarrow>
    'r domain_matcher list \<times> 'r domain_matcher list \<times> string list" where
  "split_pool R m = (\<lambda>(plains, regexes, exact).
     case dm_re m of
       Some re \<Rightarrow>
         (if \<exists>m' \<in> set regexes. map_option (rx_source R) (dm_re m') = Some (rx_source R re)
          then (plains, regexes, exact) else (plains, regexes @ [m], exact))
     | None \<Rightarrow>
         (if dm_base m = [] then (plains, regexes, exact)
          else if dm_exact m then (plains, regexes, List.insert (dm_base m) exact)
          else if dm_base m \<in> dm_base ` set plains then (plains, regexes, exact)
          else (plains @ [m], regexes, exact)))"

definition literal_suffixes :: "'r regex_engine \<Rightarrow> 'r domain_matcher list \<Rightarrow> string list" where
  "literal_suffixes R regexes =
     concat (map (\<lambda>m. case dm_re m of None \<Rightarrow> []
       | Some re \<Rightarrow> (let lit = rx_literal_prefix R re in
           if lit \<noteq> [] \<and> rx_source R re = quote_meta lit @ ''$'' then [lit] else [])) regexes)"

definition keep_plain :: "string list \<Rightarrow> 'r domain_matcher \<Rightarrow> suffix_trie \<times> nat \<Rightarrow> suffix_trie \<times> nat" where
  "keep_plain lits p = (\<lambda>(t, kept).
     if trie_match t (dm_base p) then (t, kept)
     else if list_ex (has_suffix (dm_base p)) lits then (t, kept)
     else (add_base t (dm_base p), kept + 1))"

definition compile_matcher_set :: "'r regex_engine \<Rightarrow> string list \<Rightarrow> 'r matcher_set \<times> string list" where
  "compile_matcher_set R entries =
     (let (ms, bad) = compile_matchers R entries;
          (plains, regexes, exact) = fold (split_pool R) ms ([], [], []);
          lits = literal_suffixes R regexes;
          (t, kept) = fold (keep_plain lits) (sort_key (\<lambda>m. length (dm_base m)) plains) (new_suffix_trie, 0);
          exact' = filter (\<lambda>n. \<not> trie_match t n
            \<and> \<not> list_ex (\<lambda>m. case dm_re m of None \<Rightarrow> False | Some re \<Rightarrow> rx_matches R re n) regexes) exact
      in (\<lparr>ms_trie = t, ms_regexes = regexes, ms_plain_count = kept, ms_exact = exact'\<rparr>, bad))"

section \<open>The contract of a set of plain domains\<close>

text \<open>A base covers itself and its subdomains.\<close>

definition covers :: "string \<Rightarrow> string \<Rightarrow> bool" where
  "covers base n \<longleftrightarrow> n = base \<or> has_suffix n (CHR ''.'' # base)"

lemma covers_trans: "covers a b \<Longrightarrow> covers b n \<Longrightarrow> covers a n"
proof -
  assume a: "covers a b" "covers b n"
  show "covers a n"
  proof (cases "n = b \<or> b = a")
    case False
    then have "has_suffix n (CHR ''.'' # b)" "has_suffix b (CHR ''.'' # a)" using a by (auto simp: covers_def)
    then obtain s t where "n = s @ CHR ''.'' # b" "b = t @ CHR ''.'' # a" by (auto simp: has_suffix_iff)
    then have "n = (s @ CHR ''.'' # t) @ CHR ''.'' # a" by simp
    then show ?thesis by (auto simp: covers_def has_suffix_iff simp del: append_assoc)
  qed (use a in auto)
qed

lemma covers_suffix:
  assumes "covers b n" "has_suffix b lit" shows "has_suffix n lit"
proof -
  obtain t where "b = t @ lit" using assms(2) by (auto simp: has_suffix_iff)
  moreover have "\<exists>u. n = u @ b"
    using assms(1) by (auto simp: covers_def has_suffix_iff)
  ultimately show ?thesis by (auto simp: has_suffix_iff)
qed

lemma match_lower_plain:
  assumes "dm_re m = None" "dm_base m \<noteq> []" "n \<noteq> []"
  shows "match_lower R m n \<longleftrightarrow> (if dm_exact m then n = dm_base m else covers (dm_base m) n)"
proof -
  define b where "b = dm_base m"
  have "has_suffix n (CHR ''.'' # b) \<longleftrightarrow>
      length b < length n \<and> n ! (length n - length b - 1) = CHR ''.'' \<and> drop (length n - length b) n = b"
  proof (cases "length b < length n")
    case True
    define k where "k = length n - length b - 1"
    have "k < length n" "Suc k = length n - length b" using True by (auto simp: k_def)
    then have "drop k n = n ! k # drop (length n - length b) n" by (metis Cons_nth_drop_Suc)
    then show ?thesis using True by (auto simp: has_suffix_def k_def)
  qed (auto simp: has_suffix_def)
  then show ?thesis
    using assms unfolding b_def by (auto simp: match_lower_def covers_def Let_def)
qed

locale plain_domain_set =
  fixes empty_set :: 's and add_domain :: "'s \<Rightarrow> string \<Rightarrow> 's" and member :: "'s \<Rightarrow> string \<Rightarrow> bool"
  assumes member_empty: "\<not> member empty_set n"
    and member_add: "b \<noteq> [] \<Longrightarrow> n \<noteq> [] \<Longrightarrow> member (add_domain s b) n \<longleftrightarrow> member s n \<or> covers b n"
begin

definition holds :: "'s \<Rightarrow> string set \<Rightarrow> bool" where
  "holds s B \<longleftrightarrow> (\<forall>n. n \<noteq> [] \<longrightarrow> member s n = (\<exists>b \<in> B. covers b n))"

lemma holds_empty: "holds empty_set {}"
  by (simp add: holds_def member_empty)

lemma holds_add: "b \<noteq> [] \<Longrightarrow> holds s B \<Longrightarrow> holds (add_domain s b) (insert b B)"
  by (auto simp: holds_def member_add)

text \<open>
  Skipping bases that are members, or that a condition \<open>P\<close> covers together with all their
  subdomains, keeps the union of what the set and the condition answer.
\<close>

lemma fold_skip:
  assumes "holds s B" "\<forall>b \<in> set bs. b \<noteq> []"
    and "\<And>b n. P b \<Longrightarrow> covers b n \<Longrightarrow> P n"
  shows "\<exists>B'. holds (fold (\<lambda>b s. if member s b \<or> P b then s else add_domain s b) bs s) B'
    \<and> (\<forall>n. (\<exists>b \<in> B'. covers b n) \<or> P n \<longleftrightarrow> (\<exists>b \<in> B \<union> set bs. covers b n) \<or> P n)"
  using assms(1,2)
proof (induction bs arbitrary: s B)
  case (Cons b bs)
  have b: "b \<noteq> []" using Cons.prems by simp
  show ?case
  proof (cases "member s b \<or> P b")
    case True
    then have "(\<exists>a \<in> B. covers a b) \<or> P b" using Cons.prems(1) b by (auto simp: holds_def)
    then have same: "(\<exists>a \<in> insert b B. covers a n) \<or> P n \<longleftrightarrow> (\<exists>a \<in> B. covers a n) \<or> P n" for n
      using covers_trans [of _ b n] assms(3) [of b n] by blast
    have "\<exists>B'. holds (fold (\<lambda>b s. if member s b \<or> P b then s else add_domain s b) bs s) B'
      \<and> (\<forall>n. (\<exists>b \<in> B'. covers b n) \<or> P n \<longleftrightarrow> (\<exists>b \<in> B \<union> set bs. covers b n) \<or> P n)"
      using Cons.prems by (intro Cons.IH) auto
    then obtain B' where B': "holds (fold (\<lambda>b s. if member s b \<or> P b then s else add_domain s b) bs s) B'"
      "\<And>n. (\<exists>b \<in> B'. covers b n) \<or> P n \<longleftrightarrow> (\<exists>b \<in> B \<union> set bs. covers b n) \<or> P n" by blast
    have "(\<exists>b \<in> B'. covers b n) \<or> P n \<longleftrightarrow> (\<exists>a \<in> B \<union> set (b # bs). covers a n) \<or> P n" for n
      using B'(2) [of n] same [of n] by auto
    then show ?thesis using True B'(1) by (intro exI [of _ B']) simp
  next
    case False
    have "\<exists>B'. holds (fold (\<lambda>b s. if member s b \<or> P b then s else add_domain s b) bs (add_domain s b)) B'
      \<and> (\<forall>n. (\<exists>b \<in> B'. covers b n) \<or> P n \<longleftrightarrow> (\<exists>b \<in> insert b B \<union> set bs. covers b n) \<or> P n)"
      using Cons.prems holds_add [OF b] by (intro Cons.IH) auto
    then show ?thesis using False by simp
  qed
qed auto

end

section \<open>The trie meets the contract\<close>

lemma match_rev_new [simp]: "\<not> match_rev new_suffix_trie cs"
  by (cases cs) (simp_all add: new_suffix_trie_def)

lemma trie_end_new [simp]: "\<not> trie_end new_suffix_trie"
  by (simp add: new_suffix_trie_def)

lemma match_rev_end: "match_rev (SuffixTrie e ch) cs = match_rev (SuffixTrie e' ch) cs"
  by (cases cs) auto

definition rev_covers :: "string \<Rightarrow> string \<Rightarrow> bool" where
  "rev_covers b n \<longleftrightarrow> (\<exists>t. n = b @ t \<and> (t = [] \<or> hd t = CHR ''.''))"

lemma match_rev_add:
  assumes "b \<noteq> []" shows "match_rev (add_rev t b) n \<longleftrightarrow> match_rev t n \<or> rev_covers b n"
  using assms
proof (induction b arbitrary: t n)
  case (Cons c cs)
  obtain e ch where t: "t = SuffixTrie e ch" by (cases t)
  define old where "old = (case ch c of None \<Rightarrow> new_suffix_trie | Some t \<Rightarrow> t)"
  show ?case
  proof (cases n)
    case (Cons d ds)
    show ?thesis
    proof (cases "d = c")
      case True
      have "(trie_end (add_rev old cs) \<and> (ds = [] \<or> hd ds = CHR ''.'')) \<or> match_rev (add_rev old cs) ds \<longleftrightarrow>
          (trie_end old \<and> (ds = [] \<or> hd ds = CHR ''.'')) \<or> match_rev old ds \<or> rev_covers cs ds"
      proof (cases cs)
        case Nil
        then show ?thesis by (cases old) (auto simp: rev_covers_def intro: match_rev_end [THEN iffD1])
      next
        case (Cons c' cs')
        then have "trie_end (add_rev old cs) = trie_end old" by (cases old) simp
        moreover have "cs \<noteq> []" using Cons by simp
        ultimately show ?thesis using Cons.IH [of old ds] by blast
      qed
      moreover have "match_rev (add_rev t (c # cs)) n \<longleftrightarrow>
          (trie_end (add_rev old cs) \<and> (ds = [] \<or> hd ds = CHR ''.'')) \<or> match_rev (add_rev old cs) ds"
        using Cons True t by (auto simp: old_def)
      moreover have "match_rev t n \<longleftrightarrow> (trie_end old \<and> (ds = [] \<or> hd ds = CHR ''.'')) \<or> match_rev old ds"
        using Cons True t by (cases "ch c") (auto simp: old_def)
      moreover have "rev_covers (c # cs) n \<longleftrightarrow> rev_covers cs ds"
        using Cons True by (simp add: rev_covers_def)
      ultimately show ?thesis by blast
    next
      case False
      then show ?thesis using Cons t by (auto simp: rev_covers_def)
    qed
  qed (auto simp: t rev_covers_def)
qed simp

lemma rev_covers_rev: "rev_covers (rev b) (rev n) \<longleftrightarrow> covers b n"
proof
  assume "rev_covers (rev b) (rev n)"
  then obtain t where t: "rev n = rev b @ t" "t = [] \<or> hd t = CHR ''.''" by (auto simp: rev_covers_def)
  then have "n = rev t @ b" by (metis rev_append rev_rev_ident)
  then show "covers b n" using t(2) by (cases t) (auto simp: covers_def has_suffix_iff)
next
  assume "covers b n"
  then consider "n = b" | t where "n = t @ CHR ''.'' # b" by (auto simp: covers_def has_suffix_iff)
  then show "rev_covers (rev b) (rev n)" by cases (simp_all add: rev_covers_def)
qed

lemma trie_match_add:
  "b \<noteq> [] \<Longrightarrow> trie_match (add_base t b) n \<longleftrightarrow> trie_match t n \<or> covers b n"
  by (simp add: trie_match_def add_base_def match_rev_add rev_covers_rev)

interpretation trie: plain_domain_set new_suffix_trie add_base trie_match
  by unfold_locales (simp_all add: trie_match_add, simp add: trie_match_def)

section \<open>The compiled set answers like the entries\<close>

lemma compile_matchers_shape:
  assumes "m \<in> set (fst (compile_matchers R es))"
  shows "dm_re m = None \<or> dm_base m = []"
  using assms
  by (induction es)
    (auto simp: new_domain_matcher_def Let_def split: if_splits sum.splits option.splits prod.splits)

text \<open>What the three pools stand for: a plain, an expression or an exact entry that answers.\<close>

definition pools_answer :: "'r regex_engine \<Rightarrow>
    'r domain_matcher list \<times> 'r domain_matcher list \<times> string list \<Rightarrow> string \<Rightarrow> bool" where
  "pools_answer R pools n = (case pools of (plains, regexes, exact) \<Rightarrow>
     (\<exists>m \<in> set plains. covers (dm_base m) n) \<or> (\<exists>m \<in> set regexes. match_lower R m n) \<or> n \<in> set exact)"

definition pools_ok :: "'r domain_matcher list \<times> 'r domain_matcher list \<times> string list \<Rightarrow> bool" where
  "pools_ok pools = (case pools of (plains, regexes, exact) \<Rightarrow>
     (\<forall>m \<in> set plains. dm_re m = None \<and> dm_base m \<noteq> []) \<and> (\<forall>m \<in> set regexes. dm_re m \<noteq> None))"

lemma regex_same_source:
  "regex_ok R \<Longrightarrow> rx_source R r = rx_source R r' \<Longrightarrow> rx_matches R r n = rx_matches R r' n"
  unfolding regex_ok_def by blast

lemma regex_suffix:
  "regex_ok R \<Longrightarrow> rx_source R r = quote_meta lit @ ''$'' \<Longrightarrow> rx_matches R r n = has_suffix n lit"
  unfolding regex_ok_def by blast

lemma split_pool_answers:
  assumes "regex_ok R" "n \<noteq> []" "pools_ok pools"
  shows "pools_ok (split_pool R m pools) \<and>
    (pools_answer R (split_pool R m pools) n \<longleftrightarrow> match_lower R m n \<or> pools_answer R pools n)"
proof -
  obtain plains regexes exact where p: "pools = (plains, regexes, exact)" by (cases pools)
  show ?thesis
  proof (cases "dm_re m")
    case (Some re)
    show ?thesis
    proof (cases "\<exists>m' \<in> set regexes. map_option (rx_source R) (dm_re m') = Some (rx_source R re)")
      case True
      then obtain m' r' where m': "m' \<in> set regexes" "dm_re m' = Some r'" "rx_source R r' = rx_source R re" by auto
      then have "match_lower R m n = match_lower R m' n"
        using Some regex_same_source [OF assms(1) m'(3), of n] by (simp add: match_lower_def)
      moreover have "split_pool R m pools = pools" using True Some by (simp add: split_pool_def p)
      ultimately show ?thesis using m'(1) assms(3) by (auto simp: p pools_answer_def)
    qed (use assms(3) Some in \<open>auto simp: split_pool_def p pools_answer_def pools_ok_def\<close>)
  next
    case None
    show ?thesis
    proof (cases "dm_base m = []")
      case True
      then show ?thesis using assms(2,3) None by (simp add: split_pool_def p match_lower_def)
    next
      case False
      then have "match_lower R m n \<longleftrightarrow> (if dm_exact m then n = dm_base m else covers (dm_base m) n)"
        using match_lower_plain None assms(2) by blast
      then show ?thesis
        using None False assms(3) by (auto simp: split_pool_def p pools_answer_def pools_ok_def)
    qed
  qed
qed

lemma fold_pools_answer:
  assumes "regex_ok R" "n \<noteq> []" "pools_ok pools"
  shows "pools_ok (fold (split_pool R) ms pools) \<and>
    (pools_answer R (fold (split_pool R) ms pools) n \<longleftrightarrow>
      (\<exists>m \<in> set ms. match_lower R m n) \<or> pools_answer R pools n)"
  using assms(3)
proof (induction ms arbitrary: pools)
  case (Cons m ms)
  show ?case
    using Cons.IH [of "split_pool R m pools"] split_pool_answers [OF assms(1,2) Cons.prems, of m] by auto
qed simp

lemma literal_suffix_matches:
  assumes "regex_ok R" "lit \<in> set (literal_suffixes R regexes)" "has_suffix n lit" "n \<noteq> []"
  shows "\<exists>m \<in> set regexes. match_lower R m n"
proof -
  obtain m re where m: "m \<in> set regexes" "dm_re m = Some re" "rx_source R re = quote_meta lit @ ''$''"
  proof -
    obtain m where "m \<in> set regexes" "lit \<in> set (case dm_re m of None \<Rightarrow> []
       | Some re \<Rightarrow> (let lit = rx_literal_prefix R re in
           if lit \<noteq> [] \<and> rx_source R re = quote_meta lit @ ''$'' then [lit] else []))"
      using assms(2) by (auto simp: literal_suffixes_def)
    then show ?thesis using that by (cases "dm_re m") (auto simp: Let_def split: if_splits)
  qed
  then have "rx_matches R re n" using regex_suffix [OF assms(1)] assms(3) by blast
  then show ?thesis using m assms(4) by (intro bexI [of _ m]) (simp_all add: match_lower_def)
qed

lemma keep_plain_trie:
  "fst (fold (keep_plain lits) ps (t, k)) =
    fold (\<lambda>b t. if trie_match t b \<or> list_ex (has_suffix b) lits then t else add_base t b) (map dm_base ps) t"
  by (induction ps arbitrary: t k) (auto simp: keep_plain_def)

lemma match_any_scan:
  assumes "regex_ok R"
  shows "match_any R (Some (fst (compile_matcher_set R entries))) name =
    list_ex (\<lambda>m. match_name R m name) (fst (compile_matchers R entries))"
proof (cases "normalized_name name = []")
  case True
  then show ?thesis
    by (auto simp: match_any_def match_name_def normalized_name_def match_lower_def list_ex_iff Let_def)
next
  case False
  define n where "n = normalized_name name"
  obtain ms bad where ms: "compile_matchers R entries = (ms, bad)" by fastforce
  obtain plains regexes exact where pools: "fold (split_pool R) ms ([], [], []) = (plains, regexes, exact)"
    by (metis prod_cases3)
  define lits where "lits = literal_suffixes R regexes"
  define sorted where "sorted = sort_key (\<lambda>m. length (dm_base m)) plains"
  obtain t kept where t: "fold (keep_plain lits) sorted (new_suffix_trie, 0) = (t, kept)" by fastforce
  define rx where "rx = (\<lambda>n. \<exists>m \<in> set regexes. match_lower R m n)"
  define suf where "suf = (\<lambda>b. list_ex (has_suffix b) lits)"
  have n: "n \<noteq> []" using False by (simp add: n_def)
  have ok: "pools_ok (plains, regexes, exact)"
    and scan: "pools_answer R (plains, regexes, exact) n \<longleftrightarrow> (\<exists>m \<in> set ms. match_lower R m n)"
    using fold_pools_answer [OF assms n, of "([], [], [])" ms] by (simp_all add: pools pools_ok_def pools_answer_def)
  have suf_closed: "suf n'" if "suf b" "covers b n'" for b n'
    using that covers_suffix by (auto simp: suf_def list_ex_iff)
  have suf_rx: "suf n \<Longrightarrow> rx n"
    using literal_suffix_matches [OF assms] n by (auto simp: suf_def rx_def lits_def list_ex_iff)
  have "t = fold (\<lambda>b t. if trie_match t b \<or> suf b then t else add_base t b) (map dm_base sorted) new_suffix_trie"
    using keep_plain_trie [of lits sorted new_suffix_trie 0] t by (simp add: suf_def)
  moreover have "\<forall>b \<in> set (map dm_base sorted). b \<noteq> []"
    using ok by (auto simp: sorted_def pools_ok_def)
  ultimately have "\<exists>B. trie.holds t B \<and> (\<forall>n. (\<exists>b \<in> B. covers b n) \<or> suf n \<longleftrightarrow> (\<exists>b \<in> {} \<union> set (map dm_base sorted). covers b n) \<or> suf n)"
    using trie.fold_skip [OF trie.holds_empty, of "map dm_base sorted" suf] suf_closed by blast
  then obtain B where B: "trie.holds t B"
      "\<And>n. (\<exists>b \<in> B. covers b n) \<or> suf n \<longleftrightarrow> (\<exists>b \<in> {} \<union> set (map dm_base sorted). covers b n) \<or> suf n"
    by blast
  have trie: "trie_match t n \<or> rx n \<longleftrightarrow> (\<exists>m \<in> set plains. covers (dm_base m) n) \<or> rx n"
  proof -
    have "trie_match t n = (\<exists>b \<in> B. covers b n)" using B(1) n by (simp add: trie.holds_def)
    moreover have "(\<exists>b \<in> {} \<union> set (map dm_base sorted). covers b n) = (\<exists>m \<in> set plains. covers (dm_base m) n)"
      by (simp add: sorted_def)
    ultimately show ?thesis using B(2) [of n] suf_rx by argo
  qed
  define dead where "dead = (\<lambda>n. trie_match t n \<or>
    list_ex (\<lambda>m. case dm_re m of None \<Rightarrow> False | Some re \<Rightarrow> rx_matches R re n) regexes)"
  have dead: "dead n \<longleftrightarrow> trie_match t n \<or> rx n"
  proof -
    have "(case dm_re m of None \<Rightarrow> False | Some re \<Rightarrow> rx_matches R re n) = match_lower R m n" if "m \<in> set regexes" for m
      using ok n that by (auto simp: match_lower_def pools_ok_def split: option.splits)
    then show ?thesis by (auto simp: dead_def rx_def list_ex_iff)
  qed
  have set_def: "fst (compile_matcher_set R entries) =
      \<lparr>ms_trie = t, ms_regexes = regexes, ms_plain_count = kept, ms_exact = filter (\<lambda>n. \<not> dead n) exact\<rparr>"
    by (simp add: compile_matcher_set_def ms pools lits_def [symmetric] sorted_def [symmetric] t Let_def dead_def)
  have "match_any R (Some (fst (compile_matcher_set R entries))) name \<longleftrightarrow>
      trie_match t n \<or> (n \<in> set exact \<and> \<not> dead n) \<or> rx n"
    using n by (auto simp: match_any_def Let_def n_def [symmetric] set_def rx_def list_ex_iff)
  also have "\<dots> \<longleftrightarrow> pools_answer R (plains, regexes, exact) n"
    using dead trie by (auto simp: pools_answer_def rx_def)
  finally show ?thesis
    unfolding scan by (simp add: ms list_ex_iff match_name_def n_def normalized_name_def)
qed

text \<open>
  (C12) The compiled matcher set is an optimisation only: after deduplication, dropping every plain
  entry a shorter plain entry or a literal-suffix expression covers, reversing the rest into a trie
  and dropping covered exact names, \<open>MatchAny\<close> answers for every queried name what trying the compiled
  entries one by one answers.
\<close>
theorem match_any_is_linear_scan:
  assumes "regex_ok R"
  shows "match_any R (Some (fst (compile_matcher_set R entries))) name =
    list_ex (\<lambda>m. match_name R m name) (fst (compile_matchers R entries))"
  using assms by (rule match_any_scan)

text \<open>An engine that satisfies the hypothesis: expressions that are quoted literals at the end.\<close>

fun unquote :: "string \<Rightarrow> string" where
  "unquote [] = []"
| "unquote [c] = [c]"
| "unquote (c # d # cs) = (if c = char_of (92 :: nat) then d # unquote cs else c # unquote (d # cs))"

lemma unquote_quote [simp]: "unquote (quote_meta s) = s"
proof (induction s)
  case (Cons c s)
  have "unquote (c # t) = c # unquote t" if "c \<noteq> char_of (92 :: nat)" for t
    using that by (cases t) auto
  then show ?case using Cons by (auto simp: quote_meta_def meta_chars_def)
qed (simp add: quote_meta_def)

definition suffix_engine :: "string regex_engine" where
  "suffix_engine = \<lparr>rx_compile = Some, rx_must_compile = id, rx_source = id,
     rx_matches = (\<lambda>r n. has_suffix n (unquote (butlast r))), rx_literal_prefix = (\<lambda>r. unquote (butlast r))\<rparr>"

lemma suffix_engine_ok: "regex_ok suffix_engine"
  by (simp add: regex_ok_def suffix_engine_def)

theorem match_any_is_linear_scan_witness:
  "match_any suffix_engine (Some (fst (compile_matcher_set suffix_engine
     [''[re]'' @ quote_meta ''.ru'' @ ''$'', ''vk.ru'', ''full:a.b'', ''example.com'', ''a.example.com'']))) ''X.Example.com.''"
proof -
  have "list_ex (\<lambda>m. match_name suffix_engine m ''X.Example.com.'') (fst (compile_matchers suffix_engine
     [''[re]'' @ quote_meta ''.ru'' @ ''$'', ''vk.ru'', ''full:a.b'', ''example.com'', ''a.example.com'']))"
    by code_simp
  then show ?thesis using match_any_is_linear_scan [OF suffix_engine_ok] by blast
qed

end
