(* ===== verification/Route_Table.thy ===== *)
theory Route_Table
  imports Zones Domain_Match
begin

text \<open>
  \<open>internal/services/awgroute/decision.go\<close>: the compiled route table and \<open>routeFor\<close>, the one lookup
  that decides the route of a name for a client. The table holds the global rules and the rules bound
  to source addresses in two lists; \<open>routeFor\<close> merges them by rule position.
\<close>

section \<open>The table\<close>

record 'r ordered_zone =
  oz_matchers :: "'r matcher_set"
  oz_route :: string
  oz_index :: nat

record 'r source_zone =
  sz_matchers :: "'r matcher_set"
  sz_set_name :: string
  sz_route :: string
  sz_index :: nat
  sz_sources :: "string list"

record 'r route_table =
  rt_ordered :: "'r ordered_zone list"
  rt_source :: "'r source_zone list"
  rt_tunnel_v6 :: bool

record route_decision =
  rd_route :: string
  rd_rule_idx :: nat
  rd_block_aaaa :: bool
  rd_source_bound :: bool
  rd_source_set :: string

definition no_decision :: route_decision where
  "no_decision = \<lparr>rd_route = [], rd_rule_idx = 0, rd_block_aaaa = False, rd_source_bound = False, rd_source_set = []\<rparr>"

definition zero_set :: "'r matcher_set" where
  "zero_set = \<lparr>ms_trie = new_suffix_trie, ms_regexes = [], ms_plain_count = 0, ms_exact = []\<rparr>"

text \<open>The matchers of a rule: the always-true expression for a catch-all, else its expanded entries.\<close>

definition zone_matchers :: "'r regex_engine \<Rightarrow> sources \<Rightarrow> zone \<Rightarrow> 'r matcher_set" where
  "zone_matchers R src z =
     (if is_catch_all z then fst (compile_matcher_set R [''[re]^''])
      else fst (compile_matcher_set R (drop_catch_all (fst (expand_zone_entries src z)))))"

definition source_matchers :: "'r regex_engine \<Rightarrow> sources \<Rightarrow> zone \<Rightarrow> 'r matcher_set" where
  "source_matchers R src z =
     (if is_catch_all z then fst (compile_matcher_set R [''[re]^''])
      else if length (z_domains z) > 0
        then fst (compile_matcher_set R (drop_catch_all (fst (expand_zone_entries src z))))
      else zero_set)"

fun ordered_from :: "'r regex_engine \<Rightarrow> sources \<Rightarrow> int \<Rightarrow> nat \<Rightarrow> zone list \<Rightarrow> 'r ordered_zone list" where
  "ordered_from R src catch i [] = []"
| "ordered_from R src catch i (z # zs) =
     (if \<not> z_enabled z \<or> z_waiting z \<or> length (z_source_ips z) > 0 \<or> (catch \<ge> 0 \<and> int i > catch)
      then ordered_from R src catch (i + 1) zs
      else \<lparr>oz_matchers = zone_matchers R src z, oz_route = route_value z, oz_index = i\<rparr>
        # ordered_from R src catch (i + 1) zs)"

definition zone_matchers_ordered :: "'r regex_engine \<Rightarrow> sources \<Rightarrow> zone list \<Rightarrow> 'r ordered_zone list" where
  "zone_matchers_ordered R src zs = ordered_from R src (first_catch_all zs) 0 zs"

fun source_from :: "'r regex_engine \<Rightarrow> sources \<Rightarrow> nat \<Rightarrow> nat \<Rightarrow> zone list \<Rightarrow> 'r source_zone list" where
  "source_from R src i counter [] = []"
| "source_from R src i counter (z # zs) =
     (if \<not> z_enabled z \<or> z_waiting z \<or> length (z_source_ips z) = 0 then source_from R src (i + 1) counter zs
      else \<lparr>sz_matchers = source_matchers R src z, sz_set_name = source_zone_set_name counter,
             sz_route = route_value z, sz_index = i, sz_sources = z_source_ips z\<rparr>
        # source_from R src (i + 1) (counter + 1) zs)"

definition build_source_zone_decisions :: "'r regex_engine \<Rightarrow> sources \<Rightarrow> zone list \<Rightarrow> 'r source_zone list" where
  "build_source_zone_decisions R src zs = source_from R src 0 0 zs"

definition build_route_table :: "'r regex_engine \<Rightarrow> sources \<Rightarrow> routing_config \<Rightarrow> bool \<Rightarrow> 'r route_table" where
  "build_route_table R src cfg tunnel_v6 =
     \<lparr>rt_ordered = zone_matchers_ordered R src (rc_zones cfg),
      rt_source = build_source_zone_decisions R src (rc_zones cfg),
      rt_tunnel_v6 = tunnel_v6\<rparr>"

section \<open>The lookup\<close>

text \<open>\<open>ParseIP\<close> returned nil or the address; the entries are tried in order.\<close>

definition cidr_entry_matches :: "bytes \<Rightarrow> string \<Rightarrow> string \<Rightarrow> bool" where
  "cidr_entry_matches ip src_ip c0 =
     (let c = trim_space c0 in
      if c = [] then False
      else if CHR ''/'' \<in> set c then
        (case parse_cidr c of None \<Rightarrow> False | Some n \<Rightarrow> net_contains n ip)
      else if c = src_ip then True
      else (case parse_ip c of None \<Rightarrow> False | Some other \<Rightarrow> other = ip))"

definition src_ip_matches :: "string \<Rightarrow> string list \<Rightarrow> bool" where
  "src_ip_matches src_ip cidrs =
     (if src_ip = [] \<or> cidrs = [] then False
      else case parse_ip src_ip of None \<Rightarrow> False
      | Some ip \<Rightarrow> list_ex (cidr_entry_matches ip src_ip) cidrs)"

function route_walk :: "'r regex_engine \<Rightarrow> bool \<Rightarrow> string \<Rightarrow> string \<Rightarrow>
    'r ordered_zone list \<Rightarrow> 'r source_zone list \<Rightarrow> route_decision" where
  "route_walk R v6 qname src_ip os ss =
     (if os = [] \<and> ss = [] then no_decision
      else if ss = [] \<or> (os \<noteq> [] \<and> oz_index (hd os) \<le> sz_index (hd ss)) then
        (let zm = hd os in
         if match_any R (Some (oz_matchers zm)) qname then
           \<lparr>rd_route = oz_route zm, rd_rule_idx = oz_index zm + 1,
            rd_block_aaaa = (oz_route zm = ''tunnel'' \<and> \<not> v6), rd_source_bound = False, rd_source_set = []\<rparr>
         else route_walk R v6 qname src_ip (tl os) ss)
      else
        (let sb = hd ss in
         if \<not> src_ip_matches src_ip (sz_sources sb) then route_walk R v6 qname src_ip os (tl ss)
         else if set_len (Some (sz_matchers sb)) > 0 \<and> \<not> match_any R (Some (sz_matchers sb)) qname
           then route_walk R v6 qname src_ip os (tl ss)
         else \<lparr>rd_route = sz_route sb, rd_rule_idx = sz_index sb + 1,
                rd_block_aaaa = (sz_route sb = ''tunnel'' \<and> \<not> v6), rd_source_bound = True,
                rd_source_set = sz_set_name sb\<rparr>))"
  by pat_completeness auto
termination
  by (relation "measure (\<lambda>(R, v6, q, s, os, ss). length os + length ss)") auto

declare route_walk.simps [simp del]

text \<open>\<open>routeFor\<close>: no table has been published yet, or the walk over the published one.\<close>

definition route_for :: "'r regex_engine \<Rightarrow> 'r route_table option \<Rightarrow> string \<Rightarrow> string \<Rightarrow> route_decision" where
  "route_for R tbl qname src_ip =
     (case tbl of None \<Rightarrow> no_decision
      | Some t \<Rightarrow> route_walk R (rt_tunnel_v6 t) qname src_ip (rt_ordered t) (rt_source t))"

section \<open>The reference: one scan in the order of the rules\<close>

definition zone_hits :: "'r regex_engine \<Rightarrow> sources \<Rightarrow> string \<Rightarrow> string \<Rightarrow> zone \<Rightarrow> bool" where
  "zone_hits R src qname src_ip z \<longleftrightarrow> z_enabled z \<and> \<not> z_waiting z \<and>
     (if z_source_ips z = [] then match_any R (Some (zone_matchers R src z)) qname
      else src_ip_matches src_ip (z_source_ips z) \<and>
        (set_len (Some (source_matchers R src z)) = 0 \<or> match_any R (Some (source_matchers R src z)) qname))"

fun scan :: "'r regex_engine \<Rightarrow> sources \<Rightarrow> bool \<Rightarrow> string \<Rightarrow> string \<Rightarrow> nat \<Rightarrow> nat \<Rightarrow> zone list \<Rightarrow> route_decision" where
  "scan R src v6 qname src_ip i counter [] = no_decision"
| "scan R src v6 qname src_ip i counter (z # zs) =
     (if zone_hits R src qname src_ip z then
        \<lparr>rd_route = route_value z, rd_rule_idx = i + 1,
         rd_block_aaaa = (route_value z = ''tunnel'' \<and> \<not> v6), rd_source_bound = (z_source_ips z \<noteq> []),
         rd_source_set = (if z_source_ips z = [] then [] else source_zone_set_name counter)\<rparr>
      else scan R src v6 qname src_ip (i + 1)
        (if z_enabled z \<and> \<not> z_waiting z \<and> z_source_ips z \<noteq> [] then counter + 1 else counter) zs)"

lemma ordered_from_index: "oz \<in> set (ordered_from R src c i zs) \<Longrightarrow> i \<le> oz_index oz"
  by (induction zs arbitrary: i) (fastforce split: if_splits)+

lemma source_from_index: "sz \<in> set (source_from R src i k zs) \<Longrightarrow> i \<le> sz_index sz"
  by (induction zs arbitrary: i k) (fastforce split: if_splits)+

lemma route_walk_ordered:
  assumes "\<forall>s \<in> set ss. oz_index z < sz_index s"
  shows "route_walk R v6 q s (z # os) ss =
    (if match_any R (Some (oz_matchers z)) q then
       \<lparr>rd_route = oz_route z, rd_rule_idx = oz_index z + 1,
        rd_block_aaaa = (oz_route z = ''tunnel'' \<and> \<not> v6), rd_source_bound = False, rd_source_set = []\<rparr>
     else route_walk R v6 q s os ss)"
  using assms by (subst route_walk.simps) (cases ss; simp add: Let_def)

lemma route_walk_source:
  assumes "\<forall>z \<in> set os. sz_index b < oz_index z"
  shows "route_walk R v6 q s os (b # ss) =
    (if src_ip_matches s (sz_sources b) \<and> (set_len (Some (sz_matchers b)) = 0 \<or> match_any R (Some (sz_matchers b)) q)
     then \<lparr>rd_route = sz_route b, rd_rule_idx = sz_index b + 1,
            rd_block_aaaa = (sz_route b = ''tunnel'' \<and> \<not> v6), rd_source_bound = True,
            rd_source_set = sz_set_name b\<rparr>
     else route_walk R v6 q s os ss)"
  using assms by (subst route_walk.simps) (cases os; auto simp: Let_def)

text \<open>
  The merge is the scan: when there is a catch-all at position \<open>c\<close>, the rules after it are missing from
  the global list, but the walk never gets past the catch-all.
\<close>

definition catch_at :: "'r regex_engine \<Rightarrow> sources \<Rightarrow> string \<Rightarrow> int \<Rightarrow> nat \<Rightarrow> zone list \<Rightarrow> bool" where
  "catch_at R src q c i zs \<longleftrightarrow> int i \<le> c \<and> nat c - i < length zs \<and> global_zone (zs ! (nat c - i))
     \<and> match_any R (Some (zone_matchers R src (zs ! (nat c - i)))) q"

lemma route_walk_scan:
  assumes "c < 0 \<or> catch_at R src q c i zs"
  shows "route_walk R v6 q s (ordered_from R src c i zs) (source_from R src i k zs) =
    scan R src v6 q s i k zs"
  using assms
proof (induction zs arbitrary: i k)
  case Nil
  then show ?case by (simp add: route_walk.simps catch_at_def)
next
  case (Cons z zs)
  have next_c: "c < 0 \<or> catch_at R src q c (i + 1) zs" if "nat c \<noteq> i"
    using Cons.prems that
  proof (cases "c < 0")
    case False
    then have "nat c - i = Suc (nat c - (i + 1))" "int (i + 1) \<le> c"
      using Cons.prems that by (auto simp: catch_at_def)
    then show ?thesis using Cons.prems False by (auto simp: catch_at_def)
  qed simp
  have IH: "route_walk R v6 q s (ordered_from R src c (i + 1) zs) (source_from R src (i + 1) k' zs) =
      scan R src v6 q s (i + 1) k' zs" if "c < 0 \<or> nat c \<noteq> i" for k'
    using next_c that Cons.IH by blast
  have here: "global_zone z \<and> match_any R (Some (zone_matchers R src z)) q" if "\<not> (c < 0 \<or> nat c \<noteq> i)"
    using Cons.prems that by (auto simp: catch_at_def)
  have o: "oz \<in> set (ordered_from R src c (i + 1) zs) \<Longrightarrow> i < oz_index oz" for oz
    using ordered_from_index [of oz R src c "i + 1" zs] by auto
  have b: "sz \<in> set (source_from R src (i + 1) k' zs) \<Longrightarrow> i < sz_index sz" for sz k'
    using source_from_index [of sz R src "i + 1" k' zs] by auto
  consider (dead) "\<not> z_enabled z \<or> z_waiting z" | (global) "z_enabled z" "\<not> z_waiting z" "z_source_ips z = []"
    | (bound) "z_enabled z" "\<not> z_waiting z" "z_source_ips z \<noteq> []" by blast
  then show ?case
  proof cases
    case dead
    then have "c < 0 \<or> nat c \<noteq> i" using here by (auto simp: global_zone_def)
    then show ?thesis using dead IH [of k] by (auto simp: zone_hits_def)
  next
    case global
    have "\<not> (c \<ge> 0 \<and> int i > c)" using Cons.prems by (auto simp: catch_at_def)
    then have "ordered_from R src c i (z # zs) =
        \<lparr>oz_matchers = zone_matchers R src z, oz_route = route_value z, oz_index = i\<rparr> # ordered_from R src c (i + 1) zs"
      using global by simp
    then show ?thesis
      using global IH [of k] here b [of _ k] by (auto simp: route_walk_ordered zone_hits_def)
  next
    case bound
    then have c: "c < 0 \<or> nat c \<noteq> i" using here by (auto simp: global_zone_def)
    have "source_from R src i k (z # zs) =
        \<lparr>sz_matchers = source_matchers R src z, sz_set_name = source_zone_set_name k,
          sz_route = route_value z, sz_index = i, sz_sources = z_source_ips z\<rparr> # source_from R src (i + 1) (k + 1) zs"
      using bound by simp
    then show ?thesis
      using bound IH [OF c, of "k + 1"] o by (auto simp: route_walk_source zone_hits_def)
  qed
qed

text \<open>The expression \<open>^\<close> compiles and matches every name.\<close>

definition regex_caret :: "'r regex_engine \<Rightarrow> bool" where
  "regex_caret R \<longleftrightarrow> (case rx_compile R ''^'' of None \<Rightarrow> False | Some r \<Rightarrow> (\<forall>n. rx_matches R r n))"

lemma catch_all_matches:
  assumes "regex_ok R" "regex_caret R" "is_catch_all z" "normalized_name q \<noteq> []"
  shows "match_any R (Some (zone_matchers R src z)) q"
proof -
  obtain r where r: "rx_compile R ''^'' = Some r" "\<And>n. rx_matches R r n"
    using assms(2) by (auto simp: regex_caret_def split: option.splits)
  have p: "to_lower (trim_space ''[re]^'') = ''[re]^''" "trim_space ''[re]^'' = ''[re]^''"
    "to_lower ''[re]^'' = ''[re]^''" "''[re]^'' \<noteq> []"
    "has_prefix ''[re]^'' ''full:'' = False" "has_prefix ''[re]^'' ''[re]'' = True"
    "trim_space (trim_prefix ''[re]^'' ''[re]'') = ''^''" by code_simp+
  have "fst (compile_matchers R [''[re]^'']) =
      [\<lparr>dm_raw = ''[re]^'', dm_re = Some r, dm_base = [], dm_exact = False\<rparr>]"
    by (simp add: new_domain_matcher_def p r(1) Let_def)
  then show ?thesis
    using assms(3,4) r(2)
    by (simp add: zone_matchers_def match_any_scan [OF assms(1)] match_name_def match_lower_def
        normalized_name_def)
qed

text \<open>
  (C6) First match wins, in the order the user sees: for every configuration, name and client address,
  the merged walk of \<open>routeFor\<close> over the two compiled lists (global rules cut after the first catch-all,
  source-bound rules with their own set counter) returns what one scan of the rule list returns: the
  first enabled, connected rule that applies to the client and matches the name, with its position,
  its route, the AAAA block of a tunnel without IPv6, and for a source-bound rule the name of the
  address set built for it.
\<close>
theorem route_for_first_match:
  assumes "regex_ok R" "regex_caret R" "normalized_name qname \<noteq> []"
  shows "route_for R (Some (build_route_table R src cfg v6)) qname src_ip =
    scan R src v6 qname src_ip 0 0 (rc_zones cfg)"
proof -
  have "first_catch_all (rc_zones cfg) < 0 \<or> catch_at R src qname (first_catch_all (rc_zones cfg)) 0 (rc_zones cfg)"
  proof (cases rule: first_catch_all_cases [of "rc_zones cfg"])
    case (catch k)
    then show ?thesis using catch_all_matches [OF assms(1,2) _ assms(3)] by (simp add: catch_at_def)
  qed simp
  then show ?thesis
    by (simp add: route_for_def build_route_table_def zone_matchers_ordered_def
        build_source_zone_decisions_def route_walk_scan)
qed

lemma suffix_engine_caret: "regex_caret suffix_engine"
  by (simp add: regex_caret_def suffix_engine_def has_suffix_def)

definition no_sources :: sources where
  "no_sources = \<lparr>src_geosite = (\<lambda>_. []), src_geoip = (\<lambda>_. []), src_list = (\<lambda>_. [])\<rparr>"

theorem route_for_first_match_witness:
  "route_for suffix_engine (Some (build_route_table suffix_engine no_sources
      \<lparr>rc_mode = ''zones'', rc_zones = [plain_zone ''direct'' [''vk.ru''] [],
         plain_zone ''tunnel'' [] [''192.168.1.0/24''], plain_zone ''direct'' [''*''] []], rc_domain_source = []\<rparr>
      False)) ''Mail.ru.'' ''192.168.1.5'' =
    \<lparr>rd_route = ''tunnel'', rd_rule_idx = 2, rd_block_aaaa = True, rd_source_bound = True, rd_source_set = ''awg2_z0''\<rparr>"
  (is "route_for _ (Some (build_route_table _ _ ?cfg _)) _ _ = ?d")
proof -
  have n: "normalized_name ''Mail.ru.'' \<noteq> []" by code_simp
  have "scan suffix_engine no_sources False ''Mail.ru.'' ''192.168.1.5'' 0 0 (rc_zones ?cfg) = ?d" by code_simp
  then show ?thesis
    using route_for_first_match [OF suffix_engine_ok suffix_engine_caret n, of no_sources ?cfg False] by simp
qed

end
