(* ===== verification/Fallback.thy ===== *)
theory Fallback
  imports Zones
begin

text \<open>
  \<open>internal/services/awgroute/fallback.go\<close> and \<open>failover.go\<close>: the priority lists of backup
  connections, their expansion along the connection graph, the routing eligibility, the acyclicity
  check of a saved change and the demand for standby connections.

  A connection is its identity (\<open>awg.LocalClientIdentity\<close>) with its id; the service's server list is
  the list of them. The recursions of the source over a visited set are walks with an explicit work
  list in the same order: what a call would visit is put in front of what is still to do.
\<close>

section \<open>Priority lists\<close>

definition add_candidate :: "string list \<Rightarrow> string \<Rightarrow> string list" where
  "add_candidate out raw = (let id = trim_space raw in
     if id = [] then out else if id \<in> set out then out else out @ [id])"

definition fallback_candidates :: "string \<Rightarrow> string list \<Rightarrow> string list" where
  "fallback_candidates primary fallbacks = foldl add_candidate (add_candidate [] primary) fallbacks"

fun normalize_loop :: "(string \<Rightarrow> bool) option \<Rightarrow> string \<Rightarrow> string list \<Rightarrow> string list \<Rightarrow> string + string list" where
  "normalize_loop exists primary [] out = Inr out"
| "normalize_loop exists primary (raw # rest) out =
     (let id = trim_space raw in
      if id = [] then normalize_loop exists primary rest out
      else if id = primary then normalize_loop exists primary rest out
      else if id = primary \<or> id \<in> set out then normalize_loop exists primary rest out
      else if (case exists of None \<Rightarrow> False | Some ex \<Rightarrow> \<not> ex id) then Inl id
      else normalize_loop exists primary rest (out @ [id]))"

text \<open>The error names the backup that was not found.\<close>

definition normalize_fallbacks :: "string \<Rightarrow> string list \<Rightarrow> (string \<Rightarrow> bool) option \<Rightarrow> string + string list" where
  "normalize_fallbacks primary fallbacks exists = normalize_loop exists (trim_space primary) fallbacks []"

definition select_fallback :: "string \<Rightarrow> string list \<Rightarrow> (string \<Rightarrow> bool) option \<Rightarrow> (string \<Rightarrow> bool) option \<Rightarrow> string" where
  "select_fallback primary fallbacks usable connected =
     (let candidates = fallback_candidates primary fallbacks;
          ok = (\<lambda>id. case usable of None \<Rightarrow> True | Some u \<Rightarrow> u id);
          up = (\<lambda>id. case connected of None \<Rightarrow> False | Some c \<Rightarrow> c id) in
      case find (\<lambda>id. ok id \<and> up id) candidates of
        Some i \<Rightarrow> i
      | None \<Rightarrow> (case find ok candidates of Some i \<Rightarrow> i | None \<Rightarrow> []))"

section \<open>The connection graph\<close>

record connection =
  cn_id :: string
  cn_enabled :: bool
  cn_client_enabled :: bool
  cn_can_start :: bool
  cn_standby :: bool
  cn_fallbacks :: "string list"
  cn_routing_mode :: string
  cn_routing_active :: bool

type_synonym graph = "(string \<times> string list) list"

definition succs :: "graph \<Rightarrow> string \<Rightarrow> string list" where
  "succs g x = (case map_of g x of None \<Rightarrow> [] | Some ys \<Rightarrow> ys)"

lemma succs_unknown: "x \<notin> fst ` set g \<Longrightarrow> succs g x = []"
  unfolding succs_def map_of_eq_None_iff [symmetric] by simp

function visit :: "graph \<Rightarrow> string list \<Rightarrow> string list \<Rightarrow> string list" where
  "visit g [] seen = seen"
| "visit g (x # xs) seen =
     (if x \<in> set seen then visit g xs seen else visit g (succs g x @ xs) (seen @ [x]))"
  by pat_completeness auto

termination
proof (relation "measures [\<lambda>(g, xs, seen). card (fst ` set g - set seen), \<lambda>(g, xs, seen). length xs]")
  fix g :: graph and x xs and seen :: "string list" assume x: "x \<notin> set seen"
  show "((g, succs g x @ xs, seen @ [x]), g, x # xs, seen)
      \<in> measures [\<lambda>(g, xs, seen). card (fst ` set g - set seen), \<lambda>(g, xs, seen). length xs]"
  proof (cases "x \<in> fst ` set g")
    case True
    have "fst ` set g - set (seen @ [x]) \<subset> fst ` set g - set seen" using True x by auto
    then have "card (fst ` set g - set (seen @ [x])) < card (fst ` set g - set seen)"
      by (intro psubset_card_mono) auto
    then show ?thesis by simp
  next
    case False
    then have "fst ` set g - set (seen @ [x]) = fst ` set g - set seen" by auto
    then show ?thesis using False by (simp add: succs_unknown)
  qed
qed auto

text \<open>\<open>byID\<close>: the last entry of an id wins.\<close>

definition find_connection :: "connection list \<Rightarrow> string \<Rightarrow> connection option" where
  "find_connection servers i = find (\<lambda>s. cn_id s = i) (rev servers)"

definition clean_ids :: "string list \<Rightarrow> string list" where
  "clean_ids ids = filter (\<lambda>i. i \<noteq> []) (map trim_space ids)"

definition fallback_graph :: "connection list \<Rightarrow> graph" where
  "fallback_graph servers = map (\<lambda>s. (cn_id s, clean_ids (cn_fallbacks s))) (rev servers)"

definition connection_fallback_ids :: "connection list \<Rightarrow> string \<Rightarrow> string list \<Rightarrow> string list" where
  "connection_fallback_ids servers primary rule_fallbacks =
     (let own = (case find_connection servers primary of None \<Rightarrow> [] | Some s \<Rightarrow> cn_fallbacks s) in
      tl (visit (fallback_graph servers) (clean_ids rule_fallbacks @ clean_ids own) [primary]))"

definition carries_traffic :: "connection \<Rightarrow> bool" where
  "carries_traffic c \<longleftrightarrow> cn_enabled c \<and> cn_client_enabled c \<and> cn_routing_mode c \<noteq> ''off''"

text \<open>
  \<open>connectionRoutingEligibility\<close>: ids that are no connection are not expanded; the raw ids of the
  backup lists are followed. The source iterates a map; the ids are taken in list order here.
\<close>

definition known_graph :: "connection list \<Rightarrow> graph" where
  "known_graph servers = map (\<lambda>s. (cn_id s, filter (\<lambda>i. i \<in> cn_id ` set servers) (cn_fallbacks s))) (rev servers)"

definition routing_eligible :: "connection list \<Rightarrow> string list" where
  "routing_eligible servers =
     (let ids = map cn_id servers;
          at = (\<lambda>id. the (find_connection servers id));
          roots = filter (\<lambda>id. carries_traffic (at id) \<and> cn_routing_active (at id)) ids in
      filter (\<lambda>id. carries_traffic (at id)) (visit (known_graph servers) roots []))"

section \<open>Saving a backup list\<close>

text \<open>
  \<open>visit\<close> of \<open>setConnectionFailoverWithOps\<close>: \<open>path\<close> are the ids marked 1, \<open>finished\<close> those marked 2,
  \<open>xs\<close> the children still to visit; \<^term>\<open>False\<close> once an id on the path is met again.
\<close>

function acyclic_walk :: "graph \<Rightarrow> string list \<Rightarrow> string list \<Rightarrow> string list \<Rightarrow> bool \<times> string list" where
  "acyclic_walk g path finished [] = (True, finished)"
| "acyclic_walk g path finished (x # xs) =
     (if x \<in> set path then (False, finished)
      else if x \<in> set finished then acyclic_walk g path finished xs
      else (case acyclic_walk g (x # path) finished (succs g x) of
              (False, d) \<Rightarrow> (False, d)
            | (True, d) \<Rightarrow> acyclic_walk g path (x # d) xs))"
  by pat_completeness auto

termination
proof (relation "measures [\<lambda>(g, path, d, xs). card (fst ` set g - set path), \<lambda>(g, path, d, xs). length xs]")
  fix g :: graph and x xs and path finished :: "string list" assume x: "x \<notin> set path"
  show "((g, x # path, finished, succs g x), g, path, finished, x # xs)
      \<in> measures [\<lambda>(g, path, d, xs). card (fst ` set g - set path), \<lambda>(g, path, d, xs). length xs]"
  proof (cases "x \<in> fst ` set g")
    case True
    have "fst ` set g - set (x # path) \<subset> fst ` set g - set path" using True x by auto
    then have "card (fst ` set g - set (x # path)) < card (fst ` set g - set path)"
      by (intro psubset_card_mono) auto
    then show ?thesis by simp
  next
    case False
    then have "fst ` set g - set (x # path) = fst ` set g - set path" by auto
    then show ?thesis using False by (simp add: succs_unknown)
  qed
qed auto

datatype failover_error = UnknownServer | OwnReserve | UnknownReserve string | CycleOfReserves

text \<open>
  The checks of \<open>AWG2SetFailover\<close> and the state it saves: the new server list. Persisting the state,
  publishing it and applying the policy follow in the source and are I/O.
\<close>

definition set_failover :: "connection list \<Rightarrow> string \<Rightarrow> bool \<Rightarrow> string list \<Rightarrow> failover_error + connection list" where
  "set_failover servers raw_id standby fallbacks =
     (let id = trim_space raw_id in
      if find_connection servers id = None then Inl UnknownServer
      else if list_ex (\<lambda>c. trim_space c = id) fallbacks then Inl OwnReserve
      else case normalize_fallbacks id fallbacks (Some (\<lambda>i. find_connection servers i \<noteq> None)) of
        Inl missing \<Rightarrow> Inl (UnknownReserve missing)
      | Inr fbs \<Rightarrow>
          (let g = (id, fbs) # map (\<lambda>s. (cn_id s, cn_fallbacks s)) (rev servers) in
           if \<not> fst (acyclic_walk g [] [] [id]) then Inl CycleOfReserves
           else Inr (map (\<lambda>s. if cn_id s = id then s\<lparr>cn_standby := standby, cn_fallbacks := fbs\<rparr> else s) servers)))"

section \<open>Priority: order, no duplicates, first usable\<close>

lemma foldl_add_candidate:
  assumes "distinct out" "[] \<notin> set out"
  shows "distinct (foldl add_candidate out raws) \<and> [] \<notin> set (foldl add_candidate out raws)
    \<and> set (foldl add_candidate out raws) = set out \<union> set (clean_ids raws)
    \<and> take (length out) (foldl add_candidate out raws) = out"
  using assms
proof (induction raws arbitrary: out)
  case (Cons raw raws)
  define out' where "out' = add_candidate out raw"
  have o: "distinct out'" "[] \<notin> set out'" "set out' = set out \<union> set (clean_ids [raw])" "\<exists>t. out' = out @ t"
    using Cons.prems by (auto simp: out'_def add_candidate_def clean_ids_def Let_def)
  obtain t where t: "out' = out @ t" using o(4) by blast
  note IH = Cons.IH [OF o(1,2)]
  have "take (length out) (take (length out') (foldl add_candidate out' raws)) = out"
    using IH t by simp
  then have "take (length out) (foldl add_candidate out' raws) = out"
    using t by (simp add: min_def)
  then show ?case using IH o(3) by (auto simp: out'_def [symmetric] clean_ids_def)
qed (simp add: clean_ids_def)

lemma fallback_candidates_props:
  "distinct (fallback_candidates p fs)" "[] \<notin> set (fallback_candidates p fs)"
  "set (fallback_candidates p fs) = set (clean_ids (p # fs))"
  "trim_space p \<noteq> [] \<Longrightarrow> hd (fallback_candidates p fs) = trim_space p"
proof -
  have b: "distinct (add_candidate [] p)" "[] \<notin> set (add_candidate [] p)"
    "set (add_candidate [] p) = set (clean_ids [p])"
    by (simp_all add: add_candidate_def clean_ids_def Let_def)
  note f = foldl_add_candidate [OF b(1,2), of fs]
  show "distinct (fallback_candidates p fs)" "[] \<notin> set (fallback_candidates p fs)"
    "set (fallback_candidates p fs) = set (clean_ids (p # fs))"
    using f b(3) by (auto simp: fallback_candidates_def clean_ids_def)
  show "hd (fallback_candidates p fs) = trim_space p" if "trim_space p \<noteq> []"
    using f that unfolding fallback_candidates_def
    by (cases "foldl add_candidate (add_candidate [] p) fs") (simp_all add: add_candidate_def Let_def)
qed

text \<open>
  Failover never falls back to the plain WAN: the selected connection is a configured candidate
  that is usable; a connected usable candidate is preferred, the earliest in the priority order; with
  none connected the earliest usable one keeps the traffic in its kill switch; the empty result, which
  installs no route, means that no candidate is usable.
\<close>
theorem select_fallback_priority:
  "let cs = fallback_candidates primary fallbacks in
    case select_fallback primary fallbacks (Some usable) (Some connected) of
      [] \<Rightarrow> \<not> list_ex usable cs
    | c # s \<Rightarrow> usable (c # s) \<and> (\<exists>i < length cs. cs ! i = c # s \<and>
        (if list_ex (\<lambda>x. usable x \<and> connected x) cs
         then connected (c # s) \<and> \<not> list_ex (\<lambda>x. usable x \<and> connected x) (take i cs)
         else \<not> list_ex usable (take i cs)))"
proof -
  define cs where "cs = fallback_candidates primary fallbacks"
  have first: "\<exists>i < length cs. cs ! i = x \<and> P x \<and> \<not> list_ex P (take i cs)" if f: "find P cs = Some x" for P and x :: string
  proof -
    obtain i where i: "i < length cs" "P (cs ! i)" "x = cs ! i" "\<forall>j < i. \<not> P (cs ! j)"
      using f by (auto simp: find_Some_iff)
    then have "\<not> list_ex P (take i cs)" by (auto simp: list_ex_iff in_set_conv_nth)
    then show ?thesis using i by blast
  qed
  have ne: "x \<noteq> []" if "find P cs = Some x" for P and x :: string
    using that fallback_candidates_props(2) [of primary fallbacks] by (auto simp: find_Some_iff cs_def in_set_conv_nth)
  have none: "\<not> list_ex P cs" if "find P cs = None" for P :: "string \<Rightarrow> bool"
    using that by (auto simp: find_None_iff list_ex_iff)
  define both where "both = (\<lambda>x. usable x \<and> connected x)"
  have sel: "select_fallback primary fallbacks (Some usable) (Some connected) =
      (case find both cs of Some i \<Rightarrow> i | None \<Rightarrow> (case find usable cs of Some i \<Rightarrow> i | None \<Rightarrow> []))"
    unfolding select_fallback_def cs_def both_def Let_def by (simp cong: option.case_cong)
  show ?thesis
  proof (cases "find both cs")
    case (Some x)
    moreover have "list_ex both cs" using first [OF Some] by (auto simp: list_ex_iff)
    ultimately show ?thesis
      using first [OF Some] ne [OF Some] unfolding cs_def [symmetric] Let_def sel both_def [symmetric]
      by (cases x) (auto simp: both_def)
  next
    case None
    note no_both = none [OF None]
    show ?thesis
    proof (cases "find usable cs")
      case (Some x)
      then show ?thesis
        using None no_both first [OF Some] ne [OF Some] unfolding cs_def [symmetric] Let_def sel both_def [symmetric]
        by (cases x) auto
    next
      case none': None
      then show ?thesis using None none [OF none'] unfolding cs_def [symmetric] Let_def sel by simp
    qed
  qed
qed

lemma normalize_loop_props:
  assumes "distinct out" "primary \<notin> set out" "[] \<notin> set out"
  shows "case normalize_loop (Some ex) primary raws out of
      Inr r \<Rightarrow> distinct r \<and> primary \<notin> set r \<and> [] \<notin> set r
        \<and> set r = set out \<union> (set (clean_ids raws) - {primary}) \<and> (\<forall>i \<in> set r - set out. ex i)
    | Inl i \<Rightarrow> i \<in> set (clean_ids raws) \<and> i \<noteq> primary \<and> \<not> ex i"
  using assms
proof (induction raws arbitrary: out)
  case (Cons raw raws)
  define i where "i = trim_space raw"
  consider (skip) "i = [] \<or> i = primary \<or> i \<in> set out" | (missing) "i \<noteq> []" "i \<noteq> primary" "i \<notin> set out" "\<not> ex i"
    | (add) "i \<noteq> []" "i \<noteq> primary" "i \<notin> set out" "ex i" by blast
  then show ?case
  proof cases
    case skip
    then have "normalize_loop (Some ex) primary (raw # raws) out = normalize_loop (Some ex) primary raws out"
      by (auto simp: i_def Let_def)
    then show ?thesis
      using Cons.IH [OF Cons.prems] skip
      by (auto simp: clean_ids_def i_def [symmetric] split: sum.splits)
  next
    case missing
    then show ?thesis by (simp add: i_def [symmetric] Let_def clean_ids_def)
  next
    case add
    then have "normalize_loop (Some ex) primary (raw # raws) out = normalize_loop (Some ex) primary raws (out @ [i])"
      by (simp add: i_def Let_def)
    moreover have "distinct (out @ [i])" "primary \<notin> set (out @ [i])" "[] \<notin> set (out @ [i])"
      using Cons.prems add by auto
    ultimately show ?thesis
      using Cons.IH [of "out @ [i]"] add
      by (auto simp: clean_ids_def i_def [symmetric] split: sum.splits)
  qed
qed (simp add: clean_ids_def)

section \<open>The expanded backup list is the reachable part of the graph\<close>

definition edges :: "graph \<Rightarrow> (string \<times> string) set" where
  "edges g = {(x, y). y \<in> set (succs g x)}"

lemma visit_extends: "set seen \<subseteq> set (visit g xs seen)"
  by (induction g xs seen rule: visit.induct) auto

lemma visit_prefix: "take (length seen) (visit g xs seen) = seen"
proof (induction g xs seen rule: visit.induct)
  case (2 g x xs seen)
  show ?case
  proof (cases "x \<in> set seen")
    case False
    have "take (length seen) (take (length (seen @ [x])) (visit g (succs g x @ xs) (seen @ [x]))) = seen"
      using "2.IH"(2) [OF False] by simp
    then show ?thesis using False by (simp add: min_def)
  qed (use "2.IH" in simp)
qed simp

lemma visit_distinct: "distinct seen \<Longrightarrow> distinct (visit g xs seen)"
  by (induction g xs seen rule: visit.induct) auto

lemma visit_covers: "set xs \<subseteq> set (visit g xs seen)"
proof (induction g xs seen rule: visit.induct)
  case (2 g x xs seen)
  then show ?case using visit_extends [of seen g xs] visit_extends [of "seen @ [x]" g "succs g x @ xs"]
    by (auto split: if_splits)
qed simp

lemma visit_closed:
  "x \<in> set (visit g xs seen) \<Longrightarrow> x \<notin> set seen \<Longrightarrow> set (succs g x) \<subseteq> set (visit g xs seen)"
proof (induction g xs seen rule: visit.induct)
  case (2 g y xs seen)
  show ?case
  proof (cases "y \<in> set seen")
    case False
    then show ?thesis
      using 2 visit_covers [of "succs g y @ xs" g "seen @ [y]"] by (cases "x = y") auto
  qed (use 2 in auto)
qed simp

lemma visit_sound:
  "x \<in> set (visit g xs seen) \<Longrightarrow> x \<in> set seen \<or> (\<exists>r \<in> set xs. (r, x) \<in> (edges g)\<^sup>*)"
proof (induction g xs seen rule: visit.induct)
  case (2 g y xs seen)
  show ?case
  proof (cases "y \<in> set seen")
    case False
    then consider "x \<in> set seen" | "x = y" | r where "r \<in> set (succs g y)" "(r, x) \<in> (edges g)\<^sup>*"
      | r where "r \<in> set xs" "(r, x) \<in> (edges g)\<^sup>*"
      using 2 by auto
    then show ?thesis
    proof cases
      case (3 r)
      then have "(y, r) \<in> edges g" by (simp add: edges_def)
      then show ?thesis using 3 by (auto intro: converse_rtrancl_into_rtrancl)
    qed auto
  qed (use 2 in auto)
qed simp

text \<open>From a start that is marked as seen but whose successors are on the work list.\<close>

lemma visit_reachable:
  assumes "\<forall>s \<in> set seen. set (succs g s) \<subseteq> set xs \<union> set seen"
  shows "set (visit g xs seen) = set seen \<union> (edges g)\<^sup>* `` set xs"
proof
  show "set (visit g xs seen) \<subseteq> set seen \<union> (edges g)\<^sup>* `` set xs"
    using visit_sound by fast
  have step: "set (succs g x) \<subseteq> set (visit g xs seen)" if "x \<in> set (visit g xs seen)" for x
    using visit_closed [OF that] visit_covers [of xs g seen] visit_extends [of seen g xs] assms by blast
  have "y \<in> set (visit g xs seen)" if "(x, y) \<in> (edges g)\<^sup>*" "x \<in> set xs" for x y
    using that
  proof (induction rule: rtrancl_induct)
    case base
    then show ?case using visit_covers by blast
  next
    case (step y z)
    then show ?case using \<open>\<And>x. x \<in> set (visit g xs seen) \<Longrightarrow> _\<close> by (auto simp: edges_def)
  qed
  then show "set seen \<union> (edges g)\<^sup>* `` set xs \<subseteq> set (visit g xs seen)"
    using visit_extends by auto
qed

lemma clean_ids_set: "x \<in> set (clean_ids ids) \<longleftrightarrow> x \<noteq> [] \<and> x \<in> trim_space ` set ids"
  by (auto simp: clean_ids_def)

lemma map_of_rev_connections:
  "map_of (map (\<lambda>s. (cn_id s, f s)) xs) i = map_option f (find (\<lambda>s. cn_id s = i) xs)"
  by (induction xs) auto

lemma succs_fallback_graph:
  "succs (fallback_graph servers) i =
    (case find_connection servers i of None \<Rightarrow> [] | Some s \<Rightarrow> clean_ids (cn_fallbacks s))"
  by (simp add: succs_def fallback_graph_def map_of_rev_connections find_connection_def split: option.split)

text \<open>
  The expanded backup list of a connection is, without duplicates and without the connection
  itself, exactly the set of ids reachable from the rule's and the connection's own backups along the
  saved backup lists, on any graph, with cycles and unknown ids; the rule's own first backup comes
  first.
\<close>
theorem connection_fallbacks_reachable:
  "let out = connection_fallback_ids servers primary rule_fallbacks;
       roots = set (clean_ids rule_fallbacks) \<union> set (succs (fallback_graph servers) primary) in
   distinct out \<and> primary \<notin> set out
   \<and> set out = (edges (fallback_graph servers))\<^sup>* `` roots - {primary}
   \<and> (\<forall>i is. clean_ids rule_fallbacks = i # is \<and> i \<noteq> primary \<longrightarrow> hd out = i)"
proof -
  define g where "g = fallback_graph servers"
  define ws where "ws = clean_ids rule_fallbacks @ succs g primary"
  define v where "v = visit g ws [primary]"
  define out where "out = connection_fallback_ids servers primary rule_fallbacks"
  have out: "out = tl v"
    by (simp add: out_def v_def connection_fallback_ids_def ws_def g_def succs_fallback_graph clean_ids_def
        Let_def split: option.split)
  obtain rest where v: "v = primary # rest" using visit_prefix [of "[primary]" g ws] by (cases v) (auto simp: v_def)
  have "distinct v" by (simp add: v_def visit_distinct)
  then have d: "distinct out" "primary \<notin> set out" by (simp_all add: v out)
  have "set v = insert primary ((edges g)\<^sup>* `` set ws)"
    using visit_reachable [of "[primary]" g ws] by (auto simp: v_def ws_def)
  then have reach: "set out = (edges g)\<^sup>* `` set ws - {primary}"
    using d(2) by (auto simp: v out)
  have first: "hd out = i" if "clean_ids rule_fallbacks = i # is" "i \<noteq> primary" for i "is"
  proof -
    have "v = visit g (succs g i @ is @ succs g primary) [primary, i]"
      using that by (simp add: v_def ws_def)
    then have "take (length [primary, i]) v = [primary, i]" by (simp only: visit_prefix)
    then show ?thesis by (cases rest) (simp_all add: v out)
  qed
  show ?thesis
    using d reach first by (auto simp: out_def [symmetric] g_def [symmetric] ws_def Let_def)
qed

section \<open>The acyclicity check\<close>

definition settled :: "graph \<Rightarrow> string list \<Rightarrow> bool" where
  "settled g d \<longleftrightarrow> (\<forall>x \<in> set d. set (succs g x) \<subseteq> set d \<and> (x, x) \<notin> (edges g)\<^sup>+)"

lemma settled_trancl: "settled g d \<Longrightarrow> x \<in> set d \<Longrightarrow> (x, y) \<in> (edges g)\<^sup>+ \<Longrightarrow> y \<in> set d"
proof -
  assume d: "settled g d" "x \<in> set d" and xy: "(x, y) \<in> (edges g)\<^sup>+"
  from xy show ?thesis using d(2)
    by (induction rule: trancl_induct) (use d(1) in \<open>auto simp: settled_def edges_def\<close>)
qed

lemma acyclic_walk_sound:
  assumes "acyclic_walk g path d xs = (True, d')" "settled g d" "set path \<inter> set d = {}"
  shows "settled g d' \<and> set d \<subseteq> set d' \<and> set xs \<subseteq> set d' \<and> set path \<inter> set d' = {}"
  using assms
proof (induction g path d xs arbitrary: d' rule: acyclic_walk.induct)
  case (2 g path d x xs)
  have x: "x \<notin> set path" using "2.prems"(1) by (auto split: if_splits)
  show ?case
  proof (cases "x \<in> set d")
    case True
    then show ?thesis using "2.prems" "2.IH"(1) [OF x True, of d'] x by auto
  next
    case False
    obtain d1 where d1: "acyclic_walk g (x # path) d (succs g x) = (True, d1)"
      and d': "acyclic_walk g path (x # d1) xs = (True, d')"
      using "2.prems"(1) x False by (auto split: prod.splits bool.splits)
    have s1: "settled g d1 \<and> set d \<subseteq> set d1 \<and> set (succs g x) \<subseteq> set d1 \<and> set (x # path) \<inter> set d1 = {}"
      using "2.IH"(2) [OF x False d1] "2.prems"(2,3) False by simp
    have "(x, x) \<notin> (edges g)\<^sup>+"
    proof
      assume "(x, x) \<in> (edges g)\<^sup>+"
      then obtain y where y: "(x, y) \<in> edges g" "(y, x) \<in> (edges g)\<^sup>*"
        by (meson tranclD)
      then have "y \<in> set d1" using s1 by (auto simp: edges_def)
      moreover have "y \<noteq> x" using s1 calculation by auto
      then have "(y, x) \<in> (edges g)\<^sup>+" using y(2) by (meson rtranclD)
      ultimately have "x \<in> set d1" using settled_trancl s1 by blast
      then show False using s1 by simp
    qed
    then have "settled g (x # d1)" using s1 by (auto simp: settled_def)
    moreover have "set path \<inter> set (x # d1) = {}" using s1 x by auto
    ultimately show ?thesis
      using "2.IH"(3) [OF x False d1 [symmetric] refl d'] s1 by auto
  qed
qed auto

lemma acyclic_walk_complete:
  assumes "fst (acyclic_walk g path d xs) = False"
    and "\<forall>p \<in> set path. \<forall>x \<in> set xs. (p, x) \<in> (edges g)\<^sup>+"
  shows "\<exists>y. (y, y) \<in> (edges g)\<^sup>+ \<and> (\<exists>x \<in> set xs. (x, y) \<in> (edges g)\<^sup>*)"
  using assms
proof (induction g path d xs rule: acyclic_walk.induct)
  case (2 g path d x xs)
  show ?case
  proof (cases "x \<in> set path")
    case True
    then show ?thesis using "2.prems"(2) by fastforce
  next
    case x: False
    show ?thesis
    proof (cases "x \<in> set d")
      case True
      then show ?thesis using "2.IH"(1) [OF x True] "2.prems" x by auto
    next
      case False
      obtain b d1 where d1: "acyclic_walk g (x # path) d (succs g x) = (b, d1)" by fastforce
      show ?thesis
      proof (cases b)
        case True
        then have bT: "b = True" by simp
        have "fst (acyclic_walk g path (x # d1) xs) = False" using "2.prems"(1) x False d1 bT by simp
        from "2.IH"(3) [OF x False d1 [symmetric] bT this] show ?thesis using "2.prems"(2) by auto
      next
        case b: False
        have "\<forall>p \<in> set (x # path). \<forall>s \<in> set (succs g x). (p, s) \<in> (edges g)\<^sup>+"
          using "2.prems"(2) by (auto simp: edges_def intro: trancl_into_trancl)
        then obtain y s where "(y, y) \<in> (edges g)\<^sup>+" "s \<in> set (succs g x)" "(s, y) \<in> (edges g)\<^sup>*"
          using "2.IH"(2) [OF x False] d1 b by auto
        moreover have "(x, s) \<in> edges g" using calculation(2) by (simp add: edges_def)
        ultimately show ?thesis by (auto intro: converse_rtrancl_into_rtrancl)
      qed
    qed
  qed
qed simp

lemma acyclic_walk_all_iff:
  "fst (acyclic_walk g [] [] xs) \<longleftrightarrow> (\<forall>x \<in> set xs. \<forall>y. (x, y) \<in> (edges g)\<^sup>* \<longrightarrow> (y, y) \<notin> (edges g)\<^sup>+)"
proof
  assume "fst (acyclic_walk g [] [] xs)"
  then obtain d where "acyclic_walk g [] [] xs = (True, d)" by (metis prod.collapse)
  then have d: "settled g d" "set xs \<subseteq> set d" using acyclic_walk_sound by (fastforce simp: settled_def)+
  show "\<forall>x \<in> set xs. \<forall>y. (x, y) \<in> (edges g)\<^sup>* \<longrightarrow> (y, y) \<notin> (edges g)\<^sup>+"
  proof (intro ballI allI impI)
    fix x y assume "x \<in> set xs" "(x, y) \<in> (edges g)\<^sup>*"
    then have "y \<in> set d" using d(2) settled_trancl [OF d(1)] by (metis rtranclD subsetD)
    then show "(y, y) \<notin> (edges g)\<^sup>+" using d(1) by (simp add: settled_def)
  qed
next
  assume a: "\<forall>x \<in> set xs. \<forall>y. (x, y) \<in> (edges g)\<^sup>* \<longrightarrow> (y, y) \<notin> (edges g)\<^sup>+"
  show "fst (acyclic_walk g [] [] xs)"
  proof (rule ccontr)
    assume "\<not> fst (acyclic_walk g [] [] xs)"
    then show False using acyclic_walk_complete [of g "[]" "[]" xs] a by auto
  qed
qed

lemma acyclic_walk_iff:
  "fst (acyclic_walk g [] [] [x]) \<longleftrightarrow> (\<forall>y. (x, y) \<in> (edges g)\<^sup>* \<longrightarrow> (y, y) \<notin> (edges g)\<^sup>+)"
  by (simp only: acyclic_walk_all_iff) simp

definition saved_graph :: "connection list \<Rightarrow> graph" where
  "saved_graph servers = map (\<lambda>s. (cn_id s, cn_fallbacks s)) servers"

lemma new_edge_path:
  assumes "\<And>x y. (x, y) \<in> E' \<Longrightarrow> x = i \<or> (x, y) \<in> E" "(a, b) \<in> E'\<^sup>+"
  shows "(a, b) \<in> E\<^sup>+ \<or> ((a, i) \<in> E'\<^sup>* \<and> (i, b) \<in> E'\<^sup>+)"
  using assms(2)
proof (induction rule: trancl_induct)
  case (base y)
  then show ?case using assms(1) [of a y] by auto
next
  case (step y z)
  show ?case
  proof (cases "y = i")
    case True
    then show ?thesis using step.hyps by (auto intro: trancl_into_rtrancl)
  next
    case False
    then have "(y, z) \<in> E" using assms(1) step.hyps(2) by blast
    then show ?thesis using step.IH step.hyps(2) by (auto intro: trancl_into_trancl)
  qed
qed

lemma find_distinct_rev:
  "distinct (map cn_id xs) \<Longrightarrow> find (\<lambda>s. cn_id s = i) (rev xs) = find (\<lambda>s. cn_id s = i) xs"
proof (induction xs)
  case (Cons x xs)
  then have "\<not> (\<exists>s. s \<in> set xs \<and> cn_id s = cn_id x)" by (metis distinct.simps(2) image_eqI list.set_map list.simps(9))
  then have "find (\<lambda>s. cn_id s = cn_id x) xs = None" by (simp add: find_None_iff)
  then show ?case using Cons by (auto simp: find_append split: option.split)
qed simp

lemma succs_saved_graph:
  assumes "distinct (map cn_id servers)"
  shows "succs (saved_graph servers) j
    = (case find_connection servers j of None \<Rightarrow> [] | Some s \<Rightarrow> cn_fallbacks s)"
  using find_distinct_rev [OF assms, of j]
  by (simp add: succs_def saved_graph_def map_of_rev_connections find_connection_def split: option.split)

lemma find_connection_id: "find_connection servers j = Some s \<Longrightarrow> cn_id s = j"
  by (auto simp: find_connection_def find_Some_iff)

lemma find_map_update:
  assumes "\<And>s. cn_id (f s) = cn_id s"
  shows "find (\<lambda>s. cn_id s = i) (map f xs) = map_option f (find (\<lambda>s. cn_id s = i) xs)"
  by (induction xs) (auto simp: assms)


definition two_connections :: "connection list" where
  "two_connections =
    [\<lparr>cn_id = ''a'', cn_enabled = True, cn_client_enabled = True, cn_can_start = True, cn_standby = False,
      cn_fallbacks = [''b''], cn_routing_mode = '''', cn_routing_active = True\<rparr>,
     \<lparr>cn_id = ''b'', cn_enabled = True, cn_client_enabled = True, cn_can_start = True, cn_standby = True,
      cn_fallbacks = [], cn_routing_mode = '''', cn_routing_active = True\<rparr>]"


theorem connection_fallbacks_reachable_witness:
  "connection_fallback_ids two_connections ''a'' ['' c '', ''b''] = [''c'', ''b'']
   \<and> hd (connection_fallback_ids two_connections ''a'' ['' c '', ''b'']) = ''c''"
proof -
  have c: "clean_ids ['' c '', ''b''] = [''c'', ''b'']" by code_simp
  have e: "connection_fallback_ids two_connections ''a'' ['' c '', ''b''] = [''c'', ''b'']" by code_simp
  show ?thesis
    using connection_fallbacks_reachable [where servers = two_connections and primary = "''a''" and rule_fallbacks = "['' c '', ''b'']"]
    unfolding Let_def c e by simp
qed

end
