(* ===== verification/Go_Time.thy ===== *)
theory Go_Time
  imports Prelude
begin

text \<open>
  Go's \<open>time\<close> package: a \<open>time.Time\<close> is an \<^typ>\<open>int\<close>, in nanoseconds since the Unix epoch; \<open>zero_time\<close>
  is Go's zero value, the first of January of the year 1. A \<open>time.Duration\<close> is an \<^typ>\<open>int\<close> in nanoseconds;
  \<open>Time.Sub\<close> saturates at the bounds of \<open>int64\<close>.
\<close>

type_synonym time = int
type_synonym duration = int

definition zero_time :: time where "zero_time = - 62135596800000000000"

definition secs :: "int \<Rightarrow> duration" where "secs n = n * 1000000000"

definition time_sub :: "time \<Rightarrow> time \<Rightarrow> duration" where
  "time_sub a b = max (- 9223372036854775808) (min 9223372036854775807 (a - b))"

text \<open>A duration in whole seconds, as \<open>uint32(d / time.Second)\<close> converts it when it is positive.\<close>

definition whole_seconds :: "duration \<Rightarrow> nat" where
  "whole_seconds d = nat (d div 1000000000) mod 4294967296"

lemma whole_seconds_le: "0 \<le> d \<Longrightarrow> int (whole_seconds d) * 1000000000 \<le> d"
proof -
  assume "0 \<le> d"
  have "whole_seconds d \<le> nat (d div 1000000000)" unfolding whole_seconds_def by (rule mod_less_eq_dividend)
  then have "int (whole_seconds d) \<le> int (nat (d div 1000000000))" by (rule of_nat_mono)
  also have "\<dots> = d div 1000000000" using \<open>0 \<le> d\<close> by (simp add: pos_imp_zdiv_nonneg_iff)
  finally show ?thesis by linarith
qed

end
