(* ===== verification/Recovery.thy ===== *)
theory Recovery
  imports Go_Time
begin

text \<open>
  \<open>internal/services/awgroute/recovery_settings.go\<close> and the recovery state machine of
  \<open>client_watchdog.go\<close>: when the watchdog waits, asks an idle peer for a handshake, or replaces the
  interface of a connection, and how the retries of an outage are spaced.

  The byte counter and the handshake time of a status are \<^typ>\<open>int\<close>.
\<close>

section \<open>Time\<close>

definition unix :: "time \<Rightarrow> int" where "unix t = t div 1000000000"

definition client_stale_after :: duration where "client_stale_after = secs 180"
definition client_probe_grace :: duration where "client_probe_grace = secs 20"

section \<open>Recovery settings\<close>

record recovery_settings =
  fast_retry :: int
  retry_delay_secs :: int
  slow_retry_after :: int
  slow_retry_delay :: int
  handshake_secs :: int

definition default_recovery_settings :: recovery_settings where
  "default_recovery_settings =
    \<lparr>fast_retry = 60, retry_delay_secs = 5, slow_retry_after = 3600, slow_retry_delay = 90, handshake_secs = 20\<rparr>"

datatype settings_error = OutOfRange nat int int | SlowBeforeFast

text \<open>The rows of the table of \<open>Validate\<close>: value, least and greatest value.\<close>

definition settings_checks :: "recovery_settings \<Rightarrow> (int \<times> int \<times> int) list" where
  "settings_checks s =
    [(fast_retry s, 1, 600), (retry_delay_secs s, 1, 30), (slow_retry_after s, 1800, 3600),
     (slow_retry_delay s, 90, 900), (handshake_secs s, 5, 60)]"

fun run_checks :: "nat \<Rightarrow> (int \<times> int \<times> int) list \<Rightarrow> settings_error option" where
  "run_checks n [] = None"
| "run_checks n ((v, lo, hi) # rest) = (if v < lo \<or> v > hi then Some (OutOfRange n lo hi) else run_checks (n + 1) rest)"

definition validate_settings :: "recovery_settings \<Rightarrow> settings_error option" where
  "validate_settings s =
    (case run_checks 0 (settings_checks s) of
       Some e \<Rightarrow> Some e
     | None \<Rightarrow> if slow_retry_after s \<le> fast_retry s then Some SlowBeforeFast else None)"

definition normalize_settings :: "recovery_settings option \<Rightarrow> recovery_settings" where
  "normalize_settings saved =
    (let d = default_recovery_settings in
     case saved of None \<Rightarrow> d
     | Some s0 \<Rightarrow>
       (let s1 = (if fast_retry s0 < 1 \<or> fast_retry s0 > 600 then s0\<lparr>fast_retry := fast_retry d\<rparr> else s0);
            s2 = (if retry_delay_secs s1 < 1 \<or> retry_delay_secs s1 > 30 then s1\<lparr>retry_delay_secs := retry_delay_secs d\<rparr> else s1);
            s3 = (if slow_retry_after s2 < 1800 \<or> slow_retry_after s2 > 3600 then s2\<lparr>slow_retry_after := slow_retry_after d\<rparr> else s2);
            s4 = (if slow_retry_delay s3 < 90 \<or> slow_retry_delay s3 > 900 then s3\<lparr>slow_retry_delay := slow_retry_delay d\<rparr> else s3)
        in if handshake_secs s4 < 5 \<or> handshake_secs s4 > 60 then s4\<lparr>handshake_secs := handshake_secs d\<rparr> else s4))"

definition handshake_timeout :: "recovery_settings \<Rightarrow> duration" where
  "handshake_timeout s = secs (handshake_secs s)"

definition retry_delay :: "recovery_settings \<Rightarrow> duration \<Rightarrow> duration" where
  "retry_delay s outage =
    (if outage < secs (fast_retry s) then 0
     else if outage < secs (slow_retry_after s) then secs (retry_delay_secs s)
     else secs (slow_retry_delay s))"

section \<open>The recovery record\<close>

datatype recovery_note = NoNote | ProbingTunnel | AwaitingHandshake | AttemptFailed string

record client_recovery =
  cr_seen :: bool
  cr_rx :: int
  cr_handshake :: int
  cr_healthy_at :: time
  cr_probe_at :: time
  cr_probe_until :: time
  cr_verify_until :: time
  cr_retry_at :: time
  cr_failure_since :: time
  cr_attempt_at :: time
  cr_attempts :: int
  cr_recovering :: bool
  cr_note :: recovery_note
  cr_routes_pending :: bool

text \<open>Go's zero value, what a lookup of an unknown connection yields.\<close>

definition no_recovery :: client_recovery where
  "no_recovery = \<lparr>cr_seen = False, cr_rx = 0, cr_handshake = 0, cr_healthy_at = zero_time,
    cr_probe_at = zero_time, cr_probe_until = zero_time, cr_verify_until = zero_time,
    cr_retry_at = zero_time, cr_failure_since = zero_time, cr_attempt_at = zero_time,
    cr_attempts = 0, cr_recovering = False, cr_note = NoNote, cr_routes_pending = False\<rparr>"

record client_status =
  st_running :: bool
  st_iface_present :: bool
  st_connected :: bool
  st_rx_bytes :: int
  st_last_handshake :: int

datatype recovery_action = ClientWait | ClientProbe | ClientReconnect

definition begin_failure :: "time \<Rightarrow> client_recovery \<Rightarrow> client_recovery" where
  "begin_failure now r = (if cr_failure_since r = zero_time then r\<lparr>cr_failure_since := now\<rparr> else r)"

definition probe_deadline :: "client_recovery \<Rightarrow> time" where
  "probe_deadline r =
    (if cr_probe_until r \<noteq> zero_time then cr_probe_until r
     else if cr_probe_at r \<noteq> zero_time then cr_probe_at r + client_probe_grace
     else zero_time)"

definition fresh_handshake :: "client_status \<Rightarrow> time \<Rightarrow> bool" where
  "fresh_handshake st now \<longleftrightarrow> st_last_handshake st > 0 \<and> unix now - st_last_handshake st \<ge> 0
    \<and> unix now - st_last_handshake st < client_stale_after div 1000000000"

definition made_progress :: "client_recovery \<Rightarrow> client_status \<Rightarrow> bool" where
  "made_progress r st \<longleftrightarrow> cr_seen r \<and> (st_rx_bytes st > cr_rx r \<or> st_last_handshake st > cr_handshake r)"

definition observe_with_settings ::
  "client_recovery \<Rightarrow> client_status \<Rightarrow> time \<Rightarrow> recovery_settings \<Rightarrow> client_recovery \<times> recovery_action" where
  "observe_with_settings r0 st now settings =
    (let progress = made_progress r0 st;
         r = r0\<lparr>cr_seen := True, cr_rx := st_rx_bytes st, cr_handshake := st_last_handshake st\<rparr>;
         fresh = fresh_handshake st now in
     if st_running st \<and> (fresh \<or> progress) then
       (let h0 = cr_healthy_at r;
            h1 = (if fresh \<and> secs (st_last_handshake st) > h0 then secs (st_last_handshake st) else h0);
            h2 = (if progress then now else h1) in
        (no_recovery\<lparr>cr_seen := True, cr_rx := st_rx_bytes st, cr_handshake := st_last_handshake st,
           cr_healthy_at := h2, cr_routes_pending := cr_routes_pending r\<rparr>, ClientWait))
     else if now < cr_retry_at r then (r, ClientWait)
     else if \<not> st_running st then (begin_failure now r, ClientReconnect)
     else if now < cr_verify_until r then (r, ClientWait)
     else if cr_healthy_at r \<noteq> zero_time \<and> time_sub now (cr_healthy_at r) < client_stale_after then (r, ClientWait)
     else if cr_attempts r > 0 then (begin_failure now r, ClientReconnect)
     else if cr_probe_at r = zero_time then
       ((begin_failure now r)\<lparr>cr_probe_at := now, cr_recovering := True,
          cr_probe_until := now + handshake_timeout settings, cr_note := ProbingTunnel\<rparr>, ClientProbe)
     else if now < probe_deadline r then (r, ClientWait)
     else (r, ClientReconnect))"

definition schedule_retry :: "recovery_settings \<Rightarrow> client_recovery \<Rightarrow> client_recovery" where
  "schedule_retry settings r =
    (if cr_attempt_at r = zero_time then r
     else (let base = (if cr_verify_until r \<noteq> zero_time then cr_verify_until r else cr_attempt_at r) in
       r\<lparr>cr_retry_at := base + retry_delay settings (time_sub base (cr_failure_since r))\<rparr>))"

definition attempted_with_settings ::
  "client_recovery \<Rightarrow> time \<Rightarrow> string option \<Rightarrow> recovery_settings \<Rightarrow> client_recovery" where
  "attempted_with_settings r0 now err settings =
    (let r1 = begin_failure now r0;
         r2 = r1\<lparr>cr_attempt_at := now, cr_attempts := cr_attempts r1 + 1, cr_recovering := True,
                 cr_routes_pending := True, cr_verify_until := zero_time\<rparr>;
         r3 = (case err of
                 Some e \<Rightarrow> r2\<lparr>cr_note := AttemptFailed e\<rparr>
               | None \<Rightarrow> r2\<lparr>cr_note := AwaitingHandshake, cr_verify_until := now + handshake_timeout settings\<rparr>) in
     schedule_retry settings r3)"

definition update_settings :: "recovery_settings \<Rightarrow> client_recovery \<Rightarrow> client_recovery" where
  "update_settings settings r =
    (if \<not> cr_recovering r then r
     else (let r1 = (if cr_probe_at r \<noteq> zero_time \<and> cr_attempts r = 0
                     then r\<lparr>cr_probe_until := cr_probe_at r + handshake_timeout settings\<rparr> else r) in
       if cr_attempt_at r1 = zero_time then r1
       else schedule_retry settings
         (if cr_verify_until r1 \<noteq> zero_time
          then r1\<lparr>cr_verify_until := cr_attempt_at r1 + handshake_timeout settings\<rparr> else r1)))"

text \<open>\<open>clientRecoveryStatus\<close>: what the panel shows as the end of the verification and the next retry.\<close>

definition recovery_status :: "client_recovery \<Rightarrow> int \<times> int option" where
  "recovery_status r =
    (let next = (if cr_verify_until r > cr_retry_at r then cr_verify_until r else cr_retry_at r);
         probing = cr_probe_at r \<noteq> zero_time \<and> cr_attempts r = 0;
         verification = (if probing then probe_deadline r else cr_verify_until r);
         next' = (if probing then probe_deadline r else next) in
     (if verification \<noteq> zero_time then unix verification else 0,
      if next' \<noteq> zero_time then Some (unix next') else None))"

definition client_needs_fallback :: "client_recovery \<Rightarrow> time \<Rightarrow> bool" where
  "client_needs_fallback r now \<longleftrightarrow> cr_recovering r \<and>
    (cr_attempts r > 1 \<or> cr_attempts r > 0 \<and> cr_verify_until r \<noteq> zero_time \<and> \<not> now < cr_verify_until r
     \<or> cr_probe_at r \<noteq> zero_time \<and> \<not> now < probe_deadline r)"

definition client_authenticated :: "client_status option \<Rightarrow> time \<Rightarrow> bool" where
  "client_authenticated st now = (case st of None \<Rightarrow> False
    | Some s \<Rightarrow> st_running s \<and> (st_connected s
        \<or> st_last_handshake s > 0 \<and> unix now \<ge> st_last_handshake s
          \<and> unix now - st_last_handshake s < client_stale_after div 1000000000))"

section \<open>One pass of the watchdog over a connection\<close>

text \<open>
  What \<open>checkClient\<close> learns from outside: membership and the desired state, cancellation of the
  operation before, between and after the driver calls, and the driver's answers. \<open>env_later\<close> is the clock when
  the attempt is recorded.
\<close>

record client_env =
  env_present :: bool
  env_should_run :: bool
  env_cancelled :: bool
  env_status :: "client_status option"
  env_current_engine :: bool
  env_cancelled_restore :: bool
  env_routes_error :: "string option"
  env_recover_error :: "string option"
  env_cancelled_after :: bool
  env_now :: time
  env_later :: time

datatype client_event = RestoreRoutes | RecoveredHook | Probe | Recover

text \<open>An interface left by another engine counts as not running; routes are restored on the first look.\<close>

definition observed_status :: "client_env \<Rightarrow> client_status \<Rightarrow> client_status" where
  "observed_status env st = (if st_running st \<and> \<not> env_current_engine env then st\<lparr>st_running := False\<rparr> else st)"

definition first_look :: "client_recovery \<Rightarrow> client_recovery" where
  "first_look r = (if \<not> cr_seen r then r\<lparr>cr_routes_pending := True\<rparr> else r)"

definition check_client ::
  "recovery_settings \<Rightarrow> client_env \<Rightarrow> client_recovery \<Rightarrow> client_recovery \<times> client_event list" where
  "check_client settings env r0 =
    (if \<not> env_present env \<or> \<not> env_should_run env \<or> env_cancelled env then (no_recovery, [])
     else case env_status env of None \<Rightarrow> (r0, [])
     | Some st \<Rightarrow>
       (let observed = observed_status env st;
            r1 = first_look r0;
            (r2, action) = observe_with_settings r1 observed (env_now env) settings;
            restore = (action \<noteq> ClientReconnect \<and> st_running observed \<and> cr_routes_pending r2 \<and> \<not> env_cancelled_restore env);
            r3 = (if restore \<and> env_routes_error env = None then r2\<lparr>cr_routes_pending := False\<rparr> else r2);
            events = (if restore then [RestoreRoutes] else [])
              @ (if cr_recovering r1 \<and> \<not> cr_recovering r3 then [RecoveredHook] else []) in
        case action of
          ClientWait \<Rightarrow> (r3, events)
        | ClientProbe \<Rightarrow> (r3, events @ [Probe])
        | ClientReconnect \<Rightarrow>
            (if env_cancelled_after env then r3
             else attempted_with_settings r3 (env_later env) (env_recover_error env) settings,
             events @ [Recover])))"

section \<open>Settings: the validated ranges\<close>

definition valid_settings :: "recovery_settings \<Rightarrow> bool" where
  "valid_settings s \<longleftrightarrow> 1 \<le> fast_retry s \<and> fast_retry s \<le> 600 \<and> 1 \<le> retry_delay_secs s \<and> retry_delay_secs s \<le> 30
    \<and> 1800 \<le> slow_retry_after s \<and> slow_retry_after s \<le> 3600 \<and> 90 \<le> slow_retry_delay s \<and> slow_retry_delay s \<le> 900
    \<and> 5 \<le> handshake_secs s \<and> handshake_secs s \<le> 60"

lemma validate_iff: "validate_settings s = None \<longleftrightarrow> valid_settings s"
  by (auto simp: validate_settings_def settings_checks_def valid_settings_def)

lemma normalize_valid: "valid_settings (normalize_settings saved)"
  by (cases saved) (simp_all add: normalize_settings_def valid_settings_def default_recovery_settings_def Let_def)

lemma normalize_fixed: "normalize_settings (Some s) = s \<longleftrightarrow> valid_settings s"
proof
  assume "normalize_settings (Some s) = s"
  then show "valid_settings s" using normalize_valid [of "Some s"] by simp
next
  assume "valid_settings s"
  then show "normalize_settings (Some s) = s"
    by (simp add: normalize_settings_def valid_settings_def Let_def)
qed

text \<open>
  The settings the watchdog runs with are always valid: whatever is saved, normalisation yields
  settings that \<open>Validate\<close> accepts, it leaves saved settings alone exactly when \<open>Validate\<close> accepts
  them, and with accepted settings every pause is between one second and fifteen minutes once the first
  phase is over.
\<close>
theorem normalized_settings_validate:
  "validate_settings (normalize_settings saved) = None
   \<and> (normalize_settings (Some s) = s \<longleftrightarrow> validate_settings s = None)
   \<and> retry_delay (normalize_settings saved) outage
       \<in> {0} \<union> {secs 1 .. secs 30} \<union> {secs 90 .. secs 900}
   \<and> (retry_delay (normalize_settings saved) outage = 0 \<longleftrightarrow> outage < secs (fast_retry (normalize_settings saved)))
   \<and> handshake_timeout (normalize_settings saved) \<in> {secs 5 .. secs 60}"
  using normalize_valid [of saved]
  by (auto simp: validate_iff normalize_fixed retry_delay_def handshake_timeout_def secs_def valid_settings_def)

section \<open>The invariant of a recovery record\<close>

definition retry_base :: "client_recovery \<Rightarrow> time" where
  "retry_base r = (if cr_verify_until r = zero_time then cr_attempt_at r else cr_verify_until r)"

definition recovery_inv :: "time \<Rightarrow> client_recovery \<Rightarrow> bool" where
  "recovery_inv now r \<longleftrightarrow> 0 \<le> now
    \<and> (cr_healthy_at r \<le> now) \<and> cr_failure_since r \<le> now
    \<and> cr_attempts r \<ge> 0
    \<and> (cr_attempt_at r \<noteq> zero_time \<longleftrightarrow> cr_attempts r > 0)
    \<and> (cr_recovering r \<longrightarrow> cr_failure_since r \<noteq> zero_time)
    \<and> (cr_failure_since r = zero_time \<or> 0 \<le> cr_failure_since r)
    \<and> (if cr_attempts r > 0
       then cr_recovering r \<and> cr_failure_since r \<le> cr_attempt_at r \<and> cr_attempt_at r \<le> now
         \<and> (cr_verify_until r = zero_time
            \<or> cr_attempt_at r + secs 5 \<le> cr_verify_until r \<and> cr_verify_until r \<le> cr_attempt_at r + secs 60)
         \<and> retry_base r \<le> cr_retry_at r \<and> cr_retry_at r \<le> retry_base r + secs 900
       else cr_verify_until r = zero_time \<and> cr_retry_at r = zero_time)
    \<and> (if cr_probe_at r = zero_time then cr_probe_until r = zero_time
       else cr_recovering r \<and> cr_failure_since r \<le> cr_probe_at r \<and> cr_probe_at r \<le> now
         \<and> cr_probe_at r + secs 5 \<le> cr_probe_until r \<and> cr_probe_until r \<le> cr_probe_at r + secs 60)"

lemma recovery_inv_initial: "0 \<le> now \<Longrightarrow> recovery_inv now no_recovery"
  by (simp add: recovery_inv_def no_recovery_def zero_time_def)

lemma recovery_inv_nonneg: "recovery_inv now r \<Longrightarrow> 0 \<le> now"
  by (simp add: recovery_inv_def)

lemma recovery_inv_later: "recovery_inv now r \<Longrightarrow> now \<le> now' \<Longrightarrow> recovery_inv now' r"
  by (auto simp: recovery_inv_def)

lemma retry_delay_bounds: "valid_settings s \<Longrightarrow> 0 \<le> retry_delay s d \<and> retry_delay s d \<le> secs 900"
  by (simp add: retry_delay_def valid_settings_def secs_def)

lemma handshake_timeout_bounds: "valid_settings s \<Longrightarrow> secs 5 \<le> handshake_timeout s \<and> handshake_timeout s \<le> secs 60"
  by (simp add: handshake_timeout_def valid_settings_def secs_def)

text \<open>The fields of a record after an attempt at a time that is not the zero time.\<close>

lemma attempted_fields:
  assumes "later \<noteq> zero_time"
  defines "a \<equiv> \<lambda>r err s. attempted_with_settings r later err s"
  shows "cr_attempts (a r err s) = cr_attempts r + 1" "cr_recovering (a r err s)" "cr_attempt_at (a r err s) = later"
    "cr_failure_since (a r err s) = (if cr_failure_since r = zero_time then later else cr_failure_since r)"
    "cr_verify_until (a r err s) = (case err of None \<Rightarrow> later + handshake_timeout s | Some _ \<Rightarrow> zero_time)"
    "cr_healthy_at (a r err s) = cr_healthy_at r"
    "cr_probe_at (a r err s) = cr_probe_at r" "cr_probe_until (a r err s) = cr_probe_until r"
    "cr_retry_at (a r err s) = retry_base (a r err s)
       + retry_delay s (time_sub (retry_base (a r err s)) (cr_failure_since (a r err s)))"
  using assms(1)
  by (simp_all add: a_def attempted_with_settings_def schedule_retry_def begin_failure_def retry_base_def Let_def
      split: option.split)

lemma recovery_inv_attempted:
  assumes inv: "recovery_inv now r" and s: "valid_settings s" and le: "now \<le> later"
  shows "recovery_inv later (attempted_with_settings r later err s)"
proof -
  have l: "0 \<le> later" "later \<noteq> zero_time" using inv le by (auto simp: recovery_inv_def zero_time_def)
  note f = attempted_fields [OF l(2), of r err s]
  define a where "a = attempted_with_settings r later err s"
  note f' = f [folded a_def]
  have v: "cr_verify_until a = zero_time \<or> later + secs 5 \<le> cr_verify_until a \<and> cr_verify_until a \<le> later + secs 60"
    using handshake_timeout_bounds [OF s] by (simp add: f' split: option.split)
  have t: "retry_base a \<le> cr_retry_at a \<and> cr_retry_at a \<le> retry_base a + secs 900"
    using retry_delay_bounds [OF s] by (subst (1 2) f'(9)) simp
  show ?thesis
    using recovery_inv_later [OF inv le] v t f'(1-8) l
    unfolding recovery_inv_def a_def [symmetric] by (auto split: if_splits)
qed

lemma update_fields:
  defines "u \<equiv> \<lambda>s r. update_settings s r"
  assumes "recovery_inv now r" "valid_settings s"
  shows "cr_attempts (u s r) = cr_attempts r" "cr_recovering (u s r) = cr_recovering r"
    "cr_attempt_at (u s r) = cr_attempt_at r" "cr_failure_since (u s r) = cr_failure_since r"
    "cr_healthy_at (u s r) = cr_healthy_at r" "cr_probe_at (u s r) = cr_probe_at r"
    "cr_seen (u s r) = cr_seen r" "cr_rx (u s r) = cr_rx r" "cr_handshake (u s r) = cr_handshake r"
    "cr_note (u s r) = cr_note r" "cr_routes_pending (u s r) = cr_routes_pending r"
    "cr_verify_until (u s r) = (if cr_verify_until r = zero_time then zero_time else cr_attempt_at r + handshake_timeout s)"
    "cr_probe_until (u s r) = (if cr_probe_at r \<noteq> zero_time \<and> cr_attempts r = 0
       then cr_probe_at r + handshake_timeout s else cr_probe_until r)"
    "cr_retry_at (u s r) = (if cr_attempts r = 0 then cr_retry_at r else retry_base (u s r)
       + retry_delay s (time_sub (retry_base (u s r)) (cr_failure_since r)))"
  using assms(2) handshake_timeout_bounds [OF assms(3)]
  by (auto simp: u_def update_settings_def schedule_retry_def retry_base_def Let_def recovery_inv_def zero_time_def secs_def)

lemma recovery_inv_update:
  assumes inv: "recovery_inv now r" and s: "valid_settings s"
  shows "recovery_inv now (update_settings s r)"
proof -
  define u where "u = update_settings s r"
  note f = update_fields [OF inv s, folded u_def]
  note b = handshake_timeout_bounds [OF s]
  have t: "cr_attempts r > 0 \<Longrightarrow> retry_base u \<le> cr_retry_at u \<and> cr_retry_at u \<le> retry_base u + secs 900"
    using retry_delay_bounds [OF s] f(14) by simp
  show ?thesis
    using inv t f(1-6,12-14) b unfolding recovery_inv_def u_def [symmetric]
    by (auto split: if_splits)
qed

lemma recovery_inv_observe:
  assumes inv: "recovery_inv now r" and s: "valid_settings s"
  shows "recovery_inv now (fst (observe_with_settings r st now s))"
proof -
  define q where "q = r\<lparr>cr_seen := True, cr_rx := st_rx_bytes st, cr_handshake := st_last_handshake st\<rparr>"
  have q: "recovery_inv now q" using inv by (auto simp: q_def recovery_inv_def retry_base_def)
  have healthy: "recovery_inv now (no_recovery\<lparr>cr_seen := True, cr_rx := a, cr_handshake := b, cr_healthy_at := h, cr_routes_pending := p\<rparr>)"
    if "h \<le> now" for a b h p
    using that q by (simp add: recovery_inv_def no_recovery_def zero_time_def)
  have bf: "recovery_inv now (begin_failure now q)"
    using q by (auto simp: recovery_inv_def begin_failure_def retry_base_def zero_time_def)
  have probe: "recovery_inv now ((begin_failure now q)\<lparr>cr_probe_at := now, cr_recovering := True,
      cr_probe_until := now + handshake_timeout s, cr_note := ProbingTunnel\<rparr>)"
    using bf q handshake_timeout_bounds [OF s]
    by (auto simp: recovery_inv_def begin_failure_def retry_base_def zero_time_def)
  have h: "(if fresh_handshake st now \<and> x < secs (st_last_handshake st) then secs (st_last_handshake st) else x) \<le> now"
    if "x \<le> now" for x
    using that by (auto simp: fresh_handshake_def unix_def secs_def)
  have hq: "cr_healthy_at q \<le> now" using q by (simp add: recovery_inv_def)
  show ?thesis
    unfolding observe_with_settings_def Let_def q_def [symmetric]
    using q bf probe healthy h [OF hq] by (simp split: if_split)
qed

lemma recovery_inv_check:
  assumes inv: "recovery_inv now r" and s: "valid_settings s"
    and le: "now \<le> env_now env" "env_now env \<le> env_later env"
  shows "recovery_inv (env_later env) (fst (check_client s env r))"
proof -
  have pend: "recovery_inv t (x\<lparr>cr_routes_pending := p\<rparr>) = recovery_inv t x" for t x p
    by (simp add: recovery_inv_def retry_base_def)
  have none: "recovery_inv (env_later env) no_recovery"
    using inv le by (intro recovery_inv_initial) (simp add: recovery_inv_def)
  show ?thesis
  proof (cases "\<not> env_present env \<or> \<not> env_should_run env \<or> env_cancelled env")
    case True
    then show ?thesis using none unfolding check_client_def by auto
  next
    case ok: False
    show ?thesis
    proof (cases "env_status env")
      case None
      then show ?thesis using ok recovery_inv_later [OF inv] le unfolding check_client_def by auto
    next
      case (Some st)
      define ob where "ob = observed_status env st"
      define r1 where "r1 = first_look r"
      obtain r2 act where o: "observe_with_settings r1 ob (env_now env) s = (r2, act)" by fastforce
      have "recovery_inv (env_now env) r1" using recovery_inv_later [OF inv le(1)] by (simp add: r1_def first_look_def pend)
      from recovery_inv_observe [OF this s, of ob] have r2: "recovery_inv (env_now env) r2" by (simp add: o)
      define r3 where "r3 = (if (act \<noteq> ClientReconnect \<and> st_running ob \<and> cr_routes_pending r2 \<and> \<not> env_cancelled_restore env)
          \<and> env_routes_error env = None then r2\<lparr>cr_routes_pending := False\<rparr> else r2)"
      have r3: "recovery_inv (env_now env) r3" using r2 by (simp add: r3_def pend)
      have "fst (check_client s env r) = (if act = ClientReconnect \<and> \<not> env_cancelled_after env
          then attempted_with_settings r3 (env_later env) (env_recover_error env) s else r3)"
        using ok Some o unfolding check_client_def r3_def ob_def r1_def
        by (simp add: Let_def split: recovery_action.split)
      then show ?thesis using recovery_inv_later [OF r3 le(2)] recovery_inv_attempted [OF r3 s le(2)] by simp
    qed
  qed
qed

section \<open>Histories\<close>

record watchdog =
  wd_settings :: recovery_settings
  wd_now :: time
  wd_client :: client_recovery

text \<open>
  What happens to one connection: time passes, the watchdog looks at it, the user's own start or
  reconnect is recorded (\<open>recordClientAttempt\<close>), settings are saved (\<open>AWG2SetRecoverySettings\<close>), the
  record is dropped (\<open>forgetClientRecovery\<close>).
\<close>

inductive watchdog_step :: "watchdog \<Rightarrow> watchdog \<Rightarrow> bool" where
  pass: "wd_now w \<le> t \<Longrightarrow> watchdog_step w (w\<lparr>wd_now := t\<rparr>)"
| check: "wd_now w \<le> env_now env \<Longrightarrow> env_now env \<le> env_later env
    \<Longrightarrow> watchdog_step w (w\<lparr>wd_now := env_later env, wd_client := fst (check_client (wd_settings w) env (wd_client w))\<rparr>)"
| attempt: "watchdog_step w (w\<lparr>wd_client := attempted_with_settings (wd_client w) (wd_now w) err (wd_settings w)\<rparr>)"
| configure: "validate_settings s = None
    \<Longrightarrow> watchdog_step w (w\<lparr>wd_settings := s, wd_client := update_settings s (wd_client w)\<rparr>)"
| forget: "watchdog_step w (w\<lparr>wd_client := no_recovery\<rparr>)"

inductive watchdog_reachable :: "watchdog \<Rightarrow> bool" where
  start: "0 \<le> t \<Longrightarrow> watchdog_reachable \<lparr>wd_settings = normalize_settings saved, wd_now = t, wd_client = no_recovery\<rparr>"
| step: "watchdog_reachable w \<Longrightarrow> watchdog_step w w' \<Longrightarrow> watchdog_reachable w'"

lemma watchdog_invariant:
  "watchdog_reachable w \<Longrightarrow> valid_settings (wd_settings w) \<and> recovery_inv (wd_now w) (wd_client w)"
proof (induction rule: watchdog_reachable.induct)
  case (start t saved)
  then show ?case by (simp add: normalize_valid recovery_inv_initial)
next
  case (step w w')
  note inv = conjunct2 [OF step.IH] and s = conjunct1 [OF step.IH]
  from step.hyps(2) show ?case
  proof cases
    case (pass t) then show ?thesis using s recovery_inv_later [OF inv] by simp
  next
    case (check env) then show ?thesis using s recovery_inv_check [OF inv s] by simp
  next
    case (attempt err) then show ?thesis using s recovery_inv_attempted [OF inv s order_refl] by simp
  next
    case (configure st) then show ?thesis using recovery_inv_update [OF inv] by (simp add: validate_iff)
  next
    case forget then show ?thesis using s recovery_inv_initial [OF recovery_inv_nonneg [OF inv]] by simp
  qed
qed

lemma time_sub_less: "- 9223372036854775808 < d \<Longrightarrow> d \<le> 9223372036854775807 \<Longrightarrow> time_sub a b < d \<longleftrightarrow> a - b < d"
  by (auto simp: time_sub_def max_def min_def)

lemma stale_window: "time_sub a b < client_stale_after \<longleftrightarrow> a - b < client_stale_after"
  by (rule time_sub_less) (simp_all add: client_stale_after_def secs_def)

lemma retry_upper:
  assumes "recovery_inv now r"
  shows "cr_attempts r = 0 \<and> cr_retry_at r = zero_time \<and> cr_verify_until r = zero_time
    \<or> 0 < cr_attempts r \<and> cr_attempt_at r \<le> cr_retry_at r \<and> cr_verify_until r \<le> cr_retry_at r
      \<and> cr_retry_at r \<le> cr_attempt_at r + secs 960"
  using assms by (auto simp: recovery_inv_def retry_base_def zero_time_def secs_def split: if_splits)

text \<open>
  (C17) The watchdog never replaces a connection too early. In every reachable state, if it decides to
  reconnect then the pause of the previous attempt is over, the handshake verification of that attempt
  is over too (also when the interface has disappeared meanwhile), and a running interface has shown
  neither a fresh handshake nor any progress since the last look.
\<close>
theorem reconnect_not_early:
  assumes "watchdog_reachable w" "wd_now w \<le> now"
    and "snd (observe_with_settings (wd_client w) st now (wd_settings w)) = ClientReconnect"
  shows "cr_retry_at (wd_client w) \<le> now \<and> cr_verify_until (wd_client w) \<le> now
    \<and> (cr_attempts (wd_client w) > 0 \<and> cr_verify_until (wd_client w) \<noteq> zero_time
        \<longrightarrow> cr_attempt_at (wd_client w) + secs 5 \<le> now)
    \<and> (st_running st \<longrightarrow> \<not> fresh_handshake st now \<and> \<not> made_progress (wd_client w) st
        \<and> cr_healthy_at (wd_client w) + client_stale_after \<le> now)"
proof -
  note inv = conjunct2 [OF watchdog_invariant [OF assms(1)]]
  have wait: "cr_retry_at (wd_client w) \<le> now"
    and run: "st_running st \<longrightarrow> \<not> fresh_handshake st now \<and> \<not> made_progress (wd_client w) st
        \<and> (cr_healthy_at (wd_client w) = zero_time \<or> client_stale_after \<le> now - cr_healthy_at (wd_client w))"
    using assms(3) unfolding observe_with_settings_def Let_def
    by (auto simp: stale_window split: if_splits)
  have v: "cr_verify_until (wd_client w) \<le> now"
    using retry_upper [OF inv] wait recovery_inv_nonneg [OF inv] assms(2) by (auto simp: zero_time_def)
  have a: "cr_attempts (wd_client w) > 0 \<and> cr_verify_until (wd_client w) \<noteq> zero_time
      \<longrightarrow> cr_attempt_at (wd_client w) + secs 5 \<le> cr_verify_until (wd_client w)"
    using inv by (auto simp: recovery_inv_def)
  have h: "cr_healthy_at (wd_client w) = zero_time \<longrightarrow> cr_healthy_at (wd_client w) + client_stale_after \<le> now"
    using recovery_inv_nonneg [OF inv] assms(2) by (simp add: zero_time_def client_stale_after_def secs_def)
  show ?thesis using wait run v a h by auto
qed

text \<open>
  (C18) The watchdog never gives up. In every reachable state, sixteen minutes after the last attempt at
  the latest (sixty seconds of verification and the longest accepted pause), a connection whose
  interface is gone is replaced, and a running one without a fresh handshake or progress for three
  minutes is replaced, or first asked for a handshake, at most sixty seconds earlier, when this outage
  has had no attempt.
\<close>
theorem watchdog_never_gives_up:
  assumes "watchdog_reachable w" "wd_now w \<le> now"
    and "cr_attempts (wd_client w) = 0 \<or> cr_attempt_at (wd_client w) + secs 960 \<le> now"
    and "\<not> (st_running st \<and> (fresh_handshake st now \<or> made_progress (wd_client w) st))"
    and "st_running st \<Longrightarrow> cr_healthy_at (wd_client w) + client_stale_after \<le> now"
  shows "case snd (observe_with_settings (wd_client w) st now (wd_settings w)) of
      ClientReconnect \<Rightarrow> True
    | ClientProbe \<Rightarrow> st_running st \<and> cr_attempts (wd_client w) = 0 \<and> cr_probe_at (wd_client w) = zero_time
    | ClientWait \<Rightarrow> st_running st \<and> cr_attempts (wd_client w) = 0 \<and> now < cr_probe_at (wd_client w) + secs 60"
proof -
  define r where "r = wd_client w"
  have inv: "recovery_inv (wd_now w) r" using watchdog_invariant [OF assms(1)] by (simp add: r_def)
  have now: "0 \<le> now" using recovery_inv_nonneg [OF inv] assms(2) by simp
  have wait: "\<not> now < cr_retry_at r" "\<not> now < cr_verify_until r"
    using retry_upper [OF inv] assms(3) now by (auto simp: r_def zero_time_def secs_def)
  have probe: "cr_probe_at r \<noteq> zero_time \<Longrightarrow> probe_deadline r \<le> cr_probe_at r + secs 60"
    using inv by (auto simp: recovery_inv_def probe_deadline_def client_probe_grace_def secs_def)
  have stale: "st_running st \<Longrightarrow> \<not> now - cr_healthy_at r < client_stale_after" using assms(5) by (simp add: r_def)
  have att: "cr_attempts r = 0 \<or> cr_attempts r > 0" using inv by (auto simp: recovery_inv_def)
  have pd: "probe_deadline (r\<lparr>cr_seen := a, cr_rx := b, cr_handshake := c\<rparr>) = probe_deadline r" for a b c
    by (simp add: probe_deadline_def)
  show ?thesis
    unfolding r_def [symmetric] observe_with_settings_def Let_def
    using assms(4) [folded r_def] wait probe stale att
    by (auto simp: stale_window pd split: if_splits)
qed

text \<open>
  Saving settings neither forgives an outage nor restarts the timing: an attempt followed by a
  change of the settings leaves exactly the record that the same attempt under the new settings would
  have left, a second change overrides the first, and the start of the outage, the attempts, the health
  and the traffic counters are untouched.
\<close>
theorem settings_change_replays_attempt:
  assumes "watchdog_reachable w" "validate_settings s = None" "validate_settings s' = None"
  shows "update_settings s (attempted_with_settings (wd_client w) (wd_now w) err (wd_settings w))
      = attempted_with_settings (wd_client w) (wd_now w) err s
    \<and> update_settings s' (update_settings s (wd_client w)) = update_settings s' (wd_client w)
    \<and> (let r = wd_client w; u = update_settings s r in
      cr_failure_since u = cr_failure_since r \<and> cr_attempts u = cr_attempts r \<and> cr_attempt_at u = cr_attempt_at r
      \<and> cr_recovering u = cr_recovering r \<and> cr_healthy_at u = cr_healthy_at r \<and> cr_rx u = cr_rx r
      \<and> cr_handshake u = cr_handshake r)"
proof -
  define r where "r = wd_client w"
  define t where "t = wd_now w"
  have inv: "recovery_inv t r" and s0: "valid_settings (wd_settings w)"
    using watchdog_invariant [OF assms(1)] by (simp_all add: r_def t_def)
  have s: "valid_settings s" and s': "valid_settings s'" using assms(2,3) by (simp_all add: validate_iff)
  have l: "t \<noteq> zero_time" using recovery_inv_nonneg [OF inv] by (simp add: zero_time_def)
  define a where "a = attempted_with_settings r t err (wd_settings w)"
  define b where "b = attempted_with_settings r t err s"
  have ia: "recovery_inv t a" unfolding a_def by (rule recovery_inv_attempted [OF inv s0 order_refl])
  have pos: "cr_attempts r + 1 \<noteq> 0" using inv by (simp add: recovery_inv_def)
  have nz: "t + handshake_timeout z \<noteq> zero_time" if "valid_settings z" for z
    using handshake_timeout_bounds [OF that] recovery_inv_nonneg [OF inv] by (simp add: zero_time_def secs_def)
  have rest: "cr_seen a = cr_seen b" "cr_rx a = cr_rx b" "cr_handshake a = cr_handshake b" "cr_note a = cr_note b"
    "cr_routes_pending a = cr_routes_pending b"
    by (simp_all add: a_def b_def attempted_with_settings_def schedule_retry_def begin_failure_def Let_def split: option.split)
  note fu = update_fields [OF ia s]
  note fa = attempted_fields [OF l, of r err "wd_settings w", folded a_def]
  note fb = attempted_fields [OF l, of r err s, folded b_def]
  have v: "cr_verify_until (update_settings s a) = cr_verify_until b"
    using nz [OF s0] by (simp add: fu fa fb split: option.split)
  have base: "retry_base (update_settings s a) = retry_base b"
    by (simp only: retry_base_def v) (simp add: fu(3) fa(3) fb(3))
  have A: "update_settings s a = b"
  proof (rule client_recovery.equality)
    show "cr_retry_at (update_settings s a) = cr_retry_at b"
      using pos by (simp only: fu(14) fb(9) base) (simp add: fa fb)
    show "cr_verify_until (update_settings s a) = cr_verify_until b" by (rule v)
  qed (use pos in \<open>simp_all add: fu(1-11,13) fa(1-8) fb(1-8) rest\<close>)
  have iu: "recovery_inv t (update_settings s r)" by (rule recovery_inv_update [OF inv s])
  note f1 = update_fields [OF inv s]
  note f2 = update_fields [OF iu s']
  note f3 = update_fields [OF inv s']
  have nzr: "cr_attempt_at r + handshake_timeout s \<noteq> zero_time" if "cr_verify_until r \<noteq> zero_time"
    using that inv handshake_timeout_bounds [OF s] by (auto simp: recovery_inv_def zero_time_def secs_def split: if_splits)
  have v2: "cr_verify_until (update_settings s' (update_settings s r)) = cr_verify_until (update_settings s' r)"
    using nzr by (simp add: f1 f2 f3)
  have base2: "retry_base (update_settings s' (update_settings s r)) = retry_base (update_settings s' r)"
    by (simp only: retry_base_def v2) (simp add: f1(3) f2(3) f3(3))
  have B: "update_settings s' (update_settings s r) = update_settings s' r"
  proof (rule client_recovery.equality)
    show "cr_retry_at (update_settings s' (update_settings s r)) = cr_retry_at (update_settings s' r)"
      by (simp only: f2(14) f3(14) base2) (simp add: f1)
    show "cr_verify_until (update_settings s' (update_settings s r)) = cr_verify_until (update_settings s' r)" by (rule v2)
  qed (simp_all add: f1(1-11,13) f2(1-11,13) f3(1-11,13))
  show ?thesis
    using A B by (simp add: Let_def r_def [symmetric] t_def [symmetric] a_def b_def f1(1-9))
qed

lemma observe_cases:
  "observe_with_settings r st now s = (r', act) \<Longrightarrow>
    (if st_running st \<and> (fresh_handshake st now \<or> made_progress r st)
     then act = ClientWait \<and> \<not> cr_recovering r' \<and> cr_attempts r' = 0 \<and> cr_failure_since r' = zero_time
     else (cr_recovering r \<longrightarrow> cr_recovering r') \<and> cr_attempts r' = cr_attempts r)"
  unfolding observe_with_settings_def Let_def
  by (auto simp: begin_failure_def no_recovery_def split: if_splits)

lemma first_look_fields [simp]:
  "cr_recovering (first_look r) = cr_recovering r" "cr_attempts (first_look r) = cr_attempts r"
  "made_progress (first_look r) st = made_progress r st"
  by (simp_all add: first_look_def made_progress_def)

lemma attempted_attempts [simp]: "cr_attempts (attempted_with_settings r t err s) = cr_attempts r + 1"
  by (simp add: attempted_with_settings_def schedule_retry_def begin_failure_def Let_def split: option.split)

text \<open>
  An outage ends exactly on authenticated progress: the recovery callback runs in a pass over a
  recovering connection when, and only when, its interface runs under the current engine and shows a
  fresh handshake or progress; the outage is then forgotten and neither a probe nor a reconnect is
  issued. A pass that replaces the interface restores no routes and counts one attempt, unless the
  operation was cancelled meanwhile.
\<close>
theorem outage_ends_on_progress:
  "case check_client s env r of (r', events) \<Rightarrow>
    (RecoveredHook \<in> set events \<longleftrightarrow>
      env_present env \<and> env_should_run env \<and> \<not> env_cancelled env \<and> cr_recovering r
      \<and> (\<exists>st. env_status env = Some st \<and> st_running (observed_status env st)
          \<and> (fresh_handshake (observed_status env st) (env_now env) \<or> made_progress r (observed_status env st))))
    \<and> (RecoveredHook \<in> set events \<longrightarrow> \<not> cr_recovering r' \<and> cr_attempts r' = 0 \<and> cr_failure_since r' = zero_time
        \<and> Recover \<notin> set events \<and> Probe \<notin> set events)
    \<and> (Recover \<in> set events \<longrightarrow> RestoreRoutes \<notin> set events
        \<and> cr_attempts r' = (if env_cancelled_after env then cr_attempts r else cr_attempts r + 1))"
proof (cases "env_status env")
  case None
  then show ?thesis by (simp add: check_client_def)
next
  case (Some st)
  obtain r2 act where o: "observe_with_settings (first_look r) (observed_status env st) (env_now env) s = (r2, act)"
    by fastforce
  show ?thesis
    using observe_cases [OF o] o Some unfolding check_client_def Let_def
    by (cases act) (auto split: if_splits)
qed

section \<open>Concrete histories\<close>

definition start_recovery :: watchdog where
  "start_recovery = \<lparr>wd_settings = normalize_settings None, wd_now = secs 1700000000, wd_client = no_recovery\<rparr>"

text \<open>The interface came up without a handshake; ten minutes later an attempt is recorded.\<close>

definition failed_start :: watchdog where
  "failed_start = (let w = start_recovery\<lparr>wd_now := secs 1700000600\<rparr> in
     w\<lparr>wd_client := attempted_with_settings (wd_client w) (wd_now w) None (wd_settings w)\<rparr>)"

definition silent_status :: client_status where
  "silent_status = \<lparr>st_running = True, st_iface_present = True, st_connected = False, st_rx_bytes = 0, st_last_handshake = 0\<rparr>"

lemma start_recovery_reachable: "watchdog_reachable start_recovery"
  unfolding start_recovery_def by (rule watchdog_reachable.start) (simp add: secs_def)

lemma failed_start_reachable: "watchdog_reachable failed_start"
proof -
  have "watchdog_reachable (start_recovery\<lparr>wd_now := secs 1700000600\<rparr>)"
    by (rule watchdog_reachable.step [OF start_recovery_reachable watchdog_step.pass])
      (simp add: start_recovery_def secs_def)
  then show ?thesis
    unfolding failed_start_def Let_def by (rule watchdog_reachable.step [OF _ watchdog_step.attempt])
qed

theorem reconnect_not_early_witness:
  "snd (observe_with_settings (wd_client failed_start) silent_status (secs 1700000620) (wd_settings failed_start)) = ClientReconnect
   \<and> cr_verify_until (wd_client failed_start) = secs 1700000620
   \<and> cr_verify_until (wd_client failed_start) \<le> secs 1700000620"
proof -
  have n: "wd_now failed_start \<le> secs 1700000620" by code_simp
  have a: "snd (observe_with_settings (wd_client failed_start) silent_status (secs 1700000620) (wd_settings failed_start)) = ClientReconnect"
    "cr_verify_until (wd_client failed_start) = secs 1700000620"
    by code_simp+
  show ?thesis using reconnect_not_early [OF failed_start_reachable n a(1)] a by blast
qed

theorem watchdog_never_gives_up_witness:
  "case snd (observe_with_settings (wd_client failed_start) silent_status (secs 1700001560) (wd_settings failed_start)) of
     ClientReconnect \<Rightarrow> True | ClientProbe \<Rightarrow> False | ClientWait \<Rightarrow> False"
proof -
  have n: "wd_now failed_start \<le> secs 1700001560" by code_simp
  have a: "cr_attempts (wd_client failed_start) = 0 \<or> cr_attempt_at (wd_client failed_start) + secs 960 \<le> secs 1700001560"
    by code_simp
  have b: "\<not> (st_running silent_status \<and> (fresh_handshake silent_status (secs 1700001560)
      \<or> made_progress (wd_client failed_start) silent_status))" by code_simp
  have c: "cr_healthy_at (wd_client failed_start) + client_stale_after \<le> secs 1700001560" by code_simp
  have d: "cr_attempts (wd_client failed_start) = 1" by code_simp
  show ?thesis using watchdog_never_gives_up [OF failed_start_reachable n a b c] d
    by (simp split: recovery_action.splits)
qed

theorem settings_change_replays_attempt_witness:
  "update_settings default_recovery_settings (attempted_with_settings (wd_client failed_start) (wd_now failed_start) None
      (wd_settings failed_start))
    = attempted_with_settings (wd_client failed_start) (wd_now failed_start) None default_recovery_settings"
proof -
  have d: "validate_settings default_recovery_settings = None" by code_simp
  show ?thesis using settings_change_replays_attempt [OF failed_start_reachable d d, of None] by blast
qed

definition healthy_env :: client_env where
  "healthy_env = \<lparr>env_present = True, env_should_run = True, env_cancelled = False,
    env_status = Some (silent_status\<lparr>st_last_handshake := 1700000610\<rparr>), env_current_engine = True,
    env_cancelled_restore = False, env_routes_error = None, env_recover_error = None, env_cancelled_after = False,
    env_now = secs 1700000612, env_later = secs 1700000612\<rparr>"

theorem outage_ends_on_progress_witness:
  "snd (check_client default_recovery_settings healthy_env (wd_client failed_start)) = [RestoreRoutes, RecoveredHook]
   \<and> cr_attempts (fst (check_client default_recovery_settings healthy_env (wd_client failed_start))) = 0"
proof -
  have e: "snd (check_client default_recovery_settings healthy_env (wd_client failed_start)) = [RestoreRoutes, RecoveredHook]"
    by code_simp
  show ?thesis
    using outage_ends_on_progress [where s = default_recovery_settings and env = healthy_env and r = "wd_client failed_start"] e
    by (auto split: prod.splits)
qed

end
