(* ===== verification/Standby.thy ===== *)
theory Standby
  imports Fallback Recovery
begin

text \<open>
  The consumers of the connection graph in \<open>internal/services/awgroute/failover.go\<close> and
  \<open>fallback.go\<close>: which standby connections are woken (\<open>reconcileStandbyClients\<close>), the connection that
  serves a logical primary, and the refresh of the policy when a selected connection changes.

  A manager is the id of its connection. The recovery records, the statuses of one pass and the standby
  connections in use are functions of the id.
\<close>

section \<open>Demand for standby connections\<close>

definition startable :: "connection \<Rightarrow> bool" where
  "startable c \<longleftrightarrow> cn_enabled c \<and> cn_client_enabled c \<and> cn_can_start c"

definition client_should_run :: "(string \<Rightarrow> bool) \<Rightarrow> connection \<Rightarrow> bool" where
  "client_should_run active c \<longleftrightarrow>
    (if \<not> cn_enabled c \<or> \<not> cn_client_enabled c \<or> \<not> cn_can_start c then False
     else if \<not> cn_standby c then True else active (cn_id c))"

text \<open>What a pass reads: servers, rules, recovery records, statuses, standby demand, the clock.\<close>

record failover_view =
  fv_servers :: "connection list"
  fv_rules :: "zone list"
  fv_recovery :: "string \<Rightarrow> client_recovery"
  fv_status :: "string \<Rightarrow> client_status option"
  fv_active :: "string \<Rightarrow> bool"
  fv_now :: time

text \<open>The inner loop over the candidates of one list: the ids it adds to the demand.\<close>

fun wake_reserves :: "failover_view \<Rightarrow> bool \<Rightarrow> string list \<Rightarrow> string list" where
  "wake_reserves v needs [] = []"
| "wake_reserves v needs (i # rest) =
     (case find_connection (fv_servers v) i of
        None \<Rightarrow> wake_reserves v needs rest
      | Some reserve \<Rightarrow>
          (if \<not> cn_enabled reserve \<or> \<not> cn_client_enabled reserve \<or> \<not> cn_can_start reserve
           then wake_reserves v needs rest
           else (let connected = client_authenticated (fv_status v i) (fv_now v) in
             if \<not> needs then (if connected then [i] else wake_reserves v needs rest)
             else i # (if connected \<or> \<not> client_needs_fallback (fv_recovery v i) (fv_now v) then []
                       else wake_reserves v needs rest))))"

definition demanding :: "failover_view \<Rightarrow> connection \<Rightarrow> bool" where
  "demanding v p \<longleftrightarrow> \<not> (cn_standby p \<or> \<not> client_should_run (fv_active v) p
     \<or> client_authenticated (fv_status v (cn_id p)) (fv_now v))"

definition demand_lists :: "failover_view \<Rightarrow> connection \<Rightarrow> string list list" where
  "demand_lists v p =
    connection_fallback_ids (fv_servers v) (cn_id p) []
    # map (\<lambda>z. connection_fallback_ids (fv_servers v) (cn_id p) (z_fallbacks z))
        (filter (\<lambda>z. z_enabled z \<and> \<not> z_waiting z \<and> route_value z = ''tunnel'' \<and> z_tunnel_id z = cn_id p
           \<and> length (z_fallbacks z) > 0) (fv_rules v))"

definition standby_wanted :: "failover_view \<Rightarrow> string list" where
  "standby_wanted v = concat (map (\<lambda>p.
      if demanding v p
      then concat (map (wake_reserves v (client_needs_fallback (fv_recovery v (cn_id p)) (fv_now v))) (demand_lists v p))
      else []) (fv_servers v))"

text \<open>The new demand, the connections taken down, and the recovery records left.\<close>

definition reconcile_standby ::
  "failover_view \<Rightarrow> (string \<Rightarrow> bool) \<times> string list \<times> (string \<Rightarrow> client_recovery)" where
  "reconcile_standby v =
    (let wanted = standby_wanted v;
         drop = filter (\<lambda>s. cn_standby s \<and> cn_id s \<notin> set wanted) (fv_servers v);
         down = filter (\<lambda>s. case fv_status v (cn_id s) of None \<Rightarrow> False
                  | Some st \<Rightarrow> st_running st \<or> st_iface_present st) drop in
     (\<lambda>i. i \<in> set wanted, map cn_id down,
      \<lambda>i. if list_ex (\<lambda>s. cn_id s = i) drop then no_recovery else fv_recovery v i))"

section \<open>The connection that serves a primary\<close>

definition tunnel_up :: "failover_view \<Rightarrow> connection \<Rightarrow> bool" where
  "tunnel_up v c \<longleftrightarrow> client_should_run (fv_active v) c
    \<and> (case fv_status v (cn_id c) of None \<Rightarrow> False | Some st \<Rightarrow> st_connected st)"

definition effective_connected_server :: "failover_view \<Rightarrow> string \<Rightarrow> connection option" where
  "effective_connected_server v primary =
    (case find_connection (fv_servers v) primary of
       None \<Rightarrow> None
     | Some owner \<Rightarrow>
         (if \<not> cn_enabled owner \<or> \<not> cn_client_enabled owner then None
          else find (tunnel_up v) (List.map_filter (find_connection (fv_servers v))
            (fallback_candidates primary (connection_fallback_ids (fv_servers v) primary [])))))"

fun full_owner_loop :: "string \<Rightarrow> connection option \<Rightarrow> connection list \<Rightarrow> connection option" where
  "full_owner_loop active fallback [] = fallback"
| "full_owner_loop active fallback (c # rest) =
     (if \<not> cn_enabled c \<or> \<not> cn_client_enabled c \<or> cn_standby c \<or> \<not> cn_routing_active c
         \<or> cn_routing_mode c \<noteq> ''full'' then full_owner_loop active fallback rest
      else if cn_id c = active then Some c
      else full_owner_loop active (if fallback = None then Some c else fallback) rest)"

definition legacy_full_routing_owner :: "string \<Rightarrow> connection list \<Rightarrow> connection option" where
  "legacy_full_routing_owner active servers = full_owner_loop active None servers"

section \<open>The signature of the selection\<close>

text \<open>
  \<open>fallbackRoutingSignature\<close> renders a text of \<open>index=selected;\<close> and \<open>connection:"id"="selected";\<close> entries;
  here it is the list of the entries.
\<close>

datatype signature_entry = RuleEntry nat string | ConnectionEntry string string

definition rule_entries :: "failover_view \<Rightarrow> zone list \<Rightarrow> signature_entry list" where
  "rule_entries v rules = List.map_filter (\<lambda>(i, z).
     (let fallbacks = connection_fallback_ids (fv_servers v) (z_tunnel_id z) (z_fallbacks z) in
      if \<not> z_enabled z \<or> z_waiting z \<or> route_value z \<noteq> ''tunnel'' \<or> length fallbacks = 0 then None
      else Some (RuleEntry i (select_fallback (z_tunnel_id z) fallbacks
        (Some (\<lambda>j. find_connection (fv_servers v) j \<noteq> None \<and> j \<in> set (routing_eligible (fv_servers v))))
        (Some (\<lambda>j. case find_connection (fv_servers v) j of None \<Rightarrow> False | Some c \<Rightarrow> tunnel_up v c))))))
     (enumerate 0 rules)"

definition connection_entries :: "failover_view \<Rightarrow> signature_entry list" where
  "connection_entries v = map (\<lambda>c. ConnectionEntry (cn_id c)
     (if cn_enabled c \<and> cn_client_enabled c then
        (case find (\<lambda>j. case find_connection (fv_servers v) j of None \<Rightarrow> False | Some c \<Rightarrow> tunnel_up v c)
           (fallback_candidates (cn_id c) (connection_fallback_ids (fv_servers v) (cn_id c) [])) of
         None \<Rightarrow> [] | Some j \<Rightarrow> j)
      else []))
     (filter (\<lambda>c. length (cn_fallbacks c) > 0) (fv_servers v))"

text \<open>\<open>rules\<close> are those of \<open>awgPolicyRoutingRules\<close>; the second component is \<open>hasFallback\<close>.\<close>

definition fallback_routing_signature :: "failover_view \<Rightarrow> zone list \<Rightarrow> signature_entry list \<times> bool" where
  "fallback_routing_signature v rules =
     (let entries = rule_entries v rules @ connection_entries v in (entries, entries \<noteq> []))"

text \<open>
  \<open>refreshFallbackRouting\<close>: \<^term>\<open>None\<close> is \<open>fallbackSignatureSeen = false\<close>. \<open>busy\<close> is the answer of
  \<open>tryClientOps\<close>, \<open>failed\<close> that of \<open>apply\<close>. The results are the new state, whether the policy was applied
  successfully, and the returned flag.
\<close>

definition refresh_fallback_routing ::
  "'a option \<Rightarrow> 'a \<Rightarrow> bool \<Rightarrow> bool \<Rightarrow> bool \<Rightarrow> 'a option \<times> bool" where
  "refresh_fallback_routing seen sig has_fallback busy failed =
    (if \<not> has_fallback then (None, False)
     else case seen of
       None \<Rightarrow> (Some sig, False)
     | Some old \<Rightarrow>
         (if old = sig then (Some old, False)
          else if busy then (Some old, False)
          else if failed then (Some old, False)
          else (Some sig, True)))"

section \<open>Who is woken, and why\<close>

definition reserve_usable :: "failover_view \<Rightarrow> string \<Rightarrow> bool" where
  "reserve_usable v i \<longleftrightarrow> (case find_connection (fv_servers v) i of None \<Rightarrow> False | Some c \<Rightarrow> startable c)"

definition reserve_connected :: "failover_view \<Rightarrow> string \<Rightarrow> bool" where
  "reserve_connected v i \<longleftrightarrow> client_authenticated (fv_status v i) (fv_now v)"

definition reserve_failed :: "failover_view \<Rightarrow> string \<Rightarrow> bool" where
  "reserve_failed v i \<longleftrightarrow> client_needs_fallback (fv_recovery v i) (fv_now v)"

text \<open>The position \<open>k\<close> of a list is reached: every usable reserve before it has failed.\<close>

definition reaches :: "failover_view \<Rightarrow> bool \<Rightarrow> string list \<Rightarrow> nat \<Rightarrow> bool" where
  "reaches v needs l k \<longleftrightarrow>
     list_all (\<lambda>i. \<not> reserve_usable v i \<or> \<not> reserve_connected v i \<and> (\<not> needs \<or> reserve_failed v i)) (take k l)"

lemma wake_reserves_iff:
  "i \<in> set (wake_reserves v needs l) \<longleftrightarrow>
     (\<exists>k < length l. l ! k = i \<and> reserve_usable v i \<and> (needs \<or> reserve_connected v i) \<and> reaches v needs l k)"
proof (induction v needs l rule: wake_reserves.induct)
  case (2 v needs j rest)
  have split: "(\<exists>k < length (j # rest). P k) \<longleftrightarrow> P 0 \<or> (\<exists>k < length rest. P (Suc k))" for P :: "nat \<Rightarrow> bool"
    by (simp only: list.size add_0_right add_Suc_right Ex_less_Suc2)
  have reach: "reaches v n (j # rest) 0"
    "reaches v n (j # rest) (Suc k) \<longleftrightarrow>
      (\<not> reserve_usable v j \<or> \<not> reserve_connected v j \<and> (\<not> n \<or> reserve_failed v j)) \<and> reaches v n rest k" for k n
    by (simp_all add: reaches_def)
  show ?case
  proof (cases "reserve_usable v j")
    case False
    then have w: "wake_reserves v needs (j # rest) = wake_reserves v needs rest"
      by (auto simp: reserve_usable_def startable_def split: option.splits)
    have "i \<in> set (wake_reserves v needs rest) \<longleftrightarrow> (\<exists>k < length rest. rest ! k = i \<and> reserve_usable v i
        \<and> (needs \<or> reserve_connected v i) \<and> reaches v needs rest k)"
      using False "2.IH"(1,2)
      by (cases "find_connection (fv_servers v) j") (auto simp: reserve_usable_def startable_def)
    then show ?thesis using False unfolding w split reach nth_Cons_0 nth_Cons_Suc by blast
  next
    case True
    then obtain c where c: "find_connection (fv_servers v) j = Some c" "startable c"
      by (auto simp: reserve_usable_def split: option.splits)
    have w: "wake_reserves v needs (j # rest) =
       (if \<not> needs then (if reserve_connected v j then [j] else wake_reserves v needs rest)
        else j # (if reserve_connected v j \<or> \<not> reserve_failed v j then [] else wake_reserves v needs rest))"
      using c by (simp add: startable_def reserve_connected_def reserve_failed_def Let_def)
    have ih: "i \<in> set (wake_reserves v needs rest) \<longleftrightarrow> (\<exists>k < length rest. rest ! k = i \<and> reserve_usable v i
        \<and> (needs \<or> reserve_connected v i) \<and> reaches v needs rest k)"
      if "\<not> reserve_connected v j" "\<not> needs \<or> reserve_failed v j"
      using that c "2.IH"(3,4) by (cases needs) (auto simp: startable_def reserve_connected_def reserve_failed_def)
    show ?thesis
    proof (cases "\<not> reserve_connected v j \<and> (\<not> needs \<or> reserve_failed v j)")
      case True
      then show ?thesis using c ih unfolding w split reach nth_Cons_0 nth_Cons_Suc
        by (cases needs) (auto simp: reserve_usable_def reach)
    next
      case False
      then show ?thesis using c unfolding w split reach nth_Cons_0 nth_Cons_Suc
        by (auto simp: reserve_usable_def reach)
    qed
  qed
qed simp

text \<open>
  A standby connection is woken exactly on demand. It is wanted if and only if some primary that
  should run is not authenticated and has, in its own backup list or in that of one of its active
  tunnel rules, this connection as a usable reserve that the search reaches: every usable reserve
  before it has been tried and has failed. A primary that has not failed itself yet only keeps a
  reserve that is authenticated already. Every standby connection that is not wanted loses its recovery
  record, and the ones still up are taken down.
\<close>
theorem standby_on_demand:
  "let (wanted, down, recovery) = reconcile_standby v in
    (wanted i \<longleftrightarrow> (\<exists>p \<in> set (fv_servers v). demanding v p \<and>
       (\<exists>l \<in> set (demand_lists v p). \<exists>k < length l. l ! k = i \<and> reserve_usable v i
         \<and> (client_needs_fallback (fv_recovery v (cn_id p)) (fv_now v) \<or> reserve_connected v i)
         \<and> reaches v (client_needs_fallback (fv_recovery v (cn_id p)) (fv_now v)) l k)))
    \<and> recovery i = (if \<not> wanted i \<and> list_ex (\<lambda>s. cn_id s = i \<and> cn_standby s) (fv_servers v)
                     then no_recovery else fv_recovery v i)
    \<and> (i \<in> set down \<longleftrightarrow> \<not> wanted i \<and> list_ex (\<lambda>s. cn_id s = i \<and> cn_standby s) (fv_servers v)
         \<and> (\<exists>st. fv_status v i = Some st \<and> (st_running st \<or> st_iface_present st)))"
proof -
  have w: "i \<in> set (standby_wanted v) \<longleftrightarrow> (\<exists>p \<in> set (fv_servers v). demanding v p \<and>
       (\<exists>l \<in> set (demand_lists v p).
          i \<in> set (wake_reserves v (client_needs_fallback (fv_recovery v (cn_id p)) (fv_now v)) l)))"
    unfolding standby_wanted_def by auto
  have r: "list_ex (\<lambda>s. cn_id s = i) (filter (\<lambda>s. cn_standby s \<and> cn_id s \<notin> set (standby_wanted v)) (fv_servers v))
      \<longleftrightarrow> i \<notin> set (standby_wanted v) \<and> list_ex (\<lambda>s. cn_id s = i \<and> cn_standby s) (fv_servers v)"
    by (auto simp: list_ex_iff)
  show ?thesis
    unfolding reconcile_standby_def Let_def prod.case w [unfolded wake_reserves_iff, symmetric] r
    by (auto simp: list_ex_iff image_iff split: option.splits)
qed

section \<open>Change detection\<close>

lemma find_first_connection:
  "map_option cn_id (find P (List.map_filter (find_connection servers) ids))
    = find (\<lambda>j. case find_connection servers j of None \<Rightarrow> False | Some c \<Rightarrow> P c) ids"
  by (induction ids) (auto simp: map_filter_simps find_connection_id split: option.split)

text \<open>
  (C15) The change detector watches what the consumers use: for every connection with backups the
  signature records exactly the connection that DNS, proxies and the Telegram front routes resolve this
  primary to, or the empty id when they resolve it to nothing. A change of the effective connection of
  any primary is therefore a change of the signature.
\<close>
theorem signature_tracks_effective_connection:
  assumes "distinct (map cn_id (fv_servers v))"
  shows "connection_entries v = map (\<lambda>c. ConnectionEntry (cn_id c)
      (case effective_connected_server v (cn_id c) of None \<Rightarrow> [] | Some s \<Rightarrow> cn_id s))
    (filter (\<lambda>c. cn_fallbacks c \<noteq> []) (fv_servers v))"
proof -
  have own: "find_connection (fv_servers v) (cn_id c) = Some c" if c: "c \<in> set (fv_servers v)" for c
  proof (cases "find_connection (fv_servers v) (cn_id c)")
    case None
    then show ?thesis using c by (auto simp: find_connection_def find_None_iff)
  next
    case (Some d)
    then have "d \<in> set (rev (fv_servers v))" "cn_id d = cn_id c"
      unfolding find_connection_def find_Some_iff by (metis nth_mem)+
    then show ?thesis using assms c Some by (auto simp: distinct_map dest: inj_onD)
  qed
  have eq: "(case find (\<lambda>j. case find_connection (fv_servers v) j of None \<Rightarrow> False | Some c \<Rightarrow> tunnel_up v c) ids of
         None \<Rightarrow> [] | Some j \<Rightarrow> j)
      = (case find (tunnel_up v) (List.map_filter (find_connection (fv_servers v)) ids) of None \<Rightarrow> [] | Some s \<Rightarrow> cn_id s)" for ids
    unfolding find_first_connection [symmetric] by (simp split: option.split)
  show ?thesis
    unfolding connection_entries_def effective_connected_server_def eq by (auto simp: own)
qed

text \<open>One pass of the watchdog over the policy; \<open>installed\<close> is the signature the policy was built for.\<close>

definition refresh_pass :: "'a option \<times> 'a \<Rightarrow> 'a \<times> bool \<times> bool \<Rightarrow> 'a option \<times> 'a" where
  "refresh_pass st pass = (case (st, pass) of ((seen, installed), sig, busy, failed) \<Rightarrow>
     (case refresh_fallback_routing seen sig True busy failed of
        (seen', applied) \<Rightarrow> (seen', if applied then sig else installed)))"

text \<open>
  A change of the selection is never lost: over any sequence of passes after the first one, which
  takes the policy of that moment as the baseline, the remembered signature is the one the installed
  policy was built for, so a busy lifecycle or a failed kernel write leaves the change pending, and a
  pass that is neither ends with the policy of the selection it saw. The policy is rewritten only when
  the selection differs from the installed one.
\<close>
theorem policy_change_not_lost:
  fixes first :: "signature_entry list"
  shows "case foldl refresh_pass (None, first) ((first, b0, f0) # passes) of (seen, installed) \<Rightarrow>
    seen = Some installed
    \<and> (case refresh_pass (seen, installed) (sig, busy, failed) of (seen', installed') \<Rightarrow>
        seen' = Some installed' \<and> (installed' = sig \<or> busy \<or> failed)
        \<and> snd (refresh_fallback_routing seen sig True busy failed)
          = (sig \<noteq> installed \<and> \<not> busy \<and> \<not> failed))"
proof -
  have keep: "fst (refresh_pass (Some s, s) p) = Some (snd (refresh_pass (Some s, s) p))" for s :: "signature_entry list" and p
    by (cases p) (simp add: refresh_pass_def refresh_fallback_routing_def)
  have run: "fst (foldl refresh_pass (Some s, s) ps) = Some (snd (foldl refresh_pass (Some s, s) ps))" for s :: "signature_entry list" and ps
  proof (induction ps arbitrary: s)
    case (Cons p ps)
    then show ?case using keep [of s p] by (metis foldl_Cons prod.collapse)
  qed simp
  have base: "refresh_pass (None, first) (first, b0, f0) = (Some first, first)"
    by (simp add: refresh_pass_def refresh_fallback_routing_def)
  show ?thesis
    using run [of first passes]
    by (auto simp: base refresh_pass_def refresh_fallback_routing_def split: prod.splits if_splits)
qed

definition two_view :: failover_view where
  "two_view = \<lparr>fv_servers = two_connections, fv_rules = [], fv_recovery = (\<lambda>_. no_recovery),
     fv_status = (\<lambda>i. if i = ''b'' then Some \<lparr>st_running = True, st_iface_present = True, st_connected = True,
       st_rx_bytes = 0, st_last_handshake = 0\<rparr> else None),
     fv_active = (\<lambda>i. i = ''b''), fv_now = secs 1700000000\<rparr>"

theorem signature_tracks_effective_connection_witness:
  "connection_entries two_view = [ConnectionEntry ''a'' ''b'']
   \<and> map_option cn_id (effective_connected_server two_view ''a'') = Some ''b''
   \<and> connection_entries two_view = map (\<lambda>c. ConnectionEntry (cn_id c)
      (case effective_connected_server two_view (cn_id c) of None \<Rightarrow> [] | Some s \<Rightarrow> cn_id s))
    (filter (\<lambda>c. cn_fallbacks c \<noteq> []) (fv_servers two_view))"
proof -
  have d: "distinct (map cn_id (fv_servers two_view))" by code_simp
  have a: "connection_entries two_view = [ConnectionEntry ''a'' ''b'']" by code_simp
  have b: "map_option cn_id (effective_connected_server two_view ''a'') = Some ''b''" by code_simp
  show ?thesis using signature_tracks_effective_connection [OF d] a b by blast
qed

end
