(* ===== verification/Rule_Store.thy ===== *)
theory Rule_Store
  imports Fallback "HOL-Library.Product_Lexorder" "HOL-Library.Multiset"
begin

text \<open>
  The store of routing rules: \<open>internal/services/awgroute/pending_rules.go\<close>, \<open>routing_config.go\<close>,
  \<open>delete_replacement.go\<close> and the rule operations of \<open>awgroute.go\<close>. The user edits one ordered list of
  rules; it is kept partitioned over the connections that own the rules, with the rules that wait for a
  connection apart, and is read back by sorting the parts.

  Slices are values here, so the cloning helpers of the source are the identity.
\<close>

section \<open>Routing configuration\<close>

record full_routing = routing_config +
  fr_mtu :: int
  fr_killswitch :: bool
  fr_sni :: bool
  fr_trace :: bool
  fr_active :: bool

definition blank_routing :: full_routing where
  "blank_routing = \<lparr>rc_mode = [], rc_zones = [], rc_domain_source = [], fr_mtu = 0, fr_killswitch = False,
     fr_sni = False, fr_trace = False, fr_active = False\<rparr>"

definition normalize_zone_mode :: "string \<Rightarrow> zone \<Rightarrow> zone" where
  "normalize_zone_mode mode z =
     (if z_mode z \<noteq> ''include'' \<and> z_mode z \<noteq> ''exclude''
      then z\<lparr>z_mode := (if mode = ''exclude'' then ''exclude'' else ''include'')\<rparr> else z)"

definition normalize_routing :: "full_routing \<Rightarrow> full_routing" where
  "normalize_routing r =
     (let mode = (if rc_mode r = [] then ''off'' else rc_mode r) in
      r\<lparr>rc_mode := (if mode = ''include'' \<or> mode = ''exclude'' then ''zones'' else mode),
        fr_mtu := (if fr_mtu r = 0 then 1420 else fr_mtu r),
        rc_domain_source := (if rc_domain_source r \<noteq> ''dnsproxy'' then ''resolve'' else rc_domain_source r),
        rc_zones := map (normalize_zone_mode mode) (rc_zones r)\<rparr>)"

record routing_settings =
  rs_mode :: string
  rs_mtu :: int
  rs_killswitch :: bool
  rs_domain_source :: string
  rs_sni :: bool
  rs_trace :: bool

definition routing_settings_from :: "full_routing \<Rightarrow> routing_settings" where
  "routing_settings_from rc0 = (let rc = normalize_routing (rc0\<lparr>rc_zones := []\<rparr>) in
     \<lparr>rs_mode = rc_mode rc, rs_mtu = fr_mtu rc, rs_killswitch = fr_killswitch rc,
       rs_domain_source = rc_domain_source rc, rs_sni = fr_sni rc, rs_trace = fr_trace rc\<rparr>)"

definition apply_settings :: "routing_settings \<Rightarrow> full_routing \<Rightarrow> full_routing" where
  "apply_settings s rc = rc\<lparr>rc_mode := rs_mode s, fr_mtu := rs_mtu s, fr_killswitch := rs_killswitch s,
     rc_domain_source := rs_domain_source s, fr_sni := rs_sni s, fr_trace := rs_trace s\<rparr>"

section \<open>The persisted state\<close>

record connection_ref =
  cr_ref :: string
  cr_label :: string
  cr_endpoint :: string
  cr_iface :: string
  cr_protocol :: string
  cr_public_key :: string
  cr_fingerprint :: string

text \<open>The local policy copied into an applied deployment snapshot.\<close>

record applied_policy =
  ap_routing :: full_routing
  ap_fallbacks :: "string list"
  ap_standby :: bool

record stored_server =
  sv_id :: string
  sv_routing :: full_routing
  sv_fallbacks :: "string list"
  sv_standby :: bool
  sv_applied :: "applied_policy option"

record rule_state =
  ru_active :: string
  ru_servers :: "stored_server list"
  ru_routing :: "routing_settings option"
  ru_pending :: "zone list"
  ru_refs :: "(string \<times> connection_ref) list"

definition is_live :: "stored_server list \<Rightarrow> string \<Rightarrow> bool" where
  "is_live servers i \<longleftrightarrow> list_ex (\<lambda>s. sv_id s = i) servers"

definition configured_routing :: "full_routing \<Rightarrow> bool" where
  "configured_routing rc \<longleftrightarrow> length (rc_zones rc) > 0 \<or> routing_settings_from rc \<noteq> routing_settings_from blank_routing"

definition legacy_routing_settings :: "stored_server list \<Rightarrow> string \<Rightarrow> routing_settings" where
  "legacy_routing_settings entries active =
     (let selected = find (\<lambda>s. sv_id s = active) entries;
          routes = (\<lambda>s. fr_active (sv_routing s) \<and> rc_mode (sv_routing s) \<noteq> ''off'');
          conf = (\<lambda>s. configured_routing (sv_routing s));
          from = (\<lambda>s. routing_settings_from (sv_routing s));
          pick = (\<lambda>P otherwise. case selected of
              Some s \<Rightarrow> (if P s then from s else (case find P entries of Some e \<Rightarrow> from e | None \<Rightarrow> otherwise))
            | None \<Rightarrow> (case find P entries of Some e \<Rightarrow> from e | None \<Rightarrow> otherwise)) in
      pick routes (pick conf (case selected of Some s \<Rightarrow> from s | None \<Rightarrow> routing_settings_from blank_routing)))"

definition current_settings :: "rule_state \<Rightarrow> routing_settings" where
  "current_settings st = (case ru_routing st of Some s \<Rightarrow> s
     | None \<Rightarrow> legacy_routing_settings (ru_servers st) (ru_active st))"

section \<open>Connection references\<close>

definition missing_ids :: "stored_server list \<Rightarrow> string list \<Rightarrow> string list" where
  "missing_ids servers ids = filter (\<lambda>i. \<not> (i = [] \<or> is_live servers i)) (map trim_space ids)"

text \<open>The ids in the order \<open>retainMissing\<close> is called for them.\<close>

definition referenced_ids :: "zone list \<Rightarrow> stored_server list \<Rightarrow> string list" where
  "referenced_ids pending servers =
     concat (map (\<lambda>z. z_tunnel_id z # z_fallbacks z) pending)
     @ concat (map (\<lambda>s. concat (map z_fallbacks (rc_zones (sv_routing s)))) servers)"

definition retained_ref :: "(string \<times> connection_ref) list \<Rightarrow> string \<Rightarrow> string \<times> connection_ref" where
  "retained_ref refs i = (i, (case map_of refs i of
      None \<Rightarrow> \<lparr>cr_ref = i, cr_label = i, cr_endpoint = [], cr_iface = [], cr_protocol = [], cr_public_key = [], cr_fingerprint = []\<rparr>
    | Some ref \<Rightarrow> ref\<lparr>cr_ref := i\<rparr>))"

definition retained_refs ::
  "(string \<times> connection_ref) list \<Rightarrow> zone list \<Rightarrow> stored_server list \<Rightarrow> (string \<times> connection_ref) list" where
  "retained_refs refs pending servers = map (retained_ref refs) (remdups (missing_ids servers (referenced_ids pending servers)))"

definition pending_references :: "zone list \<Rightarrow> string \<Rightarrow> bool" where
  "pending_references rules i =
     list_ex (\<lambda>z. trim_space (z_tunnel_id z) = i \<or> list_ex (\<lambda>f. trim_space f = i) (z_fallbacks z)) rules"

section \<open>Loading: dangling rules wait\<close>

definition detaches :: "stored_server list \<Rightarrow> zone \<Rightarrow> bool" where
  "detaches servers z \<longleftrightarrow> z_waiting z
     \<or> trim_space (z_tunnel_id z) \<noteq> [] \<and> \<not> is_live servers (trim_space (z_tunnel_id z))"

definition set_zones :: "stored_server \<Rightarrow> zone list \<Rightarrow> stored_server" where
  "set_zones s zs = s\<lparr>sv_routing := (sv_routing s)\<lparr>rc_zones := zs\<rparr>\<rparr>"

definition normalize_pending :: "rule_state \<Rightarrow> rule_state" where
  "normalize_pending st =
     (let servers = ru_servers st;
          pending = map (\<lambda>z. z\<lparr>z_waiting := True\<rparr>) (ru_pending st)
            @ concat (map (\<lambda>s. map (\<lambda>z. z\<lparr>z_waiting := True\<rparr>) (filter (detaches servers) (rc_zones (sv_routing s)))) servers);
          servers' = map (\<lambda>s. set_zones s (filter (\<lambda>z. \<not> detaches servers z) (rc_zones (sv_routing s)))) servers in
      st\<lparr>ru_pending := pending, ru_servers := servers', ru_refs := retained_refs (ru_refs st) pending servers'\<rparr>)"

section \<open>Reading the global list\<close>

definition default_route :: "zone \<Rightarrow> zone" where
  "default_route z = (if z_route z \<noteq> ''tunnel'' \<and> z_route z \<noteq> ''direct'' then z\<lparr>z_route := route_value z\<rparr> else z)"

definition present_rule :: "string \<Rightarrow> zone \<Rightarrow> zone" where
  "present_rule owner z0 =
     (let z1 = z0\<lparr>z_tunnel_id := trim_space (z_tunnel_id z0)\<rparr>;
          z2 = (if z_tunnel_id z1 = [] \<and> \<not> z_waiting z1 then z1\<lparr>z_tunnel_id := owner\<rparr> else z1);
          z3 = (if \<not> z_waiting z2 then
                  (if route_value z2 = ''tunnel'' then
                     (let candidates = fallback_candidates (z_tunnel_id z2) (z_fallbacks z2) in
                      if length candidates > 1 then z2\<lparr>z_fallbacks := tl candidates\<rparr> else z2\<lparr>z_fallbacks := []\<rparr>)
                   else z2\<lparr>z_fallbacks := []\<rparr>)
                else z2)
      in default_route z3)"

text \<open>The order of \<open>sort.SliceStable\<close>, on pairs of the running number and the rule.\<close>

definition rule_less :: "nat \<times> zone \<Rightarrow> nat \<times> zone \<Rightarrow> bool" where
  "rule_less a b = (let oi = z_order (snd a); oj = z_order (snd b) in
     if oi > 0 \<and> oj > 0 then oi < oj else if oi > 0 then True else if oj > 0 then False else fst a < fst b)"

definition rule_key :: "nat \<times> zone \<Rightarrow> bool \<times> int" where
  "rule_key a = (if z_order (snd a) > 0 then (False, z_order (snd a)) else (True, int (fst a)))"

definition collected_rules :: "rule_state \<Rightarrow> zone list" where
  "collected_rules st =
     concat (map (\<lambda>s. map (present_rule (sv_id s)) (rc_zones (sv_routing s))) (ru_servers st))
     @ map (\<lambda>z. present_rule [] (z\<lparr>z_waiting := True\<rparr>)) (ru_pending st)"

definition rank_rule :: "nat \<times> zone \<Rightarrow> zone" where
  "rank_rule a = (if z_order (snd a) \<le> 0 then (snd a)\<lparr>z_order := int (fst a) + 1\<rparr> else snd a)"

definition routing_rules :: "rule_state \<Rightarrow> zone list" where
  "routing_rules st =
     map rank_rule (enumerate 0 (map snd (sort_key rule_key (enumerate 1 (collected_rules st)))))"

section \<open>Saving the global list\<close>

datatype rule_error = BadReference string | NoConnections | UnknownTunnel string string | UnknownBackup string string

definition default_mode :: "zone \<Rightarrow> zone" where
  "default_mode z = (if z_mode z \<noteq> ''include'' \<and> z_mode z \<noteq> ''exclude''
     then z\<lparr>z_mode := (if z_route z = ''direct'' then ''exclude'' else ''include'')\<rparr> else z)"

text \<open>A waiting rule keeps everything but its rank; another one is attached to a live connection.\<close>

definition save_rule :: "(string \<Rightarrow> bool) \<Rightarrow> (string \<Rightarrow> bool) \<Rightarrow> bool \<Rightarrow> string \<Rightarrow> nat \<Rightarrow> zone \<Rightarrow> rule_error + zone" where
  "save_rule live known no_servers default_id i z0 =
     (let z = z0\<lparr>z_tunnel_id := trim_space (z_tunnel_id z0)\<rparr> in
      if z_waiting z then Inr (z\<lparr>z_order := int i + 1\<rparr>)
      else if z_tunnel_id z = [] \<and> no_servers then Inl NoConnections
      else (let z1 = (if z_tunnel_id z = [] then z\<lparr>z_tunnel_id := default_id\<rparr> else z) in
        if \<not> live (z_tunnel_id z1) then Inl (UnknownTunnel (z_name z1) (z_tunnel_id z1))
        else (let z2 = default_route z1;
                  fbs = (if z_route z2 = ''tunnel'' then normalize_fallbacks (z_tunnel_id z2) (z_fallbacks z2) (Some (\<lambda>j. live j \<or> known j))
                         else Inr []) in
          (case fbs of
             Inl missing \<Rightarrow> Inl (UnknownBackup (z_name z2) missing)
           | Inr fallbacks \<Rightarrow>
               Inr ((default_mode (z2\<lparr>z_fallbacks := fallbacks\<rparr>))\<lparr>z_order := int i + 1\<rparr>)))))"

fun save_rules_loop :: "(nat \<Rightarrow> zone \<Rightarrow> rule_error + zone) \<Rightarrow> nat \<Rightarrow> zone list \<Rightarrow> rule_error + zone list" where
  "save_rules_loop f i [] = Inr []"
| "save_rules_loop f i (z # zs) =
     (case f i z of Inl e \<Rightarrow> Inl e
      | Inr z' \<Rightarrow> (case save_rules_loop f (i + 1) zs of Inl e \<Rightarrow> Inl e | Inr zs' \<Rightarrow> Inr (z' # zs')))"

text \<open>The part of a connection, and whether a rule names it as its connection or a backup.\<close>

definition owned_part :: "zone list \<Rightarrow> string \<Rightarrow> zone list" where
  "owned_part zones i = filter (\<lambda>z. z_tunnel_id z = i) (filter (\<lambda>z. \<not> z_waiting z) zones)"

definition referenced :: "zone list \<Rightarrow> string \<Rightarrow> bool" where
  "referenced zones i = list_ex (\<lambda>z. \<not> z_waiting z \<and> (z_tunnel_id z = i \<or> z_route z = ''tunnel'' \<and> i \<in> set (z_fallbacks z))) zones"

definition save_server :: "routing_settings \<Rightarrow> zone list \<Rightarrow> stored_server \<Rightarrow> stored_server" where
  "save_server settings zones s =
     (let part = owned_part zones (sv_id s) in
      s\<lparr>sv_routing := normalize_routing ((apply_settings settings (sv_routing s))\<lparr>rc_zones := part,
         fr_active := rs_mode settings \<noteq> ''off'' \<and> (length part > 0 \<or> referenced zones (sv_id s))\<rparr>)\<rparr>)"

definition request_settings :: "rule_state \<Rightarrow> full_routing \<Rightarrow> routing_settings" where
  "request_settings st rc =
     (let mode = (if rc_mode rc = [] \<or> rc_mode rc = ''include'' \<or> rc_mode rc = ''exclude'' then ''zones'' else rc_mode rc);
          mtu = (if fr_mtu rc \<le> 0 then rs_mtu (current_settings st) else fr_mtu rc) in
      routing_settings_from (rc\<lparr>rc_mode := mode, fr_mtu := mtu\<rparr>))"

definition store_rules :: "rule_state \<Rightarrow> (string \<times> connection_ref) list \<Rightarrow> full_routing \<Rightarrow> zone list \<Rightarrow> rule_state" where
  "store_rules st refs rc zones =
     (let settings = request_settings st rc;
          pending = filter z_waiting zones;
          servers = map (save_server settings zones) (ru_servers st) in
      st\<lparr>ru_routing := Some settings, ru_pending := pending, ru_servers := servers,
         ru_refs := retained_refs refs pending servers\<rparr>)"

text \<open>
  \<open>awgSaveRoutingRulesWithRefs\<close> up to the persisted candidate, which is then published. \<open>default_id\<close> is
  the answer of \<open>defaultRoutingTunnelID\<close>, a probe of the live tunnels; \<open>refs\<close> is \<open>connectionRefSnapshot\<close>
  and \<open>extra\<close> the references an import brings.
\<close>

definition save_routing_rules ::
  "rule_state \<Rightarrow> (string \<times> connection_ref) list \<Rightarrow> (string \<times> connection_ref) list \<Rightarrow> string \<Rightarrow> full_routing \<Rightarrow> rule_error + rule_state" where
  "save_routing_rules st refs extra default_id rc =
     (let live = is_live (ru_servers st);
          refs' = filter (\<lambda>(i, ref). \<not> live i) extra @ refs in
      case find (\<lambda>(i, ref). trim_space i = [] \<or> cr_ref ref \<noteq> i) extra of
        Some (i, _) \<Rightarrow> Inl (BadReference i)
      | None \<Rightarrow>
        (case save_rules_loop (save_rule live (\<lambda>j. map_of refs' j \<noteq> None) (ru_servers st = []) default_id) 0 (rc_zones rc) of
           Inl e \<Rightarrow> Inl e
         | Inr zones \<Rightarrow> Inr (store_rules st refs' rc zones)))"

section \<open>Deleting a connection and moving its rules to another\<close>

definition replacement_fallbacks :: "string \<Rightarrow> string list \<Rightarrow> string \<Rightarrow> string \<Rightarrow> string list" where
  "replacement_fallbacks primary fallbacks source target =
     (case normalize_fallbacks primary (map (\<lambda>raw. let i = trim_space raw in if i = source then target else i) fallbacks) None of
        Inl _ \<Rightarrow> [] | Inr out \<Rightarrow> out)"

definition move_rule :: "string \<Rightarrow> string \<Rightarrow> nat \<times> zone \<Rightarrow> zone" where
  "move_rule source target = (\<lambda>(i, original).
     let z = original\<lparr>z_order := int i + 1\<rparr>;
         z1 = (if z_tunnel_id z = source then z\<lparr>z_tunnel_id := target, z_waiting := False\<rparr> else z) in
     z1\<lparr>z_fallbacks := replacement_fallbacks (z_tunnel_id z1) (z_fallbacks z1) source target\<rparr>)"

definition applied_copy :: "stored_server \<Rightarrow> stored_server" where
  "applied_copy s = (case sv_applied s of None \<Rightarrow> s
     | Some _ \<Rightarrow> s\<lparr>sv_applied := Some \<lparr>ap_routing = sv_routing s, ap_fallbacks = sv_fallbacks s, ap_standby = sv_standby s\<rparr>\<rparr>)"

definition move_server :: "stored_server \<Rightarrow> string \<Rightarrow> bool \<Rightarrow> zone list \<Rightarrow> stored_server \<Rightarrow> stored_server" where
  "move_server source target transfer zones s0 =
     (let s1 = set_zones s0 (owned_part zones (sv_id s0));
          fallbacks = (if sv_id s1 = target then sv_fallbacks s1 @ sv_fallbacks source else sv_fallbacks s1);
          s2 = (if sv_id s1 = target \<and> transfer \<and> rc_mode (sv_routing s1) \<noteq> ''off''
                then s1\<lparr>sv_routing := (sv_routing s1)\<lparr>fr_active := True\<rparr>, sv_standby := False\<rparr> else s1) in
      applied_copy (s2\<lparr>sv_fallbacks := replacement_fallbacks (sv_id s2) fallbacks (sv_id source) target\<rparr>))"

definition server_graph :: "stored_server list \<Rightarrow> graph" where
  "server_graph servers = map (\<lambda>s. (sv_id s, sv_fallbacks s)) (rev servers)"

datatype replacement_error = NotFound | ReplacementCycle

text \<open>\<open>awgReplacementState\<close>; the cycle check visits the connections in list order, the source in map order.\<close>

definition replacement_state :: "rule_state \<Rightarrow> zone list \<Rightarrow> string \<Rightarrow> string \<Rightarrow> replacement_error + (rule_state \<times> bool)" where
  "replacement_state before rules source_id target_id =
     (let rest = filter (\<lambda>s. sv_id s \<noteq> source_id) (ru_servers before) in
      case find (\<lambda>s. sv_id s = source_id) (rev (ru_servers before)) of
        None \<Rightarrow> Inl NotFound
      | Some source \<Rightarrow>
          (if sv_id source = [] \<or> \<not> is_live rest target_id then Inl NotFound
           else (let transfer = (fr_active (sv_routing source) \<and> rc_mode (sv_routing source) = ''full'')
                   \<or> list_ex (\<lambda>z. z_tunnel_id z = source_id \<and> z_enabled z \<and> fr_active (sv_routing source)) rules;
                   zones = map (move_rule source_id target_id) (enumerate 0 rules);
                   pending = filter z_waiting zones;
                   servers = map (move_server source target_id transfer zones) rest in
             if \<not> fst (acyclic_walk (server_graph servers) [] [] (map sv_id servers)) then Inl ReplacementCycle
             else Inr (before\<lparr>ru_active := (if ru_active before = source_id then target_id else ru_active before),
                    ru_servers := servers, ru_pending := pending,
                    ru_refs := retained_refs (ru_refs before) pending servers\<rparr>, transfer))))"

section \<open>Sorting a partition restores the order\<close>

lemma rule_less_key: "rule_less a b \<longleftrightarrow> rule_key a < rule_key b"
  by (auto simp: rule_less_def rule_key_def Let_def)

lemma mset_partition:
  assumes "distinct (map g S)" "\<forall>z \<in> set zs. k z \<in> g ` set S"
  shows "mset (concat (map (\<lambda>s. filter (\<lambda>z. k z = g s) zs) S)) = mset zs"
  using assms
proof (induction S arbitrary: zs)
  case (Cons s S)
  define r where "r = filter (\<lambda>z. k z \<noteq> g s) zs"
  have r: "filter (\<lambda>z. k z = g s') r = filter (\<lambda>z. k z = g s') zs" if "s' \<in> set S" for s'
  proof -
    have "g s' \<noteq> g s" using that Cons.prems(1) by (metis distinct.simps(2) image_eqI list.set_map list.simps(9))
    then show ?thesis unfolding r_def filter_filter by (intro filter_cong) auto
  qed
  have "mset (concat (map (\<lambda>s. filter (\<lambda>z. k z = g s) r) S)) = mset r"
    using Cons.prems by (intro Cons.IH) (auto simp: r_def)
  moreover have "map (\<lambda>s. filter (\<lambda>z. k z = g s) r) S = map (\<lambda>s. filter (\<lambda>z. k z = g s) zs) S"
    using r by (intro map_cong) auto
  moreover have "mset (filter (\<lambda>z. k z = g s) zs) + mset r = mset zs"
    unfolding r_def by (metis mset_filter multiset_partition)
  ultimately show ?case by simp
qed simp

lemma sort_rules_unique:
  assumes pos: "\<forall>z \<in> set C. z_order z > 0" and perm: "mset L = mset C"
    and sorted: "sorted (map z_order L)" and dist: "distinct (map z_order L)"
  shows "map snd (sort_key rule_key (enumerate n C)) = L"
proof -
  define ys where "ys = map snd (sort_key rule_key (enumerate n C))"
  have m: "mset ys = mset C" by (simp add: ys_def) (metis map_snd_enumerate mset_map)
  have "sorted (map z_order ys)"
  proof -
    have "sorted_wrt (\<lambda>a b. rule_key a \<le> rule_key b) (sort_key rule_key (enumerate n C))"
      using sorted_sort_key [of rule_key "enumerate n C"] by (simp add: sorted_wrt_map)
    then have "sorted_wrt (\<lambda>a b. z_order (snd a) \<le> z_order (snd b)) (sort_key rule_key (enumerate n C))"
    proof (rule sorted_wrt_mono_rel [rotated])
      fix a b assume ab: "a \<in> set (sort_key rule_key (enumerate n C))" "b \<in> set (sort_key rule_key (enumerate n C))"
        "rule_key a \<le> rule_key b"
      then have "snd a \<in> set C" "snd b \<in> set C"
        by (metis image_eqI list.set_map map_snd_enumerate set_sort)+
      then show "z_order (snd a) \<le> z_order (snd b)" using ab(3) pos by (auto simp: rule_key_def)
    qed
    then show ?thesis by (simp add: ys_def sorted_wrt_map)
  qed
  moreover have inj: "inj_on z_order (set C)"
    using dist perm by (metis distinct_map mset_eq_setD)
  ultimately have "sort_key z_order C = ys" using m by (intro sort_key_inj_key_eq) auto
  moreover have "sort_key z_order C = L" using sorted perm inj by (intro sort_key_inj_key_eq) auto
  ultimately show ?thesis by (simp add: ys_def)
qed

section \<open>Saved rules are read back\<close>

lemma fallback_candidates_clean:
  assumes "trim_space p = p" "p \<noteq> []" "distinct (p # fs)" "[] \<notin> set fs" "\<forall>f \<in> set fs. trim_space f = f"
  shows "fallback_candidates p fs = p # fs"
proof -
  have "foldl add_candidate out gs = out @ gs"
    if "distinct (out @ gs)" "[] \<notin> set gs" "\<forall>f \<in> set gs. trim_space f = f" for out gs
    using that
  proof (induction gs arbitrary: out)
    case (Cons g gs)
    have "add_candidate out g = out @ [g]" using Cons.prems by (auto simp: add_candidate_def Let_def)
    then show ?case using Cons.IH [of "out @ [g]"] Cons.prems by simp
  qed simp
  moreover have "add_candidate [] p = [p]" using assms(1,2) by (simp add: add_candidate_def Let_def)
  ultimately show ?thesis using assms by (simp add: fallback_candidates_def)
qed

lemma normalize_loop_trimmed:
  "normalize_loop ex primary raws out = Inr r \<Longrightarrow> \<forall>f \<in> set out. trim_space f = f \<Longrightarrow> \<forall>f \<in> set r. trim_space f = f"
proof (induction raws arbitrary: out)
  case (Cons raw raws)
  define i where "i = trim_space raw"
  have "normalize_loop ex primary (raw # raws) out = normalize_loop ex primary raws out
      \<or> normalize_loop ex primary (raw # raws) out = normalize_loop ex primary raws (out @ [i])
      \<or> normalize_loop ex primary (raw # raws) out = Inl i"
    unfolding normalize_loop.simps Let_def i_def [symmetric] by simp
  moreover have "trim_space i = i" by (simp add: i_def)
  ultimately show ?case
    using Cons.IH [of out] Cons.IH [of "out @ [i]"] Cons.prems by (elim disjE) simp_all
qed simp

text \<open>A rule that \<open>save_rule\<close> accepted: attached to its connection, in the form it is read back in.\<close>

definition settled_rule :: "(string \<Rightarrow> bool) \<Rightarrow> zone \<Rightarrow> bool" where
  "settled_rule live z \<longleftrightarrow> live (z_tunnel_id z) \<and> z_route z \<in> {''tunnel'', ''direct''} \<and> z_mode z \<in> {''include'', ''exclude''}
     \<and> distinct (z_tunnel_id z # z_fallbacks z) \<and> [] \<notin> set (z_fallbacks z)
     \<and> (\<forall>f \<in> set (z_fallbacks z). trim_space f = f) \<and> (z_route z = ''direct'' \<longrightarrow> z_fallbacks z = [])"

lemma present_settled:
  assumes "settled_rule live z" "\<not> z_waiting z" "trim_space (z_tunnel_id z) = z_tunnel_id z" "z_tunnel_id z \<noteq> []"
  shows "present_rule owner z = z"
proof -
  have "fallback_candidates (z_tunnel_id z) (z_fallbacks z) = z_tunnel_id z # z_fallbacks z"
    using assms by (intro fallback_candidates_clean) (auto simp: settled_rule_def)
  then show ?thesis
    using assms by (auto simp: present_rule_def settled_rule_def default_route_def route_value_def Let_def)
qed

text \<open>What \<open>save_rule\<close> does to a rule of the request at position \<open>i\<close>.\<close>

definition saved_as :: "string \<Rightarrow> nat \<Rightarrow> zone \<Rightarrow> zone \<Rightarrow> bool" where
  "saved_as default_id i z z' \<longleftrightarrow>
     z_order z' = int i + 1 \<and> z_waiting z' = z_waiting z \<and> z_name z' = z_name z \<and> z_domains z' = z_domains z
     \<and> z_ips z' = z_ips z \<and> z_source_ips z' = z_source_ips z \<and> z_subdomains z' = z_subdomains z
     \<and> z_enabled z' = z_enabled z \<and> route_value z' = route_value z
     \<and> z_tunnel_id z' = (let t = trim_space (z_tunnel_id z) in if t = [] \<and> \<not> z_waiting z then default_id else t)
     \<and> (if z_waiting z then z_fallbacks z' = z_fallbacks z
        else if route_value z = ''direct'' then z_fallbacks z' = []
        else set (z_fallbacks z') = set (clean_ids (z_fallbacks z)) - {trim_space (z_tunnel_id z')})"

lemma normalize_fallbacks_settled:
  assumes "normalize_fallbacks i fs (Some ex) = Inr r" "trim_space i = i"
  shows "distinct (i # r)" "[] \<notin> set r" "\<forall>f \<in> set r. trim_space f = f" "set r = set (clean_ids fs) - {i}"
  using assms normalize_loop_props [where out = "[]" and primary = i and ex = ex and raws = fs]
    normalize_loop_trimmed [where ex = "Some ex" and primary = i and raws = fs and out = "[]" and r = r]
  by (auto simp: normalize_fallbacks_def)

lemma save_rule_result:
  assumes "save_rule live known ns d i z = Inr z'" and ids: "\<And>j. live j \<Longrightarrow> trim_space j = j"
  shows "saved_as d i z z'" and "z_waiting z \<or> settled_rule live z'"
    and "z_waiting z \<Longrightarrow> z' = z\<lparr>z_tunnel_id := trim_space (z_tunnel_id z), z_order := int i + 1\<rparr>"
proof -
  show "z_waiting z \<Longrightarrow> z' = z\<lparr>z_tunnel_id := trim_space (z_tunnel_id z), z_order := int i + 1\<rparr>"
    using assms(1) by (simp add: save_rule_def Let_def)
  define z1 where "z1 = (let z1 = z\<lparr>z_tunnel_id := trim_space (z_tunnel_id z)\<rparr> in
    if z_tunnel_id z1 = [] then z1\<lparr>z_tunnel_id := d\<rparr> else z1)"
  define z2 where "z2 = default_route z1"
  define fbs where "fbs = (if z_route z2 = ''tunnel'' then normalize_fallbacks (z_tunnel_id z2) (z_fallbacks z2) (Some (\<lambda>j. live j \<or> known j)) else Inr [])"
  have "saved_as d i z z' \<and> (z_waiting z \<or> settled_rule live z')"
  proof (cases "z_waiting z")
    case True
    then have "z' = z\<lparr>z_tunnel_id := trim_space (z_tunnel_id z), z_order := int i + 1\<rparr>"
      using assms(1) by (simp add: save_rule_def Let_def)
    then show ?thesis using True by (simp add: saved_as_def route_value_def)
  next
    case nw: False
    have eq: "save_rule live known ns d i z = (if trim_space (z_tunnel_id z) = [] \<and> ns then Inl NoConnections
        else if \<not> live (z_tunnel_id z1) then Inl (UnknownTunnel (z_name z1) (z_tunnel_id z1))
        else case fbs of Inl missing \<Rightarrow> Inl (UnknownBackup (z_name z2) missing)
          | Inr fs \<Rightarrow> Inr ((default_mode (z2\<lparr>z_fallbacks := fs\<rparr>))\<lparr>z_order := int i + 1\<rparr>))"
      unfolding save_rule_def fbs_def z2_def z1_def Let_def using nw by simp
    then obtain fs where live: "live (z_tunnel_id z1)" and fs: "fbs = Inr fs"
      and z': "z' = (default_mode (z2\<lparr>z_fallbacks := fs\<rparr>))\<lparr>z_order := int i + 1\<rparr>"
      using assms(1) by (auto split: if_splits sum.splits)
    have z2: "z_route z2 = route_value z" "route_value z2 = route_value z" "z_tunnel_id z2 = z_tunnel_id z1"
      "z_waiting z2 = z_waiting z" "z_name z2 = z_name z" "z_domains z2 = z_domains z" "z_ips z2 = z_ips z"
      "z_source_ips z2 = z_source_ips z" "z_subdomains z2 = z_subdomains z" "z_enabled z2 = z_enabled z"
      "z_fallbacks z2 = z_fallbacks z"
      by (simp_all add: z2_def z1_def default_route_def route_value_def Let_def)
    have t: "z_tunnel_id z1 = (let t = trim_space (z_tunnel_id z) in if t = [] then d else t)"
      by (simp add: z1_def Let_def)
    note tt = ids [OF live]
    have f: "if route_value z = ''direct'' then fs = []
      else distinct (z_tunnel_id z1 # fs) \<and> [] \<notin> set fs \<and> (\<forall>f \<in> set fs. trim_space f = f)
        \<and> set fs = set (clean_ids (z_fallbacks z)) - {z_tunnel_id z1}"
    proof (cases "route_value z = ''direct''")
      case True
      then show ?thesis using fs by (simp add: fbs_def z2)
    next
      case False
      then have "normalize_fallbacks (z_tunnel_id z1) (z_fallbacks z) (Some (\<lambda>j. live j \<or> known j)) = Inr fs"
        using fs route_value_cases [of z] by (simp add: fbs_def z2)
      from normalize_fallbacks_settled [OF this tt] False show ?thesis by simp
    qed
    have m: "z_mode (default_mode y) \<in> {''include'', ''exclude''}"
      "z_route (default_mode y) = z_route y" "z_tunnel_id (default_mode y) = z_tunnel_id y"
      "z_waiting (default_mode y) = z_waiting y" "z_name (default_mode y) = z_name y" "z_domains (default_mode y) = z_domains y"
      "z_ips (default_mode y) = z_ips y" "z_source_ips (default_mode y) = z_source_ips y"
      "z_subdomains (default_mode y) = z_subdomains y" "z_enabled (default_mode y) = z_enabled y"
      "z_fallbacks (default_mode y) = z_fallbacks y" for y
      by (simp_all add: default_mode_def)
    have r: "z_route z' = route_value z" by (simp add: z' m z2)
    then have rv: "route_value z' = route_value z" using route_value_cases [of z] by (auto simp: route_value_def [of z'])
    have "saved_as d i z z'"
      using nw f tt rv unfolding saved_as_def by (simp add: z' m z2 t [symmetric] Let_def) (simp add: t Let_def)
    moreover have "settled_rule live z'"
      using f live route_value_cases [of z] m(1) [of "z2\<lparr>z_fallbacks := fs\<rparr>"] unfolding settled_rule_def r
      by (auto simp: z' m(2-) z2)
    ultimately show ?thesis by blast
  qed
  then show "saved_as d i z z'" "z_waiting z \<or> settled_rule live z'" by blast+
qed

text \<open>The ids of connections: trimmed, not empty, all different.\<close>

definition good_ids :: "stored_server list \<Rightarrow> bool" where
  "good_ids servers \<longleftrightarrow> distinct (map sv_id servers) \<and> list_all (\<lambda>s. sv_id s \<noteq> [] \<and> trim_space (sv_id s) = sv_id s) servers"

text \<open>The rules of a state are the parts of one ranked list.\<close>

definition partition_of :: "zone list \<Rightarrow> rule_state \<Rightarrow> bool" where
  "partition_of zones st \<longleftrightarrow>
     map z_order zones = map (\<lambda>i. int i + 1) [0..<length zones]
     \<and> ru_pending st = filter z_waiting zones
     \<and> map (\<lambda>s. rc_zones (sv_routing s)) (ru_servers st)
        = map (\<lambda>s. filter (\<lambda>z. z_tunnel_id z = sv_id s) (filter (\<lambda>z. \<not> z_waiting z) zones)) (ru_servers st)
     \<and> list_all (\<lambda>z. z_waiting z \<or> is_live (ru_servers st) (z_tunnel_id z)) zones"

lemma present_waiting:
  "z_waiting z \<Longrightarrow> trim_space (z_tunnel_id z) = z_tunnel_id z \<Longrightarrow> present_rule owner z = default_route z"
  by (simp add: present_rule_def Let_def)

lemma default_route_fields [simp]:
  "z_order (default_route z) = z_order z" "z_waiting (default_route z) = z_waiting z"
  "z_tunnel_id (default_route z) = z_tunnel_id z" "z_fallbacks (default_route z) = z_fallbacks z"
  "z_name (default_route z) = z_name z" "z_domains (default_route z) = z_domains z" "z_ips (default_route z) = z_ips z"
  "z_source_ips (default_route z) = z_source_ips z" "z_subdomains (default_route z) = z_subdomains z"
  "z_enabled (default_route z) = z_enabled z" "z_route (default_route z) = route_value z"
  "route_value (default_route z) = route_value z"
  by (auto simp: default_route_def route_value_def)

lemma waiting_update [simp]: "z_waiting z \<Longrightarrow> z\<lparr>z_waiting := True\<rparr> = z"
  by (cases z) simp

definition present_any :: "zone \<Rightarrow> zone" where
  "present_any z = present_rule (if z_waiting z then [] else z_tunnel_id z) z"

lemma present_rule_fields [simp]:
  "z_order (present_rule owner z) = z_order z" "z_waiting (present_rule owner z) = z_waiting z"
  "z_route (present_rule owner z) = route_value z"
  by (simp_all add: present_rule_def route_value_def Let_def)

lemma present_rule_tunnel:
  "z_tunnel_id (present_rule owner z) = (let t = trim_space (z_tunnel_id z) in if t = [] \<and> \<not> z_waiting z then owner else t)"
  by (simp add: present_rule_def Let_def)

lemma route_value_update [simp]:
  "route_value (z\<lparr>z_tunnel_id := t\<rparr>) = route_value z" "route_value (z\<lparr>z_fallbacks := fs\<rparr>) = route_value z"
  "route_value (z\<lparr>z_waiting := w\<rparr>) = route_value z" "route_value (z\<lparr>z_order := n\<rparr>) = route_value z"
  by (simp_all add: route_value_def)

lemma present_rule_direct:
  "route_value z = ''direct'' \<Longrightarrow> \<not> z_waiting z \<Longrightarrow> z_fallbacks (present_rule owner z) = []"
  by (simp add: present_rule_def Let_def)

lemma rank_positive: "\<forall>a \<in> set as. z_order (snd a) > 0 \<Longrightarrow> map rank_rule as = map snd as"
  by (induction as) (simp_all add: rank_rule_def)

lemma routing_rules_of_partition:
  assumes "partition_of zones st" "good_ids (ru_servers st)"
  shows "routing_rules st = map present_any zones"
proof -
  define S where "S = ru_servers st"
  define owned where "owned = filter (\<lambda>z. \<not> z_waiting z) zones"
  define L where "L = map present_any zones"
  have part: "rc_zones (sv_routing s) = filter (\<lambda>z. z_tunnel_id z = sv_id s) owned" if "s \<in> set S" for s
    using assms(1) that by (auto simp: partition_of_def S_def owned_def)
  have live: "\<forall>z \<in> set owned. z_tunnel_id z \<in> sv_id ` set S"
    using assms(1) by (auto simp: partition_of_def S_def owned_def list_all_iff is_live_def list_ex_iff image_iff) metis
  have own: "map (\<lambda>s. map (present_rule (sv_id s)) (rc_zones (sv_routing s))) S
      = map (\<lambda>s. map present_any (filter (\<lambda>z. z_tunnel_id z = sv_id s) owned)) S"
    using part by (auto simp: present_any_def owned_def)
  have pend: "map (\<lambda>z. present_rule [] (z\<lparr>z_waiting := True\<rparr>)) (ru_pending st) = map present_any (filter z_waiting zones)"
    using assms(1) by (auto simp: partition_of_def present_any_def)
  have C: "collected_rules st = map present_any (concat (map (\<lambda>s. filter (\<lambda>z. z_tunnel_id z = sv_id s) owned) S) @ filter z_waiting zones)"
    unfolding collected_rules_def S_def [symmetric] own pend by (simp add: map_concat comp_def)
  have "mset (concat (map (\<lambda>s. filter (\<lambda>z. z_tunnel_id z = sv_id s) owned) S)) = mset owned"
    using assms(2) live by (intro mset_partition) (auto simp: good_ids_def S_def)
  moreover have "mset owned + mset (filter z_waiting zones) = mset zones"
    unfolding owned_def by (metis add.commute mset_filter multiset_partition)
  ultimately have perm: "mset L = mset (collected_rules st)" unfolding C L_def by (simp flip: image_mset_union)
  have ord: "map z_order L = map (\<lambda>i. int i + 1) [0..<length zones]"
    using assms(1) by (simp add: L_def partition_of_def present_any_def comp_def)
  have pos: "\<forall>z \<in> set L. z_order z > 0"
  proof
    fix z assume "z \<in> set L"
    then have "z_order z \<in> set (map z_order L)" by simp
    then show "z_order z > 0" unfolding ord by auto
  qed
  have "map snd (sort_key rule_key (enumerate 1 (collected_rules st))) = L"
  proof (rule sort_rules_unique [OF _ perm])
    show "\<forall>z \<in> set (collected_rules st). z_order z > 0" using pos perm by (metis mset_eq_setD)
    show "sorted (map z_order L)" unfolding ord by (simp add: sorted_iff_nth_mono)
    show "distinct (map z_order L)" unfolding ord by (simp add: distinct_map inj_on_def)
  qed
  moreover have "map rank_rule (enumerate 0 L) = L"
  proof -
    have "\<forall>a \<in> set (enumerate 0 L). z_order (snd a) > 0" using pos by (metis image_eqI list.set_map map_snd_enumerate)
    then show ?thesis by (simp add: rank_positive)
  qed
  ultimately show ?thesis by (simp add: routing_rules_def L_def)
qed

lemma save_rules_loop_result:
  "save_rules_loop f i zs = Inr zs' \<Longrightarrow>
    length zs' = length zs \<and> (\<forall>k < length zs. f (i + k) (zs ! k) = Inr (zs' ! k))"
proof (induction zs arbitrary: i zs')
  case (Cons z zs)
  obtain z' zs'' where z': "f i z = Inr z'" and r: "save_rules_loop f (i + 1) zs = Inr zs''" "zs' = z' # zs''"
    using Cons.prems by (auto split: sum.splits)
  have "f (i + k) ((z # zs) ! k) = Inr (zs' ! k)" if "k < length (z # zs)" for k
    using Cons.IH [OF r(1)] z' r(2) that by (cases k) auto
  then show ?case using Cons.IH [OF r(1)] r(2) by simp
qed simp

lemma normalize_zone_mode_settled: "z_mode z \<in> {''include'', ''exclude''} \<Longrightarrow> normalize_zone_mode m z = z"
  by (auto simp: normalize_zone_mode_def)

lemma live_trimmed: "good_ids servers \<Longrightarrow> is_live servers j \<Longrightarrow> trim_space j = j \<and> j \<noteq> []"
  by (auto simp: good_ids_def is_live_def list_ex_iff list_all_iff)

lemma save_server_fields:
  assumes "\<forall>z \<in> set zones. z_waiting z \<or> z_mode z \<in> {''include'', ''exclude''}"
  shows "sv_id (save_server settings zones s) = sv_id s"
    and "rc_zones (sv_routing (save_server settings zones s)) = owned_part zones (sv_id s)"
proof -
  show "sv_id (save_server settings zones s) = sv_id s" by (simp add: save_server_def Let_def)
  have "map (normalize_zone_mode m) (owned_part zones (sv_id s)) = owned_part zones (sv_id s)" for m
    using assms by (intro map_idI) (auto simp: owned_part_def normalize_zone_mode_def)
  then show "rc_zones (sv_routing (save_server settings zones s)) = owned_part zones (sv_id s)"
    by (simp add: save_server_def normalize_routing_def Let_def)
qed

lemma is_live_map: "(\<And>s. sv_id (f s) = sv_id s) \<Longrightarrow> is_live (map f servers) i = is_live servers i"
  by (simp add: is_live_def list_ex_iff)

lemma good_ids_map: "(\<And>s. sv_id (f s) = sv_id s) \<Longrightarrow> good_ids (map f servers) = good_ids servers"
  by (simp add: good_ids_def list_all_iff comp_def)

lemma store_rules_partition:
  assumes ranks: "map z_order zones = map (\<lambda>i. int i + 1) [0..<length zones]"
    and settled: "\<forall>z \<in> set zones. z_waiting z \<or> settled_rule (is_live (ru_servers st)) z"
  shows "partition_of zones (store_rules st refs rc zones)"
proof -
  have m: "\<forall>z \<in> set zones. z_waiting z \<or> z_mode z \<in> {''include'', ''exclude''}"
    using settled by (auto simp: settled_rule_def)
  show ?thesis
    using ranks settled
    by (auto simp: partition_of_def store_rules_def Let_def save_server_fields [OF m] is_live_map list_all_iff
        settled_rule_def owned_part_def)
qed

lemma save_routing_rules_result:
  assumes ok: "save_routing_rules st refs extra d rc = Inr st'" and ids: "good_ids (ru_servers st)"
  obtains zones where "length zones = length (rc_zones rc)" "partition_of zones st'" "good_ids (ru_servers st')"
    "\<And>k. k < length zones \<Longrightarrow> saved_as d k (rc_zones rc ! k) (zones ! k)
      \<and> (z_waiting (zones ! k) \<longrightarrow> zones ! k = (rc_zones rc ! k)\<lparr>z_tunnel_id := trim_space (z_tunnel_id (rc_zones rc ! k)), z_order := int k + 1\<rparr>)
      \<and> (z_waiting (zones ! k) \<or> settled_rule (is_live (ru_servers st)) (zones ! k))"
    "\<exists>refs'. st' = store_rules st refs' rc zones"
proof -
  define S where "S = ru_servers st"
  obtain known zones refs' where
    loop: "save_rules_loop (save_rule (is_live S) known (S = []) d) 0 (rc_zones rc) = Inr zones"
    and st': "st' = store_rules st refs' rc zones"
    using ok by (auto simp: save_routing_rules_def S_def Let_def split: option.splits sum.splits prod.splits)
  note len = conjunct1 [OF save_rules_loop_result [OF loop]]
  have each: "save_rule (is_live S) known (S = []) d k (rc_zones rc ! k) = Inr (zones ! k)" if "k < length zones" for k
    using save_rules_loop_result [OF loop] that by simp
  have trimmed: "is_live S j \<Longrightarrow> trim_space j = j" for j using live_trimmed ids by (simp add: S_def)
  note res = save_rule_result [OF each trimmed]
  have w: "z_waiting (zones ! k) = z_waiting (rc_zones rc ! k)" if "k < length zones" for k
    using res(1) [OF that] by (simp add: saved_as_def)
  have ranks: "map z_order zones = map (\<lambda>i. int i + 1) [0..<length zones]"
    using res(1) by (intro nth_equalityI) (simp_all add: saved_as_def)
  have settled: "\<forall>z \<in> set zones. z_waiting z \<or> settled_rule (is_live S) z"
    using res(2) w by (metis in_set_conv_nth)
  have part: "partition_of zones st'"
    unfolding st' by (rule store_rules_partition [OF ranks]) (use settled in \<open>simp add: S_def\<close>)
  have gi: "good_ids (ru_servers st')"
    using ids by (simp add: st' store_rules_def Let_def good_ids_map save_server_def)
  show thesis
  proof (rule that [OF len part gi])
    fix k assume k: "k < length zones"
    show "saved_as d k (rc_zones rc ! k) (zones ! k)
      \<and> (z_waiting (zones ! k) \<longrightarrow> zones ! k = (rc_zones rc ! k)\<lparr>z_tunnel_id := trim_space (z_tunnel_id (rc_zones rc ! k)), z_order := int k + 1\<rparr>)
      \<and> (z_waiting (zones ! k) \<or> settled_rule (is_live (ru_servers st)) (zones ! k))"
      using res(1,2,3) [OF k] w [OF k] by (simp add: S_def)
  qed (use st' in blast)
qed

lemma present_any_saved:
  assumes "saved_as d k z z'" "z_waiting z' \<longrightarrow> trim_space (z_tunnel_id z') = z_tunnel_id z'"
    and "z_waiting z' \<or> settled_rule (is_live servers) z'" "good_ids servers"
  shows "saved_as d k z (present_any z')"
proof (cases "z_waiting z'")
  case True
  then have "present_any z' = default_route z'" using assms(2) by (simp add: present_any_def present_waiting)
  then show ?thesis using assms(1) True by (simp add: saved_as_def)
next
  case False
  then have s: "settled_rule (is_live servers) z'" using assms(3) by simp
  then have "trim_space (z_tunnel_id z') = z_tunnel_id z' \<and> z_tunnel_id z' \<noteq> []"
    using live_trimmed [OF assms(4)] by (auto simp: settled_rule_def)
  then have "present_any z' = z'" using present_settled [OF s False] False by (simp add: present_any_def)
  then show ?thesis using assms(1) by simp
qed


section \<open>Moving rules loses none\<close>

lemma normalize_loop_none:
  "\<exists>r. normalize_loop None primary raws out = Inr r"
  by (induction raws arbitrary: out) (auto simp: Let_def)

lemma normalize_loop_no_check: "normalize_loop None primary raws out = normalize_loop (Some (\<lambda>_. True)) primary raws out"
  by (induction raws arbitrary: out) (auto simp: Let_def)

lemma replacement_fallbacks_props:
  fixes fs :: "string list"
  assumes "trim_space p = p" "source \<noteq> target" "trim_space target = target" "p \<noteq> source"
  defines "r \<equiv> replacement_fallbacks p fs source target"
  shows "distinct (p # r)" "[] \<notin> set r" "\<forall>f \<in> set r. trim_space f = f" "source \<notin> set r"
    "set r = (\<lambda>i. if i = source then target else i) ` set (map trim_space fs) - {p, []}"
proof -
  define raws where "raws = map (\<lambda>raw. let i = trim_space raw in if i = source then target else i) fs"
  obtain out where out: "normalize_loop None p raws [] = Inr out" using normalize_loop_none by blast
  then have n: "normalize_fallbacks p raws (Some (\<lambda>_. True)) = Inr out"
    by (simp add: normalize_fallbacks_def assms(1) normalize_loop_no_check)
  have r: "r = out" using out by (simp add: r_def replacement_fallbacks_def raws_def normalize_fallbacks_def assms(1))
  note props = normalize_fallbacks_settled [OF n assms(1)]
  have c: "set (clean_ids raws) = (\<lambda>i. if i = source then target else i) ` set (map trim_space fs) - {[]}"
  proof -
    have "trim_space (if trim_space x = source then target else trim_space x) = (if trim_space x = source then target else trim_space x)" for x
      using assms(3) by simp
    then have "map trim_space raws = map (\<lambda>i. if i = source then target else i) (map trim_space fs)"
      by (simp add: raws_def Let_def)
    then show ?thesis by (auto simp: clean_ids_def)
  qed
  show "distinct (p # r)" "[] \<notin> set r" "\<forall>f \<in> set r. trim_space f = f" using props by (simp_all add: r)
  show e: "set r = (\<lambda>i. if i = source then target else i) ` set (map trim_space fs) - {p, []}"
    using props(4) c by (auto simp: r)
  show "source \<notin> set r" using e assms(2) by auto
qed

text \<open>How a rule changes when its connection is replaced.\<close>

definition moved_as :: "string \<Rightarrow> string \<Rightarrow> nat \<Rightarrow> zone \<Rightarrow> zone \<Rightarrow> bool" where
  "moved_as source target i z z' \<longleftrightarrow>
     z_order z' = int i + 1 \<and> z_name z' = z_name z \<and> z_domains z' = z_domains z \<and> z_ips z' = z_ips z
     \<and> z_source_ips z' = z_source_ips z \<and> z_subdomains z' = z_subdomains z \<and> z_enabled z' = z_enabled z
     \<and> z_route z' = z_route z
     \<and> z_waiting z' = (z_waiting z \<and> z_tunnel_id z \<noteq> source)
     \<and> z_tunnel_id z' = (if z_tunnel_id z = source then target else z_tunnel_id z)
     \<and> source \<notin> set (z_fallbacks z')
     \<and> (if \<not> z_waiting z' \<and> z_route z' = ''direct'' then z_fallbacks z' = []
        else set (z_fallbacks z') = (\<lambda>i. if i = source then target else i) ` set (map trim_space (z_fallbacks z)) - {z_tunnel_id z', []})"

lemma routing_rules_elem:
  assumes "z \<in> set (routing_rules st)"
  obtains n owner y where "z = rank_rule (n, present_rule owner y)"
    "owner = [] \<and> z_waiting y \<or> (\<exists>s \<in> set (ru_servers st). sv_id s = owner \<and> y \<in> set (rc_zones (sv_routing s)))"
proof -
  define xs where "xs = map snd (sort_key rule_key (enumerate 1 (collected_rules st)))"
  have xs: "set xs = set (collected_rules st)"
    unfolding xs_def by (simp only: set_map set_sort) (simp only: set_map [symmetric] map_snd_enumerate)
  have "z \<in> set (map rank_rule (enumerate 0 xs))" using assms by (simp only: routing_rules_def xs_def)
  then obtain a where a: "a \<in> set (enumerate 0 xs)" "z = rank_rule a" by auto
  have "snd a \<in> set (map snd (enumerate 0 xs))" using a(1) unfolding set_map by (rule imageI)
  then have c: "snd a \<in> set (collected_rules st)" by (simp only: map_snd_enumerate xs)
  have "\<exists>owner y. snd a = present_rule owner y
      \<and> (owner = [] \<and> z_waiting y \<or> (\<exists>s \<in> set (ru_servers st). sv_id s = owner \<and> y \<in> set (rc_zones (sv_routing s))))"
    using c unfolding collected_rules_def set_append
  proof (rule UnE)
    assume "snd a \<in> set (concat (map (\<lambda>s. map (present_rule (sv_id s)) (rc_zones (sv_routing s))) (ru_servers st)))"
    then show ?thesis by auto
  next
    assume "snd a \<in> set (map (\<lambda>z. present_rule [] (z\<lparr>z_waiting := True\<rparr>)) (ru_pending st))"
    then obtain y where "snd a = present_rule [] (y\<lparr>z_waiting := True\<rparr>)" by auto
    then show ?thesis by (intro exI [of _ "[]"] exI [of _ "y\<lparr>z_waiting := True\<rparr>"]) simp
  qed
  then obtain owner y where "snd a = present_rule owner y"
      "owner = [] \<and> z_waiting y \<or> (\<exists>s \<in> set (ru_servers st). sv_id s = owner \<and> y \<in> set (rc_zones (sv_routing s)))"
    by blast
  then show thesis using a(2) that [of "fst a" owner y] by (metis prod.collapse)
qed

lemma rank_rule_fields [simp]:
  "z_tunnel_id (rank_rule a) = z_tunnel_id (snd a)" "z_route (rank_rule a) = z_route (snd a)"
  "z_waiting (rank_rule a) = z_waiting (snd a)" "z_fallbacks (rank_rule a) = z_fallbacks (snd a)"
  by (simp_all add: rank_rule_def)

lemma presented_rule:
  assumes "z \<in> set (routing_rules st)" "good_ids (ru_servers st)"
  shows "trim_space (z_tunnel_id z) = z_tunnel_id z" "z_route z \<in> {''tunnel'', ''direct''}"
    "z_route z = ''direct'' \<and> \<not> z_waiting z \<Longrightarrow> z_fallbacks z = []"
proof -
  obtain n owner y where z: "z = rank_rule (n, present_rule owner y)"
    and "owner = [] \<and> z_waiting y \<or> (\<exists>s \<in> set (ru_servers st). sv_id s = owner \<and> y \<in> set (rc_zones (sv_routing s)))"
    using routing_rules_elem [OF assms(1)] by blast
  then have "owner = [] \<or> is_live (ru_servers st) owner" by (auto simp: is_live_def list_ex_iff)
  then have "trim_space owner = owner" using live_trimmed [OF assms(2)] by (auto simp: trim_space_Nil)
  then show "trim_space (z_tunnel_id z) = z_tunnel_id z" by (simp add: z present_rule_tunnel Let_def)
  show "z_route z \<in> {''tunnel'', ''direct''}" using route_value_cases [of y] by (simp add: z)
  show "z_route z = ''direct'' \<and> \<not> z_waiting z \<Longrightarrow> z_fallbacks z = []" by (simp add: z present_rule_direct)
qed

lemma move_rule_fields:
  "z_order (move_rule source target (i, z)) = int i + 1"
  "z_name (move_rule source target (i, z)) = z_name z" "z_domains (move_rule source target (i, z)) = z_domains z"
  "z_ips (move_rule source target (i, z)) = z_ips z" "z_source_ips (move_rule source target (i, z)) = z_source_ips z"
  "z_subdomains (move_rule source target (i, z)) = z_subdomains z" "z_enabled (move_rule source target (i, z)) = z_enabled z"
  "z_route (move_rule source target (i, z)) = z_route z"
  "z_waiting (move_rule source target (i, z)) = (z_waiting z \<and> z_tunnel_id z \<noteq> source)"
  "z_tunnel_id (move_rule source target (i, z)) = (if z_tunnel_id z = source then target else z_tunnel_id z)"
  "z_fallbacks (move_rule source target (i, z)) =
     replacement_fallbacks (if z_tunnel_id z = source then target else z_tunnel_id z) (z_fallbacks z) source target"
  by (simp_all add: move_rule_def Let_def)

lemma present_any_move:
  assumes "trim_space (z_tunnel_id y) = z_tunnel_id y" "z_route y \<in> {''tunnel'', ''direct''}"
    and "\<not> z_waiting y \<Longrightarrow> z_tunnel_id y \<noteq> [] \<and> distinct (z_tunnel_id y # z_fallbacks y) \<and> [] \<notin> set (z_fallbacks y)
      \<and> (\<forall>f \<in> set (z_fallbacks y). trim_space f = f)"
  shows "present_any y = (if \<not> z_waiting y \<and> z_route y = ''direct'' then y\<lparr>z_fallbacks := []\<rparr> else y)"
proof (cases "z_waiting y")
  case True
  then show ?thesis using assms(1,2) by (auto simp: present_any_def present_waiting default_route_def)
next
  case False
  then have c: "fallback_candidates (z_tunnel_id y) (z_fallbacks y) = z_tunnel_id y # z_fallbacks y"
    using assms by (intro fallback_candidates_clean) auto
  have r: "route_value y = z_route y" using assms(2) by (auto simp: route_value_def)
  have t: "y\<lparr>z_tunnel_id := z_tunnel_id y\<rparr> = y" "y\<lparr>z_fallbacks := z_fallbacks y\<rparr> = y" by simp_all
  show ?thesis
    using False assms r c
    by (cases "z_route y = ''direct''") (auto simp: present_any_def present_rule_def default_route_def t Let_def)
qed

lemma move_server_fields:
  "sv_id (move_server source target transfer zones s) = sv_id s"
  "rc_zones (sv_routing (move_server source target transfer zones s)) = owned_part zones (sv_id s)"
  "sv_fallbacks (move_server source target transfer zones s)
    = replacement_fallbacks (sv_id s) (if sv_id s = target then sv_fallbacks s @ sv_fallbacks source else sv_fallbacks s) (sv_id source) target"
  by (simp_all add: move_server_def set_zones_def applied_copy_def Let_def split: option.split)

lemma acyclic_walk_graph:
  assumes "fst ` set g \<subseteq> set xs"
  shows "fst (acyclic_walk g [] [] xs) \<longleftrightarrow> acyclic (edges g)"
proof
  assume ok: "fst (acyclic_walk g [] [] xs)"
  show "acyclic (edges g)"
  proof (rule acyclicI, intro allI notI)
    fix x assume x: "(x, x) \<in> (edges g)\<^sup>+"
    then obtain y where "(x, y) \<in> edges g" by (meson tranclD)
    then have "succs g x \<noteq> []" by (auto simp: edges_def)
    then have "x \<in> fst ` set g" using succs_unknown by blast
    then show False using ok x assms unfolding acyclic_walk_all_iff by blast
  qed
qed (simp add: acyclic_walk_all_iff acyclic_def)

text \<open>The backup lists after the replacement.\<close>

definition moved_graph :: "stored_server list \<Rightarrow> stored_server \<Rightarrow> string \<Rightarrow> graph" where
  "moved_graph servers source target =
     map (\<lambda>s. (sv_id s, replacement_fallbacks (sv_id s)
        (if sv_id s = target then sv_fallbacks s @ sv_fallbacks source else sv_fallbacks s) (sv_id source) target))
       (rev (filter (\<lambda>s. sv_id s \<noteq> sv_id source) servers))"

lemma move_rule_moved_as:
  fixes i :: nat
  assumes rule: "trim_space (z_tunnel_id z) = z_tunnel_id z" "z_route z \<in> {''tunnel'', ''direct''}"
      "z_route z = ''direct'' \<and> \<not> z_waiting z \<Longrightarrow> z_fallbacks z = []"
    and live: "z_waiting z \<or> z_tunnel_id z \<noteq> []"
    and st: "source \<noteq> target" "trim_space target = target" "target \<noteq> []"
  defines "y \<equiv> move_rule source target (i, z)"
  shows "moved_as source target i z (present_any y)" "z_waiting y \<longrightarrow> trim_space (z_tunnel_id y) = z_tunnel_id y"
proof -
  define t where "t = (if z_tunnel_id z = source then target else z_tunnel_id z)"
  have t: "trim_space t = t" "t \<noteq> source" using rule(1) st by (auto simp: t_def)
  note f = move_rule_fields [of source target i z, folded y_def t_def]
  note rf = replacement_fallbacks_props [OF t(1) st(1,2) t(2), of "z_fallbacks z"]
  have ne: "\<not> z_waiting y \<Longrightarrow> z_tunnel_id y \<noteq> []" using live st by (auto simp: f t_def)
  have y: "present_any y = (if \<not> z_waiting y \<and> z_route y = ''direct'' then y\<lparr>z_fallbacks := []\<rparr> else y)"
  proof (rule present_any_move)
    show "trim_space (z_tunnel_id y) = z_tunnel_id y" "z_route y \<in> {''tunnel'', ''direct''}" using t rule(2) by (simp_all add: f)
    show "z_tunnel_id y \<noteq> [] \<and> distinct (z_tunnel_id y # z_fallbacks y) \<and> [] \<notin> set (z_fallbacks y)
      \<and> (\<forall>f \<in> set (z_fallbacks y). trim_space f = f)" if "\<not> z_waiting y"
      using ne [OF that] rf(1-3) by (simp add: f)
  qed
  show "z_waiting y \<longrightarrow> trim_space (z_tunnel_id y) = z_tunnel_id y" using t by (simp add: f)
  show "moved_as source target i z (present_any y)"
  proof (cases "\<not> z_waiting y \<and> z_route y = ''direct''")
    case True
    then have "present_any y = y\<lparr>z_fallbacks := []\<rparr>" by (simp add: y)
    then show ?thesis using True by (simp add: moved_as_def f t_def)
  next
    case False
    then have "present_any y = y" unfolding y by (rule if_not_P)
    then show ?thesis
      unfolding moved_as_def if_not_P [OF False] \<open>present_any y = y\<close>
      using rf(4,5) by (simp add: f) (simp add: t_def)
  qed
qed

text \<open>
  Deleting a connection in favour of another loses no rule. Provided every rule that does not wait
  belongs to a live connection, the replacement fails only if one of the two is unknown or the merged
  backup lists contain a cycle; otherwise the remaining connections are the old ones without the deleted
  one, their backup lists are acyclic and no longer name it, and reading the rules yields as many rules
  in the same order with the same contents, those of the deleted connection attached to the other one
  (also those that waited for it) and its place in every backup list taken by the other one.
\<close>
theorem replacement_keeps_rules:
  assumes ids: "good_ids (ru_servers st)"
    and rules: "list_all (\<lambda>z. z_waiting z \<or> is_live (ru_servers st) (z_tunnel_id z)) (routing_rules st)"
    and ne: "source \<noteq> target"
  shows "case replacement_state st (routing_rules st) source target of
      Inl NotFound \<Rightarrow> \<not> is_live (ru_servers st) source \<or> \<not> is_live (ru_servers st) target
    | Inl ReplacementCycle \<Rightarrow> \<exists>s \<in> set (ru_servers st). sv_id s = source
        \<and> \<not> acyclic (edges (moved_graph (ru_servers st) s target))
    | Inr (st', transfer) \<Rightarrow>
        map sv_id (ru_servers st') = filter (\<lambda>i. i \<noteq> source) (map sv_id (ru_servers st))
        \<and> acyclic (edges (server_graph (ru_servers st')))
        \<and> list_all (\<lambda>s. source \<notin> set (sv_fallbacks s)) (ru_servers st')
        \<and> length (routing_rules st') = length (routing_rules st)
        \<and> (\<forall>k < length (routing_rules st). moved_as source target k (routing_rules st ! k) (routing_rules st' ! k))"
proof -
  define R where "R = routing_rules st"
  define S where "S = ru_servers st"
  define rest where "rest = filter (\<lambda>s. sv_id s \<noteq> source) S"
  define zones where "zones = map (move_rule source target) (enumerate 0 R)"
  show ?thesis
  proof (cases "find (\<lambda>s. sv_id s = source) (rev S)")
    case None
    then have "\<not> is_live S source" by (auto simp: find_None_iff is_live_def list_ex_iff)
    then show ?thesis using None by (simp add: replacement_state_def S_def Let_def)
  next
    case (Some src)
    then have src: "src \<in> set S" "sv_id src = source" unfolding find_Some_iff by (metis nth_mem set_rev)+
    have trimmed: "\<And>s. s \<in> set S \<Longrightarrow> trim_space (sv_id s) = sv_id s \<and> sv_id s \<noteq> []"
      using ids by (auto simp: good_ids_def S_def list_all_iff)
    show ?thesis
    proof (cases "is_live rest target")
      case False
      then have "\<not> is_live S target" using ne by (auto simp: is_live_def list_ex_iff rest_def)
      moreover have "replacement_state st R source target = Inl NotFound"
        using False Some by (simp add: replacement_state_def S_def rest_def Let_def)
      ultimately show ?thesis by (simp add: R_def S_def)
    next
      case target: True
      define tr where "tr = ((fr_active (sv_routing src) \<and> rc_mode (sv_routing src) = ''full'')
           \<or> list_ex (\<lambda>z. z_tunnel_id z = source \<and> z_enabled z \<and> fr_active (sv_routing src)) R)"
      define servers where "servers = map (move_server src target tr zones) rest"
      have eq: "replacement_state st R source target =
        (if \<not> fst (acyclic_walk (server_graph servers) [] [] (map sv_id servers)) then Inl ReplacementCycle
         else Inr (st\<lparr>ru_active := (if ru_active st = source then target else ru_active st), ru_servers := servers,
                    ru_pending := filter z_waiting zones,
                    ru_refs := retained_refs (ru_refs st) (filter z_waiting zones) servers\<rparr>, tr))"
        using Some target trimmed [OF src(1)] src(2) unfolding replacement_state_def S_def [symmetric] rest_def [symmetric] zones_def [symmetric]
        by (simp add: tr_def servers_def Let_def zones_def)
      have graph: "server_graph servers = moved_graph S src target"
        using src by (simp add: server_graph_def moved_graph_def servers_def rest_def rev_map move_server_fields comp_def)
      have walk: "fst (acyclic_walk (server_graph servers) [] [] (map sv_id servers)) \<longleftrightarrow> acyclic (edges (server_graph servers))"
        by (rule acyclic_walk_graph) (auto simp: server_graph_def)
      have sid: "map sv_id servers = filter (\<lambda>i. i \<noteq> source) (map sv_id S)"
        by (simp add: servers_def rest_def move_server_fields filter_map comp_def)
      show ?thesis
      proof (cases "acyclic (edges (server_graph servers))")
        case False
        then have "replacement_state st R source target = Inl ReplacementCycle" by (simp only: eq walk) simp
        then show ?thesis using False src by (auto simp: R_def [symmetric] graph [symmetric] S_def [symmetric])
      next
        case acy: True
        define st' where "st' = st\<lparr>ru_active := (if ru_active st = source then target else ru_active st), ru_servers := servers,
          ru_pending := filter z_waiting zones, ru_refs := retained_refs (ru_refs st) (filter z_waiting zones) servers\<rparr>"
        have res: "replacement_state st R source target = Inr (st', tr)" using acy by (simp add: eq walk st'_def)
        have tt: "trim_space target = target" "target \<noteq> []"
          using target trimmed by (auto simp: is_live_def rest_def list_ex_iff)
        have rule: "trim_space (z_tunnel_id z) = z_tunnel_id z" "z_route z \<in> {''tunnel'', ''direct''}"
            "z_route z = ''direct'' \<and> \<not> z_waiting z \<Longrightarrow> z_fallbacks z = []" "z_waiting z \<or> z_tunnel_id z \<noteq> []"
            "z_waiting z \<or> is_live S (z_tunnel_id z)" if "z \<in> set R" for z
          using presented_rule [of z st] that ids rules live_trimmed [OF ids] by (auto simp: R_def S_def list_all_iff)
        have len: "length zones = length R" by (simp add: zones_def)
        have nth: "zones ! k = move_rule source target (k, R ! k)" if "k < length R" for k
          using that by (simp add: zones_def nth_enumerate_eq)
        have live: "z_waiting z \<or> is_live servers (z_tunnel_id z)" if "z \<in> set zones" for z
        proof -
          obtain k where k: "k < length R" "z = move_rule source target (k, R ! k)"
            using \<open>z \<in> set zones\<close> nth len by (metis in_set_conv_nth)
          then have "z_waiting (R ! k) \<or> is_live S (z_tunnel_id (R ! k))" using rule(5) [of "R ! k"] by simp
          then show ?thesis
            using target unfolding k(2) servers_def
            by (auto simp: move_rule_fields is_live_map move_server_fields is_live_def rest_def list_ex_iff)
        qed
        have part: "partition_of zones st'"
          unfolding partition_of_def
        proof (intro conjI)
          show "map z_order zones = map (\<lambda>i. int i + 1) [0..<length zones]"
            by (intro nth_equalityI) (simp_all add: len nth move_rule_fields)
          show "list_all (\<lambda>z. z_waiting z \<or> is_live (ru_servers st') (z_tunnel_id z)) zones"
            using live by (simp add: list_all_iff st'_def)
        qed (simp_all add: st'_def servers_def move_server_fields owned_part_def)
        have gi: "good_ids (ru_servers st')"
        proof -
          have "good_ids rest" using ids by (auto simp: good_ids_def rest_def S_def list_all_iff distinct_map inj_on_def)
          then show ?thesis by (simp add: st'_def servers_def good_ids_map move_server_fields)
        qed
        have rr: "routing_rules st' = map present_any zones" by (rule routing_rules_of_partition [OF part gi])
        have moved: "moved_as source target k (R ! k) (routing_rules st' ! k)" if k: "k < length R" for k
          using k len rule [of "R ! k"] move_rule_moved_as(1) [of "R ! k", OF _ _ _ _ ne tt, of k] by (simp add: rr nth)
        have clean: "list_all (\<lambda>s. source \<notin> set (sv_fallbacks s)) servers"
          using trimmed replacement_fallbacks_props(4) [OF _ ne tt(1)] src(2)
          by (auto simp: servers_def rest_def list_all_iff move_server_fields)
        show ?thesis
        proof -
          have sv: "ru_servers st' = servers" by (simp add: st'_def)
          have "length (routing_rules st') = length R" by (simp add: rr len)
          then show ?thesis
            using acy sid clean moved unfolding R_def [symmetric] S_def [symmetric] res sum.case prod.case sv by blast
        qed
      qed
    qed
  qed
qed

section \<open>Loading\<close>

definition all_rules :: "rule_state \<Rightarrow> zone list" where
  "all_rules st = ru_pending st @ concat (map (\<lambda>s. rc_zones (sv_routing s)) (ru_servers st))"

abbreviation unflagged :: "zone \<Rightarrow> zone" where
  "unflagged z \<equiv> z\<lparr>z_waiting := False\<rparr>"

lemma set_zones_fields [simp]: "sv_id (set_zones s zs) = sv_id s" "rc_zones (sv_routing (set_zones s zs)) = zs"
  "set_zones (set_zones s zs) zs' = set_zones s zs'"
  by (simp_all add: set_zones_def)

lemma is_live_set_zones [simp]: "is_live (map (\<lambda>s. set_zones s (f s)) servers) i = is_live servers i"
  by (rule is_live_map) simp

lemma detaches_set_zones [simp]: "detaches (map (\<lambda>s. set_zones s (f s)) servers) z = detaches servers z"
  by (simp add: detaches_def)

lemma mset_split_parts:
  "mset (concat (map (\<lambda>s. filter P (f s)) S)) + mset (concat (map (\<lambda>s. filter (\<lambda>z. \<not> P z) (f s)) S)) = mset (concat (map f S))"
proof (induction S)
  case (Cons s S)
  have "mset (filter P (f s)) + mset (filter (\<lambda>z. \<not> P z) (f s)) = mset (f s)" by (metis mset_filter multiset_partition)
  then show ?case using Cons.IH by (simp add: ac_simps)
qed simp

lemma missing_ids_set_zones [simp]: "missing_ids (map (\<lambda>s. set_zones s (f s)) servers) = missing_ids servers"
  by (rule ext) (simp add: missing_ids_def)

lemma retained_ref_again:
  assumes "i \<in> set is" shows "retained_ref (map (retained_ref refs) is) i = retained_ref refs i"
proof -
  have "map_of (map (retained_ref refs) is) i = Some (snd (retained_ref refs i))"
    using assms by (induction "is") (auto simp: retained_ref_def)
  then show ?thesis by (simp add: retained_ref_def split: option.split)
qed

lemma retained_refs_again: "retained_refs (retained_refs refs pending servers) pending servers = retained_refs refs pending servers"
  unfolding retained_refs_def by (intro map_cong refl retained_ref_again) simp

text \<open>
  Loading detaches exactly the dangling rules and loses none. After normalisation the parts of the
  connections hold no waiting rule and none whose connection is missing, everything pending waits, the
  rules are the same up to that flag, every rule read back waits or belongs to a live connection, a
  reference is kept for exactly the missing ids that are still named, and normalising again changes
  nothing.
\<close>
theorem loading_detaches_dangling:
  "let st' = normalize_pending st in
    list_all (\<lambda>s. list_all (\<lambda>z. \<not> detaches (ru_servers st) z) (rc_zones (sv_routing s))) (ru_servers st')
    \<and> list_all z_waiting (ru_pending st')
    \<and> image_mset unflagged (mset (all_rules st')) = image_mset unflagged (mset (all_rules st))
    \<and> list_all (\<lambda>z. z_waiting z \<or> is_live (ru_servers st') (z_tunnel_id z)) (routing_rules st')
    \<and> set (map fst (ru_refs st')) = {i. i \<noteq> [] \<and> \<not> is_live (ru_servers st) i}
        \<inter> trim_space ` set (referenced_ids (ru_pending st') (ru_servers st'))
    \<and> normalize_pending st' = st'"
proof -
  define st' where "st' = normalize_pending st"
  define S where "S = ru_servers st"
  define P where "P = ru_pending st'"
  have sv: "ru_servers st' = map (\<lambda>s. set_zones s (filter (\<lambda>z. \<not> detaches S z) (rc_zones (sv_routing s)))) S"
    by (simp add: st'_def normalize_pending_def S_def Let_def)
  have P: "P = map (\<lambda>z. z\<lparr>z_waiting := True\<rparr>) (ru_pending st)
      @ concat (map (\<lambda>s. map (\<lambda>z. z\<lparr>z_waiting := True\<rparr>) (filter (detaches S) (rc_zones (sv_routing s)))) S)"
    by (simp add: P_def st'_def normalize_pending_def S_def Let_def)
  have refs: "ru_refs st' = retained_refs (ru_refs st) P (ru_servers st')"
    by (simp add: P_def st'_def normalize_pending_def Let_def)
  have clean: "list_all (\<lambda>s. list_all (\<lambda>z. \<not> detaches S z) (rc_zones (sv_routing s))) (ru_servers st')"
    by (simp add: sv list_all_iff)
  have waits: "list_all z_waiting P" by (auto simp: P list_all_iff)
  have un: "unflagged (z\<lparr>z_waiting := True\<rparr>) = unflagged z" for z by simp
  have rules: "image_mset unflagged (mset (all_rules st')) = image_mset unflagged (mset (all_rules st))"
  proof -
    have "image_mset unflagged (mset P) = image_mset unflagged (mset (ru_pending st))
        + image_mset unflagged (mset (concat (map (\<lambda>s. filter (detaches S) (rc_zones (sv_routing s))) S)))"
      by (simp add: P mset_map [symmetric] map_concat comp_def del: mset_map)
    moreover have "mset (concat (map (\<lambda>s. rc_zones (sv_routing s)) S))
        = mset (concat (map (\<lambda>s. filter (detaches S) (rc_zones (sv_routing s))) S))
          + mset (concat (map (\<lambda>s. filter (\<lambda>z. \<not> detaches S z) (rc_zones (sv_routing s))) S))"
      by (rule mset_split_parts [symmetric])
    ultimately show ?thesis
      by (simp add: all_rules_def P_def [symmetric] sv comp_def S_def [symmetric] add.assoc)
  qed
  have read: "z_waiting z \<or> is_live (ru_servers st') (z_tunnel_id z)" if z: "z \<in> set (routing_rules st')" for z
  proof -
    obtain n owner y where y: "z = rank_rule (n, present_rule owner y)"
      "owner = [] \<and> z_waiting y \<or> (\<exists>s \<in> set (ru_servers st'). sv_id s = owner \<and> y \<in> set (rc_zones (sv_routing s)))"
      using routing_rules_elem [OF z] by blast
    show ?thesis
    proof (cases "z_waiting y")
      case False
      then obtain s where s: "s \<in> set (ru_servers st')" "sv_id s = owner" "y \<in> set (rc_zones (sv_routing s))" using y(2) by blast
      then have "\<not> detaches S y" using clean by (auto simp: list_all_iff)
      moreover have "is_live (ru_servers st') owner" using s by (auto simp: is_live_def list_ex_iff)
      moreover have "is_live (ru_servers st') i = is_live S i" for i by (simp add: sv)
      ultimately show ?thesis by (auto simp: y(1) present_rule_tunnel Let_def detaches_def)
    qed (simp add: y(1))
  qed
  have again: "normalize_pending st' = st'"
  proof -
    have p: "map (\<lambda>z. z\<lparr>z_waiting := True\<rparr>) P = P" using waits by (intro map_idI) (auto simp: list_all_iff)
    have none: "filter (detaches (ru_servers st')) (rc_zones (sv_routing s)) = []" if "s \<in> set (ru_servers st')" for s
      using clean that by (auto simp: list_all_iff sv)
    have keep: "set_zones s (filter (\<lambda>z. \<not> detaches (ru_servers st') z) (rc_zones (sv_routing s))) = s" if "s \<in> set (ru_servers st')" for s
    proof -
      have "filter (\<lambda>z. \<not> detaches (ru_servers st') z) (rc_zones (sv_routing s)) = rc_zones (sv_routing s)"
        using clean that by (intro filter_True) (auto simp: list_all_iff sv)
      then show ?thesis by (simp add: set_zones_def)
    qed
    have m: "map (\<lambda>s. set_zones s (filter (\<lambda>z. \<not> detaches (ru_servers st') z) (rc_zones (sv_routing s)))) (ru_servers st') = ru_servers st'"
      using keep by (intro map_idI) blast
    have e: "concat (map (\<lambda>s. map (\<lambda>z. z\<lparr>z_waiting := True\<rparr>) (filter (detaches (ru_servers st')) (rc_zones (sv_routing s)))) (ru_servers st')) = []"
      using none by auto
    show ?thesis
      unfolding normalize_pending_def Let_def m e P_def [symmetric] p append_Nil2 refs retained_refs_again
      by (simp add: P_def refs [symmetric, unfolded P_def])
  qed
  have dom: "set (map fst (ru_refs st')) = {i. i \<noteq> [] \<and> \<not> is_live S i} \<inter> trim_space ` set (referenced_ids P (ru_servers st'))"
    by (auto simp: refs retained_refs_def retained_ref_def missing_ids_def sv image_iff)
  show ?thesis
    using clean waits rules read again dom unfolding P_def S_def Let_def st'_def [symmetric] by (simp add: list_all_iff)
qed

section \<open>Concrete stores\<close>

definition plain_server :: "string \<Rightarrow> stored_server" where
  "plain_server i = \<lparr>sv_id = i, sv_routing = normalize_routing blank_routing, sv_fallbacks = [], sv_standby = False, sv_applied = None\<rparr>"

definition two_servers :: rule_state where
  "two_servers = \<lparr>ru_active = ''a'', ru_servers = [plain_server ''a'', plain_server ''b''], ru_routing = None,
     ru_pending = [], ru_refs = []\<rparr>"

definition three_rules :: full_routing where
  "three_rules = blank_routing\<lparr>rc_zones :=
     [(plain_zone ''tunnel'' [''example.com''] [])\<lparr>z_name := ''x'', z_tunnel_id := ''b'', z_fallbacks := [''a'', '' a '']\<rparr>,
      (plain_zone ''tunnel'' [''example.com''] [])\<lparr>z_name := ''y'', z_tunnel_id := ''gone'', z_waiting := True\<rparr>,
      (plain_zone ''tunnel'' [''example.com''] [])\<lparr>z_name := ''z'', z_tunnel_id := '' a ''\<rparr>]\<rparr>"

definition saved_two :: rule_state where
  "saved_two = store_rules two_servers [] three_rules
     (map (\<lambda>(i, z). z\<lparr>z_order := int i + 1, z_route := (if z_waiting z then z_route z else route_value z),
        z_tunnel_id := trim_space (z_tunnel_id z), z_fallbacks := remdups (map trim_space (z_fallbacks z))\<rparr>)
       (enumerate 0 (rc_zones three_rules)))"

lemma saved_two: "save_routing_rules two_servers [] [] ''a'' three_rules = Inr saved_two"
  by code_simp


theorem replacement_keeps_rules_witness:
  "case replacement_state saved_two (routing_rules saved_two) ''b'' ''a'' of
     Inr (st', transfer) \<Rightarrow> map z_name (routing_rules st') = [''x'', ''y'', ''z''] \<and> length (routing_rules st') = 3
       \<and> map z_tunnel_id (routing_rules st') = [''a'', ''gone'', ''a'']
   | _ \<Rightarrow> False"
proof -
  have g: "good_ids (ru_servers saved_two)" by code_simp
  have r: "list_all (\<lambda>z. z_waiting z \<or> is_live (ru_servers saved_two) (z_tunnel_id z)) (routing_rules saved_two)" by code_simp
  have l: "length (routing_rules saved_two) = 3" by code_simp
  have n: "case replacement_state saved_two (routing_rules saved_two) ''b'' ''a'' of
     Inr (st', transfer) \<Rightarrow> map z_name (routing_rules st') = [''x'', ''y'', ''z'']
       \<and> map z_tunnel_id (routing_rules st') = [''a'', ''gone'', ''a'']
   | _ \<Rightarrow> False"
    by code_simp
  have ne: "''b'' \<noteq> (''a'' :: string)" by simp
  show ?thesis using replacement_keeps_rules [OF g r ne] n l by (auto split: sum.splits prod.splits)
qed

end
