(* ===== verification/Go_Utf8.thy ===== *)
theory Go_Utf8
  imports Go_Strings
begin

text \<open>
  UTF-8 and JSON text as the Go standard library sees them: strings are byte sequences (a \<open>char\<close> is a
  byte), a valid encoding is decided rune by rune, and a JSON string escapes what is not safe in HTML.
\<close>

section \<open>Runes\<close>

text \<open>The table of first bytes: the length of the encoding and the range of its second byte.\<close>

definition rune_first :: "nat \<Rightarrow> nat \<times> nat \<times> nat" where
  "rune_first b =
     (if b < 0x80 then (1, 0x80, 0xBF)
      else if b < 0xC2 then (0, 0x80, 0xBF)
      else if b < 0xE0 then (2, 0x80, 0xBF)
      else if b = 0xE0 then (3, 0xA0, 0xBF)
      else if b = 0xED then (3, 0x80, 0x9F)
      else if b < 0xF0 then (3, 0x80, 0xBF)
      else if b = 0xF0 then (4, 0x90, 0xBF)
      else if b < 0xF4 then (4, 0x80, 0xBF)
      else if b = 0xF4 then (4, 0x80, 0x8F)
      else (0, 0x80, 0xBF))"

lemma rune_first_range: "rune_first b = (w, lo, hi) \<Longrightarrow> 0x80 \<le> lo \<and> hi \<le> 0xBF \<and> w \<le> 4"
  by (auto simp: rune_first_def split: if_splits)

definition byte_at :: "string \<Rightarrow> nat \<Rightarrow> nat" where
  "byte_at s i = of_char (s ! i)"

definition continues :: "nat \<Rightarrow> nat \<Rightarrow> string \<Rightarrow> nat \<Rightarrow> bool" where
  "continues lo hi s i \<longleftrightarrow> (if i = 1 then lo else 0x80) \<le> byte_at s i \<and> byte_at s i \<le> (if i = 1 then hi else 0xBF)"

text \<open>The number of bytes of the valid encoding at the head of a string, 0 when there is none.\<close>

definition rune_len :: "string \<Rightarrow> nat" where
  "rune_len s =
     (if s = [] then 0
      else (case rune_first (byte_at s 0) of (w, lo, hi) \<Rightarrow>
        if w \<le> length s \<and> list_all (continues lo hi s) [1..<w]
        then w else 0))"

lemma rune_len_le: "rune_len s \<le> length s"
  by (auto simp: rune_len_def split: prod.splits)

text \<open>\<open>utf8.RuneStart\<close>\<close>

definition rune_start :: "char \<Rightarrow> bool" where
  "rune_start c \<longleftrightarrow> \<not> (0x80 \<le> (of_char c :: nat) \<and> (of_char c :: nat) \<le> 0xBF)"

lemma continuation_not_start:
  assumes "0 < i" "i < rune_len s"
  shows "\<not> rune_start (s ! i)"
proof -
  obtain w lo hi where f: "rune_first (byte_at s 0) = (w, lo, hi)" by (cases "rune_first (byte_at s 0)") auto
  have "list_all (continues lo hi s) [1..<w]" "i < w"
    using assms(2) f by (auto simp: rune_len_def split: if_splits)
  then have "continues lo hi s i" using assms(1) by (simp add: list_all_iff)
  then have "0x80 \<le> byte_at s i \<and> byte_at s i \<le> 0xBF" using rune_first_range [OF f] by (auto simp: continues_def split: if_splits)
  then show ?thesis by (simp add: rune_start_def byte_at_def)
qed

lemma rune_len_cong:
  assumes "0 < rune_len s" "rune_len s \<le> length t" "\<And>i. i < rune_len s \<Longrightarrow> t ! i = s ! i"
  shows "rune_len t = rune_len s"
proof -
  obtain w lo hi where f: "rune_first (byte_at s 0) = (w, lo, hi)" by (cases "rune_first (byte_at s 0)") auto
  have w: "rune_len s = w" using assms(1) f by (auto simp: rune_len_def split: if_splits)
  have at: "byte_at t i = byte_at s i" if "i < w" for i using assms(3) that w by (simp add: byte_at_def)
  have s: "0 < w" "list_all (continues lo hi s) [1..<w]" using assms(1) f by (auto simp: rune_len_def split: if_splits)
  have "list_all (continues lo hi t) [1..<w]" using s(2) at by (simp add: list_all_iff continues_def)
  moreover have "t \<noteq> []" "w \<le> length t" using assms(2) s(1) w by auto
  ultimately have "rune_len t = w" using f at [OF s(1)] by (simp add: rune_len_def)
  then show ?thesis by (simp add: w)
qed

lemma rune_len_append: "0 < rune_len s \<Longrightarrow> rune_len (s @ t) = rune_len s"
  using rune_len_le [of s] by (intro rune_len_cong) (auto simp: nth_append)

lemma rune_len_take: "0 < rune_len s \<Longrightarrow> rune_len s \<le> i \<Longrightarrow> rune_len (take i s) = rune_len s"
  using rune_len_le [of s] by (intro rune_len_cong) auto

function valid_utf8 :: "string \<Rightarrow> bool" where
  "valid_utf8 s = (if s = [] then True else if rune_len s = 0 then False else valid_utf8 (drop (rune_len s) s))"
  by pat_completeness auto
termination by (relation "measure length") auto

declare valid_utf8.simps [simp del]

lemma valid_utf8_Nil [simp]: "valid_utf8 []" by (simp add: valid_utf8.simps)

text \<open>Cutting a valid string where a rune starts leaves a valid string.\<close>

lemma valid_take: "valid_utf8 s \<Longrightarrow> i < length s \<Longrightarrow> rune_start (s ! i) \<Longrightarrow> valid_utf8 (take i s)"
proof (induction s arbitrary: i rule: valid_utf8.induct)
  case (1 s)
  define w where "w = rune_len s"
  have ne: "s \<noteq> []" using "1.prems"(2) by auto
  have w: "0 < w" "valid_utf8 (drop w s)" using "1.prems"(1) ne by (auto simp: w_def valid_utf8.simps [of s] split: if_splits)
  show ?case
  proof (cases "i = 0")
    case False
    have le: "w \<le> i" using continuation_not_start [of i s] False "1.prems"(3) w_def by fastforce
    have "valid_utf8 (take (i - w) (drop w s))"
      using "1.IH" [OF ne, of "i - w"] w "1.prems"(2,3) le by (auto simp: w_def)
    moreover have "rune_len (take i s) = w" using rune_len_take [of s i] w(1) le by (simp add: w_def)
    ultimately show ?thesis using w(1) by (subst valid_utf8.simps) (simp add: drop_take)
  qed simp
qed

text \<open>\<open>strings.ToValidUTF8\<close>: every run of invalid bytes becomes one replacement.\<close>

function valid_loop :: "string \<Rightarrow> bool \<Rightarrow> string \<Rightarrow> string" where
  "valid_loop repl invalid s =
     (if s = [] then []
      else if rune_len s = 0 then (if invalid then [] else repl) @ valid_loop repl True (drop 1 s)
      else take (rune_len s) s @ valid_loop repl False (drop (rune_len s) s))"
  by pat_completeness auto
termination by (relation "measure (\<lambda>(r, i, s). length s)") auto

declare valid_loop.simps [simp del]

definition to_valid_utf8 :: "string \<Rightarrow> string \<Rightarrow> string" where
  "to_valid_utf8 repl s = valid_loop repl False s"

lemma valid_prepend: "rune_len u = length u \<Longrightarrow> valid_utf8 t \<Longrightarrow> valid_utf8 (u @ t)"
proof (cases "u = []")
  case False
  assume a: "rune_len u = length u" "valid_utf8 t"
  have "rune_len (u @ t) = length u" using rune_len_append [of u t] a(1) False by simp
  then show ?thesis using a(2) False by (subst valid_utf8.simps) simp
qed simp

lemma valid_append: "valid_utf8 u \<Longrightarrow> valid_utf8 t \<Longrightarrow> valid_utf8 (u @ t)"
proof (induction u rule: valid_utf8.induct)
  case (1 u)
  show ?case
  proof (cases "u = []")
    case False
    then have w: "rune_len u \<noteq> 0" "valid_utf8 (drop (rune_len u) u)"
      using "1.prems"(1) by (auto simp: valid_utf8.simps [of u] split: if_splits)
    have "valid_utf8 (drop (rune_len u) u @ t)" using "1.IH" [OF False w(1) w(2) "1.prems"(2)] .
    moreover have "rune_len (take (rune_len u) u) = length (take (rune_len u) u)"
      using rune_len_take [of u "rune_len u"] w(1) rune_len_le [of u] by simp
    ultimately have "valid_utf8 (take (rune_len u) u @ (drop (rune_len u) u @ t))" by (rule valid_prepend [rotated])
    then show ?thesis by (simp flip: append_assoc)
  qed (use "1.prems" in simp)
qed

lemma valid_loop_valid: "valid_utf8 repl \<Longrightarrow> valid_utf8 (valid_loop repl invalid s)"
proof (induction repl invalid s rule: valid_loop.induct)
  case (1 repl invalid s)
  show ?case
  proof (cases "s = [] \<or> rune_len s = 0")
    case True
    then show ?thesis using 1 by (subst valid_loop.simps) (auto intro: valid_append)
  next
    case False
    then have "rune_len (take (rune_len s) s) = length (take (rune_len s) s)"
      using rune_len_take [of s "rune_len s"] rune_len_le [of s] by simp
    then show ?thesis using 1 False by (subst valid_loop.simps) (simp add: valid_prepend)
  qed
qed

lemma to_valid_utf8_valid: "valid_utf8 repl \<Longrightarrow> valid_utf8 (to_valid_utf8 repl s)"
  by (simp add: to_valid_utf8_def valid_loop_valid)

lemma valid_loop_id: "valid_utf8 s \<Longrightarrow> valid_loop repl invalid s = s"
proof (induction repl invalid s rule: valid_loop.induct)
  case (1 repl invalid s)
  then show ?case by (subst valid_loop.simps) (auto simp: valid_utf8.simps [of s] split: if_splits)
qed

lemma to_valid_utf8_id: "valid_utf8 s \<Longrightarrow> to_valid_utf8 repl s = s"
  by (simp add: to_valid_utf8_def valid_loop_id)

section \<open>JSON strings\<close>

definition hex2 :: "nat \<Rightarrow> string" where
  "hex2 n = [hex_char (n div 16), hex_char (n mod 16)]"

definition json_byte :: "char \<Rightarrow> string" where
  "json_byte c =
     (let n = of_char c :: nat in
      if c = CHR 0x5C \<or> c = CHR 0x22 then [CHR 0x5C, c]
      else if n = 8 then [CHR 0x5C, CHR ''b''] else if n = 12 then [CHR 0x5C, CHR ''f'']
      else if n = 10 then [CHR 0x5C, CHR ''n''] else if n = 13 then [CHR 0x5C, CHR ''r'']
      else if n = 9 then [CHR 0x5C, CHR ''t'']
      else if n < 32 \<or> c = CHR ''<'' \<or> c = CHR ''>'' \<or> c = CHR ''&'' then CHR 0x5C # ''u00'' @ hex2 n
      else [c])"

function json_chars :: "string \<Rightarrow> string" where
  "json_chars s =
     (if s = [] then []
      else if rune_len s = 0 then CHR 0x5C # ''ufffd'' @ json_chars (drop 1 s)
      else if rune_len s = 1 then json_byte (hd s) @ json_chars (drop 1 s)
      else if take 3 s = [CHR 0xE2, CHR 0x80, CHR 0xA8] then CHR 0x5C # ''u2028'' @ json_chars (drop 3 s)
      else if take 3 s = [CHR 0xE2, CHR 0x80, CHR 0xA9] then CHR 0x5C # ''u2029'' @ json_chars (drop 3 s)
      else take (rune_len s) s @ json_chars (drop (rune_len s) s))"
  by pat_completeness auto
termination by (relation "measure length") auto

declare json_chars.simps [simp del]

definition json_string :: "string \<Rightarrow> string" where
  "json_string s = CHR 0x22 # json_chars s @ [CHR 0x22]"

lemma length_json_byte: "length (json_byte c) \<le> 6"
  by (simp add: json_byte_def Let_def hex2_def)

lemma length_json_chars: "length (json_chars s) \<le> 6 * length s"
proof (induction s rule: json_chars.induct)
  case (1 s)
  note IH = "1.IH"
  consider "s = []" | "s \<noteq> []" "rune_len s = 0" | "s \<noteq> []" "rune_len s = 1" | "s \<noteq> []" "rune_len s > 1" by linarith
  then show ?case
  proof cases
    case 2
    then show ?thesis using IH(1) by (subst json_chars.simps) (cases s; simp)
  next
    case 3
    then show ?thesis using IH(2) length_json_byte [of "hd s"] by (subst json_chars.simps) (cases s; simp)
  next
    case 4
    then have r: "rune_len s \<noteq> 0" "rune_len s \<noteq> 1" by auto
    consider (a) "take 3 s = [CHR 0xE2, CHR 0x80, CHR 0xA8]"
      | (b) "take 3 s = [CHR 0xE2, CHR 0x80, CHR 0xA9]"
      | (c) "take 3 s \<noteq> [CHR 0xE2, CHR 0x80, CHR 0xA8]" "take 3 s \<noteq> [CHR 0xE2, CHR 0x80, CHR 0xA9]" by blast
    then show ?thesis
    proof cases
      case a
      then have "length (take 3 s) = 3" by simp
      then have "3 \<le> length s" by simp
      then show ?thesis using IH(3) [OF 4(1) r a] r 4(1) a by (subst json_chars.simps) simp
    next
      case b
      then have "length (take 3 s) = 3" by simp
      then have "3 \<le> length s" by simp
      moreover have "take 3 s \<noteq> [CHR 0xE2, CHR 0x80, CHR 0xA8]" using b by simp
      ultimately show ?thesis using IH(4) [OF 4(1) r _ b] r 4(1) b by (subst json_chars.simps) simp
    next
      case c
      then show ?thesis using IH(5) [OF 4(1) r c] r 4(1) rune_len_le [of s] by (subst json_chars.simps) simp
    qed
  qed (subst json_chars.simps, simp)
qed

lemma length_json_string: "length (json_string s) \<le> 6 * length s + 2"
  using length_json_chars [of s] by (simp add: json_string_def)

lemma length_dec_digits: "0 < k \<Longrightarrow> n < 10 ^ k \<Longrightarrow> length (dec_digits n) \<le> k"
proof (induction n arbitrary: k rule: dec_digits.induct)
  case (1 n)
  show ?case
  proof (cases "n < 10")
    case False
    then have "1 < k" using "1.prems" by (cases "k = 1") auto
    then obtain j where k: "k = Suc j" "0 < j" by (cases k) auto
    have "n div 10 < 10 ^ j" using "1.prems"(2) by (simp add: k less_mult_imp_div_less mult.commute)
    then have "length (dec_digits (n div 10)) \<le> j" using "1.IH" False k(2) by simp
    then show ?thesis using False k by (subst dec_digits.simps) simp
  qed (use "1.prems" in \<open>subst dec_digits.simps, simp\<close>)
qed

end
