(* ===== verification/Journals.thy ===== *)
theory Journals
  imports Go_Utf8 "HOL-Library.Char_ord" "HOL-Library.List_Lexorder"
begin

text \<open>
  The two bounded logs of the panel: the event journal of the DNS server
  (\<open>internal/services/dnsserver/log.go\<close>), a growing ring buffer bounded by the encoded size of its
  entries, and the ring of log lines of all modules (\<open>internal/tools/logbuf/logbuf.go\<close>), bounded by the
  number of entries. Both keep a suffix of what was appended; this contract is the locale \<open>bounded_log\<close>.
\<close>

section \<open>The contract of a bounded log\<close>

text \<open>The entries a sequence of appends produces, each in the state it is made in.\<close>

fun entries_of :: "('a \<Rightarrow> 's \<Rightarrow> 's) \<Rightarrow> ('a \<Rightarrow> 's \<Rightarrow> 'e) \<Rightarrow> 'a list \<Rightarrow> 's \<Rightarrow> 'e list" where
  "entries_of add entry [] s = []"
| "entries_of add entry (x # xs) s = entry x s # entries_of add entry xs (add x s)"

locale bounded_log =
  fixes ok :: "'s \<Rightarrow> bool" and good :: "'a \<Rightarrow> bool" and items :: "'s \<Rightarrow> 'e list"
    and add :: "'a \<Rightarrow> 's \<Rightarrow> 's" and entry :: "'a \<Rightarrow> 's \<Rightarrow> 'e"
  assumes ok_add: "ok s \<Longrightarrow> good x \<Longrightarrow> ok (add x s)"
    and items_add: "ok s \<Longrightarrow> good x \<Longrightarrow> \<exists>k. items (add x s) = drop k (items s) @ [entry x s]"
begin

lemma ok_fold: "ok s \<Longrightarrow> list_all good xs \<Longrightarrow> ok (fold add xs s)"
  by (induction xs arbitrary: s) (simp_all add: ok_add)

lemma keeps_newest:
  "ok s \<Longrightarrow> list_all good xs \<Longrightarrow> \<exists>k. items (fold add xs s) = drop k (items s @ entries_of add entry xs s)"
proof (induction xs arbitrary: s)
  case Nil
  then show ?case by (intro exI [of _ 0]) simp
next
  case (Cons x xs)
  then have good: "good x" "list_all good xs" by auto
  obtain k where k: "items (add x s) = drop k (items s) @ [entry x s]" using items_add [OF Cons.prems(1) good(1)] by blast
  obtain j where j: "items (fold add xs (add x s)) = drop j (items (add x s) @ entries_of add entry xs (add x s))"
    using Cons.IH [OF ok_add [OF Cons.prems(1) good(1)] good(2)] by blast
  have "drop k (items s) @ [entry x s] @ entries_of add entry xs (add x s)
      = drop (min k (length (items s))) (items s @ entries_of add entry (x # xs) s)"
    by (simp add: min_def)
  then show ?case unfolding fold_simps comp_apply using j k by (metis append.assoc drop_drop)
qed

lemma newest_kept: "ok s \<Longrightarrow> good x \<Longrightarrow> last (items (add x s)) = entry x s"
  using items_add [of s x] by auto

lemma length_kept: "ok s \<Longrightarrow> list_all good xs \<Longrightarrow> length (items (fold add xs s)) \<le> length (items s) + length xs"
proof -
  have "length (entries_of add entry xs s) = length xs" by (induction xs arbitrary: s) simp_all
  moreover assume "ok s" "list_all good xs"
  ultimately show ?thesis using keeps_newest [of s xs] by fastforce
qed

end

section \<open>The event journal\<close>

definition max_log_bytes :: int where "max_log_bytes = 131072"

text \<open>A slot holds an id, the entry and its encoded size; \<^term>\<open>None\<close> is the zero value of a slot.\<close>

type_synonym 'e slot = "(nat \<times> 'e \<times> nat) option"

record 'e log_buffer =
  lb_enabled :: bool
  lb_slots :: "'e slot list"
  lb_head :: nat
  lb_count :: nat
  lb_bytes :: int
  lb_last_id :: nat
  lb_dropped :: nat

definition new_log_buffer :: "'e log_buffer" where
  "new_log_buffer = \<lparr>lb_enabled = False, lb_slots = [], lb_head = 0, lb_count = 0, lb_bytes = 0, lb_last_id = 0, lb_dropped = 0\<rparr>"

definition set_enabled :: "bool \<Rightarrow> 'e log_buffer \<Rightarrow> 'e log_buffer" where
  "set_enabled on b = b\<lparr>lb_enabled := on\<rparr>"

definition slot_bytes :: "'e slot \<Rightarrow> int" where
  "slot_bytes s = (case s of None \<Rightarrow> 0 | Some (i, e, n) \<Rightarrow> int n)"

text \<open>The eviction loop; \<^term>\<open>None\<close> is an index out of range.\<close>

function evict :: "int \<Rightarrow> 'e log_buffer \<Rightarrow> 'e log_buffer option" where
  "evict need b =
     (if lb_bytes b + need > max_log_bytes \<and> lb_count b > 0 then
        (if \<not> lb_head b < length (lb_slots b) then None
         else evict need (b\<lparr>lb_bytes := lb_bytes b - slot_bytes (lb_slots b ! lb_head b),
           lb_slots := (lb_slots b)[lb_head b := None],
           lb_head := (lb_head b + 1) mod length (lb_slots b),
           lb_count := lb_count b - 1, lb_dropped := lb_dropped b + 1\<rparr>))
      else Some b)"
  by pat_completeness auto
termination by (relation "measure (\<lambda>(n, b). lb_count b)") auto

declare evict.simps [simp del]

definition grow :: "'e log_buffer \<Rightarrow> 'e log_buffer" where
  "grow b =
     (if lb_count b = length (lb_slots b) then
        (let capacity = lb_count b + lb_count b div 2 + 16 in
         b\<lparr>lb_slots := map (\<lambda>i. lb_slots b ! ((lb_head b + i) mod length (lb_slots b))) [0..<lb_count b]
             @ replicate (capacity - lb_count b) None,
           lb_head := 0\<rparr>)
      else b)"

text \<open>
  \<open>Append\<close> of a normalised entry. \<open>encoded n e\<close> is the length of the JSON text of the entry with the id
  \<open>n\<close>. Writing to a ring without slots would divide by zero.
\<close>

definition append_event :: "(nat \<Rightarrow> 'e \<Rightarrow> nat) \<Rightarrow> 'e \<Rightarrow> 'e log_buffer \<Rightarrow> 'e log_buffer option" where
  "append_event encoded e b =
     (if \<not> lb_enabled b then Some b
      else (let new_id = lb_last_id b + 1; need = encoded new_id e + 1 in
        case evict (int need) b of None \<Rightarrow> None
        | Some b1 \<Rightarrow>
            (let b2 = grow b1 in
             if length (lb_slots b2) = 0 then None
             else Some (b2\<lparr>lb_slots := (lb_slots b2)[(lb_head b2 + lb_count b2) mod length (lb_slots b2) := Some (new_id, e, need)],
               lb_count := lb_count b2 + 1, lb_bytes := lb_bytes b2 + int need, lb_last_id := new_id\<rparr>))))"

text \<open>\<open>sort.Search\<close> of the standard library.\<close>

function search :: "(nat \<Rightarrow> bool) \<Rightarrow> nat \<Rightarrow> nat \<Rightarrow> nat" where
  "search f i j = (if i < j then (let h = (i + j) div 2 in if \<not> f h then search f (h + 1) j else search f i h) else i)"
  by pat_completeness auto
termination by (relation "measure (\<lambda>(f, i, j). j - i)") auto

declare search.simps [simp del]

record 'e log_snapshot =
  ls_enabled :: bool
  ls_bytes :: int
  ls_oldest_id :: nat
  ls_last_id :: nat
  ls_dropped :: nat
  ls_entries :: "(nat \<times> 'e) list"

definition ring_get :: "'e log_buffer \<Rightarrow> nat \<Rightarrow> nat \<times> 'e \<times> nat" where
  "ring_get b i = the (lb_slots b ! ((lb_head b + i) mod length (lb_slots b)))"

definition snapshot :: "nat \<Rightarrow> 'e log_buffer \<Rightarrow> 'e log_snapshot" where
  "snapshot after_id b =
     (let result = \<lparr>ls_enabled = lb_enabled b, ls_bytes = lb_bytes b,
            ls_oldest_id = (if lb_count b > 0 then fst (the (lb_slots b ! lb_head b)) else 0),
            ls_last_id = lb_last_id b, ls_dropped = lb_dropped b, ls_entries = []\<rparr> in
      if after_id \<ge> lb_last_id b then result
      else (let start = search (\<lambda>i. fst (ring_get b i) > after_id) 0 (lb_count b) in
        result\<lparr>ls_entries := map (\<lambda>i. (fst (ring_get b i), fst (snd (ring_get b i)))) [start..<lb_count b]\<rparr>))"

definition clear_log :: "'e log_buffer \<Rightarrow> 'e log_buffer" where
  "clear_log b = b\<lparr>lb_slots := [], lb_head := 0, lb_count := 0, lb_bytes := 0, lb_dropped := 0\<rparr>"

section \<open>Entries and their encoding\<close>

record log_entry =
  le_block_category :: string
  le_block_rule :: string
  le_block_source :: string
  le_block_domain :: string
  le_time :: string
  le_level :: string
  le_event :: string
  le_domain :: string
  le_qtype :: string
  le_upstream :: string
  le_route :: string
  le_client_ip :: string
  le_source :: string
  le_transport :: string
  le_duration_ms :: "64 word"
  le_count :: "64 word"
  le_message :: string

text \<open>The replacement character and the ellipsis, in UTF-8.\<close>

definition replacement :: string where "replacement = [CHR 0xEF, CHR 0xBF, CHR 0xBD]"
definition ellipsis :: string where "ellipsis = [CHR 0xE2, CHR 0x80, CHR 0xA6]"

fun cut_at :: "string \<Rightarrow> nat \<Rightarrow> nat" where
  "cut_at v 0 = 0"
| "cut_at v (Suc n) = (if \<not> rune_start (v ! Suc n) then cut_at v n else Suc n)"

definition bounded_log_string :: "string \<Rightarrow> nat \<Rightarrow> string" where
  "bounded_log_string value0 limit =
     (let v = to_valid_utf8 replacement value0 in
      if length v \<le> limit then v else take (cut_at v (limit - length ellipsis)) v @ ellipsis)"

text \<open>\<open>stamp t\<close> is the time \<open>t\<close> in UTC, or the present time when \<open>t\<close> does not parse.\<close>

definition normalize_log_entry :: "(string \<Rightarrow> string) \<Rightarrow> log_entry \<Rightarrow> log_entry" where
  "normalize_log_entry stamp e =
     (let level = bounded_log_string (le_level e) 16; event = bounded_log_string (le_event e) 48 in
      \<lparr>le_block_category = bounded_log_string (le_block_category e) 16,
       le_block_rule = bounded_log_string (le_block_rule e) 2048,
       le_block_source = bounded_log_string (le_block_source e) 64,
       le_block_domain = bounded_log_string (le_block_domain e) 253,
       le_time = stamp (le_time e),
       le_level = (if level = [] then ''info'' else level),
       le_event = (if event = [] then ''query'' else event),
       le_domain = bounded_log_string (le_domain e) 253,
       le_qtype = bounded_log_string (le_qtype e) 24,
       le_upstream = bounded_log_string (le_upstream e) 2048,
       le_route = bounded_log_string (le_route e) 128,
       le_client_ip = bounded_log_string (le_client_ip e) 64,
       le_source = bounded_log_string (le_source e) 24,
       le_transport = bounded_log_string (le_transport e) 16,
       le_duration_ms = (if sint (le_duration_ms e) < 0 then 0 else le_duration_ms e),
       le_count = (if sint (le_count e) < 0 then 0 else le_count e),
       le_message = bounded_log_string (le_message e) 2048\<rparr>)"

text \<open>
  \<open>json.Marshal\<close> of an entry: the fields in the order of the struct, the empty ones with \<open>omitempty\<close> left
  out. Integers are written after normalisation, when none is negative.
\<close>

definition text_field :: "string \<Rightarrow> string \<Rightarrow> (string \<times> string) list" where
  "text_field name v = (if v = [] then [] else [(name, json_string v)])"

definition int_field :: "string \<Rightarrow> 64 word \<Rightarrow> (string \<times> string) list" where
  "int_field name v = (if v = 0 then [] else [(name, dec_digits (unat v))])"

definition entry_fields :: "nat \<Rightarrow> log_entry \<Rightarrow> (string \<times> string) list" where
  "entry_fields i e =
     text_field ''block_category'' (le_block_category e) @ text_field ''block_rule'' (le_block_rule e)
     @ text_field ''block_source'' (le_block_source e) @ text_field ''block_domain'' (le_block_domain e)
     @ [(''id'', dec_digits (unat (of_nat i :: 64 word))), (''time'', json_string (le_time e)),
        (''level'', json_string (le_level e)), (''event'', json_string (le_event e))]
     @ text_field ''domain'' (le_domain e) @ text_field ''qtype'' (le_qtype e)
     @ text_field ''upstream'' (le_upstream e) @ text_field ''route'' (le_route e)
     @ text_field ''client_ip'' (le_client_ip e) @ text_field ''source'' (le_source e)
     @ text_field ''transport'' (le_transport e) @ int_field ''duration_ms'' (le_duration_ms e)
     @ int_field ''count'' (le_count e) @ text_field ''message'' (le_message e)"

definition json_field :: "string \<times> string \<Rightarrow> string" where
  "json_field f = (case f of (name, v) \<Rightarrow> CHR 0x22 # name @ CHR 0x22 # CHR '':'' # v)"

definition entry_json :: "nat \<Rightarrow> log_entry \<Rightarrow> string" where
  "entry_json i e = CHR ''{'' # join_on '','' (map json_field (entry_fields i e)) @ ''}''"

definition entry_size :: "nat \<Rightarrow> log_entry \<Rightarrow> nat" where
  "entry_size i e = length (entry_json i e)"

definition append_entry :: "(string \<Rightarrow> string) \<Rightarrow> log_entry \<Rightarrow> log_entry log_buffer \<Rightarrow> log_entry log_buffer option" where
  "append_entry stamp e b = append_event entry_size (normalize_log_entry stamp e) b"

section \<open>The ring of log lines\<close>

definition max_entries :: nat where "max_entries = 2000"
definition max_msg_len :: nat where "max_msg_len = 2000"

record log_line =
  ll_time :: int
  ll_module :: string
  ll_level :: string
  ll_msg :: string

definition trim_newlines :: "string \<Rightarrow> string" where
  "trim_newlines s = rev (dropWhile (\<lambda>c. c = CHR 0x0A) (rev s))"

text \<open>\<open>Append\<close>: the new ring, or the old one when logging is off or the line is empty.\<close>

definition append_line :: "bool \<Rightarrow> int \<Rightarrow> string \<Rightarrow> string \<Rightarrow> string \<Rightarrow> log_line list \<Rightarrow> log_line list" where
  "append_line enabled now module level msg0 ring =
     (if \<not> enabled then ring
      else (let msg = trim_newlines msg0 in
        if msg = [] then ring
        else (let m = (if length msg > max_msg_len then take max_msg_len msg else msg);
                  r = ring @ [\<lparr>ll_time = now, ll_module = module, ll_level = level, ll_msg = m\<rparr>] in
              if length r > max_entries then drop (length r - max_entries) r else r)))"

definition snapshot_lines :: "string \<Rightarrow> int \<Rightarrow> log_line list \<Rightarrow> log_line list" where
  "snapshot_lines module limit ring =
     (let out = filter (\<lambda>e. module = [] \<or> module = ''all'' \<or> ll_module e = module) ring in
      if limit > 0 \<and> int (length out) > limit then drop (length out - nat limit) out else out)"

definition clear_lines :: "log_line list \<Rightarrow> log_line list" where
  "clear_lines ring = []"

definition log_modules :: "log_line list \<Rightarrow> string list" where
  "log_modules ring = sort (remdups (map ll_module ring))"

text \<open>The writer given to the standard logger: a partial line and the ring.\<close>

fun contains_str :: "string \<Rightarrow> string \<Rightarrow> bool" where
  "contains_str [] p \<longleftrightarrow> p = []"
| "contains_str (c # s) p \<longleftrightarrow> has_prefix (c # s) p \<or> contains_str s p"

definition is_http_line :: "string \<Rightarrow> bool" where
  "is_http_line line \<longleftrightarrow> list_ex (has_prefix line) [''GET /'', ''POST /'', ''PUT /'', ''DELETE /'', ''PATCH /'']"

definition infer_module :: "string \<Rightarrow> string" where
  "infer_module line =
     (if has_prefix line ''tgws:'' then ''tgws''
      else if has_prefix line ''trace'' then ''trace''
      else if has_prefix line ''run:'' then ''run''
      else if has_prefix line ''blockcheck'' then ''blockcheck''
      else if has_prefix line ''dns:'' then ''dns''
      else if has_prefix line ''update'' \<or> has_prefix line ''selfupdate'' then ''update''
      else if is_http_line line then ''http''
      else ''system'')"

definition infer_level :: "string \<Rightarrow> string" where
  "infer_level line =
     (let l = to_lower line in
      if contains_str l ''panic'' \<or> contains_str l ''fatal'' \<or> contains_str l ''error'' \<or> contains_str l ''fail'' then ''error''
      else if contains_str l ''warn'' then ''warn''
      else ''info'')"

fun take_lines :: "string \<Rightarrow> string \<Rightarrow> string list \<times> string" where
  "take_lines cur [] = ([], cur)"
| "take_lines cur (c # s) =
     (if c = CHR 0x0A then (case take_lines [] s of (ls, r) \<Rightarrow> (cur # ls, r)) else take_lines (cur @ [c]) s)"

definition log_text :: "int \<Rightarrow> string \<Rightarrow> log_line list \<Rightarrow> log_line list" where
  "log_text now line ring =
     (if trim_space line \<noteq> [] then append_line True now (infer_module line) (infer_level line) line ring else ring)"

definition sink_write :: "bool \<Rightarrow> int \<Rightarrow> string \<Rightarrow> string \<times> log_line list \<Rightarrow> string \<times> log_line list" where
  "sink_write enabled now p s =
     (case s of (part, ring) \<Rightarrow>
      if \<not> enabled then s
      else (case take_lines [] (part @ p) of (ls, rest) \<Rightarrow> (rest, fold (log_text now) ls ring)))"

section \<open>The ring is a list\<close>

definition ring_items :: "'e log_buffer \<Rightarrow> (nat \<times> 'e \<times> nat) list" where
  "ring_items b = map (ring_get b) [0..<lb_count b]"

definition ring_ok :: "'e log_buffer \<Rightarrow> bool" where
  "ring_ok b \<longleftrightarrow> lb_count b \<le> length (lb_slots b) \<and> (lb_slots b = [] \<or> lb_head b < length (lb_slots b))
     \<and> (\<forall>i < lb_count b. lb_slots b ! ((lb_head b + i) mod length (lb_slots b)) \<noteq> None)
     \<and> lb_bytes b = (\<Sum>(i, e, n) \<leftarrow> ring_items b. int n)"

lemma ring_items_length [simp]: "length (ring_items b) = lb_count b"
  by (simp add: ring_items_def)

lemma mod_inj: "i < n \<Longrightarrow> j < n \<Longrightarrow> (h + i) mod n = (h + j) mod n \<Longrightarrow> i = (j :: nat)"
proof (induction i j rule: linorder_wlog)
  case (le i j)
  then have "n dvd (h + j) - (h + i)" using mod_eq_dvd_iff_nat [of "h + i" "h + j" n] by simp
  then have "n dvd j - i" by simp
  then show ?case using le nat_dvd_not_less [of "j - i" n] by (cases "i = j") auto
qed simp

lemma mod_shift_neq: "h < n \<Longrightarrow> 0 < j \<Longrightarrow> j < n \<Longrightarrow> (h + j) mod n \<noteq> (h :: nat)"
  using mod_inj [of j n 0 h] by auto

lemma drop_head:
  assumes "ring_ok b" "lb_count b > 0"
  defines "b' \<equiv> b\<lparr>lb_bytes := lb_bytes b - slot_bytes (lb_slots b ! lb_head b), lb_slots := (lb_slots b)[lb_head b := None],
     lb_head := (lb_head b + 1) mod length (lb_slots b), lb_count := lb_count b - 1, lb_dropped := lb_dropped b + 1\<rparr>"
  shows "ring_ok b'" "ring_items b' = tl (ring_items b)" "lb_head b < length (lb_slots b)"
proof -
  define n where "n = length (lb_slots b)"
  have n: "lb_count b \<le> n" "lb_head b < n" using assms(1,2) by (auto simp: ring_ok_def n_def)
  show "lb_head b < length (lb_slots b)" using n by (simp add: n_def)
  have slot: "lb_slots b' ! ((lb_head b' + i) mod length (lb_slots b')) = lb_slots b ! ((lb_head b + Suc i) mod n)"
    if i: "i < lb_count b'" for i
  proof -
    have "(lb_head b' + i) mod n = (lb_head b + Suc i) mod n" by (simp add: b'_def n_def mod_add_left_eq)
    moreover have "(lb_head b + Suc i) mod n \<noteq> lb_head b" using i n by (intro mod_shift_neq) (auto simp: b'_def)
    ultimately show ?thesis by (simp add: b'_def n_def)
  qed
  have get: "ring_get b' i = ring_get b (Suc i)" if "i < lb_count b'" for i
    using slot [OF that] by (simp add: ring_get_def n_def)
  have "lb_count b = Suc (lb_count b')" using assms(2) by (simp add: b'_def)
  then have split: "ring_items b = ring_get b 0 # ring_items b'"
    using get by (simp add: ring_items_def upt_conv_Cons map_Suc_upt [symmetric] comp_def del: upt_Suc)
  then show tl: "ring_items b' = tl (ring_items b)" by simp
  have "lb_slots b ! (lb_head b mod n) \<noteq> None" using assms(1,2) by (auto simp: ring_ok_def n_def dest!: spec [of _ 0])
  then have "slot_bytes (lb_slots b ! lb_head b) = (case ring_get b 0 of (i, e, k) \<Rightarrow> int k)"
    using n by (auto simp: ring_get_def slot_bytes_def n_def)
  then have "lb_bytes b' = (\<Sum>(i, e, n) \<leftarrow> ring_items b'. int n)"
    using assms(1) split by (simp add: ring_ok_def b'_def)
  moreover have "\<forall>i < lb_count b'. lb_slots b' ! ((lb_head b' + i) mod length (lb_slots b')) \<noteq> None"
  proof (intro allI impI)
    fix i assume i: "i < lb_count b'"
    then have "Suc i < lb_count b" by (simp add: b'_def)
    then show "lb_slots b' ! ((lb_head b' + i) mod length (lb_slots b')) \<noteq> None"
      using assms(1) unfolding slot [OF i] n_def ring_ok_def by blast
  qed
  moreover have "lb_count b' \<le> length (lb_slots b')" "lb_head b' < length (lb_slots b')"
    using n by (simp_all add: b'_def n_def mod_less_divisor [OF order.strict_trans1 [OF le0]])
  ultimately show "ring_ok b'" by (simp add: ring_ok_def)
qed

text \<open>What eviction keeps of a list of entries: the longest suffix that leaves room.\<close>

fun trim_log :: "int \<Rightarrow> (nat \<times> 'e \<times> nat) list \<Rightarrow> (nat \<times> 'e \<times> nat) list" where
  "trim_log need [] = []"
| "trim_log need (x # xs) = (if (\<Sum>(i, e, n) \<leftarrow> x # xs. int n) + need > max_log_bytes then trim_log need xs else x # xs)"

lemma evict_trims:
  "ring_ok b \<Longrightarrow> \<exists>b'. evict need b = Some b' \<and> ring_ok b' \<and> ring_items b' = trim_log need (ring_items b)
    \<and> lb_last_id b' = lb_last_id b \<and> lb_enabled b' = lb_enabled b \<and> lb_dropped b' + lb_count b' = lb_dropped b + lb_count b"
proof (induction need b rule: evict.induct)
  case (1 need b)
  show ?case
  proof (cases "lb_bytes b + need > max_log_bytes \<and> lb_count b > 0")
    case True
    define b' where "b' = b\<lparr>lb_bytes := lb_bytes b - slot_bytes (lb_slots b ! lb_head b), lb_slots := (lb_slots b)[lb_head b := None],
     lb_head := (lb_head b + 1) mod length (lb_slots b), lb_count := lb_count b - 1, lb_dropped := lb_dropped b + 1\<rparr>"
    note d = drop_head [OF "1.prems" conjunct2 [OF True], folded b'_def]
    have e: "evict need b = evict need b'" using True d(3) by (subst evict.simps) (simp add: b'_def)
    obtain x xs where x: "ring_items b = x # xs" using True by (cases "ring_items b") (auto dest: arg_cong [where f = length])
    have "(\<Sum>(i, e, n) \<leftarrow> x # xs. int n) = lb_bytes b" using "1.prems" x by (simp add: ring_ok_def)
    then have "trim_log need (ring_items b) = trim_log need (ring_items b')" using True d(2) x by simp
    moreover have "\<exists>c. evict need b' = Some c \<and> ring_ok c \<and> ring_items c = trim_log need (ring_items b')
      \<and> lb_last_id c = lb_last_id b' \<and> lb_enabled c = lb_enabled b' \<and> lb_dropped c + lb_count c = lb_dropped b' + lb_count b'"
      unfolding b'_def by (rule "1.IH") (use True d(1,3) in \<open>simp_all add: b'_def\<close>)
    ultimately show ?thesis using True unfolding e by (auto simp: b'_def)
  next
    case False
    then have e: "evict need b = Some b" by (subst evict.simps) auto
    have "trim_log need (ring_items b) = ring_items b"
    proof (cases "ring_items b")
      case (Cons x xs)
      moreover have "lb_count b > 0" using Cons by (metis length_greater_0_conv list.discI ring_items_length)
      ultimately show ?thesis using False "1.prems" by (auto simp: ring_ok_def)
    qed simp
    then show ?thesis using e "1.prems" by simp
  qed
qed

lemma grow_items:
  assumes "ring_ok b"
  shows "ring_ok (grow b)" "ring_items (grow b) = ring_items b" "lb_count (grow b) < length (lb_slots (grow b))"
    "lb_count (grow b) = lb_count b" "lb_bytes (grow b) = lb_bytes b" "lb_last_id (grow b) = lb_last_id b"
    "lb_enabled (grow b) = lb_enabled b" "lb_dropped (grow b) = lb_dropped b"
proof -
  have *: "ring_ok (grow b) \<and> ring_items (grow b) = ring_items b \<and> lb_count (grow b) < length (lb_slots (grow b))"
  proof (cases "lb_count b = length (lb_slots b)")
    case True
    define g where "g = grow b"
    have slots: "lb_slots g = map (\<lambda>i. lb_slots b ! ((lb_head b + i) mod length (lb_slots b))) [0..<lb_count b]
        @ replicate (lb_count b div 2 + 16) None" and head: "lb_head g = 0" and count: "lb_count g = lb_count b"
      and bytes: "lb_bytes g = lb_bytes b"
      using True by (simp_all add: g_def grow_def Let_def)
    have at: "lb_slots g ! ((lb_head g + i) mod length (lb_slots g)) = lb_slots b ! ((lb_head b + i) mod length (lb_slots b))"
      if "i < lb_count b" for i
      using that by (simp add: head slots nth_append)
    have items: "ring_items g = ring_items b" unfolding ring_items_def count by (simp add: ring_get_def at)
    have "ring_ok g"
      using assms at unfolding ring_ok_def items bytes count by (simp add: slots head)
    then show ?thesis using items by (simp add: g_def [symmetric] count slots)
  next
    case False
    then have "lb_count b < length (lb_slots b)" using assms by (simp add: ring_ok_def)
    then show ?thesis using assms False by (simp add: grow_def)
  qed
  then show "ring_ok (grow b)" "ring_items (grow b) = ring_items b" "lb_count (grow b) < length (lb_slots (grow b))"
    by simp_all
  show "lb_count (grow b) = lb_count b" "lb_bytes (grow b) = lb_bytes b" "lb_last_id (grow b) = lb_last_id b"
    "lb_enabled (grow b) = lb_enabled b" "lb_dropped (grow b) = lb_dropped b"
    by (simp_all add: grow_def Let_def)
qed

lemma write_slot:
  assumes "ring_ok b" "lb_count b < length (lb_slots b)"
  defines "b' \<equiv> \<lambda>i e n. b\<lparr>lb_slots := (lb_slots b)[(lb_head b + lb_count b) mod length (lb_slots b) := Some (i, e, n)],
     lb_count := lb_count b + 1, lb_bytes := lb_bytes b + int n, lb_last_id := i\<rparr>"
  shows "ring_ok (b' i e n)" "ring_items (b' i e n) = ring_items b @ [(i, e, n)]"
proof -
  define c where "c = b' i e n"
  define m where "m = length (lb_slots b)"
  define w where "w = (lb_head b + lb_count b) mod m"
  have m: "lb_count b < m" "w < m"
    using assms(2) by (auto simp: m_def w_def intro!: mod_less_divisor order.strict_trans1 [OF le0])
  have c: "lb_head c = lb_head b" "lb_count c = Suc (lb_count b)" "lb_slots c = (lb_slots b)[w := Some (i, e, n)]"
    "lb_bytes c = lb_bytes b + int n" "length (lb_slots c) = m"
    by (simp_all add: c_def b'_def w_def m_def)
  have old: "lb_slots c ! ((lb_head c + k) mod m) = lb_slots b ! ((lb_head b + k) mod m)" if "k < lb_count b" for k
  proof -
    have "(lb_head b + k) mod m \<noteq> w" using mod_inj [of k m "lb_count b" "lb_head b"] that m by (auto simp: w_def)
    then show ?thesis by (simp add: c)
  qed
  have new: "lb_slots c ! ((lb_head c + lb_count b) mod m) = Some (i, e, n)" using m(2) by (simp add: c w_def [symmetric] flip: m_def)
  have get: "ring_get c k = ring_get b k" if "k < lb_count b" for k using old [OF that] by (simp add: ring_get_def c(5) m_def)
  have items: "ring_items c = ring_items b @ [(i, e, n)]"
    using get new by (simp add: ring_items_def c(2)) (simp add: ring_get_def c(5))
  have "\<forall>k < lb_count c. lb_slots c ! ((lb_head c + k) mod length (lb_slots c)) \<noteq> None"
  proof (intro allI impI)
    fix k assume "k < lb_count c"
    then consider "k < lb_count b" | "k = lb_count b" using c(2) by linarith
    then show "lb_slots c ! ((lb_head c + k) mod length (lb_slots c)) \<noteq> None"
      using old new assms(1) by cases (auto simp: c(5) ring_ok_def m_def)
  qed
  moreover have "lb_bytes c = (\<Sum>(i, e, n) \<leftarrow> ring_items c. int n)" using assms(1) by (simp add: c(4) items ring_ok_def)
  moreover have "lb_head c < length (lb_slots c)" using assms(1) m unfolding c(1,5) by (auto simp: ring_ok_def m_def)
  ultimately show "ring_ok (b' i e n)" "ring_items (b' i e n) = ring_items b @ [(i, e, n)]"
    using m items unfolding c_def [symmetric] by (simp_all add: ring_ok_def c(2,5))
qed

section \<open>The journal\<close>

text \<open>Everything the buffer keeps: consecutive ids up to the last one, at most the allowed bytes.\<close>

definition journal_ok :: "'e log_buffer \<Rightarrow> bool" where
  "journal_ok b \<longleftrightarrow> ring_ok b \<and> map fst (ring_items b) = [lb_last_id b + 1 - lb_count b..<lb_last_id b + 1]
     \<and> lb_count b \<le> lb_last_id b \<and> lb_bytes b \<le> max_log_bytes"

lemma trim_log_suffix: "\<exists>k \<le> length xs. trim_log need xs = drop k xs"
proof (induction xs)
  case (Cons x xs)
  then obtain k where "k \<le> length xs" "trim_log need xs = drop k xs" by blast
  then have "Suc k \<le> length (x # xs) \<and> trim_log need (x # xs) = drop (Suc k) (x # xs) \<or> trim_log need (x # xs) = drop 0 (x # xs)"
    by simp
  then show ?case by blast
qed simp

lemma trim_log_room: "trim_log need xs = [] \<or> (\<Sum>(i, e, n) \<leftarrow> trim_log need xs. int n) + need \<le> max_log_bytes"
  by (induction xs) auto

lemma append_event_refines:
  assumes ok: "journal_ok b" and on: "lb_enabled b" and fits: "int (encoded (lb_last_id b + 1) e) < max_log_bytes"
  shows "\<exists>b'. append_event encoded e b = Some b' \<and> journal_ok b' \<and> lb_enabled b'
    \<and> ring_items b' = trim_log (int (encoded (lb_last_id b + 1) e + 1)) (ring_items b)
        @ [(lb_last_id b + 1, e, encoded (lb_last_id b + 1) e + 1)]
    \<and> lb_last_id b' = lb_last_id b + 1 \<and> lb_dropped b' + lb_count b' = lb_dropped b + lb_count b + 1"
proof -
  define n where "n = encoded (lb_last_id b + 1) e + 1"
  have rok: "ring_ok b" using ok by (simp add: journal_ok_def)
  obtain b1 where b1: "evict (int n) b = Some b1" "ring_ok b1" "ring_items b1 = trim_log (int n) (ring_items b)"
    "lb_last_id b1 = lb_last_id b" "lb_enabled b1 = lb_enabled b" "lb_dropped b1 + lb_count b1 = lb_dropped b + lb_count b"
    using evict_trims [OF rok, of "int n"] by blast
  note g = grow_items [OF b1(2)]
  define b2 where "b2 = grow b1"
  define b' where "b' = b2\<lparr>lb_slots := (lb_slots b2)[(lb_head b2 + lb_count b2) mod length (lb_slots b2) := Some (lb_last_id b + 1, e, n)],
     lb_count := lb_count b2 + 1, lb_bytes := lb_bytes b2 + int n, lb_last_id := lb_last_id b + 1\<rparr>"
  note w = write_slot [OF g(1,3), folded b2_def, where i = "lb_last_id b + 1" and e = e and n = n, folded b'_def]
  have res: "append_event encoded e b = Some b'"
    using on b1(1) g(3) [THEN le_less_trans [OF le0]] by (simp add: append_event_def n_def b2_def [symmetric] b'_def Let_def)
  have items: "ring_items b' = trim_log (int n) (ring_items b) @ [(lb_last_id b + 1, e, n)]"
    using w(2) g(2) b1(3) by (simp add: b2_def)
  have count: "lb_count b' = lb_count b1 + 1" using g(4) by (simp add: b'_def b2_def)
  obtain k where k: "k \<le> lb_count b" "trim_log (int n) (ring_items b) = drop k (ring_items b)"
    using trim_log_suffix [of "ring_items b" "int n"] by auto
  have c1: "lb_count b1 = lb_count b - k" using b1(3) k(2) by (metis length_drop ring_items_length)
  have ids: "map fst (ring_items b') = [lb_last_id b' + 1 - lb_count b'..<lb_last_id b' + 1]"
  proof -
    have "map fst (ring_items b) = [lb_last_id b + 1 - lb_count b..<lb_last_id b + 1]" "lb_count b \<le> lb_last_id b"
      using ok by (simp_all add: journal_ok_def)
    moreover have "[lb_last_id b + 1 - lb_count b + k..<lb_last_id b + 1] @ [lb_last_id b + 1]
        = [lb_last_id b + 1 - lb_count b + k..<lb_last_id b + 2]" using k(1) calculation(2) by (simp add: upt_Suc_append)
    moreover have "lb_last_id b + 2 - (lb_count b1 + 1) = lb_last_id b + 1 - lb_count b + k"
      using k(1) calculation(2) by (simp add: c1)
    ultimately show ?thesis unfolding items k(2) map_append drop_map [symmetric] count by (simp add: b'_def drop_upt del: upt_Suc)
  qed
  have bytes: "lb_bytes b' \<le> max_log_bytes"
  proof -
    have "lb_bytes b' = (\<Sum>(i, e, n) \<leftarrow> ring_items b'. int n)" using w(1) by (simp add: ring_ok_def)
    then have "lb_bytes b' = (\<Sum>(i, e, n) \<leftarrow> trim_log (int n) (ring_items b). int n) + int n" by (simp add: items)
    then show ?thesis using trim_log_room [of "int n" "ring_items b"] fits by (auto simp: n_def)
  qed
  have "lb_count b' \<le> lb_last_id b'" using ok unfolding count c1 by (auto simp: journal_ok_def b'_def)
  then have "journal_ok b'" using w(1) ids bytes by (simp only: journal_ok_def simp_thms)
  then show ?thesis using res items g b1 on count by (auto simp: n_def b'_def b2_def)
qed

section \<open>Every entry fits\<close>

lemma cut_at_le: "cut_at v n \<le> n"
  by (induction n) auto

lemma cut_at_start: "cut_at v n = 0 \<or> rune_start (v ! cut_at v n)"
  by (induction n) auto

lemma length_ellipsis [simp]: "length ellipsis = 3"
  by (simp add: ellipsis_def)

lemma length_bounded_log_string: "3 \<le> limit \<Longrightarrow> length (bounded_log_string s limit) \<le> limit"
  using cut_at_le [of "to_valid_utf8 replacement s" "limit - 3"] by (auto simp: bounded_log_string_def Let_def)

lemma replacement_valid: "valid_utf8 replacement" and ellipsis_valid: "valid_utf8 ellipsis"
  by (simp_all add: replacement_def ellipsis_def valid_utf8.simps rune_len_def byte_at_def rune_first_def continues_def upt_rec)

lemma bounded_log_string_valid: "valid_utf8 (bounded_log_string s limit)"
proof (cases "length (to_valid_utf8 replacement s) \<le> limit")
  case True
  then show ?thesis by (simp add: bounded_log_string_def Let_def to_valid_utf8_valid replacement_valid)
next
  case False
  define v where "v = to_valid_utf8 replacement s"
  define k where "k = cut_at v (limit - length ellipsis)"
  have "k < length v" using False cut_at_le [of v "limit - length ellipsis"] by (simp add: k_def v_def)
  moreover have "valid_utf8 v" by (simp add: v_def to_valid_utf8_valid replacement_valid)
  ultimately have "valid_utf8 (take k v)"
    using cut_at_start [of v "limit - length ellipsis"] valid_take [of v k] unfolding k_def [symmetric] by (cases "k = 0") auto
  then show ?thesis
    using False unfolding bounded_log_string_def Let_def v_def [symmetric] k_def [symmetric]
    by (simp add: valid_append ellipsis_valid)
qed

text \<open>The fields of an entry, bounded as normalisation leaves them.\<close>

definition entry_bounded :: "log_entry \<Rightarrow> bool" where
  "entry_bounded e \<longleftrightarrow> length (le_block_category e) \<le> 16 \<and> length (le_block_rule e) \<le> 2048
     \<and> length (le_block_source e) \<le> 64 \<and> length (le_block_domain e) \<le> 253 \<and> length (le_time e) \<le> 30
     \<and> length (le_level e) \<le> 16 \<and> length (le_event e) \<le> 48 \<and> length (le_domain e) \<le> 253 \<and> length (le_qtype e) \<le> 24
     \<and> length (le_upstream e) \<le> 2048 \<and> length (le_route e) \<le> 128 \<and> length (le_client_ip e) \<le> 64
     \<and> length (le_source e) \<le> 24 \<and> length (le_transport e) \<le> 16 \<and> length (le_message e) \<le> 2048"

lemma normalize_bounded: "(\<And>t. length (stamp t) \<le> 30) \<Longrightarrow> entry_bounded (normalize_log_entry stamp e)"
  by (simp add: entry_bounded_def normalize_log_entry_def Let_def length_bounded_log_string)

definition fields_size :: "(string \<times> string) list \<Rightarrow> nat" where
  "fields_size fs = (\<Sum>f \<leftarrow> fs. length (json_field f) + 1)"

lemma fields_size_simps [simp]: "fields_size [] = 0" "fields_size (f # fs) = length (fst f) + length (snd f) + 4 + fields_size fs"
  "fields_size (fs @ gs) = fields_size fs + fields_size gs"
  by (simp_all add: fields_size_def json_field_def split: prod.split)

lemma length_join: "length (join_on [c] xs) \<le> (\<Sum>x \<leftarrow> xs. length x + 1)"
  by (induction "[c]" xs rule: join_on.induct) auto

lemma text_field_size: "length v \<le> n \<Longrightarrow> fields_size (text_field name v) \<le> length name + 6 * n + 6"
  using length_json_string [of v] by (simp add: text_field_def)

lemma word64_digits: "length (dec_digits (unat (w :: 64 word))) \<le> 20"
proof -
  have "unat w < 2 ^ 64" using unsigned_less [of w] by simp
  then have "unat w < 10 ^ 20" by simp
  then show ?thesis by (intro length_dec_digits) simp_all
qed

lemma int_field_size: "fields_size (int_field name v) \<le> length name + 24"
  using word64_digits [of v] by (simp add: int_field_def)

lemma entry_size_bound:
  assumes "entry_bounded e"
  shows "entry_size i e < 45000"
proof -
  have "entry_size i e \<le> fields_size (entry_fields i e) + 2"
    using length_join [of "CHR '',''" "map json_field (entry_fields i e)"] by (simp add: entry_size_def entry_json_def fields_size_def comp_def)
  moreover have "fields_size (entry_fields i e) \<le> 44900"
    using assms length_json_string [of "le_time e"] length_json_string [of "le_level e"] length_json_string [of "le_event e"]
      word64_digits [of "of_nat i"] int_field_size [of "''duration_ms''" "le_duration_ms e"] int_field_size [of "''count''" "le_count e"]
      text_field_size [of "le_block_category e" 16 "''block_category''"]
      text_field_size [of "le_block_rule e" 2048 "''block_rule''"]
      text_field_size [of "le_block_source e" 64 "''block_source''"]
      text_field_size [of "le_block_domain e" 253 "''block_domain''"]
      text_field_size [of "le_domain e" 253 "''domain''"]
      text_field_size [of "le_qtype e" 24 "''qtype''"]
      text_field_size [of "le_upstream e" 2048 "''upstream''"]
      text_field_size [of "le_route e" 128 "''route''"]
      text_field_size [of "le_client_ip e" 64 "''client_ip''"]
      text_field_size [of "le_source e" 24 "''source''"]
      text_field_size [of "le_transport e" 16 "''transport''"]
      text_field_size [of "le_message e" 2048 "''message''"]
    by (simp add: entry_fields_def entry_bounded_def)
  ultimately show ?thesis by simp
qed

section \<open>Reading the journal\<close>

definition first_at :: "(nat \<Rightarrow> bool) \<Rightarrow> nat \<Rightarrow> nat \<Rightarrow> nat \<Rightarrow> bool" where
  "first_at f i j r \<longleftrightarrow> i \<le> r \<and> r \<le> j \<and> (\<forall>k. i \<le> k \<and> k < r \<longrightarrow> \<not> f k) \<and> (\<forall>k. r \<le> k \<and> k < j \<longrightarrow> f k)"

lemma first_at_left: "first_at f i h r \<Longrightarrow> h \<le> j \<Longrightarrow> (\<And>k. h \<le> k \<Longrightarrow> k < j \<Longrightarrow> f k) \<Longrightarrow> first_at f i j r"
  unfolding first_at_def by (meson le_trans not_le)

lemma first_at_right: "first_at f (h + 1) j r \<Longrightarrow> i \<le> h \<Longrightarrow> (\<And>k. k \<le> h \<Longrightarrow> \<not> f k) \<Longrightarrow> first_at f i j r"
  unfolding first_at_def by (metis Suc_eq_plus1 le_trans lessI less_imp_le not_less_eq_eq)

lemma search_first:
  "i \<le> j \<Longrightarrow> (\<And>a b. a \<le> b \<Longrightarrow> b < j \<Longrightarrow> f a \<Longrightarrow> f b) \<Longrightarrow> first_at f i j (search f i j)"
proof (induction f i j rule: search.induct)
  case (1 f i j)
  define h where "h = (i + j) div 2"
  consider "i = j" | "i < j" "f h" | "i < j" "\<not> f h" using "1.prems"(1) by fastforce
  then show ?case
  proof cases
    case 1
    then have "search f i j = j" by (subst search.simps) simp
    then show ?thesis using 1 by (auto simp: first_at_def)
  next
    case 2
    then have h: "i \<le> h" "h < j" by (simp_all add: h_def)
    have mono: "f b" if "a \<le> b" "b < h" "f a" for a b using "1.prems"(2) [of a b] that h(2) by simp
    have "first_at f i h (search f i h)" by (rule "1.IH"(2) [OF 2(1) h_def _ h(1) mono]) (use 2(2) in simp_all)
    moreover have "f k" if "h \<le> k" "k < j" for k using "1.prems"(2) [of h k] that 2(2) by simp
    ultimately have "first_at f i j (search f i h)" by (rule first_at_left [OF _ less_imp_le [OF h(2)]])
    moreover have "search f i j = search f i h" using 2 by (subst search.simps) (simp add: h_def Let_def)
    ultimately show ?thesis by simp
  next
    case 3
    then have h: "i \<le> h" "h + 1 \<le> j" by (simp_all add: h_def)
    have "first_at f (h + 1) j (search f (h + 1) j)" by (rule "1.IH"(1) [OF 3(1) h_def 3(2) h(2) "1.prems"(2)])
    moreover have "\<not> f k" if "k \<le> h" for k using "1.prems"(2) [of k h] that 3(2) h(2) by auto
    ultimately have "first_at f i j (search f (h + 1) j)" by (rule first_at_right [OF _ h(1)])
    moreover have "search f i j = search f (h + 1) j" using 3 by (subst search.simps) (simp add: h_def Let_def)
    ultimately show ?thesis by simp
  qed
qed

lemma filter_upt_from: "(\<And>k. k < n \<Longrightarrow> P k \<longleftrightarrow> m \<le> k) \<Longrightarrow> filter P [0..<n] = [m..<n]"
proof (induction n)
  case (Suc n)
  then have "filter P [0..<n] = [m..<n]" "P n \<longleftrightarrow> m \<le> n" by auto
  then show ?case by auto
qed simp

lemma filter_newer: "filter (\<lambda>i. i > a) [m..<n] = [max (a + 1) m..<n]"
  by (induction n) (auto simp: max_def)

text \<open>The entries the journal holds, oldest first, as a reader sees them.\<close>

definition log_contents :: "'e log_buffer \<Rightarrow> (nat \<times> 'e) list" where
  "log_contents b = map (\<lambda>(i, e, n). (i, e)) (ring_items b)"

lemma ring_id:
  assumes "journal_ok b" "k < lb_count b"
  shows "fst (ring_get b k) = lb_last_id b + 1 - lb_count b + k"
proof -
  have "fst (ring_get b k) = map fst (ring_items b) ! k" using assms(2) by (simp add: ring_items_def)
  also have "\<dots> = [lb_last_id b + 1 - lb_count b..<lb_last_id b + 1] ! k" using assms(1) by (simp only: journal_ok_def)
  also have "\<dots> = lb_last_id b + 1 - lb_count b + k" using assms by (simp add: journal_ok_def del: upt_Suc)
  finally show ?thesis .
qed

lemma snapshot_filters:
  assumes "journal_ok b"
  shows "ls_entries (snapshot after b) = filter (\<lambda>(i, e). i > after) (log_contents b)"
proof -
  define P where "P = (\<lambda>k. fst (ring_get b k) > after)"
  have contents: "log_contents b = map (\<lambda>k. (fst (ring_get b k), fst (snd (ring_get b k)))) [0..<lb_count b]"
    by (simp add: log_contents_def ring_items_def split_beta comp_def)
  have filt: "filter (\<lambda>(i, e). i > after) (log_contents b)
      = map (\<lambda>k. (fst (ring_get b k), fst (snd (ring_get b k)))) (filter P [0..<lb_count b])"
    unfolding contents by (simp add: filter_map comp_def P_def)
  show ?thesis
  proof (cases "after \<ge> lb_last_id b")
    case True
    have "filter P [0..<lb_count b] = []"
      using True ring_id [OF assms] assms by (auto simp: filter_empty_conv P_def journal_ok_def)
    then show ?thesis unfolding filt using True by (simp add: snapshot_def Let_def)
  next
    case False
    have mono: "P l" if "k \<le> l" "l < lb_count b" "P k" for k l using that ring_id [OF assms] by (simp add: P_def)
    have "first_at P 0 (lb_count b) (search P 0 (lb_count b))" by (rule search_first [OF le0]) (rule mono)
    then have "filter P [0..<lb_count b] = [search P 0 (lb_count b)..<lb_count b]"
      unfolding first_at_def by (intro filter_upt_from) (meson le0 not_le)
    then show ?thesis unfolding filt using False by (simp add: snapshot_def Let_def P_def)
  qed
qed

lemma snapshot_ids:
  assumes "journal_ok b" "lb_count b > 0"
  shows "map fst (ls_entries (snapshot after b)) = [max (after + 1) (ls_oldest_id (snapshot after b))..<lb_last_id b + 1]"
proof -
  define o1 where "o1 = lb_last_id b + 1 - lb_count b"
  have "lb_head b < length (lb_slots b)" using assms by (auto simp: journal_ok_def ring_ok_def)
  then have o: "ls_oldest_id (snapshot after b) = o1"
    using ring_id [OF assms] assms(2) by (simp add: snapshot_def Let_def ring_get_def o1_def)
  have ids: "map fst (log_contents b) = [o1..<lb_last_id b + 1]"
    using assms(1) by (simp add: log_contents_def journal_ok_def o1_def comp_def split_beta)
  have "map fst (ls_entries (snapshot after b)) = filter (\<lambda>i. i > after) (map fst (log_contents b))"
    unfolding snapshot_filters [OF assms(1)] by (simp add: filter_map comp_def case_prod_unfold)
  also have "\<dots> = [max (after + 1) o1..<lb_last_id b + 1]" unfolding ids by (rule filter_newer)
  finally show ?thesis by (simp add: o)
qed

section \<open>The states of the journal\<close>

inductive journal_reachable :: "(string \<Rightarrow> string) \<Rightarrow> log_entry log_buffer \<Rightarrow> bool" for stamp where
  start: "journal_reachable stamp new_log_buffer"
| append: "journal_reachable stamp b \<Longrightarrow> append_entry stamp e b = Some b' \<Longrightarrow> journal_reachable stamp b'"
| switch: "journal_reachable stamp b \<Longrightarrow> journal_reachable stamp (set_enabled on b)"
| clear: "journal_reachable stamp b \<Longrightarrow> journal_reachable stamp (clear_log b)"

lemma journal_ok_simps:
  "journal_ok new_log_buffer" "journal_ok b \<Longrightarrow> journal_ok (set_enabled on b)" "journal_ok (clear_log b)"
proof -
  show "journal_ok new_log_buffer"
    by (simp add: journal_ok_def ring_ok_def new_log_buffer_def ring_items_def max_log_bytes_def)
  show "journal_ok (clear_log b)"
    by (simp add: journal_ok_def ring_ok_def clear_log_def ring_items_def max_log_bytes_def)
  have f: "lb_slots (set_enabled on b) = lb_slots b" "lb_head (set_enabled on b) = lb_head b" "lb_count (set_enabled on b) = lb_count b"
    "lb_bytes (set_enabled on b) = lb_bytes b" "lb_last_id (set_enabled on b) = lb_last_id b"
    by (simp_all add: set_enabled_def)
  have "ring_get (set_enabled on b) = ring_get b" by (simp add: fun_eq_iff ring_get_def f)
  then have items: "ring_items (set_enabled on b) = ring_items b" by (simp add: ring_items_def f)
  show "journal_ok b \<Longrightarrow> journal_ok (set_enabled on b)" by (simp add: journal_ok_def ring_ok_def f items del: upt_Suc)
qed

lemma entry_fits: "entry_bounded e \<Longrightarrow> int (entry_size i e) < max_log_bytes"
  using entry_size_bound [of e i] by (simp add: max_log_bytes_def)

lemma append_entry_refines:
  assumes "journal_ok b" "lb_enabled b" "entry_bounded e"
  shows "\<exists>b'. append_event entry_size e b = Some b' \<and> journal_ok b' \<and> lb_enabled b'
    \<and> ring_items b' = trim_log (int (entry_size (lb_last_id b + 1) e + 1)) (ring_items b)
        @ [(lb_last_id b + 1, e, entry_size (lb_last_id b + 1) e + 1)]
    \<and> lb_last_id b' = lb_last_id b + 1 \<and> lb_dropped b' + lb_count b' = lb_dropped b + lb_count b + 1"
  using append_event_refines [where encoded = entry_size and e = e and b = b] assms entry_fits by blast

lemma append_event_ok:
  assumes "journal_ok b" "entry_bounded e"
  shows "\<exists>b'. append_event entry_size e b = Some b' \<and> journal_ok b'"
  using append_entry_refines [OF assms(1) _ assms(2)] assms(1)
  by (cases "lb_enabled b") (auto simp: append_event_def)

lemma reachable_ok:
  assumes "\<And>t. length (stamp t) \<le> 30"
  shows "journal_reachable stamp b \<Longrightarrow> journal_ok b"
proof (induction rule: journal_reachable.induct)
  case (append b e b')
  then show ?case using append_event_ok [OF append.IH normalize_bounded [of stamp e]] assms by (auto simp: append_entry_def)
qed (simp_all add: journal_ok_simps)

interpretation journal: bounded_log "\<lambda>b. journal_ok b \<and> lb_enabled b" entry_bounded ring_items
  "\<lambda>e b. the (append_event entry_size e b)" "\<lambda>e b. (lb_last_id b + 1, e, entry_size (lb_last_id b + 1) e + 1)"
proof
  fix b :: "log_entry log_buffer" and e
  assume a: "journal_ok b \<and> lb_enabled b" "entry_bounded e"
  obtain b' where b': "append_event entry_size e b = Some b'" "journal_ok b'" "lb_enabled b'"
    "ring_items b' = trim_log (int (entry_size (lb_last_id b + 1) e + 1)) (ring_items b)
      @ [(lb_last_id b + 1, e, entry_size (lb_last_id b + 1) e + 1)]"
    using append_entry_refines [OF _ _ a(2)] a(1) by blast
  then show "journal_ok (the (append_event entry_size e b)) \<and> lb_enabled (the (append_event entry_size e b))" by simp
  show "\<exists>k. ring_items (the (append_event entry_size e b))
      = drop k (ring_items b) @ [(lb_last_id b + 1, e, entry_size (lb_last_id b + 1) e + 1)]"
    using b' trim_log_suffix [of "ring_items b"] by (metis option.sel)
qed

section \<open>The log lines\<close>

type_synonym line_args = "int \<times> string \<times> string \<times> string"

definition add_line :: "line_args \<Rightarrow> log_line list \<Rightarrow> log_line list" where
  "add_line x = (case x of (now, module, level, msg) \<Rightarrow> append_line True now module level msg)"

definition line_of :: "line_args \<Rightarrow> log_line" where
  "line_of x = (case x of (now, module, level, msg) \<Rightarrow>
     \<lparr>ll_time = now, ll_module = module, ll_level = level, ll_msg = take max_msg_len (trim_newlines msg)\<rparr>)"

definition has_text :: "line_args \<Rightarrow> bool" where
  "has_text x = (case x of (now, module, level, msg) \<Rightarrow> trim_newlines msg \<noteq> [])"

definition newest :: "'a list \<Rightarrow> 'a list" where
  "newest xs = drop (length xs - max_entries) xs"

lemma add_line_newest: "add_line x ring = (if has_text x then newest (ring @ [line_of x]) else ring)"
  by (simp add: add_line_def has_text_def line_of_def append_line_def newest_def Let_def split: prod.splits)

lemma length_newest: "length (newest xs) \<le> max_entries"
  by (simp add: newest_def)

lemma newest_newest: "newest (newest xs @ ys) = newest (xs @ ys)"
  by (cases "length xs \<le> max_entries") (auto simp: newest_def add.commute)

interpretation lines: bounded_log "\<lambda>_. True" has_text "\<lambda>ring. ring" add_line "\<lambda>x _. line_of x"
proof
  fix ring :: "log_line list" and x
  assume "has_text x"
  then have "add_line x ring = drop (length ring + 1 - max_entries) ring @ [line_of x]"
    by (simp add: add_line_newest newest_def max_entries_def)
  then show "\<exists>k. add_line x ring = drop k ring @ [line_of x]" by blast
qed simp

lemma fold_add_line: "length ring \<le> max_entries \<Longrightarrow> fold add_line xs ring = newest (ring @ map line_of (filter has_text xs))"
proof (induction xs arbitrary: ring)
  case (Cons x xs)
  have "length (add_line x ring) \<le> max_entries" using Cons.prems by (simp add: add_line_newest length_newest)
  then show ?case using Cons.IH [of "add_line x ring"] newest_newest [of "ring @ [line_of x]"] by (simp add: add_line_newest)
qed (simp add: newest_def)

lemma take_lines_append:
  "take_lines cur (a @ b) = (case take_lines cur a of (ls, r) \<Rightarrow> (case take_lines r b of (ms, q) \<Rightarrow> (ls @ ms, q)))"
  by (induction cur a rule: take_lines.induct) (auto split: prod.splits)

lemma take_lines_rest: "take_lines cur s = (ls, r) \<Longrightarrow> CHR 0x0A \<notin> set cur \<Longrightarrow> CHR 0x0A \<notin> set r"
  by (induction cur s arbitrary: ls rule: take_lines.induct) (auto split: if_splits prod.splits)

lemma take_lines_prefix: "CHR 0x0A \<notin> set r \<Longrightarrow> take_lines cur (r @ b) = take_lines (cur @ r) b"
  by (induction r arbitrary: cur) auto

section \<open>Properties\<close>

text \<open>
  Every journal entry fits the journal, as the comment in \<open>LogBuffer.Append\<close> claims: whatever the
  fields of an entry are, its normalised form encodes to less than the 128 KiB the journal may hold, even
  when every byte needs a JSON escape, and every text field is valid UTF-8 that was not cut inside a rune.
  The time is any text of at most 30 bytes, the longest UTC time stamp of \<open>time.RFC3339Nano\<close>.
\<close>

theorem normalized_entry_fits:
  assumes "length (stamp (le_time e)) \<le> 30"
  shows "int (entry_size i (normalize_log_entry stamp e)) + 1 \<le> max_log_bytes
    \<and> valid_utf8 (le_domain (normalize_log_entry stamp e)) \<and> valid_utf8 (le_message (normalize_log_entry stamp e))
    \<and> valid_utf8 (le_block_rule (normalize_log_entry stamp e)) \<and> valid_utf8 (le_upstream (normalize_log_entry stamp e))"
proof -
  have "entry_bounded (normalize_log_entry stamp e)"
    using assms by (simp add: entry_bounded_def normalize_log_entry_def Let_def length_bounded_log_string)
  then have "int (entry_size i (normalize_log_entry stamp e)) + 1 \<le> max_log_bytes" using entry_fits [of _ i] by fastforce
  then show ?thesis by (simp add: normalize_log_entry_def Let_def bounded_log_string_valid)
qed

definition sample_stamp :: "string \<Rightarrow> string" where
  "sample_stamp t = ''2024-01-02T03:04:05Z''"

definition sample_entry :: log_entry where
  "sample_entry = \<lparr>le_block_category = [], le_block_rule = [], le_block_source = [], le_block_domain = [], le_time = [],
     le_level = [], le_event = ''block'', le_domain = ''a.example'', le_qtype = ''A'', le_upstream = [], le_route = [],
     le_client_ip = [], le_source = [], le_transport = [], le_duration_ms = -3, le_count = 0, le_message = [CHR 0xFF, CHR 0x01]\<rparr>"

theorem normalized_entry_fits_witness:
  "int (entry_size 7 (normalize_log_entry sample_stamp sample_entry)) + 1 \<le> max_log_bytes"
  using normalized_entry_fits [of sample_stamp sample_entry 7] by (simp add: sample_stamp_def)

text \<open>
  (C25) The journal is a bounded queue. In every state the journal can reach by appending, switching and
  clearing, appending to an enabled journal never divides by zero or indexes out of range; what it holds
  afterwards is the longest suffix of what it held that leaves room for the new entry, followed by that entry
  under the next id; the entries it drops are counted and the bytes stay within the bound.
\<close>

theorem journal_append_refines:
  assumes "\<And>t. length (stamp t) \<le> 30" and "journal_reachable stamp b" and "lb_enabled b"
  shows "\<exists>b'. append_entry stamp e b = Some b' \<and> lb_bytes b' \<le> max_log_bytes \<and> lb_last_id b' = lb_last_id b + 1
    \<and> (let e' = normalize_log_entry stamp e; n = entry_size (lb_last_id b + 1) e' + 1 in
        ring_items b' = trim_log (int n) (ring_items b) @ [(lb_last_id b + 1, e', n)])
    \<and> lb_dropped b' + length (ring_items b') = lb_dropped b + length (ring_items b) + 1"
  using append_entry_refines [OF reachable_ok [OF assms(1,2)] assms(3) normalize_bounded [of stamp e, OF assms(1)]]
  by (auto simp: append_entry_def journal_ok_def Let_def)

theorem journal_append_refines_witness:
  "\<exists>b'. append_entry sample_stamp sample_entry (set_enabled True new_log_buffer) = Some b' \<and> lb_last_id b' = 1
     \<and> lb_count b' + lb_dropped b' = 1"
proof -
  have reach: "journal_reachable sample_stamp (set_enabled True new_log_buffer)"
    by (rule journal_reachable.switch [OF journal_reachable.start])
  have stamp: "length (sample_stamp t) \<le> 30" for t by (simp add: sample_stamp_def)
  have on: "lb_enabled (set_enabled True new_log_buffer)" by (simp add: set_enabled_def)
  obtain b' where b': "append_entry sample_stamp sample_entry (set_enabled True new_log_buffer) = Some b'"
    "lb_last_id b' = lb_last_id (set_enabled True new_log_buffer :: log_entry log_buffer) + 1"
    "lb_dropped b' + length (ring_items b') = lb_dropped (set_enabled True new_log_buffer :: log_entry log_buffer)
       + length (ring_items (set_enabled True new_log_buffer :: log_entry log_buffer)) + 1"
    using journal_append_refines [OF stamp reach on, of sample_entry] by blast
  show ?thesis using b'(2,3) by (intro exI [of _ b'] conjI b'(1)) (simp_all add: set_enabled_def new_log_buffer_def)
qed

text \<open>
  A journal reader misses nothing it could still get. In every reachable state the snapshot after an id,
  found by binary search in the ring, holds exactly the held entries with a larger id in order, and their ids
  run without a gap from the larger of the id after the cursor and the oldest id held to the last id, so a
  client whose next id is not below the reported oldest id has lost nothing, and any other client can see the gap.
\<close>

theorem journal_snapshot_complete:
  assumes "\<And>t. length (stamp t) \<le> 30" and "journal_reachable stamp b"
  shows "ls_entries (snapshot after b) = filter (\<lambda>(i, e). i > after) (log_contents b)
    \<and> (if log_contents b = [] then ls_entries (snapshot after b) = []
       else map fst (ls_entries (snapshot after b)) = [max (after + 1) (ls_oldest_id (snapshot after b))..<lb_last_id b + 1])"
  using snapshot_filters [OF reachable_ok [OF assms]] snapshot_ids [OF reachable_ok [OF assms]]
  by (simp add: log_contents_def ring_items_def del: upt_Suc)

theorem journal_snapshot_complete_witness:
  "ls_entries (snapshot 3 (set_enabled True new_log_buffer :: log_entry log_buffer)) = []"
  using journal_snapshot_complete [of sample_stamp "set_enabled True new_log_buffer" 3]
    journal_reachable.switch [OF journal_reachable.start, of sample_stamp True]
  by (simp add: sample_stamp_def log_contents_def ring_items_def set_enabled_def new_log_buffer_def)

text \<open>
  The log of the panel is the newest lines. After any sequence of appended lines the ring holds exactly
  the last 2000 of the lines with text, each cut to 2000 bytes, in order; and the standard logger's writer
  does not depend on how the text is cut into writes: writing two pieces is writing their concatenation.
\<close>

theorem log_lines_newest:
  "fold add_line xs [] = newest (map line_of (filter has_text xs))
   \<and> sink_write True now b (sink_write True now a ([], ring)) = sink_write True now (a @ b) ([], ring)"
proof -
  obtain ls r where a: "take_lines [] a = (ls, r)" by fastforce
  have "CHR 0x0A \<notin> set r" using take_lines_rest [OF a] by simp
  then have "take_lines [] (r @ b) = take_lines r b" using take_lines_prefix [of r "[]" b] by simp
  then show ?thesis using fold_add_line [of "[]" xs] a
    by (auto simp: sink_write_def take_lines_append split: prod.splits)
qed

end
