(* ===== verification/Go_Text.thy ===== *)
theory Go_Text
  imports Go_Net
begin

text \<open>
  More of Go's \<open>strings\<close>, \<open>strconv\<close> and \<open>net\<close> packages: fields, decimal numbers, host and port pairs and
  the address classes. Strings are byte lists, addresses are in the form \<open>net.ParseIP\<close> returns.
\<close>

section \<open>Fields and numbers\<close>

lemma length_trim_left: "length (trim_left s) \<le> length s"
  by (induction s rule: trim_left.induct) (subst trim_left.simps, auto)

function word_len :: "string \<Rightarrow> nat" where
  "word_len s = (if s = [] \<or> space_len s \<noteq> 0 then 0 else Suc (word_len (tl s)))"
  by pat_completeness auto
termination by (relation "measure length") auto

declare word_len.simps [simp del]

function str_fields :: "string \<Rightarrow> string list" where
  "str_fields s = (let t = trim_left s in if t = [] then [] else take (word_len t) t # str_fields (drop (word_len t) t))"
  by pat_completeness auto
termination
proof (relation "measure length")
  fix s t assume t: "t = trim_left s" "t \<noteq> []"
  then have "space_len t = 0" using trim_left_fixed [of s] by auto
  then have "0 < word_len t" using t(2) by (subst word_len.simps) simp
  then have "length (drop (word_len t) t) < length t" using t(2) by simp
  then show "(drop (word_len t) t, s) \<in> measure length" using length_trim_left [of s] t(1) by simp
qed simp

declare str_fields.simps [simp del]

text \<open>\<open>strconv.Atoi\<close>: an optional sign and decimal digits, within 64 bits.\<close>

definition atoi :: "string \<Rightarrow> int option" where
  "atoi s =
     (let neg = (s \<noteq> [] \<and> hd s = CHR ''-'');
          ds = (if s \<noteq> [] \<and> (hd s = CHR ''-'' \<or> hd s = CHR ''+'') then tl s else s) in
      if ds = [] \<or> \<not> list_all is_digit ds then None
      else (let v = (if neg then - int (dec_val ds) else int (dec_val ds)) in
        if - (2 ^ 63) \<le> v \<and> v < 2 ^ 63 then Some v else None))"

text \<open>\<open>strconv.Itoa\<close>\<close>

definition itoa :: "int \<Rightarrow> string" where
  "itoa n = (if n < 0 then CHR ''-'' # dec_digits (nat (- n)) else dec_digits (nat n))"

definition last_index :: "char \<Rightarrow> string \<Rightarrow> nat option" where
  "last_index c s = (if c \<in> set s then Some (length s - 1 - length (takeWhile (\<lambda>x. x \<noteq> c) (rev s))) else None)"

definition index_of :: "char \<Rightarrow> string \<Rightarrow> nat option" where
  "index_of c s = (if c \<in> set s then Some (length (takeWhile (\<lambda>x. x \<noteq> c) s)) else None)"

lemma takeWhile_shorter: "c \<in> set s \<Longrightarrow> length (takeWhile (\<lambda>x. x \<noteq> c) s) < length s"
  by (induction s) auto

lemma index_of_Some: "index_of c s = Some i \<Longrightarrow> i < length s \<and> s ! i = c \<and> c \<notin> set (take i s)"
proof -
  assume "index_of c s = Some i"
  then have i: "c \<in> set s" "i = length (takeWhile (\<lambda>x. x \<noteq> c) s)" by (auto simp: index_of_def split: if_splits)
  have lt: "i < length s" unfolding i(2) using i(1) by (rule takeWhile_shorter)
  have "take i s = takeWhile (\<lambda>x. x \<noteq> c) s" by (simp add: i(2) takeWhile_eq_take [symmetric])
  then have "c \<notin> set (take i s)" by (auto dest: set_takeWhileD)
  moreover have "s ! i = c" using nth_length_takeWhile [of "\<lambda>x. x \<noteq> c" s] lt i(2) by simp
  ultimately show ?thesis using lt by simp
qed

section \<open>Host and port\<close>

text \<open>\<open>net.SplitHostPort\<close>; \<^term>\<open>None\<close> is any of its errors.\<close>

definition split_host_port :: "string \<Rightarrow> (string \<times> string) option" where
  "split_host_port s =
     (case last_index CHR '':'' s of None \<Rightarrow> None
      | Some i \<Rightarrow>
          (if hd s = CHR ''['' then
             (case index_of CHR '']'' s of None \<Rightarrow> None
              | Some e \<Rightarrow>
                  if e + 1 \<noteq> i \<or> CHR ''['' \<in> set (drop 1 s) \<or> CHR '']'' \<in> set (drop (e + 1) s) then None
                  else Some (take (e - 1) (drop 1 s), drop (i + 1) s))
           else (if CHR '':'' \<in> set (take i s) \<or> CHR ''['' \<in> set s \<or> CHR '']'' \<in> set s then None
                 else Some (take i s, drop (i + 1) s))))"

definition join_host_port :: "string \<Rightarrow> string \<Rightarrow> string" where
  "join_host_port h p = (if CHR '':'' \<in> set h \<or> CHR ''%'' \<in> set h then ''['' @ h @ '']:'' @ p else h @ '':'' @ p)"

section \<open>Address classes\<close>

definition is_unspecified :: "bytes \<Rightarrow> bool" where
  "is_unspecified ip \<longleftrightarrow> ip = replicate 16 0 \<or> ip_to4 ip = Some [0, 0, 0, 0]"

definition is_loopback :: "bytes \<Rightarrow> bool" where
  "is_loopback ip = (case ip_to4 ip of Some b \<Rightarrow> b ! 0 = 127 | None \<Rightarrow> ip = replicate 15 0 @ [1])"

definition is_multicast :: "bytes \<Rightarrow> bool" where
  "is_multicast ip = (case ip_to4 ip of Some b \<Rightarrow> and (b ! 0) 0xF0 = 0xE0 | None \<Rightarrow> length ip = 16 \<and> ip ! 0 = 0xFF)"

definition is_link_local_unicast :: "bytes \<Rightarrow> bool" where
  "is_link_local_unicast ip =
     (case ip_to4 ip of Some b \<Rightarrow> b ! 0 = 169 \<and> b ! 1 = 254
      | None \<Rightarrow> length ip = 16 \<and> ip ! 0 = 0xFE \<and> and (ip ! 1) 0xC0 = 0x80)"

definition is_broadcast4 :: "bytes \<Rightarrow> bool" where
  "is_broadcast4 ip \<longleftrightarrow> ip_to4 ip = Some [255, 255, 255, 255]"

lemma fields_example: "str_fields '' a  bc '' = [''a'', ''bc'']"
  by (simp add: str_fields.simps trim_left.simps word_len.simps space_len_def utf8_spaces_def codes_def of_char_def)

section \<open>Loops that stop at the first error\<close>

fun fold_res :: "('a \<Rightarrow> 's \<Rightarrow> 'e + 's) \<Rightarrow> 'a list \<Rightarrow> 's \<Rightarrow> 'e + 's" where
  "fold_res f [] s = Inr s"
| "fold_res f (x # xs) s = (case f x s of Inl e \<Rightarrow> Inl e | Inr s' \<Rightarrow> fold_res f xs s')"

lemma fold_res_append:
  "fold_res f (xs @ ys) s = (case fold_res f xs s of Inl e \<Rightarrow> Inl e | Inr s' \<Rightarrow> fold_res f ys s')"
  by (induction xs arbitrary: s) (auto split: sum.splits)

lemma fold_res_invariant:
  assumes "fold_res f xs s = Inr t" "P s" "\<And>x s s'. x \<in> set xs \<Longrightarrow> P s \<Longrightarrow> f x s = Inr s' \<Longrightarrow> P s'"
  shows "P t"
  using assms
proof (induction xs arbitrary: s)
  case (Cons x xs)
  obtain s' where s': "f x s = Inr s'" "fold_res f xs s' = Inr t" using Cons.prems(1) by (auto split: sum.splits)
  then show ?case by (intro Cons.IH [OF s'(2)] Cons.prems(3) [OF _ Cons.prems(2) s'(1)]) (auto intro: Cons.prems(3))
qed simp

text \<open>What the steps of such a loop collect.\<close>

lemma fold_res_collect:
  assumes "fold_res f xs s = Inr t" "R s V" "\<And>x s s' V. x \<in> set xs \<Longrightarrow> R s V \<Longrightarrow> f x s = Inr s' \<Longrightarrow> R s' (V \<union> g x)"
  shows "R t (V \<union> (\<Union>x \<in> set xs. g x))"
  using assms
proof (induction xs arbitrary: s V)
  case (Cons x xs)
  obtain s' where s': "f x s = Inr s'" "fold_res f xs s' = Inr t" using Cons.prems(1) by (auto split: sum.splits)
  have "R s' (V \<union> g x)" using Cons.prems(3) [OF _ Cons.prems(2) s'(1)] by simp
  then have "R t ((V \<union> g x) \<union> (\<Union>x \<in> set xs. g x))" using Cons.IH [OF s'(2)] Cons.prems(3) by simp
  then show ?case by (simp add: Un_assoc)
qed simp

text \<open>\<open>bufio.Scanner\<close> over lines with a limit on their length: the lines before one that is too long, and whether there is one.\<close>

definition drop_cr :: "string \<Rightarrow> string" where
  "drop_cr l = (if l \<noteq> [] \<and> last l = CHR 0x0D then butlast l else l)"

definition text_lines :: "string \<Rightarrow> string list" where
  "text_lines s = (let ls = split_on CHR 0x0A s in if last ls = [] then butlast ls else ls)"

definition scan_lines :: "nat \<Rightarrow> string \<Rightarrow> string list \<times> bool" where
  "scan_lines limit s =
     (let ls = text_lines s in
      (map drop_cr (takeWhile (\<lambda>l. length l < limit) ls), list_ex (\<lambda>l. limit \<le> length l) ls))"

end
