(* ===== verification/Dns_Names.thy ===== *)
theory Dns_Names
  imports Go_Text
begin

text \<open>
  Domain names as the DNS server normalises them (\<open>normalizeDomain\<close> of
  \<open>internal/services/dnsserver/config.go\<close>, \<open>normalizedLookupDomain\<close> of \<open>blocker.go\<close>). The conversion of
  international names to ASCII (\<open>golang.org/x/net/idna\<close>) is the parameter \<open>to_ascii\<close>; it also absorbs the
  case mapping of letters beyond ASCII.
\<close>

definition label_char :: "char \<Rightarrow> bool" where
  "label_char c \<longleftrightarrow> (let n = of_char c :: nat in (97 \<le> n \<and> n \<le> 122) \<or> (48 \<le> n \<and> n \<le> 57) \<or> n = 45 \<or> n = 95)"

definition label_ok :: "string \<Rightarrow> bool" where
  "label_ok l \<longleftrightarrow> l \<noteq> [] \<and> length l \<le> 63 \<and> hd l \<noteq> CHR ''-'' \<and> last l \<noteq> CHR ''-'' \<and> list_all label_char l"

definition normalize_domain :: "(string \<Rightarrow> string option) \<Rightarrow> string \<Rightarrow> string option" where
  "normalize_domain to_ascii s0 =
     (let s = trim_suffix (to_lower (trim_space s0)) ''.'' in
      if s = [] then None
      else (case to_ascii s of None \<Rightarrow> None
        | Some a \<Rightarrow>
            if length a > 253 then None
            else if list_all label_ok (split_on CHR ''.'' a) then Some a else None))"

text \<open>A normalised name: at most 253 bytes, made of proper labels.\<close>

definition dns_name :: "string \<Rightarrow> bool" where
  "dns_name d \<longleftrightarrow> length d \<le> 253 \<and> list_all label_ok (split_on CHR ''.'' d)"

lemma normalize_domain_name: "normalize_domain to_ascii s = Some d \<Longrightarrow> dns_name d"
  by (auto simp: normalize_domain_def dns_name_def Let_def split: if_splits option.splits)

lemma dns_name_nonempty: "dns_name d \<Longrightarrow> d \<noteq> []"
  by (auto simp: dns_name_def label_ok_def)

text \<open>The allocation-free scan of a query name: one label after the other.\<close>

definition raw_label_char :: "char \<Rightarrow> bool" where
  "raw_label_char c \<longleftrightarrow> label_char c \<or> (let n = of_char c :: nat in 65 \<le> n \<and> n \<le> 90)"

datatype scan_result = Refused | NotAscii | AsciiName

fun scan_labels :: "string \<Rightarrow> string \<Rightarrow> scan_result" where
  "scan_labels cur [] =
     (if cur = [] \<or> length cur > 63 \<or> hd cur = CHR ''-'' \<or> last cur = CHR ''-'' then Refused else AsciiName)"
| "scan_labels cur (c # s) =
     (if (of_char c :: nat) \<ge> 128 then NotAscii
      else if c = CHR ''.'' then
        (if cur = [] \<or> length cur > 63 \<or> hd cur = CHR ''-'' \<or> last cur = CHR ''-'' then Refused else scan_labels [] s)
      else if raw_label_char c then scan_labels (cur @ [c]) s
      else Refused)"

definition normalized_lookup_domain :: "(string \<Rightarrow> string option) \<Rightarrow> string \<Rightarrow> string option" where
  "normalized_lookup_domain to_ascii raw =
     (let domain = trim_suffix (trim_space raw) ''.'' in
      if domain = [] \<or> length domain > 253 then None
      else (case scan_labels [] domain of
          Refused \<Rightarrow> None
        | NotAscii \<Rightarrow> normalize_domain to_ascii domain
        | AsciiName \<Rightarrow> Some (to_lower domain)))"

lemma lower_not_dash: "lower_char c = CHR ''-'' \<longleftrightarrow> c = CHR ''-''"
  and lower_not_dot: "lower_char c = CHR ''.'' \<longleftrightarrow> c = CHR ''.''"
  by (auto simp: lower_char_def Let_def dest: arg_cong [where f = "of_char :: char \<Rightarrow> nat"])

lemma to_lower_split: "split_on CHR ''.'' (to_lower s) = map to_lower (split_on CHR ''.'' s)"
proof (induction s)
  case (Cons c s)
  have "lower_char c = CHR ''.'' \<longleftrightarrow> c = CHR ''.''" by (rule lower_not_dot)
  then show ?case using Cons by (cases "split_on CHR ''.'' s") (auto simp: to_lower_Cons)
qed simp

lemma raw_label_lower: "raw_label_char c \<Longrightarrow> label_char (lower_char c)"
  by (auto simp: raw_label_char_def label_char_def lower_char_def Let_def)

lemma label_ok_lower:
  "cur \<noteq> [] \<Longrightarrow> length cur \<le> 63 \<Longrightarrow> hd cur \<noteq> CHR ''-'' \<Longrightarrow> last cur \<noteq> CHR ''-'' \<Longrightarrow> list_all raw_label_char cur
    \<Longrightarrow> label_ok (to_lower cur)"
  by (auto simp: label_ok_def list_all_iff to_lower_def hd_map last_map lower_not_dash raw_label_lower)

lemma scan_labels_name:
  "scan_labels cur s = AsciiName \<Longrightarrow> list_all raw_label_char cur \<Longrightarrow> CHR ''.'' \<notin> set cur
    \<Longrightarrow> list_all label_ok (split_on CHR ''.'' (to_lower (cur @ s)))"
proof (induction cur s rule: scan_labels.induct)
  case (1 cur)
  have "split_on CHR ''.'' cur = [cur]" using 1(3) by (induction cur) auto
  then show ?case using 1 label_ok_lower [of cur] by (auto simp: to_lower_split split: if_splits)
next
  case (2 cur c s)
  then show ?case using label_ok_lower [of cur]
    by (auto simp: to_lower_split split_on_append_sep simp del: to_lower_append split: if_splits)
qed

theorem lookup_domain_name: "normalized_lookup_domain to_ascii raw = Some d \<Longrightarrow> dns_name d"
  using scan_labels_name [of "[]" "trim_suffix (trim_space raw) ''.''"]
  by (auto simp: normalized_lookup_domain_def dns_name_def Let_def split: if_splits scan_result.splits
      dest: normalize_domain_name [unfolded dns_name_def])

section \<open>Filters of names\<close>

text \<open>
  The contract of the compiled rule sets: a filter starts empty, takes rules one by one and accepts what one of
  its rules covers, whatever the order of the rules and however the set is stored.
\<close>

locale name_filter =
  fixes none :: 's and add :: "'r \<Rightarrow> 's \<Rightarrow> 's" and accepts :: "'s \<Rightarrow> 'n \<Rightarrow> bool" and covered_by :: "'r \<Rightarrow> 'n \<Rightarrow> bool"
  assumes accepts_none: "\<not> accepts none n"
    and accepts_add: "accepts (add r s) n \<longleftrightarrow> accepts s n \<or> covered_by r n"
begin

lemma accepts_fold: "accepts (fold add rs s) n \<longleftrightarrow> accepts s n \<or> (\<exists>r \<in> set rs. covered_by r n)"
  by (induction rs arbitrary: s) (auto simp: accepts_add)

lemma accepts_built: "accepts (fold add rs none) n \<longleftrightarrow> (\<exists>r \<in> set rs. covered_by r n)"
  by (simp add: accepts_fold accepts_none)

lemma order_irrelevant: "set rs = set rs' \<Longrightarrow> accepts (fold add rs none) n = accepts (fold add rs' none) n"
  by (simp add: accepts_built)

end

end
