(* ===== verification/Shadow_Match.thy ===== *)
theory Shadow_Match
  imports Dns_Names
begin

text \<open>
  \<open>internal/services/dnsserver/shadow_config.go\<close>: the names that are resolved by the provider's DNS. The
  configuration is normalised, then compiled into a trie over reversed labels in which a wildcard consumes one
  label; matching descends once per label and never scans the patterns.
\<close>

section \<open>The configuration\<close>

record shadow_domain =
  sd_domain :: string
  sd_subdomains :: bool

record shadow_config =
  sc_enabled :: bool
  sc_servers :: "string list"
  sc_domains :: "shadow_domain list"

definition default_shadow_dns :: shadow_config where
  "default_shadow_dns = \<lparr>sc_enabled = False, sc_servers = [], sc_domains =
     [\<lparr>sd_domain = ''ru'', sd_subdomains = True\<rparr>, \<lparr>sd_domain = ''xn--p1ai'', sd_subdomains = True\<rparr>,
      \<lparr>sd_domain = ''vk.*'', sd_subdomains = True\<rparr>, \<lparr>sd_domain = ''avito.*'', sd_subdomains = True\<rparr>]\<rparr>"

datatype shadow_error = TooManyDomains | BadMask | NoDomains | BadServer

fun pattern_labels :: "(string \<Rightarrow> string option) \<Rightarrow> string list \<Rightarrow> (string list \<times> bool) option" where
  "pattern_labels to_ascii [] = Some ([], False)"
| "pattern_labels to_ascii (l # ls) =
     (if l = ''*'' then map_option (\<lambda>(ms, anchored). (l # ms, anchored)) (pattern_labels to_ascii ls)
      else (case normalize_domain to_ascii l of None \<Rightarrow> None
        | Some n \<Rightarrow>
            if CHR ''.'' \<in> set n then None
            else map_option (\<lambda>(ms, anchored). (n # ms, True)) (pattern_labels to_ascii ls)))"

definition normalize_shadow_pattern :: "(string \<Rightarrow> string option) \<Rightarrow> string \<Rightarrow> string option" where
  "normalize_shadow_pattern to_ascii pattern0 =
     (case pattern_labels to_ascii (split_on CHR ''.'' (trim_suffix (trim_space pattern0) ''.'')) of
        None \<Rightarrow> None
      | Some (labels, anchored) \<Rightarrow>
          (let result = join_on ''.'' labels in
           if \<not> anchored \<or> length result > 253 then None else Some result))"

text \<open>One entry: a leading \<open>*.\<close> or dot asks for the subdomains.\<close>

definition shadow_entry :: "shadow_domain \<Rightarrow> shadow_domain" where
  "shadow_entry rule =
     (let d0 = trim_space (sd_domain rule);
          (d1, i1) = (if has_prefix d0 ''*.'' then (trim_prefix d0 ''*.'', True) else (d0, sd_subdomains rule)) in
      if has_prefix d1 ''.'' then \<lparr>sd_domain = trim_prefix d1 ''.'', sd_subdomains = True\<rparr>
      else \<lparr>sd_domain = d1, sd_subdomains = i1\<rparr>)"

fun merge_domain :: "shadow_domain \<Rightarrow> shadow_domain list \<Rightarrow> shadow_domain list" where
  "merge_domain r [] = [r]"
| "merge_domain r (d # ds) =
     (if sd_domain d = sd_domain r then d\<lparr>sd_subdomains := sd_subdomains d \<or> sd_subdomains r\<rparr> # ds
      else d # merge_domain r ds)"

fun normalize_domains :: "(string \<Rightarrow> string option) \<Rightarrow> shadow_domain list \<Rightarrow> shadow_domain list \<Rightarrow> shadow_domain list option" where
  "normalize_domains to_ascii [] acc = Some acc"
| "normalize_domains to_ascii (rule # rules) acc =
     (let e = shadow_entry rule in
      case normalize_shadow_pattern to_ascii (sd_domain e) of None \<Rightarrow> None
      | Some p \<Rightarrow> normalize_domains to_ascii rules (merge_domain \<lparr>sd_domain = p, sd_subdomains = sd_subdomains e\<rparr> acc))"

definition normalize_shadow :: "(string \<Rightarrow> string option) \<Rightarrow> shadow_config \<Rightarrow> shadow_error + shadow_config" where
  "normalize_shadow to_ascii s =
     (if length (sc_domains s) > 4096 then Inl TooManyDomains
      else (case normalize_domains to_ascii (sc_domains s) [] of None \<Rightarrow> Inl BadMask
        | Some ds \<Rightarrow> if sc_enabled s \<and> ds = [] then Inl NoDomains else Inr (s\<lparr>sc_servers := [], sc_domains := ds\<rparr>)))"

text \<open>The address of a provider's DNS server.\<close>

definition normalize_shadow_server :: "string \<Rightarrow> shadow_error + string" where
  "normalize_shadow_server raw =
     (let address = trim_space raw in
      case (if parse_ip address = None then split_host_port address else Some (address, ''53'')) of
        None \<Rightarrow> Inl BadServer
      | Some (host, port) \<Rightarrow>
          (case (parse_ip host, atoi port) of
             (Some ip, Some p) \<Rightarrow>
               if is_unspecified ip \<or> is_multicast ip \<or> is_loopback ip \<or> is_link_local_unicast ip \<or> is_broadcast4 ip
                  \<or> p < 1 \<or> p > 65535 then Inl BadServer
               else Inr (join_host_port (ip_string ip) (itoa p))
           | _ \<Rightarrow> Inl BadServer))"

section \<open>The matcher\<close>

datatype shadow_matcher = ShadowMatcher
  (sm_labels: "string \<Rightarrow> shadow_matcher option") (sm_wildcard: "shadow_matcher option") (sm_exact: bool) (sm_descendants: bool)

definition empty_matcher :: shadow_matcher where
  "empty_matcher = ShadowMatcher (\<lambda>_. None) None False False"

fun add_pattern :: "string list \<Rightarrow> bool \<Rightarrow> shadow_matcher \<Rightarrow> shadow_matcher" where
  "add_pattern [] include (ShadowMatcher ch w ex de) = ShadowMatcher ch w True (de \<or> include)"
| "add_pattern (l # ls) include (ShadowMatcher ch w ex de) =
     (if l = ''*'' then
        ShadowMatcher ch (Some (add_pattern ls include (case w of None \<Rightarrow> empty_matcher | Some m \<Rightarrow> m))) ex de
      else ShadowMatcher (ch(l := Some (add_pattern ls include (case ch l of None \<Rightarrow> empty_matcher | Some m \<Rightarrow> m)))) w ex de)"

definition new_shadow_matcher :: "shadow_config option \<Rightarrow> shadow_matcher option" where
  "new_shadow_matcher cfg =
     (case cfg of None \<Rightarrow> None
      | Some c \<Rightarrow>
          if \<not> sc_enabled c then None
          else Some (fold (\<lambda>rule. add_pattern (rev (split_on CHR ''.'' (sd_domain rule))) (sd_subdomains rule)) (sc_domains c) empty_matcher))"

function match_labels :: "shadow_matcher option \<Rightarrow> string \<Rightarrow> bool" where
  "match_labels None domain = False"
| "match_labels (Some m) domain =
     (if sm_descendants m then True
      else if domain = [] then sm_exact m
      else (let (label, rest) = (case last_index CHR ''.'' domain of
                None \<Rightarrow> (domain, []) | Some i \<Rightarrow> (drop (i + 1) domain, take i domain)) in
        if label = [] then False else match_labels (sm_labels m label) rest \<or> match_labels (sm_wildcard m) rest))"
  by pat_completeness auto
termination
  by (relation "measure (\<lambda>(m, d). length d)") (auto simp: last_index_def split: option.splits if_splits)

definition shadow_matches :: "shadow_matcher option \<Rightarrow> string \<Rightarrow> bool" where
  "shadow_matches m domain0 =
     (case m of None \<Rightarrow> False
      | Some _ \<Rightarrow>
          (let domain = trim_suffix (to_lower domain0) ''.'' in
           if domain = [] \<or> length domain > 253 then False else match_labels m domain))"

section \<open>What a pattern covers\<close>

text \<open>Patterns and names as label lists, top level first.\<close>

fun pattern_covers :: "bool \<Rightarrow> string list \<Rightarrow> string list \<Rightarrow> bool" where
  "pattern_covers subdomains [] ds \<longleftrightarrow> subdomains \<or> ds = []"
| "pattern_covers subdomains (p # ps) [] \<longleftrightarrow> False"
| "pattern_covers subdomains (p # ps) (d # ds) \<longleftrightarrow> d \<noteq> [] \<and> (p = ''*'' \<or> p = d) \<and> pattern_covers subdomains ps ds"

definition rule_covers :: "shadow_domain \<Rightarrow> string list \<Rightarrow> bool" where
  "rule_covers r ds = pattern_covers (sd_subdomains r) (rev (split_on CHR ''.'' (sd_domain r))) ds"

text \<open>The labels of a name, last first; the empty label a leading dot makes is not seen.\<close>

definition name_labels :: "string \<Rightarrow> string list" where
  "name_labels d = (if d = [] then [] else rev (split_on CHR ''.'' (if hd d = CHR ''.'' then tl d else d)))"

lemma pattern_covers_or: "pattern_covers (a \<or> b) ps ds \<longleftrightarrow> pattern_covers a ps ds \<or> pattern_covers b ps ds"
  by (induction "a \<or> b" ps ds rule: pattern_covers.induct) auto

lemma split_on_last: "sep \<notin> set b \<Longrightarrow> split_on sep (a @ sep # b) = split_on sep a @ [b]"
proof (induction a)
  case Nil
  then show ?case using split_on_append_sep [of sep "[]" b] by (induction b) auto
next
  case (Cons c a)
  then show ?case by (cases "split_on sep a") auto
qed

lemma split_on_single: "sep \<notin> set b \<Longrightarrow> split_on sep b = [b]"
  by (induction b) auto

lemma last_index_split:
  assumes "last_index c s = Some i"
  shows "s = take i s @ c # drop (i + 1) s \<and> c \<notin> set (drop (i + 1) s)"
proof -
  define w where "w = takeWhile (\<lambda>x. x \<noteq> c) (rev s)"
  have c: "c \<in> set s" "i = length s - 1 - length w" using assms by (auto simp: last_index_def w_def split: if_splits)
  obtain r where r: "rev s = w @ c # r"
    using c(1) takeWhile_dropWhile_id [of "\<lambda>x. x \<noteq> c" "rev s"] by (cases "dropWhile (\<lambda>x. x \<noteq> c) (rev s)")
      (auto simp: w_def dropWhile_eq_Nil_conv dest: hd_dropWhile dropWhile_eq_Cons_conv [THEN iffD1])
  have s: "s = rev r @ c # rev w" using arg_cong [OF r, of rev] by simp
  then have "length s = length r + 1 + length w" by simp
  then have "i = length r" using c(2) by simp
  moreover have "c \<notin> set w" by (auto simp: w_def dest: set_takeWhileD)
  ultimately show ?thesis using s by simp
qed

lemma name_labels_step:
  assumes "d \<noteq> []"
  shows "name_labels d = (case last_index CHR ''.'' d of None \<Rightarrow> [d] | Some i \<Rightarrow> drop (i + 1) d # name_labels (take i d))"
proof (cases "last_index CHR ''.'' d")
  case None
  then have "CHR ''.'' \<notin> set d" by (simp add: last_index_def split: if_splits)
  then show ?thesis using assms None by (cases d) (auto simp: name_labels_def split_on_single)
next
  case (Some i)
  define l r where "l = drop (i + 1) d" and "r = take i d"
  have d: "d = r @ CHR ''.'' # l" "CHR ''.'' \<notin> set l" using last_index_split [OF Some] by (simp_all add: l_def r_def)
  have whole: "rev (split_on CHR ''.'' (x @ CHR ''.'' # l)) = l # rev (split_on CHR ''.'' x)" for x
    using split_on_last [OF d(2), of x] by simp
  have "name_labels (r @ CHR ''.'' # l) = l # name_labels r"
  proof (cases r)
    case Nil
    then show ?thesis using split_on_single [OF d(2)] by (simp add: name_labels_def)
  next
    case (Cons a x)
    then show ?thesis using whole [of r] whole [of x] by (simp add: name_labels_def del: split_on.simps)
  qed
  then have "name_labels d = l # name_labels r" by (simp only: d(1) [symmetric])
  then show ?thesis using Some by (simp add: l_def r_def)
qed

section \<open>The trie\<close>

fun sm_accepts :: "shadow_matcher \<Rightarrow> string list \<Rightarrow> bool" where
  "sm_accepts m [] \<longleftrightarrow> sm_exact m \<or> sm_descendants m"
| "sm_accepts m (d # ds) \<longleftrightarrow> sm_descendants m \<or> d \<noteq> [] \<and>
     ((case sm_labels m d of None \<Rightarrow> False | Some c \<Rightarrow> sm_accepts c ds) \<or> (case sm_wildcard m of None \<Rightarrow> False | Some c \<Rightarrow> sm_accepts c ds))"

lemma match_labels_accepts:
  "match_labels m d = (case m of None \<Rightarrow> False | Some c \<Rightarrow> sm_accepts c (name_labels d))"
proof (induction m d rule: match_labels.induct)
  case (2 m domain)
  consider "sm_descendants m" | "\<not> sm_descendants m" "domain = []" | "\<not> sm_descendants m" "domain \<noteq> []" by blast
  then show ?case
  proof cases
    case 1
    then show ?thesis by (cases "name_labels domain") simp_all
  next
    case 2
    then show ?thesis by (simp add: name_labels_def)
  next
    case 3
    obtain label rest where lr: "(case last_index CHR ''.'' domain of None \<Rightarrow> (domain, [])
        | Some i \<Rightarrow> (drop (i + 1) domain, take i domain)) = (label, rest)" by fastforce
    have labels: "name_labels domain = label # name_labels rest"
      using name_labels_step [OF 3(2)] lr by (auto simp: name_labels_def split: option.splits)
    show ?thesis
    proof (cases "label = []")
      case False
      note IH = "2.IH" [OF 3 lr [symmetric] refl False]
      show ?thesis using IH 3 False by (simp add: labels lr)
    qed (use 3 in \<open>simp add: labels lr\<close>)
  qed
qed simp

lemma accepts_empty [simp]: "\<not> sm_accepts empty_matcher ds"
  by (cases ds) (simp_all add: empty_matcher_def)

lemma accepts_pattern:
  "sm_accepts (add_pattern ps inc m) ds \<longleftrightarrow> sm_accepts m ds \<or> pattern_covers inc ps ds"
proof (induction ps inc m arbitrary: ds rule: add_pattern.induct)
  case (1 inc ch w ex de)
  then show ?case by (cases ds) auto
next
  case (2 l ls inc ch w ex de)
  then show ?case by (cases ds) (auto split: option.splits)
qed

interpretation shadow: name_filter empty_matcher
  "\<lambda>r. add_pattern (rev (split_on CHR ''.'' (sd_domain r))) (sd_subdomains r)" sm_accepts rule_covers
  by unfold_locales (simp_all add: accepts_pattern rule_covers_def)

section \<open>Normalisation keeps the meaning\<close>

lemma merge_covers: "(\<exists>d \<in> set (merge_domain r ds). rule_covers d n) \<longleftrightarrow> rule_covers r n \<or> (\<exists>d \<in> set ds. rule_covers d n)"
  by (induction r ds rule: merge_domain.induct) (auto simp: rule_covers_def pattern_covers_or)

lemma merge_distinct: "distinct (map sd_domain ds) \<Longrightarrow> distinct (map sd_domain (merge_domain r ds))
    \<and> sd_domain ` set (merge_domain r ds) = insert (sd_domain r) (sd_domain ` set ds)"
  by (induction r ds rule: merge_domain.induct) auto

text \<open>What an entry of the configuration means: its mask after trimming.\<close>

definition entry_covers :: "(string \<Rightarrow> string option) \<Rightarrow> shadow_domain \<Rightarrow> string list \<Rightarrow> bool" where
  "entry_covers to_ascii r n =
     (case normalize_shadow_pattern to_ascii (sd_domain (shadow_entry r)) of None \<Rightarrow> False
      | Some p \<Rightarrow> pattern_covers (sd_subdomains (shadow_entry r)) (rev (split_on CHR ''.'' p)) n)"

lemma normalize_domains_covers:
  "normalize_domains to_ascii rs acc = Some ds
    \<Longrightarrow> (\<exists>d \<in> set ds. rule_covers d n) \<longleftrightarrow> (\<exists>d \<in> set acc. rule_covers d n) \<or> (\<exists>r \<in> set rs. entry_covers to_ascii r n)"
proof (induction to_ascii rs acc rule: normalize_domains.induct)
  case (2 to_ascii rule rules acc)
  obtain p where p: "normalize_shadow_pattern to_ascii (sd_domain (shadow_entry rule)) = Some p"
    using "2.prems" by (auto simp: Let_def split: option.splits)
  have "entry_covers to_ascii rule n = rule_covers \<lparr>sd_domain = p, sd_subdomains = sd_subdomains (shadow_entry rule)\<rparr> n"
    by (simp add: entry_covers_def p rule_covers_def)
  then show ?case using "2.IH" [OF refl p] "2.prems" by (auto simp: Let_def p merge_covers)
qed simp

lemma normalize_domains_distinct:
  "normalize_domains to_ascii rs acc = Some ds \<Longrightarrow> distinct (map sd_domain acc) \<Longrightarrow> distinct (map sd_domain ds)"
  by (induction to_ascii rs acc rule: normalize_domains.induct) (auto simp: Let_def merge_distinct split: option.splits)

text \<open>
  (C28) Shadow DNS answers for exactly the names the user's masks describe. When a configuration is accepted, its
  normalised form has no mask twice and no servers, and the compiled trie accepts a name if and only if Shadow
  DNS is on, the name without its final dot is not empty and at most 253 bytes, and one of the entries as they
  were written covers it label by label: \<open>*\<close> stands for one whole label and only an entry with subdomains
  (or written with a leading dot or \<open>*.\<close>) reaches below its mask.
\<close>

theorem shadow_names:
  assumes "normalize_shadow to_ascii s = Inr c"
  shows "distinct (map sd_domain (sc_domains c)) \<and> sc_servers c = [] \<and>
    (shadow_matches (new_shadow_matcher (Some c)) name \<longleftrightarrow> sc_enabled s \<and>
      (let d = trim_suffix (to_lower name) ''.'' in
       d \<noteq> [] \<and> length d \<le> 253 \<and> (\<exists>r \<in> set (sc_domains s). entry_covers to_ascii r (name_labels d))))"
proof -
  obtain ds where ds: "normalize_domains to_ascii (sc_domains s) [] = Some ds" "c = s\<lparr>sc_servers := [], sc_domains := ds\<rparr>"
    using assms by (auto simp: normalize_shadow_def split: if_splits option.splits)
  show ?thesis
    using normalize_domains_distinct [OF ds(1)] normalize_domains_covers [OF ds(1)]
    by (auto simp: ds(2) new_shadow_matcher_def shadow_matches_def Let_def match_labels_accepts shadow.accepts_built)
qed

definition sample_shadow :: shadow_config where
  "sample_shadow = \<lparr>sc_enabled = True, sc_servers = [''1.2.3.4''], sc_domains =
     [\<lparr>sd_domain = ''*.VK.*'', sd_subdomains = False\<rparr>, \<lparr>sd_domain = ''ru'', sd_subdomains = False\<rparr>,
      \<lparr>sd_domain = ''vk.*'', sd_subdomains = False\<rparr>]\<rparr>"

theorem shadow_names_witness:
  "let c = \<lparr>sc_enabled = True, sc_servers = [], sc_domains = [\<lparr>sd_domain = ''vk.*'', sd_subdomains = True\<rparr>,
      \<lparr>sd_domain = ''ru'', sd_subdomains = False\<rparr>]\<rparr> in
   shadow_matches (new_shadow_matcher (Some c)) ''M.VK.com.'' \<and> \<not> shadow_matches (new_shadow_matcher (Some c)) ''a.ru''"
proof -
  define c where "c = \<lparr>sc_enabled = True, sc_servers = [], sc_domains = [\<lparr>sd_domain = ''vk.*'', sd_subdomains = True\<rparr>,
      \<lparr>sd_domain = ''ru'', sd_subdomains = False\<rparr>]\<rparr>"
  have c: "normalize_shadow Some sample_shadow = Inr c" unfolding c_def by code_simp
  have "sc_enabled sample_shadow" "let d = trim_suffix (to_lower ''M.VK.com.'') ''.'' in
      d \<noteq> [] \<and> length d \<le> 253 \<and> (\<exists>r \<in> set (sc_domains sample_shadow). entry_covers Some r (name_labels d))"
    by code_simp+
  moreover have "\<not> (let d = trim_suffix (to_lower ''a.ru'') ''.'' in
      d \<noteq> [] \<and> length d \<le> 253 \<and> (\<exists>r \<in> set (sc_domains sample_shadow). entry_covers Some r (name_labels d)))"
    by code_simp
  ultimately show ?thesis using shadow_names [OF c] unfolding c_def [symmetric] Let_def by blast
qed

end
