(* ===== verification/Blocker.thy ===== *)
theory Blocker
  imports Dns_Names "HOL-Library.AList"
begin

text \<open>
  The DNS blocker (\<open>internal/services/dnsserver/blocker.go\<close>, \<open>response_filter.go\<close>): compiling downloaded
  lists, the user's rules and the allow list into a snapshot, the verdict for a name, and the search of an
  answer for blocked names.

  AdGuard's rule engine and the hash that recognises an unchanged list are the parameter \<open>'e filter_engine\<close>.
  Maps whose size the code checks are association lists with distinct keys.
\<close>

section \<open>Data\<close>

record block_source =
  bs_id :: string
  bs_category :: string
  bs_data :: string

record blocking_rule =
  br_domain :: string
  br_category :: string

record block_match =
  bm_category :: string
  bm_rule :: string
  bm_source :: string

record block_entry =
  be_match :: block_match
  be_custom :: bool

record block_stats =
  st_rules :: nat
  st_sources :: "(string \<times> nat) list"
  st_ignored :: "(string \<times> nat) list"
  st_approximate :: bool

record engine_result =
  er_network :: "(bool \<times> string) option"
  er_v4 :: "(bytes \<times> string) list"
  er_v6 :: "(bytes \<times> string) list"

record 'e filter_engine =
  fe_build :: "string \<Rightarrow> 'e option"
  fe_count :: "'e \<Rightarrow> nat"
  fe_match :: "'e \<Rightarrow> string \<Rightarrow> nat \<Rightarrow> bool \<Rightarrow> engine_result"
  fe_hash :: "string \<Rightarrow> string"

record 'e block_snapshot =
  sn_domains :: "(string \<times> block_entry) list"
  sn_subdomains :: "(string \<times> block_entry) list"
  sn_netseer :: "(string \<times> block_entry) list"
  sn_allow :: "string list"
  sn_source_allow :: "string list"
  sn_adguard :: "'e option"
  sn_adguard_id :: string
  sn_adguard_category :: string
  sn_adguard_hash :: string
  sn_stats :: block_stats

datatype block_error = TooManyLists | ListTooLarge | BadListId | DuplicateListId | BadCategory | BadEngine
  | TooManyRules | LineTooLong | BadBlockPattern | BadAllowDomain | UnknownList

definition empty_snapshot :: "'e block_snapshot" where
  "empty_snapshot = \<lparr>sn_domains = [], sn_subdomains = [], sn_netseer = [], sn_allow = [], sn_source_allow = [],
     sn_adguard = None, sn_adguard_id = [], sn_adguard_category = [], sn_adguard_hash = [],
     sn_stats = \<lparr>st_rules = 0, st_sources = [], st_ignored = [], st_approximate = False\<rparr>\<rparr>"

definition count_up :: "string \<Rightarrow> (string \<times> nat) list \<Rightarrow> (string \<times> nat) list" where
  "count_up k m = AList.update k (case map_of m k of None \<Rightarrow> 1 | Some n \<Rightarrow> n + 1) m"

definition count_source :: "string \<Rightarrow> 'e block_snapshot \<Rightarrow> 'e block_snapshot" where
  "count_source k s = s\<lparr>sn_stats := (sn_stats s)\<lparr>st_sources := count_up k (st_sources (sn_stats s))\<rparr>\<rparr>"

definition count_ignored :: "string \<Rightarrow> 'e block_snapshot \<Rightarrow> 'e block_snapshot" where
  "count_ignored k s = s\<lparr>sn_stats := (sn_stats s)\<lparr>st_ignored := count_up k (st_ignored (sn_stats s))\<rparr>\<rparr>"

section \<open>Categories and patterns\<close>

definition combine_categories :: "string \<Rightarrow> string \<Rightarrow> string" where
  "combine_categories a b = (if a = b then a else ''mixed'')"

definition block_category :: "string \<Rightarrow> string \<Rightarrow> string option" where
  "block_category raw fallback =
     (let c0 = trim_space raw; c = (if c0 = [] then fallback else c0) in
      if c \<in> {''ads'', ''trackers'', ''mixed''} then Some c else None)"

definition netseer_suffix :: string where "netseer_suffix = ''-netseer-ipaddr-assoc''"

datatype pattern_kind = DomainRule | SubdomainsRule | NetseerRule

definition normalize_blocking_pattern :: "(string \<Rightarrow> string option) \<Rightarrow> string \<Rightarrow> (string \<times> pattern_kind) option" where
  "normalize_blocking_pattern to_ascii raw =
     (let v = to_lower (trim_space raw) in
      if v = ''*'' @ netseer_suffix @ ''.xy.fbcdn.net'' \<or> v = ''*'' @ netseer_suffix @ ''.xz.fbcdn.net'' then Some (v, NetseerRule)
      else if has_prefix v ''*.'' then
        map_option (\<lambda>parent. (''*.'' @ parent, SubdomainsRule)) (normalize_domain to_ascii (trim_prefix v ''*.''))
      else if CHR ''*'' \<in> set v then None
      else map_option (\<lambda>d. (d, DomainRule)) (normalize_domain to_ascii v))"

definition normalize_allow_domain :: "(string \<Rightarrow> string option) \<Rightarrow> string \<Rightarrow> string option" where
  "normalize_allow_domain to_ascii raw = normalize_domain to_ascii (trim_prefix (trim_space raw) ''*.'')"

section \<open>Lines of a list\<close>

definition is_comment :: "string \<Rightarrow> bool" where
  "is_comment line \<longleftrightarrow> line = [] \<or> has_prefix line ''#'' \<or> has_prefix line ''!'' \<or> has_prefix line ''[''"

definition strip_inline_comment :: "string \<Rightarrow> string option" where
  "strip_inline_comment line =
     (case index_of CHR ''#'' line of None \<Rightarrow> Some line
      | Some i \<Rightarrow>
          if i = 0 \<or> (line ! (i - 1) \<noteq> CHR '' '' \<and> line ! (i - 1) \<noteq> CHR 0x09) then None
          else Some (trim_space (take i line)))"

definition is_sinkhole_ip :: "bytes \<Rightarrow> bool" where
  "is_sinkhole_ip ip \<longleftrightarrow> is_unspecified ip \<or> is_loopback ip"

definition sinkhole_text :: "string \<Rightarrow> bool" where
  "sinkhole_text s = (case parse_ip s of None \<Rightarrow> False | Some ip \<Rightarrow> is_sinkhole_ip ip)"

definition parse_block_line :: "(string \<Rightarrow> string option) \<Rightarrow> string \<Rightarrow> (string \<times> bool) option" where
  "parse_block_line to_ascii raw =
     (let line = trim_space raw in
      if is_comment line then None
      else
        (let abp = has_prefix line ''@@||'' \<or> has_prefix line ''||''; exception = has_prefix line ''@@||'' in
         case (if abp then
                 (let l = (if exception then trim_prefix line ''@@||'' else trim_prefix line ''||'') in
                  if \<not> has_suffix l ''^'' \<or> length (filter (\<lambda>c. c = CHR ''^'') l) \<noteq> 1 then None
                  else Some (trim_suffix l ''^''))
               else
                 (case strip_inline_comment line of None \<Rightarrow> None
                  | Some l \<Rightarrow>
                      (case str_fields l of
                         [] \<Rightarrow> None
                       | [w] \<Rightarrow> Some l
                       | [a, h] \<Rightarrow> if sinkhole_text a then Some h else None
                       | _ \<Rightarrow> None))) of
           None \<Rightarrow> None
         | Some l \<Rightarrow>
             if list_ex (\<lambda>c. c \<in> set ''*/|@$^~?=#'') l \<or> parse_ip l \<noteq> None then None
             else (case normalize_domain to_ascii l of None \<Rightarrow> None
               | Some d \<Rightarrow> if CHR ''.'' \<in> set d then Some (d, exception) else None)))"

definition count_rule_lines :: "string \<Rightarrow> nat" where
  "count_rule_lines data = length (filter (\<lambda>l. \<not> is_comment (trim_space l)) (fst (scan_lines 1048576 data)))"

section \<open>Building a snapshot\<close>

definition snapshot_add :: "string \<Rightarrow> block_entry \<Rightarrow> (string \<times> block_entry) list \<Rightarrow> (string \<times> block_entry) list" where
  "snapshot_add domain entry m =
     (case map_of m domain of None \<Rightarrow> AList.update domain entry m
      | Some old \<Rightarrow>
          if be_custom entry \<and> \<not> be_custom old then AList.update domain entry m
          else if be_custom old \<and> \<not> be_custom entry then m
          else AList.update domain (old\<lparr>be_match := (be_match old)\<lparr>bm_category :=
            combine_categories (bm_category (be_match old)) (bm_category (be_match entry))\<rparr>\<rparr>) m)"

definition max_rules :: nat where "max_rules = 500000"

definition add_domain :: "string \<Rightarrow> string \<Rightarrow> string \<Rightarrow> 'e block_snapshot \<times> string list
    \<Rightarrow> block_error + ('e block_snapshot \<times> string list)" where
  "add_domain src category domain st =
     (case st of (snap, seen) \<Rightarrow>
      if domain \<in> set seen then Inr (snap, seen)
      else (let s1 = count_source src snap;
                e = \<lparr>be_match = \<lparr>bm_category = category, bm_rule = domain, bm_source = src\<rparr>, be_custom = False\<rparr>;
                s2 = s1\<lparr>sn_domains := snapshot_add domain e (sn_domains s1)\<rparr> in
            if length (sn_domains s2) + length (sn_subdomains s2) > max_rules then Inl TooManyRules
            else Inr (s2, domain # seen)))"

definition add_host :: "(string \<Rightarrow> string option) \<Rightarrow> string \<Rightarrow> string \<Rightarrow> string \<Rightarrow> 'e block_snapshot \<times> string list
    \<Rightarrow> block_error + ('e block_snapshot \<times> string list)" where
  "add_host to_ascii src category host st =
     (case normalize_domain to_ascii host of
        Some d \<Rightarrow> if CHR ''.'' \<in> set d then add_domain src category d st else Inr (count_ignored src (fst st), snd st)
      | None \<Rightarrow> Inr (count_ignored src (fst st), snd st))"

definition add_source_line :: "(string \<Rightarrow> string option) \<Rightarrow> string \<Rightarrow> string \<Rightarrow> string \<Rightarrow> 'e block_snapshot \<times> string list
    \<Rightarrow> block_error + ('e block_snapshot \<times> string list)" where
  "add_source_line to_ascii src category text st =
     (let line0 = trim_space text in
      if is_comment line0 then Inr st
      else (case strip_inline_comment line0 of
          None \<Rightarrow> Inr (count_ignored src (fst st), snd st)
        | Some line \<Rightarrow>
            (let fs = str_fields line in
             if length fs > 2 \<and> sinkhole_text (hd fs) then fold_res (add_host to_ascii src category) (tl fs) st
             else (case parse_block_line to_ascii line of
                 None \<Rightarrow> Inr (count_ignored src (fst st), snd st)
               | Some (d, exception) \<Rightarrow>
                   if exception then Inr ((fst st)\<lparr>sn_source_allow := List.insert d (sn_source_allow (fst st))\<rparr>, snd st)
                   else add_domain src category d st))))"

text \<open>One list. The AdGuard list is handed to the engine, which is kept when neither its id nor its text changed.\<close>

definition add_adguard :: "'e filter_engine \<Rightarrow> 'e block_snapshot option \<Rightarrow> string \<Rightarrow> string \<Rightarrow> string \<Rightarrow> 'e block_snapshot
    \<Rightarrow> block_error + 'e block_snapshot" where
  "add_adguard F previous src category data snap0 =
     (let snap = snap0\<lparr>sn_adguard_hash := fe_hash F data\<rparr>;
          done = (\<lambda>s. s\<lparr>sn_adguard_id := src, sn_adguard_category := category\<rparr>);
          set_source = (\<lambda>n s. s\<lparr>sn_stats := (sn_stats s)\<lparr>st_sources := AList.update src n (st_sources (sn_stats s))\<rparr>\<rparr>);
          set_ignored = (\<lambda>n s. s\<lparr>sn_stats := (sn_stats s)\<lparr>st_ignored := AList.update src n (st_ignored (sn_stats s))\<rparr>\<rparr>) in
      case (case previous of None \<Rightarrow> None
          | Some p \<Rightarrow> if sn_adguard p \<noteq> None \<and> sn_adguard_id p = src \<and> sn_adguard_hash p = sn_adguard_hash snap then Some p else None) of
        Some p \<Rightarrow>
          (let s1 = set_source (case map_of (st_sources (sn_stats p)) src of None \<Rightarrow> 0 | Some n \<Rightarrow> n) (snap\<lparr>sn_adguard := sn_adguard p\<rparr>);
               ign = (case map_of (st_ignored (sn_stats p)) src of None \<Rightarrow> 0 | Some n \<Rightarrow> n) in
           Inr (done (if ign > 0 then set_ignored ign s1 else s1)))
      | None \<Rightarrow>
          (case fe_build F data of None \<Rightarrow> Inl BadEngine
           | Some e \<Rightarrow>
               (let s1 = set_source (fe_count F e) (snap\<lparr>sn_adguard := Some e\<rparr>); n = count_rule_lines data in
                Inr (done (if n > fe_count F e then set_ignored (n - fe_count F e) s1 else s1)))))"

definition add_source :: "'e filter_engine \<Rightarrow> (string \<Rightarrow> string option) \<Rightarrow> 'e block_snapshot option \<Rightarrow> block_source
    \<Rightarrow> 'e block_snapshot \<times> string list \<Rightarrow> block_error + ('e block_snapshot \<times> string list)" where
  "add_source F to_ascii previous source st =
     (case st of (snap, seen_ids) \<Rightarrow>
      let src = trim_space (bs_id source) in
      if length (bs_data source) > 8388608 then Inl ListTooLarge
      else if src = [] \<or> length src > 100 then Inl BadListId
      else if src \<in> set seen_ids then Inl DuplicateListId
      else (case block_category (bs_category source) ''mixed'' of None \<Rightarrow> Inl BadCategory
        | Some category \<Rightarrow>
            if src = ''adguard-dns'' then
              map_sum id (\<lambda>s. (s, src # seen_ids)) (add_adguard F previous src category (bs_data source) snap)
            else (case scan_lines 1048576 (bs_data source) of (ls, too_long) \<Rightarrow>
              (case fold_res (add_source_line to_ascii src category) ls (snap, []) of
                 Inl e \<Rightarrow> Inl e
               | Inr (s, _) \<Rightarrow>
                   if length (sn_domains s) + length (sn_subdomains s) > max_rules then Inl TooManyRules
                   else if too_long then Inl LineTooLong
                   else Inr (s, src # seen_ids)))))"

definition add_custom :: "(string \<Rightarrow> string option) \<Rightarrow> blocking_rule \<Rightarrow> 'e block_snapshot \<Rightarrow> block_error + 'e block_snapshot" where
  "add_custom to_ascii rule s =
     (case normalize_blocking_pattern to_ascii (br_domain rule) of None \<Rightarrow> Inl BadBlockPattern
      | Some (domain, kind) \<Rightarrow>
          (case block_category (br_category rule) ''trackers'' of None \<Rightarrow> Inl BadCategory
           | Some category \<Rightarrow>
               (let e = \<lparr>be_match = \<lparr>bm_category = category, bm_rule = domain, bm_source = ''custom''\<rparr>, be_custom = True\<rparr> in
                Inr (case kind of
                   SubdomainsRule \<Rightarrow>
                     (let key = trim_prefix domain ''*.'';
                          s1 = (if map_of (sn_subdomains s) key = None then count_source ''custom'' s else s) in
                      s1\<lparr>sn_subdomains := AList.update key e (sn_subdomains s1)\<rparr>)
                 | NetseerRule \<Rightarrow>
                     (let parent = trim_prefix domain (''*'' @ netseer_suffix @ ''.'');
                          s1 = (if map_of (sn_netseer s) parent = None then count_source ''custom'' s else s) in
                      s1\<lparr>sn_netseer := AList.update parent e (sn_netseer s1)\<rparr>)
                 | DomainRule \<Rightarrow>
                     (let s1 = (case map_of (sn_domains s) domain of None \<Rightarrow> count_source ''custom'' s
                            | Some old \<Rightarrow> if be_custom old then s else count_source ''custom'' s) in
                      s1\<lparr>sn_domains := snapshot_add domain e (sn_domains s1)\<rparr>)))))"

definition add_allow :: "(string \<Rightarrow> string option) \<Rightarrow> string \<Rightarrow> 'e block_snapshot \<Rightarrow> block_error + 'e block_snapshot" where
  "add_allow to_ascii raw s =
     (case normalize_allow_domain to_ascii raw of None \<Rightarrow> Inl BadAllowDomain
      | Some d \<Rightarrow> Inr (s\<lparr>sn_allow := List.insert d (sn_allow s)\<rparr>))"

definition finish_stats :: "'e filter_engine \<Rightarrow> 'e block_snapshot \<Rightarrow> 'e block_snapshot" where
  "finish_stats F s =
     (let n = length (sn_domains s) + length (sn_subdomains s) + length (sn_netseer s) in
      s\<lparr>sn_stats := (case sn_adguard s of
           None \<Rightarrow> (sn_stats s)\<lparr>st_rules := n\<rparr>
         | Some e \<Rightarrow> (sn_stats s)\<lparr>st_rules := n + fe_count F e, st_approximate := True\<rparr>)\<rparr>)"

definition build_snapshot :: "'e filter_engine \<Rightarrow> (string \<Rightarrow> string option) \<Rightarrow> block_source list \<Rightarrow> blocking_rule list \<Rightarrow> string list
    \<Rightarrow> 'e block_snapshot option \<Rightarrow> block_error + 'e block_snapshot" where
  "build_snapshot F to_ascii sources custom allow previous =
     (if length sources > 3 then Inl TooManyLists
      else (case fold_res (add_source F to_ascii previous) sources (empty_snapshot, []) of Inl e \<Rightarrow> Inl e
        | Inr (s1, _) \<Rightarrow>
            (case fold_res (add_custom to_ascii) custom s1 of Inl e \<Rightarrow> Inl e
             | Inr s2 \<Rightarrow>
                 (case fold_res (add_allow to_ascii) allow s2 of Inl e \<Rightarrow> Inl e
                  | Inr s3 \<Rightarrow>
                      (let s4 = finish_stats F s3 in
                       if st_rules (sn_stats s4) > max_rules then Inl TooManyRules else Inr s4)))))"

text \<open>\<open>Replace\<close> publishes the new snapshot, or keeps the old one when the build fails.\<close>

definition replace_snapshot :: "'e filter_engine \<Rightarrow> (string \<Rightarrow> string option) \<Rightarrow> block_source list \<Rightarrow> blocking_rule list \<Rightarrow> string list
    \<Rightarrow> 'e block_snapshot option \<Rightarrow> block_error option \<times> 'e block_snapshot option" where
  "replace_snapshot F to_ascii sources custom allow published =
     (case build_snapshot F to_ascii sources custom allow published of
        Inl e \<Rightarrow> (Some e, published) | Inr s \<Rightarrow> (None, Some s))"

definition blocker_stats :: "'e block_snapshot option \<Rightarrow> block_stats" where
  "blocker_stats published =
     (case published of None \<Rightarrow> \<lparr>st_rules = 0, st_sources = [], st_ignored = [], st_approximate = False\<rparr> | Some s \<Rightarrow> sn_stats s)"

section \<open>The saved filter settings\<close>

record filtering_config =
  fc_enabled :: bool
  fc_lists :: "string list"
  fc_custom :: "blocking_rule list"
  fc_allow :: "string list"

definition filtering_catalog :: "string list" where
  "filtering_catalog = [''adguard-dns'']"

text \<open>Identifiers of feeds of earlier versions stand for the AdGuard list.\<close>

definition legacy_lists :: "string list" where
  "legacy_lists = [''hagezi-light'', ''hagezi-normal'', ''hagezi-pro'', ''oisd-small'', ''blocklist-ads'', ''blocklist-tracking'']"

definition add_list_id :: "string \<Rightarrow> string list \<Rightarrow> block_error + string list" where
  "add_list_id raw ids =
     (let id0 = trim_space raw in
      if id0 = [] \<or> length id0 > 100 then Inl BadListId
      else (let i = (if id0 \<in> set legacy_lists then ''adguard-dns'' else id0) in
        if i \<notin> set filtering_catalog then Inl UnknownList
        else Inr (if i \<in> set ids then ids else ids @ [i])))"

definition normalize_rule :: "(string \<Rightarrow> string option) \<Rightarrow> blocking_rule \<Rightarrow> blocking_rule list \<Rightarrow> block_error + blocking_rule list" where
  "normalize_rule to_ascii r done_rules =
     (case normalize_blocking_pattern to_ascii (br_domain r) of None \<Rightarrow> Inl BadBlockPattern
      | Some (v, kind) \<Rightarrow>
          (case block_category (br_category r) ''trackers'' of None \<Rightarrow> Inl BadCategory
           | Some c \<Rightarrow> Inr (done_rules @ [\<lparr>br_domain = v, br_category = c\<rparr>])))"

definition add_allow_name :: "(string \<Rightarrow> string option) \<Rightarrow> string \<Rightarrow> string list \<Rightarrow> block_error + string list" where
  "add_allow_name to_ascii raw names =
     (case normalize_allow_domain to_ascii raw of None \<Rightarrow> Inl BadAllowDomain
      | Some d \<Rightarrow> Inr (if d \<in> set names then names else names @ [d]))"

definition normalize_filtering :: "(string \<Rightarrow> string option) \<Rightarrow> filtering_config \<Rightarrow> block_error + filtering_config" where
  "normalize_filtering to_ascii cfg =
     (if length (fc_custom cfg) > 2000 \<or> length (fc_allow cfg) > 2000 then Inl TooManyRules
      else (case fold_res add_list_id (fc_lists cfg) [] of Inl e \<Rightarrow> Inl e
        | Inr ids \<Rightarrow>
            (case fold_res (normalize_rule to_ascii) (fc_custom cfg) [] of Inl e \<Rightarrow> Inl e
             | Inr custom \<Rightarrow>
                 (case fold_res (add_allow_name to_ascii) (fc_allow cfg) [] of Inl e \<Rightarrow> Inl e
                  | Inr allow \<Rightarrow> Inr (cfg\<lparr>fc_lists := ids, fc_custom := custom, fc_allow := allow\<rparr>)))))"

section \<open>The verdict for a name\<close>

datatype verdict = Blocked block_match | Allowed | NoRule

text \<open>A name and its parents.\<close>

function suffixes_of :: "string \<Rightarrow> string list" where
  "suffixes_of d = d # (case index_of CHR ''.'' d of None \<Rightarrow> [] | Some i \<Rightarrow> suffixes_of (drop (i + 1) d))"
  by pat_completeness auto
termination by (relation "measure length") (auto simp: index_of_def split: if_splits dest: length_pos_if_in_set)

declare suffixes_of.simps [simp del]

fun walk_rules :: "'e block_snapshot \<Rightarrow> bool \<Rightarrow> string list \<Rightarrow> block_entry option \<times> block_entry option
    \<Rightarrow> block_entry option \<times> block_entry option" where
  "walk_rules s is_child [] lc = lc"
| "walk_rules s is_child (x # xs) (list, custom) =
     (let (l1, c1) = (case map_of (sn_domains s) x of None \<Rightarrow> (list, custom)
            | Some e \<Rightarrow> if be_custom e \<and> custom = None then (list, Some e)
                        else if \<not> be_custom e \<and> list = None then (Some e, custom) else (list, custom));
          c2 = (if is_child \<and> c1 = None then map_of (sn_subdomains s) x else c1) in
      walk_rules s True xs (l1, c2))"

definition netseer_override :: "'e block_snapshot \<Rightarrow> string \<Rightarrow> block_entry option \<Rightarrow> block_entry option" where
  "netseer_override s d custom =
     (case index_of CHR ''.'' d of None \<Rightarrow> custom
      | Some i \<Rightarrow>
          (let label = take i d; parent = drop (i + 1) d in
           case map_of (sn_netseer s) parent of None \<Rightarrow> custom
           | Some e \<Rightarrow>
               if has_suffix label netseer_suffix \<and> length label > length netseer_suffix
                  \<and> (case custom of None \<Rightarrow> True | Some c \<Rightarrow> bm_rule (be_match c) \<noteq> d)
               then Some e else custom))"

definition adguard_verdict :: "'e filter_engine \<Rightarrow> 'e block_snapshot \<Rightarrow> string \<Rightarrow> nat \<Rightarrow> bool \<Rightarrow> block_entry option \<Rightarrow> verdict" where
  "adguard_verdict F s d qtype answer list =
     (case sn_adguard s of None \<Rightarrow> NoRule
      | Some e \<Rightarrow>
          (let r = fe_match F e d qtype answer in
           case er_network r of
             Some (whitelist, text) \<Rightarrow>
               if whitelist then Allowed
               else Blocked \<lparr>bm_category = (case list of None \<Rightarrow> sn_adguard_category s
                   | Some l \<Rightarrow> combine_categories (sn_adguard_category s) (bm_category (be_match l))),
                 bm_rule = text, bm_source = sn_adguard_id s\<rparr>
           | None \<Rightarrow>
               (case find (\<lambda>(ip, t). is_sinkhole_ip ip) (er_v4 r @ er_v6 r) of
                  Some (ip, text) \<Rightarrow> Blocked \<lparr>bm_category = sn_adguard_category s, bm_rule = text, bm_source = sn_adguard_id s\<rparr>
                | None \<Rightarrow> NoRule)))"

definition judge :: "'e filter_engine \<Rightarrow> 'e block_snapshot \<Rightarrow> string \<Rightarrow> nat \<Rightarrow> bool \<Rightarrow> verdict" where
  "judge F s d qtype answer =
     (if list_ex (\<lambda>x. x \<in> set (sn_allow s)) (suffixes_of d) then Allowed
      else (case walk_rules s False (suffixes_of d) (None, None) of (list, custom0) \<Rightarrow>
        (case netseer_override s d custom0 of
           Some c \<Rightarrow> Blocked (be_match c)
         | None \<Rightarrow>
             if list_ex (\<lambda>x. x \<in> set (sn_source_allow s)) (suffixes_of d) then Allowed
             else (case adguard_verdict F s d qtype answer list of
                 NoRule \<Rightarrow> (case list of Some l \<Rightarrow> Blocked (be_match l) | None \<Rightarrow> NoRule)
               | v \<Rightarrow> v))))"

definition evaluate_dns :: "'e filter_engine \<Rightarrow> (string \<Rightarrow> string option) \<Rightarrow> 'e block_snapshot option \<Rightarrow> string \<Rightarrow> nat \<Rightarrow> bool \<Rightarrow> verdict" where
  "evaluate_dns F to_ascii published raw qtype answer =
     (case published of None \<Rightarrow> NoRule
      | Some s \<Rightarrow>
          (case (case normalized_lookup_domain to_ascii raw of
                   Some d \<Rightarrow> Some d
                 | None \<Rightarrow> if answer then map_option ip_string (parse_ip raw) else None) of
             None \<Rightarrow> NoRule
           | Some d \<Rightarrow> judge F s d qtype answer))"

definition match_dns :: "'e filter_engine \<Rightarrow> (string \<Rightarrow> string option) \<Rightarrow> 'e block_snapshot option \<Rightarrow> string \<Rightarrow> nat \<Rightarrow> bool \<Rightarrow> block_match option" where
  "match_dns F to_ascii published raw qtype answer =
     (case evaluate_dns F to_ascii published raw qtype answer of Blocked m \<Rightarrow> Some m | _ \<Rightarrow> None)"

section \<open>The filter of an answer\<close>

datatype rr_data = Cname string | AddrA bytes | AddrAaaa bytes | Https "bytes list" | Svcb "bytes list" | Soa nat | OtherData

record answer_rr =
  ar_owner :: string
  ar_data :: rr_data

definition type_a :: nat where "type_a = 1"
definition type_cname :: nat where "type_cname = 5"
definition type_aaaa :: nat where "type_aaaa = 28"
definition type_svcb :: nat where "type_svcb = 64"
definition type_https :: nat where "type_https = 65"

record outcome =
  oc_domain :: string
  oc_blocked :: bool
  oc_cached :: bool
  oc_category :: string
  oc_rule :: string
  oc_source :: string
  oc_block_domain :: string
  oc_route :: string
  oc_upstream :: string

definition set_blocked :: "string \<Rightarrow> block_match \<Rightarrow> outcome \<Rightarrow> outcome" where
  "set_blocked domain m out = out\<lparr>oc_blocked := True, oc_cached := False, oc_category := bm_category m, oc_rule := bm_rule m,
     oc_source := bm_source m, oc_block_domain := domain, oc_route := ''blocked'', oc_upstream := []\<rparr>"

text \<open>The names and addresses of a record, with the record type they are checked under.\<close>

definition record_targets :: "(string \<Rightarrow> string option) \<Rightarrow> answer_rr \<Rightarrow> (string \<times> nat) list" where
  "record_targets to_ascii rr =
     (case ar_data rr of
        Cname t \<Rightarrow> (case normalized_lookup_domain to_ascii t of None \<Rightarrow> [] | Some d \<Rightarrow> [(d, type_cname)])
      | AddrA ip \<Rightarrow> [(ip_string ip, type_a)]
      | AddrAaaa ip \<Rightarrow> [(ip_string ip, type_aaaa)]
      | Https ips \<Rightarrow> map (\<lambda>ip. (ip_string ip, type_https)) ips
      | Svcb ips \<Rightarrow> map (\<lambda>ip. (ip_string ip, type_svcb)) ips
      | _ \<Rightarrow> [])"

definition alias_target :: "(string \<Rightarrow> string option) \<Rightarrow> answer_rr \<Rightarrow> string option" where
  "alias_target to_ascii rr = (case ar_data rr of Cname t \<Rightarrow> normalized_lookup_domain to_ascii t | _ \<Rightarrow> None)"

definition owner_name :: "answer_rr \<Rightarrow> string" where
  "owner_name rr = trim_suffix (to_lower (ar_owner rr)) ''.''"

text \<open>The records of one owner: the first blocked target, or the visited names and the queue afterwards.\<close>

fun scan_records :: "(string \<Rightarrow> nat \<Rightarrow> block_match option) \<Rightarrow> (string \<Rightarrow> string option) \<Rightarrow> answer_rr list \<Rightarrow> string list \<times> string list
    \<Rightarrow> (string \<times> block_match) + (string list \<times> string list)" where
  "scan_records blocked to_ascii [] st = Inr st"
| "scan_records blocked to_ascii (rr # rrs) (visited, queue) =
     (case find (\<lambda>(t, ty). blocked t ty \<noteq> None) (record_targets to_ascii rr) of
        Some (t, ty) \<Rightarrow> Inl (t, the (blocked t ty))
      | None \<Rightarrow>
          (case alias_target to_ascii rr of
             Some t \<Rightarrow> scan_records blocked to_ascii rrs (if t \<in> set visited then (visited, queue) else (t # visited, queue @ [t]))
           | None \<Rightarrow> scan_records blocked to_ascii rrs (visited, queue)))"

definition alias_names :: "(string \<Rightarrow> string option) \<Rightarrow> answer_rr list \<Rightarrow> string set" where
  "alias_names to_ascii rrs = {t. \<exists>rr \<in> set rrs. alias_target to_ascii rr = Some t}"

lemma finite_alias_names [simp]: "finite (alias_names to_ascii rrs)"
  by (rule finite_subset [of _ "the ` alias_target to_ascii ` set rrs"]) (force simp: alias_names_def)+

lemma scan_records_measure:
  "scan_records blocked to_ascii rrs (visited, queue) = Inr (visited', queue') \<Longrightarrow> set rrs \<subseteq> set answer
    \<Longrightarrow> length queue' + card (alias_names to_ascii answer - set visited')
        = length queue + card (alias_names to_ascii answer - set visited)"
proof (induction rrs arbitrary: visited queue)
  case (Cons rr rrs)
  have none: "find (\<lambda>(t, ty). blocked t ty \<noteq> None) (record_targets to_ascii rr) = None"
    using Cons.prems(1) by (auto split: option.splits)
  show ?case
  proof (cases "alias_target to_ascii rr")
    case None
    then show ?thesis using Cons none by simp
  next
    case (Some t)
    have "t \<in> alias_names to_ascii answer" using Some Cons.prems(2) by (auto simp: alias_names_def)
    then have "t \<notin> set visited \<Longrightarrow> Suc (card (alias_names to_ascii answer - set (t # visited)))
        = card (alias_names to_ascii answer - set visited)"
      using card_Suc_Diff1 [of "alias_names to_ascii answer - set visited" t]
      by (simp add: Diff_insert [symmetric] insert_commute)
    then show ?thesis using Cons none Some by (cases "t \<in> set visited") auto
  qed
qed simp

function search_answer :: "(string \<Rightarrow> nat \<Rightarrow> block_match option) \<Rightarrow> (string \<Rightarrow> string option) \<Rightarrow> answer_rr list \<Rightarrow> string list \<Rightarrow> string list
    \<Rightarrow> (string \<times> block_match) option" where
  "search_answer blocked to_ascii answer visited [] = None"
| "search_answer blocked to_ascii answer visited (owner # queue) =
     (case scan_records blocked to_ascii (filter (\<lambda>rr. owner_name rr = owner) answer) (visited, queue) of
        Inl b \<Rightarrow> Some b
      | Inr (visited', queue') \<Rightarrow> search_answer blocked to_ascii answer visited' queue')"
  by pat_completeness auto
termination
proof (relation "measure (\<lambda>(b, a, ans, v, q). length q + card (alias_names a ans - set v))")
  fix blocked to_ascii answer visited owner queue st visited' queue'
  assume "scan_records blocked to_ascii (filter (\<lambda>rr. owner_name rr = owner) answer) (visited, queue) = Inr st"
    and "(visited', queue') = st"
  then show "((blocked, to_ascii, answer, visited', queue'), (blocked, to_ascii, answer, visited, owner # queue))
      \<in> measure (\<lambda>(b, a, ans, v, q). length q + card (alias_names a ans - set v))"
    using scan_records_measure [of blocked to_ascii "filter (\<lambda>rr. owner_name rr = owner) answer" visited queue visited' queue' answer]
    by auto
qed simp

definition filter_response :: "'e filter_engine \<Rightarrow> (string \<Rightarrow> string option) \<Rightarrow> 'e block_snapshot option option \<Rightarrow> nat list \<Rightarrow> answer_rr list
    \<Rightarrow> outcome \<Rightarrow> bool \<times> outcome" where
  "filter_response F to_ascii blocker questions answer out =
     (case (blocker, questions) of
        (Some published, [qtype]) \<Rightarrow>
          (let domain = oc_domain out in
           case evaluate_dns F to_ascii published domain qtype False of
             Blocked m \<Rightarrow> (True, set_blocked domain m out)
           | v \<Rightarrow>
               (if answer = [] \<or> v = Allowed then (False, out)
                else (case search_answer (\<lambda>t ty. match_dns F to_ascii published t ty True) to_ascii answer [domain] [domain] of
                    Some (t, m) \<Rightarrow> (True, set_blocked t m out)
                  | None \<Rightarrow> (False, out))))
      | _ \<Rightarrow> (False, out))"

section \<open>The rules a snapshot stands for\<close>

datatype block_rule = Listed string | Excepted string | CustomDomain string | CustomSub string | CustomNetseer string | UserAllowed string

definition host_rules :: "(string \<Rightarrow> string option) \<Rightarrow> string \<Rightarrow> block_rule set" where
  "host_rules to_ascii h =
     (case normalize_domain to_ascii h of None \<Rightarrow> {} | Some d \<Rightarrow> if CHR ''.'' \<in> set d then {Listed d} else {})"

definition line_rules :: "(string \<Rightarrow> string option) \<Rightarrow> string \<Rightarrow> block_rule set" where
  "line_rules to_ascii text =
     (let line0 = trim_space text in
      if is_comment line0 then {}
      else (case strip_inline_comment line0 of None \<Rightarrow> {}
        | Some line \<Rightarrow>
            (let fs = str_fields line in
             if length fs > 2 \<and> sinkhole_text (hd fs) then
               (\<Union>h \<in> set (tl fs). host_rules to_ascii h)
             else (case parse_block_line to_ascii line of None \<Rightarrow> {}
               | Some (d, exception) \<Rightarrow> {if exception then Excepted d else Listed d}))))"

definition source_rules :: "(string \<Rightarrow> string option) \<Rightarrow> block_source \<Rightarrow> block_rule set" where
  "source_rules to_ascii src =
     (if trim_space (bs_id src) = ''adguard-dns'' then {}
      else (\<Union>l \<in> set (fst (scan_lines 1048576 (bs_data src))). line_rules to_ascii l))"

definition custom_rules :: "(string \<Rightarrow> string option) \<Rightarrow> blocking_rule \<Rightarrow> block_rule set" where
  "custom_rules to_ascii r =
     (case normalize_blocking_pattern to_ascii (br_domain r) of None \<Rightarrow> {}
      | Some (d, DomainRule) \<Rightarrow> {CustomDomain d}
      | Some (d, SubdomainsRule) \<Rightarrow> {CustomSub (trim_prefix d ''*.'')}
      | Some (d, NetseerRule) \<Rightarrow> {CustomNetseer (trim_prefix d (''*'' @ netseer_suffix @ ''.''))})"

definition allow_rules :: "(string \<Rightarrow> string option) \<Rightarrow> string \<Rightarrow> block_rule set" where
  "allow_rules to_ascii a = (case normalize_allow_domain to_ascii a of None \<Rightarrow> {} | Some d \<Rightarrow> {UserAllowed d})"

text \<open>The rules a snapshot stores. A custom rule replaces the listed one of the same name.\<close>

definition domain_ok :: "block_rule set \<Rightarrow> string \<Rightarrow> block_entry option \<Rightarrow> bool" where
  "domain_ok V k e =
     (case e of None \<Rightarrow> Listed k \<notin> V \<and> CustomDomain k \<notin> V
      | Some e \<Rightarrow> if be_custom e then CustomDomain k \<in> V \<and> bm_source (be_match e) = ''custom''
                  else Listed k \<in> V \<and> CustomDomain k \<notin> V \<and> bm_rule (be_match e) = k)"

definition pattern_ok :: "block_rule set \<Rightarrow> block_rule \<Rightarrow> block_entry option \<Rightarrow> bool" where
  "pattern_ok V r e = (case e of None \<Rightarrow> r \<notin> V | Some e \<Rightarrow> r \<in> V \<and> bm_source (be_match e) = ''custom'')"

definition rules_are :: "'e block_snapshot \<Rightarrow> block_rule set \<Rightarrow> bool" where
  "rules_are s V \<longleftrightarrow> (\<forall>k. domain_ok V k (map_of (sn_domains s) k))
     \<and> (\<forall>k. pattern_ok V (CustomSub k) (map_of (sn_subdomains s) k))
     \<and> (\<forall>k. pattern_ok V (CustomNetseer k) (map_of (sn_netseer s) k))
     \<and> (\<forall>k. k \<in> set (sn_allow s) \<longleftrightarrow> UserAllowed k \<in> V)
     \<and> (\<forall>k. k \<in> set (sn_source_allow s) \<longleftrightarrow> Excepted k \<in> V)"

lemma domain_ok_other [simp]:
  "r \<noteq> Listed k \<Longrightarrow> r \<noteq> CustomDomain k \<Longrightarrow> domain_ok (insert r V) k e = domain_ok V k e"
  by (auto simp: domain_ok_def split: option.splits)

lemma pattern_ok_other [simp]: "r \<noteq> r' \<Longrightarrow> pattern_ok (insert r V) r' e = pattern_ok V r' e"
  by (auto simp: pattern_ok_def split: option.splits)

lemma pattern_ok_new [simp]:
  "pattern_ok (insert r V) r (Some \<lparr>be_match = \<lparr>bm_category = c, bm_rule = d, bm_source = ''custom''\<rparr>, be_custom = b\<rparr>)"
  by (simp add: pattern_ok_def)

lemma rules_are_stats [simp]:
  "rules_are (count_source k s) V = rules_are s V" "rules_are (count_ignored k s) V = rules_are s V"
  by (simp_all add: rules_are_def count_source_def count_ignored_def)

lemma count_source_fields [simp]:
  "sn_domains (count_source k s) = sn_domains s" "sn_subdomains (count_source k s) = sn_subdomains s" "sn_netseer (count_source k s) = sn_netseer s"
  by (simp_all add: count_source_def)

lemma rules_are_empty: "rules_are empty_snapshot {}"
  by (simp add: rules_are_def empty_snapshot_def domain_ok_def pattern_ok_def)

lemma snapshot_add_at:
  "map_of (snapshot_add d e m) k =
     (if k \<noteq> d then map_of m k
      else (case map_of m d of None \<Rightarrow> Some e
        | Some old \<Rightarrow> if be_custom e \<and> \<not> be_custom old then Some e
            else if be_custom old \<and> \<not> be_custom e then Some old
            else Some (old\<lparr>be_match := (be_match old)\<lparr>bm_category :=
              combine_categories (bm_category (be_match old)) (bm_category (be_match e))\<rparr>\<rparr>)))"
  by (auto simp: snapshot_add_def update_conv' split: option.splits)

lemma snapshot_add_listed:
  assumes "rules_are s V"
  shows "rules_are (s\<lparr>sn_domains := snapshot_add d \<lparr>be_match = \<lparr>bm_category = c, bm_rule = d, bm_source = src\<rparr>, be_custom = False\<rparr> (sn_domains s)\<rparr>)
    (insert (Listed d) V)"
proof -
  have "domain_ok V d (map_of (sn_domains s) d)" using assms by (simp add: rules_are_def)
  then have "domain_ok (insert (Listed d) V) k (map_of (snapshot_add d \<lparr>be_match = \<lparr>bm_category = c, bm_rule = d, bm_source = src\<rparr>, be_custom = False\<rparr> (sn_domains s)) k)"
    if "domain_ok V k (map_of (sn_domains s) k)" for k
    using that by (cases "k = d") (auto simp: snapshot_add_at domain_ok_def split: option.splits if_splits)
  then show ?thesis using assms by (simp add: rules_are_def)
qed

lemma snapshot_add_custom:
  assumes "rules_are s V"
  shows "rules_are (s\<lparr>sn_domains := snapshot_add d \<lparr>be_match = \<lparr>bm_category = c, bm_rule = r, bm_source = ''custom''\<rparr>, be_custom = True\<rparr> (sn_domains s)\<rparr>)
    (insert (CustomDomain d) V)"
proof -
  have "domain_ok V d (map_of (sn_domains s) d)" using assms by (simp add: rules_are_def)
  then have "domain_ok (insert (CustomDomain d) V) k (map_of (snapshot_add d \<lparr>be_match = \<lparr>bm_category = c, bm_rule = r, bm_source = ''custom''\<rparr>, be_custom = True\<rparr> (sn_domains s)) k)"
    if "domain_ok V k (map_of (sn_domains s) k)" for k
    using that by (cases "k = d") (auto simp: snapshot_add_at domain_ok_def split: option.splits if_splits)
  then show ?thesis using assms by (simp add: rules_are_def)
qed

section \<open>Building stores the rules of the sources\<close>

text \<open>While a list is read: the names already seen are stored.\<close>

definition reading :: "'e block_snapshot \<times> string list \<Rightarrow> block_rule set \<Rightarrow> bool" where
  "reading st V \<longleftrightarrow> rules_are (fst st) V \<and> (\<forall>d \<in> set (snd st). Listed d \<in> V)"

lemma add_domain_reads: "reading st V \<Longrightarrow> add_domain src c d st = Inr st' \<Longrightarrow> reading st' (V \<union> {Listed d})"
  using snapshot_add_listed [of "count_source src (fst st)" V d c src]
  by (auto simp: reading_def add_domain_def Let_def insert_absorb split: prod.splits if_splits)

lemma add_host_reads:
  "reading st V \<Longrightarrow> add_host to_ascii src c h st = Inr st' \<Longrightarrow> reading st' (V \<union> host_rules to_ascii h)"
  using add_domain_reads [of st V src c _ st']
  by (auto simp: add_host_def host_rules_def reading_def split: option.splits if_splits)

lemma add_except_reads:
  "reading st V \<Longrightarrow> reading ((fst st)\<lparr>sn_source_allow := List.insert d (sn_source_allow (fst st))\<rparr>, snd st) (V \<union> {Excepted d})"
  by (auto simp: reading_def rules_are_def)

lemma count_ignored_reads: "reading st V \<Longrightarrow> reading (count_ignored k (fst st), snd st) V"
  by (simp add: reading_def)

lemma add_source_line_reads:
  assumes "reading st V" "add_source_line to_ascii src c text st = Inr st'"
  shows "reading st' (V \<union> line_rules to_ascii text)"
proof -
  have hosts: "reading st' (V \<union> (\<Union>h \<in> set hs. host_rules to_ascii h))"
    if "fold_res (add_host to_ascii src c) hs st = Inr st'" for hs
    by (rule fold_res_collect [where R = reading and g = "host_rules to_ascii", OF that assms(1)]) (rule add_host_reads)
  show ?thesis
    using assms hosts add_except_reads [OF assms(1)] add_domain_reads [OF assms(1), where st' = st'] count_ignored_reads [OF assms(1)]
    by (auto simp: add_source_line_def line_rules_def Let_def split: option.splits if_splits prod.splits)
qed

lemma add_source_stores:
  assumes "rules_are s V" "add_source F to_ascii previous source (s, ids) = Inr (s', ids')"
  shows "rules_are s' (V \<union> source_rules to_ascii source)"
proof (cases "trim_space (bs_id source) = ''adguard-dns''")
  case True
  then have "rules_are s' V"
    using assms by (auto simp: add_source_def add_adguard_def Let_def rules_are_def map_sum_def
        split: if_splits option.splits sum.splits)
  then show ?thesis using True by (simp add: source_rules_def)
next
  case False
  obtain ls long where ls: "scan_lines 1048576 (bs_data source) = (ls, long)" by fastforce
  obtain c seen where c: "fold_res (add_source_line to_ascii (trim_space (bs_id source)) c) ls (s, []) = Inr (s', seen)"
    using assms(2) False by (auto simp: add_source_def ls Let_def split: if_splits option.splits sum.splits prod.splits)
  have "reading (s, []) V" using assms(1) by (simp add: reading_def)
  then have "reading (s', seen) (V \<union> (\<Union>l \<in> set ls. line_rules to_ascii l))"
    by (rule fold_res_collect [where R = reading and g = "line_rules to_ascii", OF c]) (rule add_source_line_reads)
  then show ?thesis using False by (simp add: source_rules_def ls reading_def)
qed

lemma store_sub:
  "rules_are s V \<Longrightarrow> rules_are (s\<lparr>sn_subdomains := AList.update k \<lparr>be_match = \<lparr>bm_category = c, bm_rule = d, bm_source = ''custom''\<rparr>,
     be_custom = True\<rparr> (sn_subdomains s)\<rparr>) (insert (CustomSub k) V)"
  by (auto simp: rules_are_def update_conv')

lemma store_netseer:
  "rules_are s V \<Longrightarrow> rules_are (s\<lparr>sn_netseer := AList.update k \<lparr>be_match = \<lparr>bm_category = c, bm_rule = d, bm_source = ''custom''\<rparr>,
     be_custom = True\<rparr> (sn_netseer s)\<rparr>) (insert (CustomNetseer k) V)"
  by (auto simp: rules_are_def update_conv')

lemma counted: "rules_are s V \<Longrightarrow> rules_are (if b then count_source k s else s) V"
  by simp

lemma add_custom_stores:
  assumes "rules_are s V" "add_custom to_ascii r s = Inr s'"
  shows "rules_are s' (V \<union> custom_rules to_ascii r)"
proof -
  obtain d kind c where d: "normalize_blocking_pattern to_ascii (br_domain r) = Some (d, kind)"
    "block_category (br_category r) ''trackers'' = Some c"
    using assms(2) by (auto simp: add_custom_def split: option.splits)
  show ?thesis
  proof (cases kind)
    case DomainRule
    then show ?thesis
      using assms snapshot_add_custom [OF assms(1)] snapshot_add_custom [of "count_source ''custom'' s" V]
      by (auto simp: add_custom_def d custom_rules_def Let_def split: option.splits if_splits)
  next
    case SubdomainsRule
    then show ?thesis
      using assms(2) store_sub [OF counted [OF assms(1)], where k = "trim_prefix d ''*.''" and c = c and d = d]
      by (auto simp: add_custom_def d custom_rules_def Let_def)
  next
    case NetseerRule
    then show ?thesis
      using assms(2) store_netseer [OF counted [OF assms(1)], where k = "trim_prefix d (''*'' @ netseer_suffix @ ''.'')" and c = c and d = d]
      by (auto simp: add_custom_def d custom_rules_def Let_def)
  qed
qed

lemma add_allow_stores: "rules_are s V \<Longrightarrow> add_allow to_ascii a s = Inr s' \<Longrightarrow> rules_are s' (V \<union> allow_rules to_ascii a)"
  by (auto simp: add_allow_def allow_rules_def rules_are_def split: option.splits)

definition all_rules :: "(string \<Rightarrow> string option) \<Rightarrow> block_source list \<Rightarrow> blocking_rule list \<Rightarrow> string list \<Rightarrow> block_rule set" where
  "all_rules to_ascii sources custom allow =
     (\<Union>x \<in> set sources. source_rules to_ascii x) \<union> (\<Union>x \<in> set custom. custom_rules to_ascii x) \<union> (\<Union>x \<in> set allow. allow_rules to_ascii x)"

lemma build_stores:
  assumes "build_snapshot F to_ascii sources custom allow previous = Inr s"
  shows "rules_are s (all_rules to_ascii sources custom allow)"
proof -
  obtain s1 ids s2 s3 where b: "fold_res (add_source F to_ascii previous) sources (empty_snapshot, []) = Inr (s1, ids)"
    "fold_res (add_custom to_ascii) custom s1 = Inr s2" "fold_res (add_allow to_ascii) allow s2 = Inr s3" "s = finish_stats F s3"
    using assms by (auto simp: build_snapshot_def Let_def split: if_splits sum.splits)
  have "rules_are (fst (s1, ids)) ({} \<union> (\<Union>x \<in> set sources. source_rules to_ascii x))"
    by (rule fold_res_collect [where R = "\<lambda>st. rules_are (fst st)" and g = "source_rules to_ascii", OF b(1)])
      (use rules_are_empty add_source_stores in auto)
  then have "rules_are s1 (\<Union>x \<in> set sources. source_rules to_ascii x)" by simp
  from fold_res_collect [where R = rules_are and g = "custom_rules to_ascii", OF b(2) this add_custom_stores]
  have "rules_are s2 ((\<Union>x \<in> set sources. source_rules to_ascii x) \<union> (\<Union>x \<in> set custom. custom_rules to_ascii x))" .
  from fold_res_collect [where R = rules_are and g = "allow_rules to_ascii", OF b(3) this add_allow_stores]
  have "rules_are s3 (all_rules to_ascii sources custom allow)" by (simp add: all_rules_def)
  then show ?thesis by (simp add: b(4) finish_stats_def Let_def rules_are_def split: option.splits)
qed

section \<open>Rules and names\<close>

definition name_covers :: "string \<Rightarrow> string \<Rightarrow> bool" where
  "name_covers k d \<longleftrightarrow> d = k \<or> has_suffix d (CHR ''.'' # k)"

fun user_allows :: "block_rule \<Rightarrow> string \<Rightarrow> bool" where
  "user_allows (UserAllowed k) d = name_covers k d"
| "user_allows _ d = False"

fun custom_blocks :: "block_rule \<Rightarrow> string \<Rightarrow> bool" where
  "custom_blocks (CustomDomain k) d = name_covers k d"
| "custom_blocks (CustomSub k) d = has_suffix d (CHR ''.'' # k)"
| "custom_blocks (CustomNetseer k) d =
     (case index_of CHR ''.'' d of None \<Rightarrow> False
      | Some i \<Rightarrow> drop (i + 1) d = k \<and> has_suffix (take i d) netseer_suffix \<and> length (take i d) > length netseer_suffix)"
| "custom_blocks _ d = False"

fun list_excepts :: "block_rule \<Rightarrow> string \<Rightarrow> bool" where
  "list_excepts (Excepted k) d = name_covers k d"
| "list_excepts _ d = False"

fun list_blocks :: "block_rule \<Rightarrow> string \<Rightarrow> bool" where
  "list_blocks (Listed k) d = name_covers k d"
| "list_blocks _ d = False"

lemma suffixes_split: "\<exists>ps. suffixes_of d = d # ps"
  using suffixes_of.simps [of d] by blast

lemma suffix_head: "set (suffixes_of d) = insert d (set (tl (suffixes_of d)))" and suffixes_nonempty: "suffixes_of d \<noteq> []"
  using suffixes_split [of d] by auto

lemma index_split:
  assumes "index_of c s = Some i"
  shows "s = take i s @ c # drop (i + 1) s \<and> c \<notin> set (take i s)"
proof -
  have i: "i < length s" "s ! i = c" "c \<notin> set (take i s)" using index_of_Some [OF assms] by simp_all
  show ?thesis by (intro conjI i(3)) (rule id_take_nth_drop [OF i(1), unfolded i(2) Suc_eq_plus1])
qed

lemma strict_suffixes: "x \<in> set (tl (suffixes_of d)) \<longleftrightarrow> has_suffix d (CHR ''.'' # x)"
proof (induction d rule: suffixes_of.induct)
  case (1 d)
  show ?case
  proof (cases "index_of CHR ''.'' d")
    case None
    then have "CHR ''.'' \<notin> set d" by (simp add: index_of_def split: if_splits)
    then have "\<not> has_suffix d (CHR ''.'' # x)" by (auto simp: has_suffix_iff)
    then show ?thesis by (subst suffixes_of.simps) (simp add: None)
  next
    case (Some i)
    define r where "r = drop (i + 1) d"
    have d: "d = take i d @ CHR ''.'' # r" "CHR ''.'' \<notin> set (take i d)" using index_split [OF Some] by (simp_all add: r_def)
    have "has_suffix d (CHR ''.'' # x) \<longleftrightarrow> x = r \<or> has_suffix r (CHR ''.'' # x)"
    proof
      assume "has_suffix d (CHR ''.'' # x)"
      then obtain t where "take i d @ CHR ''.'' # r = t @ CHR ''.'' # x" using d(1) by (auto simp: has_suffix_iff)
      then show "x = r \<or> has_suffix r (CHR ''.'' # x)"
        using d(2) by (auto simp: append_eq_append_conv2 has_suffix_iff append_eq_Cons_conv Cons_eq_append_conv)
    next
      assume "x = r \<or> has_suffix r (CHR ''.'' # x)"
      then show "has_suffix d (CHR ''.'' # x)"
      proof
        assume "has_suffix r (CHR ''.'' # x)"
        then obtain t where "r = t @ CHR ''.'' # x" by (auto simp: has_suffix_iff)
        then have "d = (take i d @ CHR ''.'' # t) @ CHR ''.'' # x" using d(1) by simp
        then show ?thesis unfolding has_suffix_iff by blast
      qed (use d(1) in \<open>auto simp: has_suffix_iff\<close>)
    qed
    moreover have "tl (suffixes_of d) = suffixes_of r" by (subst suffixes_of.simps) (simp add: Some r_def)
    ultimately show ?thesis using "1.IH" [OF Some] suffix_head [of r] by (simp add: r_def)
  qed
qed

lemma suffixes_cover: "x \<in> set (suffixes_of d) \<longleftrightarrow> name_covers x d"
  using suffix_head [of d] strict_suffixes [of x d] by (auto simp: name_covers_def)

text \<open>The user's allow list and the exceptions of the lists are filters over the parents of a name.\<close>

interpretation allow_list: name_filter "[] :: string list" List.insert "\<lambda>s d. list_ex (\<lambda>x. x \<in> set s) (suffixes_of d)" name_covers
  by unfold_locales (auto simp: list_ex_iff suffixes_cover)

text \<open>The walk over a name and its parents keeps the first entry of each kind.\<close>

fun first_some :: "('a \<Rightarrow> 'b option) \<Rightarrow> 'a list \<Rightarrow> 'b option" where
  "first_some f [] = None"
| "first_some f (x # xs) = (case f x of Some y \<Rightarrow> Some y | None \<Rightarrow> first_some f xs)"

definition orelse :: "'a option \<Rightarrow> 'a option \<Rightarrow> 'a option" where
  "orelse a b = (case a of Some x \<Rightarrow> Some x | None \<Rightarrow> b)"

lemma orelse_None [simp]: "orelse a b = None \<longleftrightarrow> a = None \<and> b = None"
  by (simp add: orelse_def split: option.splits)

lemma first_some_None: "first_some f xs = None \<longleftrightarrow> (\<forall>x \<in> set xs. f x = None)"
  by (induction xs) (auto split: option.splits)

lemma first_some_Some: "first_some f xs = Some y \<Longrightarrow> \<exists>x \<in> set xs. f x = Some y"
  by (induction xs) (auto split: option.splits)

definition list_at :: "'e block_snapshot \<Rightarrow> string \<Rightarrow> block_entry option" where
  "list_at s x = (case map_of (sn_domains s) x of None \<Rightarrow> None | Some e \<Rightarrow> if be_custom e then None else Some e)"

definition custom_at :: "'e block_snapshot \<Rightarrow> string \<Rightarrow> block_entry option" where
  "custom_at s x = (case map_of (sn_domains s) x of None \<Rightarrow> None | Some e \<Rightarrow> if be_custom e then Some e else None)"

lemma walk_step:
  "walk_rules s ch (x # xs) (l, c) = walk_rules s True xs
     (orelse l (list_at s x), orelse (orelse c (custom_at s x)) (if ch then map_of (sn_subdomains s) x else None))"
  by (auto simp: orelse_def list_at_def custom_at_def Let_def split: option.splits)

lemma walk_child:
  "walk_rules s True xs (l, c) =
     (orelse l (first_some (list_at s) xs), orelse c (first_some (\<lambda>x. orelse (custom_at s x) (map_of (sn_subdomains s) x)) xs))"
proof (induction xs arbitrary: l c)
  case (Cons x xs)
  then show ?case by (subst walk_step) (auto simp: orelse_def split: option.splits)
qed (auto simp: orelse_def split: option.splits)

lemma walk_name:
  "walk_rules s False (suffixes_of d) (None, None) =
     (first_some (list_at s) (suffixes_of d),
      orelse (custom_at s d) (first_some (\<lambda>x. orelse (custom_at s x) (map_of (sn_subdomains s) x)) (tl (suffixes_of d))))"
proof -
  obtain ps where ps: "suffixes_of d = d # ps" using suffixes_of.simps [of d] by blast
  show ?thesis unfolding ps walk_step walk_child by (auto simp: orelse_def split: option.splits)
qed

section \<open>What a snapshot answers\<close>

lemma custom_at_iff: "rules_are s V \<Longrightarrow> custom_at s x = None \<longleftrightarrow> CustomDomain x \<notin> V"
  by (auto simp: rules_are_def custom_at_def domain_ok_def dest!: spec [of _ x] split: option.splits if_splits)

lemma custom_at_source: "rules_are s V \<Longrightarrow> custom_at s x = Some e \<Longrightarrow> bm_source (be_match e) = ''custom''"
  by (auto simp: rules_are_def custom_at_def domain_ok_def dest!: spec [of _ x] split: option.splits if_splits)

lemma sub_at: "rules_are s V \<Longrightarrow> pattern_ok V (CustomSub x) (map_of (sn_subdomains s) x)"
  by (simp add: rules_are_def)

lemma sub_at_iff: "rules_are s V \<Longrightarrow> map_of (sn_subdomains s) x = None \<longleftrightarrow> CustomSub x \<notin> V"
  using sub_at [of s V x] by (auto simp: pattern_ok_def split: option.splits)

lemma sub_at_source: "rules_are s V \<Longrightarrow> map_of (sn_subdomains s) x = Some e \<Longrightarrow> bm_source (be_match e) = ''custom''"
  using sub_at [of s V x] by (simp add: pattern_ok_def)

lemma netseer_at: "rules_are s V \<Longrightarrow> pattern_ok V (CustomNetseer x) (map_of (sn_netseer s) x)"
  by (simp add: rules_are_def)

lemma netseer_at_iff: "rules_are s V \<Longrightarrow> map_of (sn_netseer s) x = None \<longleftrightarrow> CustomNetseer x \<notin> V"
  using netseer_at [of s V x] by (auto simp: pattern_ok_def split: option.splits)

lemma netseer_at_source: "rules_are s V \<Longrightarrow> map_of (sn_netseer s) x = Some e \<Longrightarrow> bm_source (be_match e) = ''custom''"
  using netseer_at [of s V x] by (simp add: pattern_ok_def)

lemma list_at_iff: "rules_are s V \<Longrightarrow> list_at s x = None \<longleftrightarrow> Listed x \<notin> V \<or> CustomDomain x \<in> V"
  by (auto simp: rules_are_def list_at_def domain_ok_def dest!: spec [of _ x] split: option.splits if_splits)

lemma list_at_rule: "rules_are s V \<Longrightarrow> list_at s x = Some e \<Longrightarrow> bm_rule (be_match e) = x"
  by (auto simp: rules_are_def list_at_def domain_ok_def dest!: spec [of _ x] split: option.splits if_splits)

lemmas stored_rules = custom_at_iff sub_at_iff netseer_at_iff list_at_iff

definition custom_found :: "'e block_snapshot \<Rightarrow> string \<Rightarrow> block_entry option" where
  "custom_found s d = netseer_override s d (snd (walk_rules s False (suffixes_of d) (None, None)))"

lemma custom_found_source: "rules_are s V \<Longrightarrow> custom_found s d = Some e \<Longrightarrow> bm_source (be_match e) = ''custom''"
  by (auto simp: custom_found_def walk_name netseer_override_def orelse_def Let_def dest!: first_some_Some
      dest: custom_at_source sub_at_source netseer_at_source split: option.splits if_splits)

lemma custom_walk_None:
  assumes "rules_are s V"
  shows "snd (walk_rules s False (suffixes_of d) (None, None)) = None \<longleftrightarrow>
    (\<forall>k. CustomDomain k \<in> V \<longrightarrow> \<not> name_covers k d) \<and> (\<forall>k. CustomSub k \<in> V \<longrightarrow> \<not> has_suffix d (CHR ''.'' # k))"
  using custom_at_iff [OF assms] sub_at_iff [OF assms]
  by (auto simp: walk_name first_some_None strict_suffixes name_covers_def)

lemma ball_rules:
  "(\<forall>r \<in> V. P r) \<longleftrightarrow> (\<forall>k. Listed k \<in> V \<longrightarrow> P (Listed k)) \<and> (\<forall>k. Excepted k \<in> V \<longrightarrow> P (Excepted k))
     \<and> (\<forall>k. CustomDomain k \<in> V \<longrightarrow> P (CustomDomain k)) \<and> (\<forall>k. CustomSub k \<in> V \<longrightarrow> P (CustomSub k))
     \<and> (\<forall>k. CustomNetseer k \<in> V \<longrightarrow> P (CustomNetseer k)) \<and> (\<forall>k. UserAllowed k \<in> V \<longrightarrow> P (UserAllowed k))" (is "?l \<longleftrightarrow> ?r")
proof
  assume r: ?r
  show ?l
  proof
    fix r assume "r \<in> V"
    then show "P r" using r by (cases r) auto
  qed
qed auto

lemma custom_found_None:
  assumes "rules_are s V"
  shows "custom_found s d = None \<longleftrightarrow> (\<forall>r \<in> V. \<not> custom_blocks r d)"
proof -
  define w where "w = snd (walk_rules s False (suffixes_of d) (None, None))"
  have w: "w = None \<longleftrightarrow> (\<forall>k. CustomDomain k \<in> V \<longrightarrow> \<not> name_covers k d) \<and> (\<forall>k. CustomSub k \<in> V \<longrightarrow> \<not> has_suffix d (CHR ''.'' # k))"
    using custom_walk_None [OF assms] by (simp add: w_def)
  have "netseer_override s d w = None \<longleftrightarrow> w = None \<and> (\<forall>k. CustomNetseer k \<in> V \<longrightarrow> \<not> custom_blocks (CustomNetseer k) d)"
  proof (cases "index_of CHR ''.'' d")
    case (Some i)
    then show ?thesis using netseer_at_iff [OF assms, of "drop (i + 1) d"]
      by (cases "map_of (sn_netseer s) (drop (i + 1) d)") (auto simp: netseer_override_def Let_def split: option.splits)
  qed (simp add: netseer_override_def)
  then show ?thesis unfolding custom_found_def w_def [symmetric] using w by (auto simp: ball_rules)
qed

lemma list_found:
  assumes "rules_are s V" "\<forall>r \<in> V. \<not> custom_blocks r d"
  shows "(case first_some (list_at s) (suffixes_of d) of
      None \<Rightarrow> \<forall>r \<in> V. \<not> list_blocks r d | Some e \<Rightarrow> (\<exists>r \<in> V. list_blocks r d) \<and> name_covers (bm_rule (be_match e)) d)"
proof -
  have blocks: "(\<exists>r \<in> V. list_blocks r d) \<longleftrightarrow> (\<exists>k. Listed k \<in> V \<and> name_covers k d)"
    using ball_rules [of V "\<lambda>r. \<not> list_blocks r d"] by auto
  have plain: "CustomDomain k \<notin> V" if "name_covers k d" for k using assms(2) that by force
  show ?thesis
  proof (cases "first_some (list_at s) (suffixes_of d)")
    case None
    have "Listed k \<notin> V" if k: "name_covers k d" for k
    proof -
      have "list_at s k = None" using None k by (simp add: first_some_None suffixes_cover)
      then show ?thesis using list_at_iff [OF assms(1), of k] plain [OF k] by simp
    qed
    then show ?thesis using blocks None by auto
  next
    case (Some e)
    then obtain x where x: "name_covers x d" "list_at s x = Some e" using first_some_Some [OF Some] by (auto simp: suffixes_cover)
    then have "Listed x \<in> V" using list_at_iff [OF assms(1), of x] by auto
    then show ?thesis using Some blocks x list_at_rule [OF assms(1) x(2)] by auto
  qed
qed

section \<open>Properties\<close>

text \<open>Accepted settings name each known list and each allowed domain once.\<close>

lemma normalize_filtering_clean:
  assumes "normalize_filtering to_ascii cfg = Inr c"
  shows "distinct (fc_lists c) \<and> set (fc_lists c) \<subseteq> set filtering_catalog \<and> distinct (fc_allow c) \<and> list_all dns_name (fc_allow c)"
proof -
  obtain ids custom allow where c: "fold_res add_list_id (fc_lists cfg) [] = Inr ids"
    "fold_res (add_allow_name to_ascii) (fc_allow cfg) [] = Inr allow" "c = cfg\<lparr>fc_lists := ids, fc_custom := custom, fc_allow := allow\<rparr>"
    using assms by (auto simp: normalize_filtering_def split: if_splits sum.splits)
  have "distinct ids \<and> set ids \<subseteq> set filtering_catalog"
    by (rule fold_res_invariant [OF c(1)]) (auto simp: add_list_id_def Let_def split: if_splits)
  moreover have "distinct allow \<and> list_all dns_name allow"
    by (rule fold_res_invariant [OF c(2)])
      (auto simp: add_allow_name_def normalize_allow_domain_def dest: normalize_domain_name split: if_splits option.splits)
  ultimately show ?thesis using c(3) by simp
qed

lemma judge_allow:
  assumes "rules_are s V"
  shows "list_ex (\<lambda>x. x \<in> set (sn_allow s)) (suffixes_of d) \<longleftrightarrow> (\<exists>r \<in> V. user_allows r d)"
    and "list_ex (\<lambda>x. x \<in> set (sn_source_allow s)) (suffixes_of d) \<longleftrightarrow> (\<exists>r \<in> V. list_excepts r d)"
proof -
  have a: "(\<exists>r \<in> V. user_allows r d) \<longleftrightarrow> (\<exists>k. UserAllowed k \<in> V \<and> name_covers k d)"
    "(\<exists>r \<in> V. list_excepts r d) \<longleftrightarrow> (\<exists>k. Excepted k \<in> V \<and> name_covers k d)"
    using ball_rules [of V "\<lambda>r. \<not> user_allows r d"] ball_rules [of V "\<lambda>r. \<not> list_excepts r d"] by auto
  show "list_ex (\<lambda>x. x \<in> set (sn_allow s)) (suffixes_of d) \<longleftrightarrow> (\<exists>r \<in> V. user_allows r d)"
    "list_ex (\<lambda>x. x \<in> set (sn_source_allow s)) (suffixes_of d) \<longleftrightarrow> (\<exists>r \<in> V. list_excepts r d)"
    using assms unfolding a by (auto simp: rules_are_def list_ex_iff suffixes_cover)
qed

lemma adguard_category_only:
  "(case adguard_verdict F s d qtype answer None of
      Allowed \<Rightarrow> adguard_verdict F s d qtype answer l = Allowed
    | NoRule \<Rightarrow> adguard_verdict F s d qtype answer l = NoRule
    | Blocked m \<Rightarrow> \<exists>c. adguard_verdict F s d qtype answer l = Blocked (m\<lparr>bm_category := c\<rparr>))"
  by (auto simp: adguard_verdict_def Let_def split: option.splits)

text \<open>
  (C26) The verdict of the DNS blocker follows from the rules as they were written, in the documented order. For
  every set of lists, user rules and allowed names the build accepts, and every valid query name: a name at or
  below an allowed one is allowed; otherwise a user rule that covers it blocks it; otherwise an exception of a
  downloaded list lets it pass; otherwise AdGuard's engine decides; and only then a downloaded rule at the name
  or one of its parents blocks it. Overlapping rules, duplicates and their order in the sources do not matter.
\<close>

theorem verdict_precedence:
  assumes "build_snapshot F to_ascii sources custom allow previous = Inr s"
    and "normalized_lookup_domain to_ascii raw = Some d"
  shows "let V = all_rules to_ascii sources custom allow; v = evaluate_dns F to_ascii (Some s) raw qtype answer in
    if \<exists>r \<in> V. user_allows r d then v = Allowed
    else if \<exists>r \<in> V. custom_blocks r d then \<exists>m. v = Blocked m \<and> bm_source m = ''custom''
    else if \<exists>r \<in> V. list_excepts r d then v = Allowed
    else (case adguard_verdict F s d qtype answer None of
        Allowed \<Rightarrow> v = Allowed
      | Blocked m \<Rightarrow> \<exists>c. v = Blocked (m\<lparr>bm_category := c\<rparr>)
      | NoRule \<Rightarrow> if \<exists>r \<in> V. list_blocks r d then \<exists>m. v = Blocked m \<and> name_covers (bm_rule m) d else v = NoRule)"
proof -
  define V where "V = all_rules to_ascii sources custom allow"
  have V: "rules_are s V" unfolding V_def by (rule build_stores [OF assms(1)])
  define v where "v = evaluate_dns F to_ascii (Some s) raw qtype answer"
  obtain l c where lc: "walk_rules s False (suffixes_of d) (None, None) = (l, c)" by fastforce
  have l: "l = first_some (list_at s) (suffixes_of d)" using lc by (simp add: walk_name)
  have found: "netseer_override s d c = custom_found s d" by (simp add: custom_found_def lc)
  have v: "v = (if \<exists>r \<in> V. user_allows r d then Allowed
      else case custom_found s d of Some e \<Rightarrow> Blocked (be_match e)
        | None \<Rightarrow> if \<exists>r \<in> V. list_excepts r d then Allowed
            else (case adguard_verdict F s d qtype answer l of
                NoRule \<Rightarrow> (case l of Some e \<Rightarrow> Blocked (be_match e) | None \<Rightarrow> NoRule) | v \<Rightarrow> v))"
    by (simp only: v_def evaluate_dns_def assms(2) judge_def judge_allow [OF V] lc found option.case prod.case)
  show ?thesis
  proof (cases "custom_found s d")
    case (Some e)
    then have "\<exists>r \<in> V. custom_blocks r d" using custom_found_None [OF V, of d] by auto
    then show ?thesis unfolding Let_def V_def [symmetric] v_def [symmetric] v using Some custom_found_source [OF V Some] by simp
  next
    case None
    then have none: "\<forall>r \<in> V. \<not> custom_blocks r d" using custom_found_None [OF V, of d] by simp
    have "\<not> (\<exists>r \<in> V. custom_blocks r d)" using none by blast
    then show ?thesis unfolding Let_def V_def [symmetric] v_def [symmetric] v
      using None list_found [OF V none] adguard_category_only [of F s d qtype answer l] unfolding l [symmetric]
      by (auto split: verdict.splits option.splits)
  qed
qed

text \<open>The aliases an answer leads through from a name.\<close>

inductive alias_reach :: "(string \<Rightarrow> string option) \<Rightarrow> answer_rr list \<Rightarrow> string \<Rightarrow> string \<Rightarrow> bool" for to_ascii answer d where
  here: "alias_reach to_ascii answer d d"
| follow: "alias_reach to_ascii answer d (owner_name rr) \<Longrightarrow> rr \<in> set answer \<Longrightarrow> alias_target to_ascii rr = Some t
    \<Longrightarrow> alias_reach to_ascii answer d t"

definition target_blocked :: "(string \<Rightarrow> nat \<Rightarrow> block_match option) \<Rightarrow> (string \<Rightarrow> string option) \<Rightarrow> answer_rr \<Rightarrow> bool" where
  "target_blocked blocked to_ascii rr \<longleftrightarrow> list_ex (\<lambda>(t, ty). blocked t ty \<noteq> None) (record_targets to_ascii rr)"

lemma find_blocked:
  "find (\<lambda>(t, ty). blocked t ty \<noteq> None) (record_targets to_ascii rr) = None \<longleftrightarrow> \<not> target_blocked blocked to_ascii rr"
  by (auto simp: target_blocked_def find_None_iff list_ex_iff)

lemma alias_names_Cons: "alias_names to_ascii (rr # rrs) = alias_names to_ascii rrs \<union> set_option (alias_target to_ascii rr)"
  by (auto simp: alias_names_def)

lemma scan_records_hit:
  "scan_records blocked to_ascii rrs (visited, queue) = Inl b \<Longrightarrow> \<exists>rr \<in> set rrs. target_blocked blocked to_ascii rr"
proof (induction rrs arbitrary: visited queue)
  case (Cons rr rrs)
  show ?case
  proof (cases "target_blocked blocked to_ascii rr")
    case False
    then show ?thesis using Cons find_blocked [of blocked to_ascii rr] by (auto split: option.splits if_splits)
  qed simp
qed simp

lemma scan_records_done:
  "scan_records blocked to_ascii rrs (visited, queue) = Inr (visited', queue')
    \<Longrightarrow> (\<forall>rr \<in> set rrs. \<not> target_blocked blocked to_ascii rr) \<and> set visited' = set visited \<union> alias_names to_ascii rrs
      \<and> set queue' = set queue \<union> (alias_names to_ascii rrs - set visited)"
proof (induction rrs arbitrary: visited queue)
  case (Cons rr rrs)
  have none: "find (\<lambda>(t, ty). blocked t ty \<noteq> None) (record_targets to_ascii rr) = None"
    using Cons.prems by (auto split: option.splits)
  then have rr: "\<not> target_blocked blocked to_ascii rr" using find_blocked by blast
  show ?case
  proof (cases "alias_target to_ascii rr")
    case None
    then show ?thesis using Cons.IH [of visited queue] Cons.prems none rr by (simp add: alias_names_Cons)
  next
    case (Some t)
    define st where "st = (if t \<in> set visited then (visited, queue) else (t # visited, queue @ [t]))"
    have "scan_records blocked to_ascii rrs (fst st, snd st) = Inr (visited', queue')"
      using Cons.prems none Some by (simp add: st_def)
    from Cons.IH [OF this] show ?thesis using rr Some by (auto simp: alias_names_Cons st_def split: if_splits)
  qed
qed (simp add: alias_names_def)

lemma search_answer_iff:
  assumes "set queue \<subseteq> set visited" "\<forall>o1 \<in> set visited. alias_reach to_ascii answer d o1" "d \<in> set visited"
    "\<forall>rr \<in> set answer. owner_name rr \<in> set visited - set queue \<longrightarrow>
       \<not> target_blocked blocked to_ascii rr \<and> (case alias_target to_ascii rr of None \<Rightarrow> True | Some t \<Rightarrow> t \<in> set visited)"
  shows "search_answer blocked to_ascii answer visited queue \<noteq> None
    \<longleftrightarrow> (\<exists>rr \<in> set answer. alias_reach to_ascii answer d (owner_name rr) \<and> target_blocked blocked to_ascii rr)"
  using assms
proof (induction blocked to_ascii answer visited queue rule: search_answer.induct)
  case (1 blocked to_ascii answer visited)
  have "o1 \<in> set visited" if "alias_reach to_ascii answer d o1" for o1
    using that by induction (use 1 in \<open>auto split: option.splits\<close>)
  then show ?case using 1 by auto
next
  case (2 blocked to_ascii answer visited owner queue)
  define rrs where "rrs = filter (\<lambda>rr. owner_name rr = owner) answer"
  have reach: "alias_reach to_ascii answer d owner" using "2.prems"(1,2) by simp
  show ?case
  proof (cases "scan_records blocked to_ascii rrs (visited, queue)")
    case (Inl b)
    then obtain rr where "rr \<in> set answer" "owner_name rr = owner" "target_blocked blocked to_ascii rr"
      using scan_records_hit [OF Inl] by (auto simp: rrs_def)
    then show ?thesis using Inl reach by (auto simp: rrs_def [symmetric])
  next
    case (Inr st)
    obtain v q where st: "st = (v, q)" by (cases st)
    note fin = scan_records_done [OF Inr [unfolded st]]
    have names: "alias_reach to_ascii answer d t" if "t \<in> alias_names to_ascii rrs" for t
      using that reach alias_reach.follow [of to_ascii answer d _ t] by (auto simp: alias_names_def rrs_def)
    have step: "search_answer blocked to_ascii answer visited (owner # queue) = search_answer blocked to_ascii answer v q"
      using Inr by (simp add: rrs_def [symmetric] st)
    show ?thesis unfolding step
    proof (rule "2.IH" [OF Inr [unfolded rrs_def st] refl])
      show "set q \<subseteq> set v" using fin "2.prems"(1) by auto
      show "\<forall>o1 \<in> set v. alias_reach to_ascii answer d o1" using fin "2.prems"(2) names by auto
      show "d \<in> set v" using fin "2.prems"(3) by simp
      show "\<forall>rr \<in> set answer. owner_name rr \<in> set v - set q \<longrightarrow>
          \<not> target_blocked blocked to_ascii rr \<and> (case alias_target to_ascii rr of None \<Rightarrow> True | Some t \<Rightarrow> t \<in> set v)"
      proof (intro ballI impI)
        fix rr assume rr: "rr \<in> set answer" "owner_name rr \<in> set v - set q"
        show "\<not> target_blocked blocked to_ascii rr \<and> (case alias_target to_ascii rr of None \<Rightarrow> True | Some t \<Rightarrow> t \<in> set v)"
        proof (cases "owner_name rr = owner")
          case True
          then have "rr \<in> set rrs" using rr(1) by (simp add: rrs_def)
          then show ?thesis using fin by (auto simp: alias_names_def split: option.splits)
        next
          case False
          then have "owner_name rr \<in> set visited - set (owner # queue)" using rr(2) fin by auto
          then show ?thesis using "2.prems"(4) rr(1) fin by (auto split: option.splits)
        qed
      qed
    qed
  qed
qed

text \<open>
  (C27) A DNS answer is blocked exactly when it should be. If the current rules block the question the answer is
  blocked, if an exception allows it the whole answer passes; otherwise the answer is blocked if and only if some
  record of the answer section blocks, as the alias, address or service hint it carries, and the record belongs
  to a name the question leads to through aliases of this answer. Records of unrelated owners never count, and
  alias loops end the search.
\<close>

theorem answer_filter_exact:
  "fst (filter_response F to_ascii (Some published) [qtype] answer out) \<longleftrightarrow>
    (case evaluate_dns F to_ascii published (oc_domain out) qtype False of
       Blocked m \<Rightarrow> True
     | Allowed \<Rightarrow> False
     | NoRule \<Rightarrow> \<exists>rr \<in> set answer. alias_reach to_ascii answer (oc_domain out) (owner_name rr)
         \<and> target_blocked (\<lambda>t ty. match_dns F to_ascii published t ty True) to_ascii rr)"
proof -
  have "search_answer (\<lambda>t ty. match_dns F to_ascii published t ty True) to_ascii answer [oc_domain out] [oc_domain out] \<noteq> None
    \<longleftrightarrow> (\<exists>rr \<in> set answer. alias_reach to_ascii answer (oc_domain out) (owner_name rr)
         \<and> target_blocked (\<lambda>t ty. match_dns F to_ascii published t ty True) to_ascii rr)"
    by (rule search_answer_iff) (auto intro: alias_reach.here)
  then show ?thesis
    by (auto simp: filter_response_def Let_def split: verdict.splits option.splits)
qed

definition plain_engine :: "unit filter_engine" where
  "plain_engine = \<lparr>fe_build = (\<lambda>_. Some ()), fe_count = (\<lambda>_. 0), fe_match = (\<lambda>_ _ _ _. \<lparr>er_network = None, er_v4 = [], er_v6 = []\<rparr>),
     fe_hash = (\<lambda>t. t)\<rparr>"

theorem verdict_precedence_witness:
  "\<exists>s. build_snapshot plain_engine Some [] [\<lparr>br_domain = ''*.x.example'', br_category = ''ads''\<rparr>] [''ok.x.example''] None = Inr s
     \<and> (\<exists>m. evaluate_dns plain_engine Some (Some s) ''A.x.example.'' 1 False = Blocked m \<and> bm_source m = ''custom'')"
proof -
  define c :: "blocking_rule list" where "c = [\<lparr>br_domain = ''*.x.example'', br_category = ''ads''\<rparr>]"
  have p: "normalize_blocking_pattern Some ''*.x.example'' = Some (''*.x.example'', SubdomainsRule)"
    "block_category ''ads'' ''trackers'' = Some ''ads''" "normalize_allow_domain Some ''ok.x.example'' = Some ''ok.x.example''"
    "normalized_lookup_domain Some ''A.x.example.'' = Some ''a.x.example''" "trim_prefix ''*.x.example'' ''*.'' = ''x.example''"
    by code_simp+
  obtain s where s: "build_snapshot plain_engine Some [] c [''ok.x.example''] None = Inr s"
    by (auto simp: build_snapshot_def add_custom_def add_allow_def c_def p Let_def finish_stats_def max_rules_def
        empty_snapshot_def count_source_def)
  have V: "all_rules Some [] c [''ok.x.example''] = {CustomSub ''x.example'', UserAllowed ''ok.x.example''}"
    by (auto simp: all_rules_def c_def custom_rules_def allow_rules_def p)
  have "\<not> user_allows (UserAllowed ''ok.x.example'') ''a.x.example''" "\<not> user_allows (CustomSub ''x.example'') ''a.x.example''"
    "custom_blocks (CustomSub ''x.example'') ''a.x.example''" by code_simp+
  then have na: "\<not> (\<exists>r \<in> all_rules Some [] c [''ok.x.example'']. user_allows r ''a.x.example'')"
    and cb: "\<exists>r \<in> all_rules Some [] c [''ok.x.example'']. custom_blocks r ''a.x.example''" unfolding V by blast+
  have "\<exists>m. evaluate_dns plain_engine Some (Some s) ''A.x.example.'' 1 False = Blocked m \<and> bm_source m = ''custom''"
    using verdict_precedence [OF s p(4), of 1 False] unfolding Let_def if_not_P [OF na] if_P [OF cb] .
  then show ?thesis using s unfolding c_def by blast
qed

end
