(* ===== verification/Assoc.thy ===== *)
theory Assoc
  imports Prelude "HOL-Library.AList"
begin

text \<open>
  Go maps whose size matters, as association lists with distinct keys (\<open>HOL-Library.AList\<close>), and the scan that picks
  the key to evict.
\<close>

lemma update_new: "k \<notin> fst ` set al \<Longrightarrow> AList.update k v al = al @ [(k, v)]"
  by (induction al) auto

lemma length_update:
  "length (AList.update k v es) = (if map_of es k = None then Suc (length es) else length es)"
  by (induction es) auto

lemma update_set: "(k, v) \<in> set (AList.update k0 v0 es) \<Longrightarrow> (k, v) = (k0, v0) \<or> (k, v) \<in> set es"
  by (induction es) (auto split: if_splits)

lemma update_keys: "fst ` set (AList.update k v m) = insert k (fst ` set m)"
  by (induction m) auto

lemma delete_filter: "AList.delete k al = filter (\<lambda>(x, v). k \<noteq> x) al"
  by (simp add: AList.delete_eq)

lemma delete_smaller: "k \<in> fst ` set es \<Longrightarrow> length (AList.delete k es) < length es"
  unfolding delete_filter by (auto intro!: length_filter_less)

text \<open>A fold that keeps its candidate or takes the current key picks one of the keys.\<close>

lemma fold_picks_key:
  assumes "\<And>k v acc. fst (step (k, v) acc) \<in> {k, fst acc}" "fst acc \<in> K" "fst ` set es \<subseteq> K"
  shows "fst (fold step es acc) \<in> K"
  using assms(2,3)
proof (induction es arbitrary: acc)
  case (Cons x es)
  obtain k v where "x = (k, v)" by (cases x)
  then have "fst (step x acc) \<in> K" using assms(1) [of k v acc] Cons.prems by auto
  then show ?case using Cons.IH [of "step x acc"] Cons.prems(2) by simp
qed simp

lemma fold_picks_in:
  assumes "\<And>k v acc. fst (step (k, v) acc) \<in> {k, fst acc}" "\<And>k v. fst (step (k, v) acc) = k" "es \<noteq> []"
  shows "fst (fold step es acc) \<in> fst ` set es"
proof -
  obtain k v qs where es: "es = (k, v) # qs" using assms(3) by (cases es) auto
  have "fst (fold step qs (step (k, v) acc)) \<in> fst ` set es"
    using assms(2) by (intro fold_picks_key [of step, OF assms(1)]) (auto simp: es)
  then show ?thesis by (simp add: es)
qed

end
