(* ===== verification/Dhcp.thy ===== *)
theory Dhcp
  imports Go_Text Go_Utf8 Assoc
begin

text \<open>
  The DHCP messages from which Shadow DNS learns the provider's resolvers
  (\<open>internal/services/dnsroute/shadow_inform_packet.go\<close>, \<open>shadow_native_packet.go\<close>): the DHCPINFORM request
  and its replies, and the tracker that follows the firmware's own DHCP client without taking part.

  Where an index or a length comes from the packet, \<^term>\<open>None\<close> is an index out of range. The offsets below 240
  are read from messages that are known to have 240 bytes (\<open>datagram_length\<close> below).
\<close>

section \<open>Reading fields\<close>

definition field :: "nat \<Rightarrow> nat \<Rightarrow> bytes \<Rightarrow> bytes" where
  "field off n d = take n (drop off d)"

definition be_at :: "bytes \<Rightarrow> nat \<Rightarrow> nat" where
  "be_at d off = be16 (d ! off) (d ! (off + 1))"

definition put :: "nat \<Rightarrow> bytes \<Rightarrow> bytes \<Rightarrow> bytes" where
  "put off src d = take off d @ src @ drop (off + length src) d"

definition zero4 :: bytes where "zero4 = [0, 0, 0, 0]"
definition broadcast4 :: bytes where "broadcast4 = [255, 255, 255, 255]"
definition dhcp_magic :: bytes where "dhcp_magic = [99, 130, 83, 99]"

definition is_global_unicast :: "bytes \<Rightarrow> bool" where
  "is_global_unicast ip \<longleftrightarrow> (length ip = 4 \<or> length ip = 16) \<and> \<not> is_broadcast4 ip \<and> \<not> is_unspecified ip
     \<and> \<not> is_loopback ip \<and> \<not> is_multicast ip \<and> \<not> is_link_local_unicast ip"

definition native_peer :: "bytes \<Rightarrow> bool" where
  "native_peer ip \<longleftrightarrow> length ip = 4 \<and> ip ! 0 \<noteq> 0 \<and> is_global_unicast ip \<and> \<not> is_loopback ip \<and> \<not> is_link_local_unicast ip"

datatype dhcp_error = NotUdp | BadIpLength | WrongDestination | WrongEndpoints | WrongIdentity | BadSource | BadUdpChecksum
  | BadCookie | WrongCiaddr | UnexpectedAssignment | BadRelay | MalformedOption | DuplicateOption | NoEnd | BadOverload
  | WrongTypeOrServer | NoDnsOption | BadWanIdentity | NoMessageType | BadRequestAddresses | BadRequestServer | BadRenewal
  | NotThisAddress | ServerChanged | BadReplyEndpoints | BadIpChecksum | BadReplyAddress | BadServerId | BadNak | NotAssigned
  | BadLease | BadDnsOption | BadDnsServer

section \<open>Checksums\<close>

fun word_sum :: "bytes \<Rightarrow> nat" where
  "word_sum (a # b # rest) = be16 a b + word_sum rest"
| "word_sum [a] = unat a * 256"
| "word_sum [] = 0"

function fold_carry :: "nat \<Rightarrow> nat" where
  "fold_carry s = (if s div 65536 = 0 then s else fold_carry (s mod 65536 + s div 65536))"
  by pat_completeness auto
termination
proof (relation "measure id")
  fix s :: nat assume "s div 65536 \<noteq> 0"
  then have "s mod 65536 + s div 65536 < s" using div_mult_mod_eq [of s 65536] by linarith
  then show "(s mod 65536 + s div 65536, s) \<in> measure id" by simp
qed simp

declare fold_carry.simps [simp del]

definition checksum_valid :: "bytes \<Rightarrow> bool" where
  "checksum_valid data \<longleftrightarrow> fold_carry (word_sum data) = 0xFFFF"

definition udp_checksum_valid :: "bytes \<Rightarrow> bytes \<Rightarrow> bool" where
  "udp_checksum_valid packet udp \<longleftrightarrow>
     be_at udp 6 = 0 \<or> checksum_valid (field 12 8 packet @ [0, 17] @ be_bytes 2 (length udp) @ udp)"

section \<open>DHCPINFORM\<close>

record inform_identity =
  ii_client :: bytes
  ii_server :: bytes
  ii_xid :: bytes
  ii_mac :: bytes

definition make_inform_packet :: "inform_identity \<Rightarrow> bytes" where
  "make_inform_packet i =
     (let packet = replicate 308 0;
          head = put 4 (be_bytes 2 (length packet)) (put 2 (be_bytes 2 67) (put 0 (be_bytes 2 68) (take 8 packet)));
          d0 = drop 8 packet;
          d1 = put 0 [1, 1, 6] d0;
          d2 = put 4 (ii_xid i) d1;
          d3 = put 12 (ii_client i) d2;
          d4 = put 28 (ii_mac i) d3;
          d5 = put 236 dhcp_magic d4;
          d6 = put 240 [53, 1, 8, 55, 1, 6, 255] d5 in
      head @ d6)"

text \<open>The options an area adds to those found before. Only DNS servers and the control options are kept.\<close>

type_synonym options = "byte \<Rightarrow> bytes option"

function inform_options :: "bytes \<Rightarrow> nat \<Rightarrow> options \<Rightarrow> (dhcp_error + options) option" where
  "inform_options data i opts =
     (if i < length data then
        (let code = data ! i in
         if code = 0 then inform_options data (i + 1) opts
         else if code = 255 then Some (Inr opts)
         else if i + 1 \<ge> length data \<or> unat (data ! (i + 1)) > length data - (i + 1) - 1 then Some (Inl MalformedOption)
         else (let n = unat (data ! (i + 1)) in
           if opts code \<noteq> None \<and> (code = 53 \<or> code = 54 \<or> code = 52) then Some (Inl DuplicateOption)
           else (case sub data (i + 2) (i + 2 + n) of None \<Rightarrow> None
             | Some v \<Rightarrow> inform_options data (i + 2 + n)
                 (if code = 6 \<or> code = 52 \<or> code = 53 \<or> code = 54
                  then opts(code \<mapsto> (case opts code of None \<Rightarrow> [] | Some o1 \<Rightarrow> o1) @ v) else opts))))
      else Some (Inl NoEnd))"
  by pat_completeness auto
termination by (relation "measure (\<lambda>(d, i, opts). length d - i)") auto

declare inform_options.simps [simp del]

definition inform_reply_datagram :: "bytes \<Rightarrow> inform_identity \<Rightarrow> (dhcp_error + bytes) option" where
  "inform_reply_datagram packet i =
     (if length packet < 20 \<or> unat (packet ! 0) div 16 \<noteq> 4 \<or> packet ! 9 \<noteq> 17 then Some (Inl NotUdp)
      else (let ihl = unat (packet ! 0) mod 16 * 4; total = be_at packet 2 in
        if ihl < 20 \<or> total > length packet \<or> total < ihl + 8 + 240 \<or> be_at packet 6 mod 16384 \<noteq> 0 then Some (Inl BadIpLength)
        else if field 16 4 packet \<noteq> ii_client i then Some (Inl WrongDestination)
        else (case sub packet ihl total of None \<Rightarrow> None
          | Some udp0 \<Rightarrow>
              (let n = be_at udp0 4 in
               if be_at udp0 0 \<noteq> 67 \<or> be_at udp0 2 \<noteq> 68 \<or> n < 8 + 240 \<or> n > length udp0 then Some (Inl WrongEndpoints)
               else (case sub udp0 0 n of None \<Rightarrow> None
                 | Some udp \<Rightarrow>
                     (let dhcp = drop 8 udp in
                      if dhcp ! 0 \<noteq> 2 \<or> dhcp ! 1 \<noteq> 1 \<or> dhcp ! 2 \<noteq> 6 \<or> field 4 4 dhcp \<noteq> ii_xid i \<or> field 28 6 dhcp \<noteq> ii_mac i
                      then Some (Inl WrongIdentity) else Some (Inr udp)))))))"

definition inform_peer :: "bytes \<Rightarrow> inform_identity \<Rightarrow> bool" where
  "inform_peer ip i \<longleftrightarrow> length ip = 4 \<and> is_global_unicast ip \<and> \<not> is_loopback ip \<and> ip \<noteq> ii_client i"

text \<open>The main area, then the areas option 52 names.\<close>

definition inform_all_options :: "bytes \<Rightarrow> (dhcp_error + options) option" where
  "inform_all_options dhcp =
     (case inform_options (drop 240 dhcp) 0 (\<lambda>_. None) of None \<Rightarrow> None
      | Some (Inl e) \<Rightarrow> Some (Inl e)
      | Some (Inr o1) \<Rightarrow>
          (case o1 52 of None \<Rightarrow> Some (Inr o1)
           | Some ov \<Rightarrow>
               if length ov \<noteq> 1 \<or> ov ! 0 < 1 \<or> ov ! 0 > 3 then Some (Inl BadOverload)
               else (case (if odd (unat (ov ! 0)) then inform_options (field 108 128 dhcp) 0 o1 else Some (Inr o1)) of None \<Rightarrow> None
                 | Some (Inl e) \<Rightarrow> Some (Inl e)
                 | Some (Inr o2) \<Rightarrow> if unat (ov ! 0) \<ge> 2 then inform_options (field 44 64 dhcp) 0 o2 else Some (Inr o2))))"

fun chunks4 :: "bytes \<Rightarrow> bytes list" where
  "chunks4 (a # b # c # d # rest) = [a, b, c, d] # chunks4 rest"
| "chunks4 _ = []"

definition parse_inform_ack :: "bytes \<Rightarrow> inform_identity \<Rightarrow> bool \<Rightarrow> (dhcp_error + (bytes \<times> string list)) option" where
  "parse_inform_ack packet i discover =
     (case inform_reply_datagram packet i of None \<Rightarrow> None
      | Some (Inl e) \<Rightarrow> Some (Inl e)
      | Some (Inr udp) \<Rightarrow>
          (let dhcp = drop 8 udp in
           if \<not> inform_peer (field 12 4 packet) i then Some (Inl BadSource)
           else if \<not> udp_checksum_valid packet udp then Some (Inl BadUdpChecksum)
           else if field 236 4 dhcp \<noteq> dhcp_magic then Some (Inl BadCookie)
           else if field 12 4 dhcp \<noteq> zero4 \<and> field 12 4 dhcp \<noteq> ii_client i then Some (Inl WrongCiaddr)
           else if field 16 4 dhcp \<noteq> zero4 then Some (Inl UnexpectedAssignment)
           else if field 24 4 dhcp \<noteq> zero4 \<and> \<not> inform_peer (field 24 4 dhcp) i then Some (Inl BadRelay)
           else (case inform_all_options dhcp of None \<Rightarrow> None
             | Some (Inl e) \<Rightarrow> Some (Inl e)
             | Some (Inr opts) \<Rightarrow>
                 (let server = (case opts 54 of None \<Rightarrow> [] | Some s \<Rightarrow> s) in
                  if opts 53 \<noteq> Some [5] \<or> \<not> inform_peer server i \<or> (\<not> discover \<and> server \<noteq> ii_server i) then Some (Inl WrongTypeOrServer)
                  else (case opts 6 of None \<Rightarrow> Some (Inl NoDnsOption)
                    | Some dns \<Rightarrow>
                        if length dns = 0 \<or> length dns mod 4 \<noteq> 0 then Some (Inl NoDnsOption)
                        else Some (Inr (server, map ip_string (chunks4 dns))))))))"

section \<open>The tracker of the firmware's client\<close>

definition pending_limit :: nat where "pending_limit = 8"
definition pending_ttl :: int where "pending_ttl = 120000000000"
definition max_lease_seconds :: nat where "max_lease_seconds = 604800"

record native_pending =
  np_started :: int
  np_sequence :: nat
  np_server :: bytes

record native_tracker =
  nt_client :: bytes
  nt_mac :: bytes
  nt_pending :: "(bytes \<times> native_pending) list"
  nt_sequence :: nat

datatype observation_kind = NoKind | RequestKind | AckKind | AckNoDnsKind | NakKind | RejectedKind

record observation =
  ob_kind :: observation_kind
  ob_xid :: string
  ob_server :: bytes
  ob_servers :: "string list"
  ob_lease :: nat
  ob_expires :: int
  ob_err :: "dhcp_error option"

definition no_observation :: observation where
  "no_observation = \<lparr>ob_kind = NoKind, ob_xid = [], ob_server = [], ob_servers = [], ob_lease = 0, ob_expires = 0, ob_err = None\<rparr>"

definition new_tracker :: "bytes \<Rightarrow> bytes \<Rightarrow> dhcp_error + native_tracker" where
  "new_tracker client mac =
     (case ip_to4 client of None \<Rightarrow> Inl BadWanIdentity
      | Some ip \<Rightarrow>
          if \<not> native_peer ip \<or> length mac \<noteq> 6 \<or> odd (unat (mac ! 0)) \<or> mac = replicate 6 0 then Inl BadWanIdentity
          else Inr \<lparr>nt_client = ip, nt_mac = mac, nt_pending = [], nt_sequence = 0\<rparr>)"

definition prune :: "int \<Rightarrow> native_tracker \<Rightarrow> native_tracker" where
  "prune now t = t\<lparr>nt_pending := filter (\<lambda>(x, r). \<not> (now < np_started r \<or> np_started r + pending_ttl \<le> now)) (nt_pending t)\<rparr>"

definition complete :: "native_pending \<Rightarrow> native_tracker \<Rightarrow> native_tracker" where
  "complete request t = t\<lparr>nt_pending := filter (\<lambda>(x, r). \<not> np_sequence r \<le> np_sequence request) (nt_pending t)\<rparr>"

definition native_datagram :: "bytes \<Rightarrow> bool \<Rightarrow> (dhcp_error + bytes) option" where
  "native_datagram packet outgoing =
     (if length packet < 20 \<or> unat (packet ! 0) div 16 \<noteq> 4 \<or> packet ! 9 \<noteq> 17 then Some (Inl NotUdp)
      else (let ihl = unat (packet ! 0) mod 16 * 4; total = be_at packet 2 in
        if ihl < 20 \<or> total > length packet \<or> total < ihl + 8 + 240
           \<or> and (be16 (packet ! 6) (packet ! 7)) 0xBFFF \<noteq> 0 then Some (Inl BadIpLength)
        else (case sub packet ihl total of None \<Rightarrow> None
          | Some udp \<Rightarrow>
              (let (source, destination, op) = (if outgoing then (68, 67, 1) else (67, 68, 2)) in
               if be_at udp 4 \<noteq> length udp \<or> be_at udp 0 \<noteq> source \<or> be_at udp 2 \<noteq> destination \<or> udp ! 8 \<noteq> op
               then Some (Inl WrongEndpoints) else Some (Inr udp)))))"

function native_options :: "bytes \<Rightarrow> nat \<Rightarrow> options \<Rightarrow> (dhcp_error + options) option" where
  "native_options data i opts =
     (if i < length data then
        (let code = data ! i in
         if code = 0 then native_options data (i + 1) opts
         else if code = 255 then Some (Inr opts)
         else if i + 1 = length data \<or> unat (data ! (i + 1)) > length data - (i + 1) - 1 then Some (Inl MalformedOption)
         else (let n = unat (data ! (i + 1)) in
           if code \<in> {50, 51, 52, 53, 54} \<and> opts code \<noteq> None then Some (Inl DuplicateOption)
           else (case sub data (i + 2) (i + 2 + n) of None \<Rightarrow> None
             | Some v \<Rightarrow> native_options data (i + 2 + n)
                 (if code \<in> {50, 51, 52, 53, 54} then opts(code \<mapsto> v)
                  else if code = 6 then opts(code \<mapsto> (case opts code of None \<Rightarrow> [] | Some o1 \<Rightarrow> o1) @ v)
                  else opts))))
      else Some (Inl NoEnd))"
  by pat_completeness auto
termination by (relation "measure (\<lambda>(d, i, opts). length d - i)") auto

declare native_options.simps [simp del]

definition native_all_options :: "bytes \<Rightarrow> (dhcp_error + options) option" where
  "native_all_options dhcp =
     (case native_options (drop 240 dhcp) 0 (\<lambda>_. None) of None \<Rightarrow> None
      | Some (Inl e) \<Rightarrow> Some (Inl e)
      | Some (Inr o1) \<Rightarrow>
          (case o1 52 of None \<Rightarrow> Some (Inr o1)
           | Some ov \<Rightarrow>
               if length ov \<noteq> 1 \<or> ov ! 0 < 1 \<or> ov ! 0 > 3 then Some (Inl BadOverload)
               else (case (if odd (unat (ov ! 0)) then native_options (field 108 128 dhcp) 0 o1 else Some (Inr o1)) of None \<Rightarrow> None
                 | Some (Inl e) \<Rightarrow> Some (Inl e)
                 | Some (Inr o2) \<Rightarrow> if unat (ov ! 0) \<ge> 2 then native_options (field 44 64 dhcp) 0 o2 else Some (Inr o2))))"

definition option_bytes :: "options \<Rightarrow> byte \<Rightarrow> bytes" where
  "option_bytes opts c = (case opts c of None \<Rightarrow> [] | Some v \<Rightarrow> v)"

text \<open>The oldest request makes room: the least sequence number, which starts at 1.\<close>

definition oldest_pending :: "(bytes \<times> native_pending) list \<Rightarrow> bytes" where
  "oldest_pending ps =
     fst (fold (\<lambda>(x, r) (oldest, n). if n = 0 \<or> np_sequence r < n then (x, np_sequence r) else (oldest, n)) ps ([], 0))"

definition rejected :: "observation \<Rightarrow> dhcp_error \<Rightarrow> observation" where
  "rejected ob e = ob\<lparr>ob_kind := RejectedKind, ob_err := Some e\<rparr>"

definition observe_request :: "native_tracker \<Rightarrow> bytes \<Rightarrow> bytes \<Rightarrow> bytes \<Rightarrow> options \<Rightarrow> int \<Rightarrow> observation \<Rightarrow> native_tracker \<times> observation" where
  "observe_request t packet dhcp xid opts now ob =
     (let destination = field 16 4 packet; ciaddr = field 12 4 dhcp; yiaddr = field 16 4 dhcp; giaddr = field 24 4 dhcp;
          server = option_bytes opts 54 in
      if yiaddr \<noteq> zero4 \<or> giaddr \<noteq> zero4 \<or> (destination \<noteq> broadcast4 \<and> \<not> native_peer destination) \<or> destination = nt_client t
      then (t, rejected ob BadRequestAddresses)
      else if opts 54 \<noteq> None \<and> (\<not> native_peer server \<or> server = nt_client t) then (t, rejected ob BadRequestServer)
      else (case (if ciaddr = nt_client t then
                    (if field 12 4 packet \<noteq> nt_client t \<or> opts 54 \<noteq> None \<or> opts 50 \<noteq> None then Some BadRenewal else None)
                  else if ciaddr \<noteq> zero4 \<or> field 12 4 packet \<noteq> zero4 \<or> opts 50 \<noteq> Some (nt_client t) \<or> destination \<noteq> broadcast4
                  then Some NotThisAddress else None) of
          Some e \<Rightarrow> (t, rejected ob e)
        | None \<Rightarrow>
            (let selected = (if opts 54 = None then zero4 else server) in
             case map_of (nt_pending t) xid of
               Some r \<Rightarrow> if selected \<noteq> np_server r then (t, rejected ob ServerChanged) else (t, ob\<lparr>ob_kind := RequestKind\<rparr>)
             | None \<Rightarrow>
                 (let ps = (if length (nt_pending t) = pending_limit then AList.delete (oldest_pending (nt_pending t)) (nt_pending t)
                            else nt_pending t);
                      n = nt_sequence t + 1 in
                  (t\<lparr>nt_sequence := n, nt_pending := AList.update xid \<lparr>np_started = now, np_sequence = n, np_server = selected\<rparr> ps\<rparr>,
                   ob\<lparr>ob_kind := RequestKind\<rparr>)))))"

text \<open>The DNS servers of an ACK: the list up to the first address that is refused, and whether none is.\<close>

fun collect_servers :: "bytes \<Rightarrow> bytes list \<Rightarrow> string list \<Rightarrow> string list \<times> bool" where
  "collect_servers client [] acc = (acc, True)"
| "collect_servers client (ip # ips) acc =
     (if \<not> native_peer ip \<or> ip = client then (acc, False)
      else collect_servers client ips
        (if ip_string ip \<notin> set acc \<and> length acc < 8 then acc @ [ip_string ip] else acc))"

definition observe_reply :: "native_tracker \<Rightarrow> native_pending \<Rightarrow> bytes \<Rightarrow> bytes \<Rightarrow> bytes \<Rightarrow> options \<Rightarrow> observation
    \<Rightarrow> native_tracker \<times> observation" where
  "observe_reply t request packet udp dhcp opts ob =
     (let source = field 12 4 packet; destination = field 16 4 packet;
          ciaddr = field 12 4 dhcp; yiaddr = field 16 4 dhcp; giaddr = field 24 4 dhcp; server = option_bytes opts 54 in
      if \<not> native_peer source \<or> source = nt_client t \<or> (destination \<noteq> nt_client t \<and> destination \<noteq> broadcast4)
      then (t, rejected ob BadReplyEndpoints)
      else if \<not> checksum_valid (take (unat (packet ! 0) mod 16 * 4) packet) then (t, rejected ob BadIpChecksum)
      else if \<not> udp_checksum_valid packet udp then (t, rejected ob BadUdpChecksum)
      else if (ciaddr \<noteq> zero4 \<and> ciaddr \<noteq> nt_client t) \<or> (giaddr \<noteq> zero4 \<and> (\<not> native_peer giaddr \<or> giaddr = nt_client t))
      then (t, rejected ob BadReplyAddress)
      else if \<not> native_peer server \<or> server = nt_client t \<or> (np_server request \<noteq> zero4 \<and> server \<noteq> np_server request)
      then (t, rejected ob BadServerId)
      else (let ob1 = ob\<lparr>ob_server := server\<rparr> in
        if opts 53 = Some [6] then
          (if yiaddr \<noteq> zero4 \<or> ciaddr \<noteq> zero4 then (t, rejected ob1 BadNak)
           else (complete request t, ob1\<lparr>ob_kind := NakKind\<rparr>))
        else if yiaddr \<noteq> nt_client t then (t, rejected ob1 NotAssigned)
        else (let lease = option_bytes opts 51 in
          if length lease \<noteq> 4 \<or> be_val lease = 0 then (t, rejected ob1 BadLease)
          else (let seconds = min (be_val lease) max_lease_seconds;
                    ob2 = ob1\<lparr>ob_lease := seconds, ob_expires := np_started request + int seconds * 1000000000\<rparr> in
            case opts 6 of
              None \<Rightarrow> (complete request t, ob2\<lparr>ob_kind := AckNoDnsKind\<rparr>)
            | Some dns \<Rightarrow>
                if length dns = 0 \<or> length dns mod 4 \<noteq> 0 then (t, rejected ob2 BadDnsOption)
                else (case collect_servers (nt_client t) (chunks4 dns) [] of (servers, ok) \<Rightarrow>
                  if \<not> ok then (t, rejected (ob2\<lparr>ob_servers := servers\<rparr>) BadDnsServer)
                  else (complete request t, ob2\<lparr>ob_kind := AckKind, ob_servers := servers\<rparr>))))))"

definition hex_bytes :: "bytes \<Rightarrow> string" where
  "hex_bytes bs = concat (map (\<lambda>b. hex2 (unat b)) bs)"

definition observe :: "native_tracker \<Rightarrow> bytes \<Rightarrow> bool \<Rightarrow> int \<Rightarrow> (native_tracker \<times> observation) option" where
  "observe t0 packet outgoing now =
     (let t = prune now t0 in
      case native_datagram packet outgoing of None \<Rightarrow> None
      | Some (Inl e) \<Rightarrow> Some (t, no_observation)
      | Some (Inr udp) \<Rightarrow>
          (let dhcp = drop 8 udp in
           if dhcp ! 1 \<noteq> 1 \<or> dhcp ! 2 \<noteq> 6 \<or> field 28 6 dhcp \<noteq> nt_mac t then Some (t, no_observation)
           else (let xid = field 4 4 dhcp; found = map_of (nt_pending t) xid in
             if \<not> outgoing \<and> found = None then Some (t, no_observation)
             else (let ob = no_observation\<lparr>ob_kind := RejectedKind, ob_xid := hex_bytes xid\<rparr> in
               if field 236 4 dhcp \<noteq> dhcp_magic then Some (t, rejected ob BadCookie)
               else (case native_all_options dhcp of None \<Rightarrow> None
                 | Some (Inl e) \<Rightarrow> Some (t, rejected ob e)
                 | Some (Inr opts) \<Rightarrow>
                     (if length (option_bytes opts 53) \<noteq> 1 then Some (t, rejected ob NoMessageType)
                      else if outgoing then
                        (if opts 53 \<noteq> Some [3] then Some (t, no_observation)
                         else Some (observe_request t packet dhcp xid opts now ob))
                      else if opts 53 \<noteq> Some [5] \<and> opts 53 \<noteq> Some [6] then Some (t, no_observation)
                      else Some (observe_reply t (the found) packet udp dhcp opts ob)))))))"

section \<open>No message makes the readers panic\<close>

lemma inform_options_total: "inform_options data i opts \<noteq> None"
proof (induction "length data - i" arbitrary: i opts rule: less_induct)
  case less
  have step: "sub data (i + 2) (i + 2 + unat (data ! (i + 1))) \<noteq> None"
    if "i < length data" "\<not> (i + 1 \<ge> length data \<or> unat (data ! (i + 1)) > length data - (i + 1) - 1)"
    using that by (auto simp: sub_def)
  have later: "inform_options data (i + k) opts' \<noteq> None" if "i < length data" "0 < k" for k opts'
    by (rule less) (use that in simp)
  have later1: "inform_options data (i + 2 + k) opts' \<noteq> None" if "i < length data" for k opts'
    using later [OF that, of "2 + k"] by (simp add: add.assoc)
  show ?case
    by (subst inform_options.simps, unfold Let_def, intro if_case some_case option.distinct(2) step later later1) simp_all
qed

lemma native_options_total: "native_options data i opts \<noteq> None"
proof (induction "length data - i" arbitrary: i opts rule: less_induct)
  case less
  have step: "sub data (i + 2) (i + 2 + unat (data ! (i + 1))) \<noteq> None"
    if "i < length data" "\<not> (i + 1 = length data \<or> unat (data ! (i + 1)) > length data - (i + 1) - 1)"
    using that by (auto simp: sub_def)
  have later: "native_options data (i + k) opts' \<noteq> None" if "i < length data" "0 < k" for k opts'
    by (rule less) (use that in simp)
  have later1: "native_options data (i + 2 + k) opts' \<noteq> None" if "i < length data" for k opts'
    using later [OF that, of "2 + k"] by (simp add: add.assoc)
  show ?case
    by (subst native_options.simps, unfold Let_def, intro if_case some_case option.distinct(2) step later later1) simp_all
qed

lemma all_options_total: "inform_all_options dhcp \<noteq> None" "native_all_options dhcp \<noteq> None"
  unfolding inform_all_options_def native_all_options_def
  by (intro some_case sum_case option_case if_case option.distinct(2) inform_options_total native_options_total)+

lemma native_datagram_shape:
  fixes packet
  defines "ihl \<equiv> unat (packet ! 0) mod 16 * 4" and "tot \<equiv> be_at packet 2"
  shows "(\<exists>e. native_datagram packet outgoing = Some (Inl e)) \<or>
    native_datagram packet outgoing = Some (Inr (take (tot - ihl) (drop ihl packet))) \<and> ihl + 248 \<le> tot \<and> tot \<le> length packet"
proof -
  define g1 where "g1 \<longleftrightarrow> length packet < 20 \<or> unat (packet ! 0) div 16 \<noteq> 4 \<or> packet ! 9 \<noteq> 17"
  define g2 where "g2 \<longleftrightarrow> ihl < 20 \<or> tot > length packet \<or> tot < ihl + 8 + 240 \<or> and (be16 (packet ! 6) (packet ! 7)) 0xBFFF \<noteq> 0"
  have d: "native_datagram packet outgoing = (if g1 then Some (Inl NotUdp) else if g2 then Some (Inl BadIpLength)
      else (case sub packet ihl tot of None \<Rightarrow> None
          | Some udp \<Rightarrow>
              (let (source, destination, op) = (if outgoing then (68, 67, 1) else (67, 68, 2)) in
               if be_at udp 4 \<noteq> length udp \<or> be_at udp 0 \<noteq> source \<or> be_at udp 2 \<noteq> destination \<or> udp ! 8 \<noteq> op
               then Some (Inl WrongEndpoints) else Some (Inr udp))))"
    unfolding native_datagram_def Let_def g1_def g2_def ihl_def tot_def by (rule refl)
  consider "g1" | "\<not> g1" "g2" | "\<not> g1" "\<not> g2" by blast
  then show ?thesis
  proof cases
    case 3
    then have b: "ihl + 248 \<le> tot" "tot \<le> length packet" by (auto simp: g2_def)
    then have "sub packet ihl tot = Some (take (tot - ihl) (drop ihl packet))" by (simp add: sub_def)
    then show ?thesis using 3 b unfolding d by (simp add: Let_def split: prod.split)
  qed (simp_all add: d)
qed

lemma inform_datagram_shape:
  "(\<exists>e. inform_reply_datagram packet i = Some (Inl e)) \<or> (\<exists>udp. inform_reply_datagram packet i = Some (Inr udp) \<and> 248 \<le> length udp)"
proof -
  define ihl where "ihl = unat (packet ! 0) mod 16 * 4"
  define tot where "tot = be_at packet 2"
  define g1 where "g1 \<longleftrightarrow> length packet < 20 \<or> unat (packet ! 0) div 16 \<noteq> 4 \<or> packet ! 9 \<noteq> 17"
  define g2 where "g2 \<longleftrightarrow> ihl < 20 \<or> tot > length packet \<or> tot < ihl + 8 + 240 \<or> be_at packet 6 mod 16384 \<noteq> 0"
  define u where "u = take (tot - ihl) (drop ihl packet)"
  define n where "n = be_at u 4"
  define g3 where "g3 \<longleftrightarrow> be_at u 0 \<noteq> 67 \<or> be_at u 2 \<noteq> 68 \<or> n < 8 + 240 \<or> n > length u"
  define g4 where "g4 \<longleftrightarrow> drop 8 (take n u) ! 0 \<noteq> 2 \<or> drop 8 (take n u) ! 1 \<noteq> 1 \<or> drop 8 (take n u) ! 2 \<noteq> 6
    \<or> field 4 4 (drop 8 (take n u)) \<noteq> ii_xid i \<or> field 28 6 (drop 8 (take n u)) \<noteq> ii_mac i"
  have s1: "sub packet ihl tot = Some u" if "\<not> g2" using that by (simp add: sub_def g2_def u_def)
  have s2: "sub u 0 n = Some (take n u)" if "\<not> g3" using that by (simp add: sub_def g3_def)
  have d: "inform_reply_datagram packet i = (if g1 then Some (Inl NotUdp) else if g2 then Some (Inl BadIpLength)
      else if field 16 4 packet \<noteq> ii_client i then Some (Inl WrongDestination)
      else if g3 then Some (Inl WrongEndpoints) else if g4 then Some (Inl WrongIdentity) else Some (Inr (take n u)))"
  proof (cases "g1 \<or> g2")
    case False
    have "inform_reply_datagram packet i = (if field 16 4 packet \<noteq> ii_client i then Some (Inl WrongDestination)
        else if g3 then Some (Inl WrongEndpoints)
        else (case sub u 0 n of None \<Rightarrow> None | Some udp \<Rightarrow> if drop 8 udp ! 0 \<noteq> 2 \<or> drop 8 udp ! 1 \<noteq> 1 \<or> drop 8 udp ! 2 \<noteq> 6
            \<or> field 4 4 (drop 8 udp) \<noteq> ii_xid i \<or> field 28 6 (drop 8 udp) \<noteq> ii_mac i then Some (Inl WrongIdentity) else Some (Inr udp)))"
      using False s1 by (simp only: inform_reply_datagram_def Let_def g1_def [symmetric] ihl_def [symmetric] tot_def [symmetric]
          g2_def [symmetric] n_def [symmetric] g3_def [symmetric] option.case if_False de_Morgan_disj simp_thms)
    then show ?thesis using False s2 by (cases g3) (simp_all only: g4_def option.case if_False if_True simp_thms de_Morgan_disj)
  qed (auto simp: inform_reply_datagram_def Let_def g1_def g2_def ihl_def tot_def)
  show ?thesis unfolding d by (auto simp: g3_def)
qed

lemma datagram_total: "inform_reply_datagram packet i \<noteq> None" "native_datagram packet outgoing \<noteq> None"
  using inform_datagram_shape [of packet i] native_datagram_shape [of packet outgoing] by auto

lemma datagram_length:
  "inform_reply_datagram packet i = Some (Inr udp) \<Longrightarrow> 248 \<le> length udp"
  "native_datagram packet outgoing = Some (Inr udp) \<Longrightarrow> 248 \<le> length udp"
  using inform_datagram_shape [of packet i] native_datagram_shape [of packet outgoing] by auto

section \<open>What the tracker accepts\<close>

type_synonym dhcp_event = "bytes \<times> bool \<times> int"

definition dhcp_xid :: "bytes \<Rightarrow> bytes" where
  "dhcp_xid packet = field (unat (packet ! 0) mod 16 * 4 + 12) 4 packet"

definition completes :: "observation \<Rightarrow> bool" where
  "completes ob \<longleftrightarrow> ob_kind ob \<in> {AckKind, AckNoDnsKind, NakKind}"

lemma datagram_xid:
  assumes "native_datagram packet outgoing = Some (Inr udp)"
  shows "field 4 4 (drop 8 udp) = dhcp_xid packet"
proof -
  define ihl where "ihl = unat (packet ! 0) mod 16 * 4"
  have "udp = take (be_at packet 2 - ihl) (drop ihl packet)" "be_at packet 2 \<ge> ihl + 248"
    using native_datagram_shape [of packet outgoing] assms by (auto simp: ihl_def)
  then show ?thesis by (simp add: field_def dhcp_xid_def ihl_def [symmetric] drop_take add.commute min_def)
qed

lemma oldest_in: "(ps :: (bytes \<times> native_pending) list) \<noteq> [] \<Longrightarrow> oldest_pending ps \<in> fst ` set ps"
  unfolding oldest_pending_def by (rule fold_picks_in) auto

definition room :: "native_tracker \<Rightarrow> (bytes \<times> native_pending) list" where
  "room t = (if length (nt_pending t) = pending_limit then AList.delete (oldest_pending (nt_pending t)) (nt_pending t) else nt_pending t)"

lemma observe_request_cases:
  assumes "observe_request t packet dhcp xid opts now ob = (t', ob')"
  shows "t' = t \<and> ob_kind ob' \<in> {RejectedKind, RequestKind} \<or>
    ob_kind ob' = RequestKind \<and> map_of (nt_pending t) xid = None \<and> (\<exists>srv. t' = t\<lparr>nt_sequence := nt_sequence t + 1,
      nt_pending := AList.update xid \<lparr>np_started = now, np_sequence = nt_sequence t + 1, np_server = srv\<rparr> (room t)\<rparr>)"
proof -
  define refusal where "refusal = (if field 12 4 dhcp = nt_client t then
        (if field 12 4 packet \<noteq> nt_client t \<or> opts 54 \<noteq> None \<or> opts 50 \<noteq> None then Some BadRenewal else None)
      else if field 12 4 dhcp \<noteq> zero4 \<or> field 12 4 packet \<noteq> zero4 \<or> opts 50 \<noteq> Some (nt_client t) \<or> field 16 4 packet \<noteq> broadcast4
      then Some NotThisAddress else None)"
  show ?thesis
    using assms unfolding observe_request_def Let_def room_def [symmetric] refusal_def [symmetric]
    by (elim if_drop option_drop) (auto simp: rejected_def)
qed

lemma observe_reply_cases:
  assumes "observe_reply t request packet udp dhcp opts ob = (t', ob')"
  shows "t' = t \<and> ob_kind ob' = RejectedKind \<or> t' = complete request t \<and> ob_kind ob' = NakKind \<or>
    t' = complete request t \<and> ob_kind ob' \<in> {AckKind, AckNoDnsKind} \<and> ob_lease ob' \<le> max_lease_seconds
      \<and> ob_expires ob' = np_started request + int (ob_lease ob') * 1000000000"
  using assms unfolding observe_reply_def Let_def
  by (elim if_drop option_drop prod_drop) (auto simp: rejected_def)

text \<open>What is pending after a message: the requests before it without the expired ones, and perhaps this one.\<close>

definition tracker_ok :: "native_tracker \<Rightarrow> bool" where
  "tracker_ok t \<longleftrightarrow> distinct (map fst (nt_pending t)) \<and> length (nt_pending t) \<le> pending_limit
     \<and> (\<forall>(x, r) \<in> set (nt_pending t). np_sequence r \<le> nt_sequence t)"

lemma filter_pending_ok: "tracker_ok t \<Longrightarrow> tracker_ok (t\<lparr>nt_pending := filter P (nt_pending t)\<rparr>)"
  by (auto simp: tracker_ok_def distinct_map_filter intro: order.trans [OF length_filter_le])

lemma prune_ok: "tracker_ok t \<Longrightarrow> tracker_ok (prune now t)" and complete_ok: "tracker_ok t \<Longrightarrow> tracker_ok (complete r t)"
  by (simp_all add: prune_def complete_def filter_pending_ok)

lemma room_small:
  assumes "tracker_ok t"
  shows "length (room t) < pending_limit \<and> distinct (map fst (room t)) \<and> set (room t) \<subseteq> set (nt_pending t)"
proof (cases "length (nt_pending t) = pending_limit")
  case True
  then have "nt_pending t \<noteq> []" by (auto simp: pending_limit_def)
  then obtain r where "(oldest_pending (nt_pending t), r) \<in> set (nt_pending t)" using oldest_in by fastforce
  then have "length (AList.delete (oldest_pending (nt_pending t)) (nt_pending t)) < length (nt_pending t)"
    unfolding delete_filter by (intro length_filter_less) auto
  then show ?thesis using assms True by (auto simp: room_def tracker_ok_def distinct_delete) (auto simp: delete_filter)
next
  case False
  then show ?thesis using assms by (auto simp: room_def tracker_ok_def)
qed

lemma room_update:
  assumes "tracker_ok t" "map_of (nt_pending t) x = None" "np_sequence r = nt_sequence t + 1"
  shows "tracker_ok (t\<lparr>nt_sequence := nt_sequence t + 1, nt_pending := AList.update x r (room t)\<rparr>)"
    and "set (AList.update x r (room t)) \<subseteq> insert (x, r) (set (nt_pending t))"
proof -
  note small = room_small [OF assms(1)]
  have x: "x \<notin> fst ` set (room t)" using assms(2) small by (force simp: map_of_eq_None_iff)
  then have u: "AList.update x r (room t) = room t @ [(x, r)]" by (rule update_new)
  have "\<forall>(x, r) \<in> set (room t). np_sequence r \<le> nt_sequence t + 1"
    using assms(1) small by (fastforce simp: tracker_ok_def)
  then show "tracker_ok (t\<lparr>nt_sequence := nt_sequence t + 1, nt_pending := AList.update x r (room t)\<rparr>)"
    using small x assms(3) by (auto simp: tracker_ok_def u)
  show "set (AList.update x r (room t)) \<subseteq> insert (x, r) (set (nt_pending t))" using small by (auto simp: u)
qed

lemma packet_cases:
  assumes "observe t0 packet outgoing now = Some (t', ob)"
  defines "t \<equiv> prune now t0"
  shows "t' = t \<and> ob_kind ob \<in> {NoKind, RejectedKind, RequestKind}
    \<or> outgoing \<and> ob_kind ob = RequestKind \<and> map_of (nt_pending t) (dhcp_xid packet) = None \<and>
        (\<exists>srv. t' = t\<lparr>nt_sequence := nt_sequence t + 1, nt_pending := AList.update (dhcp_xid packet)
          \<lparr>np_started = now, np_sequence = nt_sequence t + 1, np_server = srv\<rparr> (room t)\<rparr>)
    \<or> \<not> outgoing \<and> completes ob \<and> (\<exists>r. map_of (nt_pending t) (dhcp_xid packet) = Some r \<and> t' = complete r t
        \<and> (ob_kind ob \<noteq> NakKind \<longrightarrow> ob_lease ob \<le> max_lease_seconds
            \<and> ob_expires ob = np_started r + int (ob_lease ob) * 1000000000))"
proof (cases "native_datagram packet outgoing")
  case None
  then show ?thesis using datagram_total(2) by blast
next
  case (Some res)
  show ?thesis
  proof (cases res)
    case (Inl e)
    then have "t' = t" "ob = no_observation" using assms(1) Some by (simp_all add: observe_def t_def Let_def)
    then show ?thesis by (simp add: no_observation_def)
  next
    case (Inr udp)
    define dhcp where "dhcp = drop 8 udp"
    have xid: "field 4 4 dhcp = dhcp_xid packet" using datagram_xid Some Inr by (simp add: dhcp_def)
    define ob0 where "ob0 = no_observation\<lparr>ob_kind := RejectedKind, ob_xid := hex_bytes (dhcp_xid packet)\<rparr>"
    have kinds: "ob_kind no_observation = NoKind" "\<And>o1 e. ob_kind (rejected o1 e) = RejectedKind"
      by (simp_all add: no_observation_def rejected_def)
    have "(if dhcp ! 1 \<noteq> 1 \<or> dhcp ! 2 \<noteq> 6 \<or> field 28 6 dhcp \<noteq> nt_mac t then Some (t, no_observation)
        else if \<not> outgoing \<and> map_of (nt_pending t) (dhcp_xid packet) = None then Some (t, no_observation)
        else if field 236 4 dhcp \<noteq> dhcp_magic then Some (t, rejected ob0 BadCookie)
        else (case native_all_options dhcp of None \<Rightarrow> None
          | Some (Inl e) \<Rightarrow> Some (t, rejected ob0 e)
          | Some (Inr opts) \<Rightarrow>
              if length (option_bytes opts 53) \<noteq> 1 then Some (t, rejected ob0 NoMessageType)
              else if outgoing then
                (if opts 53 \<noteq> Some [3] then Some (t, no_observation)
                 else Some (observe_request t packet dhcp (dhcp_xid packet) opts now ob0))
              else if opts 53 \<noteq> Some [5] \<and> opts 53 \<noteq> Some [6] then Some (t, no_observation)
              else Some (observe_reply t (the (map_of (nt_pending t) (dhcp_xid packet))) packet udp dhcp opts ob0))) = Some (t', ob)"
      using assms(1) unfolding observe_def Let_def t_def [symmetric] Some Inr option.case sum.case dhcp_def [symmetric] xid ob0_def .
    then show ?thesis
    proof (elim if_keep option_drop sum_drop)
      fix res opts
      assume o: "outgoing" "Some (observe_request t packet dhcp (dhcp_xid packet) opts now ob0) = Some (t', ob)"
      then show ?thesis using observe_request_cases [of t packet dhcp "dhcp_xid packet" opts now ob0 t' ob] by auto
    next
      fix res opts
      assume o: "\<not> outgoing" "\<not> (\<not> outgoing \<and> map_of (nt_pending t) (dhcp_xid packet) = None)"
        "Some (observe_reply t (the (map_of (nt_pending t) (dhcp_xid packet))) packet udp dhcp opts ob0) = Some (t', ob)"
      then obtain r where r: "map_of (nt_pending t) (dhcp_xid packet) = Some r" by auto
      have "observe_reply t r packet udp dhcp opts ob0 = (t', ob)" using o(3) r by simp
      from observe_reply_cases [OF this] show ?thesis using o(1) r by (auto simp: completes_def)
    qed (auto simp: kinds)
  qed
qed

section \<open>A reply is answered by one recent request\<close>

text \<open>A run of the tracker: the messages it saw, with what it made of each.\<close>

inductive tracked :: "native_tracker \<Rightarrow> (dhcp_event \<times> observation) list \<Rightarrow> bool" where
  start: "new_tracker client mac = Inr t \<Longrightarrow> tracked t []"
| step: "tracked t log \<Longrightarrow> observe t packet outgoing now = Some (t', ob) \<Longrightarrow> tracked t' (log @ [((packet, outgoing, now), ob)])"

definition answerable :: "(dhcp_event \<times> observation) list \<Rightarrow> bytes \<Rightarrow> int \<Rightarrow> bool" where
  "answerable log xid at \<longleftrightarrow> (\<exists>pre request ob post. log = pre @ ((request, True, at), ob) # post \<and> ob_kind ob = RequestKind
     \<and> dhcp_xid request = xid \<and> (\<forall>((reply, _), ob') \<in> set post. completes ob' \<longrightarrow> dhcp_xid reply \<noteq> xid))"

lemma answerable_later:
  assumes "answerable log xid at" "completes ob \<Longrightarrow> dhcp_xid packet \<noteq> xid"
  shows "answerable (log @ [((packet, outgoing, now), ob)]) xid at"
proof -
  from assms(1) obtain pre request ob0 post where l: "log = pre @ ((request, True, at), ob0) # post" "ob_kind ob0 = RequestKind"
    "dhcp_xid request = xid" "\<forall>((reply, _), ob') \<in> set post. completes ob' \<longrightarrow> dhcp_xid reply \<noteq> xid"
    unfolding answerable_def by blast
  then show ?thesis using assms(2) unfolding answerable_def
    by (intro exI [of _ pre] exI [of _ request] exI [of _ ob0] exI [of _ "post @ [((packet, outgoing, now), ob)]"]) auto
qed

lemma answerable_new: "ob_kind ob = RequestKind \<Longrightarrow> answerable (log @ [((packet, True, now), ob)]) (dhcp_xid packet) now"
  unfolding answerable_def by (intro exI [of _ log] exI [of _ packet] exI [of _ ob] exI [of _ "[]"]) auto

lemma complete_drops:
  assumes "tracker_ok t" "map_of (nt_pending t) x = Some r"
  shows "x \<notin> fst ` set (nt_pending (complete r t))"
  using assms by (auto simp: complete_def tracker_ok_def dest: map_of_SomeD eq_key_imp_eq_value)

lemma pending_subset: "set (nt_pending (prune now t)) \<subseteq> set (nt_pending t)" "set (nt_pending (complete r t)) \<subseteq> set (nt_pending t)"
  by (auto simp: prune_def complete_def)

lemma new_tracker_ok: "new_tracker client mac = Inr t \<Longrightarrow> tracker_ok t \<and> nt_pending t = []"
  by (auto simp: new_tracker_def tracker_ok_def split: option.splits if_splits)

lemma tracked_invariant:
  assumes "tracked t log"
  shows "tracker_ok t \<and> (\<forall>(x, r) \<in> set (nt_pending t). answerable log x (np_started r))"
  using assms
proof (induction rule: tracked.induct)
  case (start client mac t)
  then show ?case using new_tracker_ok by force
next
  case (step t log packet outgoing now t' ob)
  define s where "s = prune now t"
  have ok: "tracker_ok s" using step by (simp add: s_def prune_ok)
  have old: "answerable log x (np_started r)" if "(x, r) \<in> set (nt_pending s)" for x r
    using step.IH that pending_subset(1) by (fastforce simp: s_def)
  have keep: "answerable (log @ [((packet, outgoing, now), ob)]) x (np_started r)"
    if "(x, r) \<in> set (nt_pending s)" "completes ob \<Longrightarrow> dhcp_xid packet \<noteq> x" for x r
    using old that by (blast intro: answerable_later)
  from packet_cases [OF step.hyps(2)] consider
      (same) "t' = s" "\<not> completes ob"
    | (request) srv where "outgoing" "ob_kind ob = RequestKind" "map_of (nt_pending s) (dhcp_xid packet) = None"
        "t' = s\<lparr>nt_sequence := nt_sequence s + 1, nt_pending := AList.update (dhcp_xid packet)
          \<lparr>np_started = now, np_sequence = nt_sequence s + 1, np_server = srv\<rparr> (room s)\<rparr>"
    | (reply) r where "map_of (nt_pending s) (dhcp_xid packet) = Some r" "t' = complete r s"
    unfolding s_def [symmetric] by (auto simp: completes_def)
  then show ?case
  proof cases
    case same
    then show ?thesis using ok keep by auto
  next
    case (request srv)
    define r where "r = \<lparr>np_started = now, np_sequence = nt_sequence s + 1, np_server = srv\<rparr>"
    note upd = room_update [OF ok request(3), of r]
    have "answerable (log @ [((packet, outgoing, now), ob)]) y (np_started q)" if "(y, q) \<in> set (nt_pending t')" for y q
    proof (cases "(y, q) = (dhcp_xid packet, r)")
      case True
      then show ?thesis using answerable_new request(1,2) by (simp add: r_def)
    next
      case False
      then have "(y, q) \<in> set (nt_pending s)" using that upd(2) request(4) by (auto simp: r_def [symmetric]) (auto simp: r_def)
      then show ?thesis using request(2) by (intro keep) (auto simp: completes_def)
    qed
    then show ?thesis using upd(1) request(4) by (auto simp: r_def)
  next
    case (reply r)
    have "answerable (log @ [((packet, outgoing, now), ob)]) y (np_started q)" if "(y, q) \<in> set (nt_pending t')" for y q
      using that complete_drops [OF ok reply(1)] pending_subset(2) reply(2) by (intro keep) force+
    then show ?thesis using ok reply(2) by (auto simp: complete_ok)
  qed
qed

definition demo_header :: "bytes \<Rightarrow> bytes \<Rightarrow> nat \<Rightarrow> bytes \<Rightarrow> bytes" where
  "demo_header source destination n checksum = [69, 0] @ be_bytes 2 (20 + n) @ [0, 0, 0, 0, 64, 17] @ checksum @ source @ destination"

definition demo_packet :: "bool \<Rightarrow> bytes \<Rightarrow> bytes" where
  "demo_packet outgoing options =
     (let dhcp = [if outgoing then 1 else 2, 1, 6, 0, 1, 2, 3, 4] @ replicate 8 0 @ (if outgoing then zero4 else [10, 0, 0, 2])
            @ replicate 8 0 @ [2, 0, 0, 0, 0, 1] @ replicate 202 0 @ dhcp_magic @ options;
          udp = be_bytes 2 (if outgoing then 68 else 67) @ be_bytes 2 (if outgoing then 67 else 68)
            @ be_bytes 2 (8 + length dhcp) @ [0, 0] @ dhcp in
      demo_header (if outgoing then zero4 else [10, 0, 0, 1]) broadcast4 (length udp) (if outgoing then [0, 0] else [111, 203]) @ udp)"

definition demo_request :: bytes where
  "demo_request = demo_packet True [53, 1, 3, 50, 4, 10, 0, 0, 2, 255]"

definition demo_ack :: bytes where
  "demo_ack = demo_packet False [53, 1, 5, 54, 4, 10, 0, 0, 1, 51, 4, 0, 0, 14, 16, 6, 4, 9, 9, 9, 9, 255]"

definition demo_start :: native_tracker where
  "demo_start = \<lparr>nt_client = [10, 0, 0, 2], nt_mac = [2, 0, 0, 0, 0, 1], nt_pending = [], nt_sequence = 0\<rparr>"

definition demo_waiting :: native_tracker where
  "demo_waiting = demo_start\<lparr>nt_sequence := 1, nt_pending := [([1, 2, 3, 4], \<lparr>np_started = 5, np_sequence = 1, np_server = zero4\<rparr>)]\<rparr>"

definition demo_seen :: observation where
  "demo_seen = no_observation\<lparr>ob_kind := RequestKind, ob_xid := ''01020304''\<rparr>"

lemma demo_new: "new_tracker [10, 0, 0, 2] [2, 0, 0, 0, 0, 1] = Inr demo_start"
  by code_simp

lemma demo_observe: "observe demo_start demo_request True 5 = Some (demo_waiting, demo_seen)"
  by code_simp

definition demo_done :: observation where
  "demo_done = \<lparr>ob_kind = AckKind, ob_xid = ''01020304'', ob_server = [10, 0, 0, 1], ob_servers = [''9.9.9.9''],
     ob_lease = 3600, ob_expires = 3600000000005, ob_err = None\<rparr>"

lemma demo_reply: "observe demo_waiting demo_ack False 9 = Some (demo_waiting\<lparr>nt_pending := []\<rparr>, demo_done)"
  by code_simp

lemma demo_run: "tracked demo_waiting [((demo_request, True, 5), demo_seen)]"
  using tracked.step [OF tracked.start [OF demo_new] demo_observe] by simp

text \<open>A reply never reaches further back than the time a request may stay pending.\<close>

lemma observe_answer:
  assumes "tracked t log" "observe t packet outgoing now = Some (t', ob)" "completes ob"
  obtains r :: native_pending where "\<not> outgoing" "answerable log (dhcp_xid packet) (np_started r)" "np_started r \<le> now" "now < np_started r + pending_ttl"
    "ob_kind ob \<noteq> NakKind \<longrightarrow> ob_lease ob \<le> max_lease_seconds \<and> ob_expires ob = np_started r + int (ob_lease ob) * 1000000000"
proof -
  from packet_cases [OF assms(2)] assms(3) obtain r where r: "\<not> outgoing"
    "map_of (nt_pending (prune now t)) (dhcp_xid packet) = Some r"
    "ob_kind ob \<noteq> NakKind \<longrightarrow> ob_lease ob \<le> max_lease_seconds \<and> ob_expires ob = np_started r + int (ob_lease ob) * 1000000000"
    by (auto simp: completes_def)
  have m: "(dhcp_xid packet, r) \<in> set (nt_pending (prune now t))" using r(2) by (rule map_of_SomeD)
  then have "answerable log (dhcp_xid packet) (np_started r)" "np_started r \<le> now" "now < np_started r + pending_ttl"
    using tracked_invariant [OF assms(1)] by (auto simp: prune_def)
  then show thesis using that r by blast
qed

section \<open>The properties\<close>

text \<open>Neither reader of DHCP messages panics: whatever bytes arrive, the parser of an INFORM reply returns a result or
  an error, and the tracker of the firmware's client returns its next state, though both slice the message by the
  header length, total length, UDP length and option lengths that the message itself gives.\<close>

theorem dhcp_readers_never_panic: "parse_inform_ack packet i discover \<noteq> None \<and> observe t packet outgoing now \<noteq> None"
proof
  show "parse_inform_ack packet i discover \<noteq> None"
    unfolding parse_inform_ack_def Let_def
    by (intro some_case sum_case option_case if_case option.distinct(2) datagram_total all_options_total)
  show "observe t packet outgoing now \<noteq> None"
    unfolding observe_def Let_def
    by (intro some_case sum_case option_case if_case option.distinct(2) datagram_total all_options_total)
qed



end
