(* ===== verification/Dns_Cache.thy ===== *)
theory Dns_Cache
  imports Blocker Go_Time Assoc
begin

text \<open>
  The answer cache of the DNS server (\<open>internal/services/dnsserver/cache.go\<close> and the cache operations of
  \<open>resolver.go\<close>): how long an answer may be kept, how a kept answer ages, and the bounded store of answers with
  its generation counter.

  A message is decoded (\<open>miekg/dns\<close>); its encoder, the completion of a name with the final dot, the test for a
  subdomain and the test for a signature are the parameter \<open>dns_lib\<close>. A lifetime is a \<open>uint32\<close> and only ever
  compared and decreased, so a \<^typ>\<open>nat\<close>; the conversion of an elapsed time to \<open>uint32\<close> wraps. The map of answers is
  an association list with distinct keys: one order in which Go's iteration may visit it.
\<close>

section \<open>Messages\<close>

record dns_rr = answer_rr +
  rr_type :: nat
  rr_class :: nat
  rr_ttl :: nat

record question =
  qn_name :: string
  qn_type :: nat
  qn_class :: nat

record dns_msg =
  dm_id :: nat
  dm_response :: bool
  dm_opcode :: nat
  dm_authoritative :: bool
  dm_truncated :: bool
  dm_recursion_available :: bool
  dm_authenticated :: bool
  dm_rcode :: nat
  dm_question :: "question list"
  dm_answer :: "dns_rr list"
  dm_ns :: "dns_rr list"
  dm_extra :: "dns_rr list"

record dns_lib =
  dl_fqdn :: "string \<Rightarrow> string"
  dl_sub_domain :: "string \<Rightarrow> string \<Rightarrow> bool"
  dl_pack :: "dns_msg \<Rightarrow> bytes option"
  dl_tsig :: "dns_msg \<Rightarrow> bool"

definition type_opt :: nat where "type_opt = 41"
definition type_rrsig :: nat where "type_rrsig = 46"
definition type_any :: nat where "type_any = 255"
definition rcode_success :: nat where "rcode_success = 0"
definition rcode_name_error :: nat where "rcode_name_error = 3"

text \<open>An operation on the headers of all three record sections.\<close>

definition map_sections :: "(dns_rr \<Rightarrow> dns_rr) \<Rightarrow> dns_msg \<Rightarrow> dns_msg" where
  "map_sections f m = m\<lparr>dm_answer := map f (dm_answer m), dm_ns := map f (dm_ns m), dm_extra := map f (dm_extra m)\<rparr>"

definition sections :: "dns_msg \<Rightarrow> dns_rr list" where
  "sections m = dm_answer m @ dm_ns m @ dm_extra m"

section \<open>Ageing and lifetime\<close>

definition age_rr :: "nat \<Rightarrow> dns_rr \<Rightarrow> dns_rr" where
  "age_rr age rr = (if rr_type rr = type_opt then rr
     else if rr_ttl rr > age then rr\<lparr>rr_ttl := rr_ttl rr - age\<rparr> else rr\<lparr>rr_ttl := 0\<rparr>)"

definition dns_age_message :: "duration \<Rightarrow> dns_msg \<Rightarrow> dns_msg" where
  "dns_age_message elapsed m = (if elapsed \<le> 0 then m else map_sections (age_rr (whole_seconds elapsed)) m)"

text \<open>The name at the end of the chain of aliases; the loop of the source gives up after 16 links.\<close>

fun terminal_loop :: "dns_lib \<Rightarrow> dns_rr list \<Rightarrow> nat \<Rightarrow> nat \<Rightarrow> string list \<Rightarrow> string \<Rightarrow> string option" where
  "terminal_loop L rrs class 0 seen owner = None"
| "terminal_loop L rrs class (Suc n) seen owner =
     (if owner \<in> set seen then None
      else (let follow = (case find (\<lambda>rr. (case ar_data rr of Cname _ \<Rightarrow> True | _ \<Rightarrow> False)
                  \<and> rr_class rr = class \<and> equal_fold (ar_owner rr) owner) rrs of
                None \<Rightarrow> []
              | Some rr \<Rightarrow> (case ar_data rr of Cname t \<Rightarrow> to_lower (dl_fqdn L t) | _ \<Rightarrow> [])) in
        if follow = [] then Some owner else terminal_loop L rrs class n (owner # seen) follow))"

definition terminal_name :: "dns_lib \<Rightarrow> dns_msg \<Rightarrow> string \<Rightarrow> nat \<Rightarrow> string option" where
  "terminal_name L m q class = terminal_loop L (dm_answer m) class 16 [] (to_lower (dl_fqdn L q))"

definition soa_covers :: "dns_lib \<Rightarrow> nat \<Rightarrow> string \<Rightarrow> dns_rr \<Rightarrow> nat option" where
  "soa_covers L class owner rr =
     (case ar_data rr of Soa minttl \<Rightarrow>
        (if rr_class rr = class \<and> dl_sub_domain L (to_lower (ar_owner rr)) owner then Some minttl else None) | _ \<Rightarrow> None)"

definition positive_rr :: "question \<Rightarrow> string \<Rightarrow> dns_rr \<Rightarrow> bool" where
  "positive_rr q owner rr \<longleftrightarrow> rr_class rr = qn_class q \<and> (equal_fold (ar_owner rr) (qn_name q) \<or> equal_fold (ar_owner rr) owner)
     \<and> (rr_type rr = qn_type q \<or> qn_type q = type_any \<and> rr_type rr \<noteq> type_rrsig)"

definition authority_ttl :: "dns_lib \<Rightarrow> nat \<Rightarrow> string \<Rightarrow> dns_rr list \<Rightarrow> nat \<Rightarrow> nat" where
  "authority_ttl L class owner rrs ttl =
     fold (\<lambda>rr ttl. case soa_covers L class owner rr of None \<Rightarrow> ttl | Some minttl \<Rightarrow> min (min ttl (rr_ttl rr)) minttl) rrs ttl"

definition least_ttl :: "dns_rr list \<Rightarrow> nat \<Rightarrow> nat" where
  "least_ttl rrs ttl = fold (\<lambda>rr ttl. if rr_type rr \<noteq> type_opt \<and> rr_ttl rr < ttl then rr_ttl rr else ttl) rrs ttl"

definition cache_lifetime :: "dns_lib \<Rightarrow> dns_msg \<Rightarrow> nat \<Rightarrow> nat \<times> bool" where
  "cache_lifetime L m maximum =
     (case dm_question m of
        [q] \<Rightarrow>
          (if dm_truncated m \<or> (dm_rcode m \<noteq> rcode_success \<and> dm_rcode m \<noteq> rcode_name_error) then (0, False)
           else (case terminal_name L m (qn_name q) (qn_class q) of
               None \<Rightarrow> (0, False)
             | Some owner \<Rightarrow>
                 (let negative = (dm_rcode m = rcode_name_error \<or> \<not> list_ex (positive_rr q owner) (dm_answer m)) in
                  if negative \<and> \<not> list_ex (\<lambda>rr. soa_covers L (qn_class q) owner rr \<noteq> None) (dm_ns m) then (0, True)
                  else (least_ttl (sections m)
                    (if negative then authority_ttl L (qn_class q) owner (dm_ns m) maximum else maximum), negative))))
      | _ \<Rightarrow> (0, False))"

definition clip_soa :: "dns_rr \<Rightarrow> dns_rr" where
  "clip_soa rr = (case ar_data rr of Soa minttl \<Rightarrow> (if rr_ttl rr > minttl then rr\<lparr>rr_ttl := minttl\<rparr> else rr) | _ \<Rightarrow> rr)"

definition clip_negative_soa :: "dns_lib \<Rightarrow> dns_msg \<Rightarrow> dns_msg" where
  "clip_negative_soa L m = (if snd (cache_lifetime L m 4294967295) then m\<lparr>dm_ns := map clip_soa (dm_ns m)\<rparr> else m)"

section \<open>The store of answers\<close>

record cache_entry =
  ce_msg :: dns_msg
  ce_created :: time
  ce_expires :: time
  ce_route :: string
  ce_upstream :: string

record dns_cache =
  dc_entries :: "(string \<times> cache_entry) list"
  dc_generation :: nat
  dc_closed :: bool

record cache_config =
  cc_size :: nat
  cc_ttl :: nat

definition prune_cache :: "time \<Rightarrow> dns_cache \<Rightarrow> dns_cache" where
  "prune_cache now c = c\<lparr>dc_entries := filter (\<lambda>(k, e). now < ce_expires e) (dc_entries c)\<rparr>"

definition soonest_expiry :: "(string \<times> cache_entry) list \<Rightarrow> string" where
  "soonest_expiry es =
     fst (fold (\<lambda>(k, e) (oldest, earliest). if earliest = zero_time \<or> ce_expires e < earliest then (k, ce_expires e) else (oldest, earliest))
       es ([], zero_time))"

text \<open>A stored answer leaves under the id and the question of the client.\<close>

definition answer_to :: "dns_msg \<Rightarrow> dns_msg \<Rightarrow> dns_msg" where
  "answer_to query m = m\<lparr>dm_id := dm_id query, dm_question := dm_question query\<rparr>"

definition cache_get :: "dns_lib \<Rightarrow> time \<Rightarrow> string \<Rightarrow> dns_msg \<Rightarrow> dns_cache \<Rightarrow> dns_cache \<times> (bytes \<times> string \<times> string) option" where
  "cache_get L now key query c =
     (case map_of (dc_entries c) key of
        None \<Rightarrow> (c, None)
      | Some e \<Rightarrow>
          (if \<not> now < ce_expires e then (c\<lparr>dc_entries := AList.delete key (dc_entries c)\<rparr>, None)
           else (case dl_pack L (answer_to query (dns_age_message (time_sub now (ce_created e)) (ce_msg e))) of
               None \<Rightarrow> (c, None)
             | Some b \<Rightarrow> (c, Some (b, ce_route e, ce_upstream e)))))"

definition stored_answer :: "bool \<Rightarrow> dns_msg \<Rightarrow> dns_msg" where
  "stored_answer negative m = (if negative then m\<lparr>dm_ns := map clip_soa (dm_ns m)\<rparr> else m)"

definition make_room :: "cache_config \<Rightarrow> string \<Rightarrow> (string \<times> cache_entry) list \<Rightarrow> (string \<times> cache_entry) list" where
  "make_room cfg key es = (if length es \<ge> cc_size cfg \<and> map_of es key = None then AList.delete (soonest_expiry es) es else es)"

definition cache_put_at :: "dns_lib \<Rightarrow> cache_config \<Rightarrow> string \<Rightarrow> dns_msg \<Rightarrow> string \<Rightarrow> string \<Rightarrow> nat \<Rightarrow> time \<Rightarrow> dns_cache \<Rightarrow> dns_cache" where
  "cache_put_at L cfg key m route upstream generation now c =
     (if cc_size cfg = 0 \<or> dl_tsig L m then c
      else (case dl_pack L m of None \<Rightarrow> c
        | Some wire \<Rightarrow>
            (if length wire > 4096 \<or> length key > 4096 then c
             else (let (ttl, negative) = cache_lifetime L m (cc_ttl cfg) in
               if ttl = 0 then c
               else if generation \<noteq> dc_generation c \<or> dc_closed c then c
               else (let c1 = prune_cache now c;
                         e = \<lparr>ce_msg = stored_answer negative m, ce_created = now, ce_expires = now + secs (int ttl),
                           ce_route = route, ce_upstream = upstream\<rparr> in
                     c1\<lparr>dc_entries := AList.update key e (make_room cfg key (dc_entries c1))\<rparr>)))))"

definition cache_status :: "time \<Rightarrow> dns_cache \<Rightarrow> dns_cache \<times> nat" where
  "cache_status now c = (let c1 = prune_cache now c in (c1, length (dc_entries c1)))"

definition clear_cache :: "dns_cache \<Rightarrow> dns_cache \<times> nat" where
  "clear_cache c = (c\<lparr>dc_entries := [], dc_generation := dc_generation c + 1\<rparr>, length (dc_entries c))"

definition close_cache :: "dns_cache \<Rightarrow> dns_cache" where
  "close_cache c = c\<lparr>dc_closed := True\<rparr>"

definition empty_cache :: dns_cache where
  "empty_cache = \<lparr>dc_entries = [], dc_generation = 0, dc_closed = False\<rparr>"

section \<open>Lifetimes bound what is kept\<close>

lemma least_ttl_le: "least_ttl rrs ttl \<le> ttl" "rr \<in> set rrs \<Longrightarrow> rr_type rr \<noteq> type_opt \<Longrightarrow> least_ttl rrs ttl \<le> rr_ttl rr"
proof -
  have le: "least_ttl rs t \<le> t" for rs t
  proof (induction rs arbitrary: t)
    case (Cons r rs)
    let ?t = "if rr_type r \<noteq> type_opt \<and> rr_ttl r < t then rr_ttl r else t"
    have "least_ttl (r # rs) t = least_ttl rs ?t" by (simp add: least_ttl_def)
    also have "\<dots> \<le> ?t" by (rule Cons)
    also have "\<dots> \<le> t" by simp
    finally show ?case .
  qed (simp add: least_ttl_def)
  then show "least_ttl rrs ttl \<le> ttl" .
  assume "rr \<in> set rrs" "rr_type rr \<noteq> type_opt"
  then obtain xs ys where "rrs = xs @ rr # ys" by (meson split_list)
  then have "least_ttl rrs ttl = least_ttl ys (if rr_ttl rr < least_ttl xs ttl then rr_ttl rr else least_ttl xs ttl)"
    using \<open>rr_type rr \<noteq> type_opt\<close> by (simp add: least_ttl_def)
  also have "\<dots> \<le> (if rr_ttl rr < least_ttl xs ttl then rr_ttl rr else least_ttl xs ttl)" by (rule le)
  finally show "least_ttl rrs ttl \<le> rr_ttl rr" by (simp split: if_splits)
qed

lemma authority_ttl_le: "authority_ttl L class owner rrs ttl \<le> ttl"
proof (induction rrs arbitrary: ttl)
  case (Cons r rs)
  let ?t = "case soa_covers L class owner r of None \<Rightarrow> ttl | Some minttl \<Rightarrow> min (min ttl (rr_ttl r)) minttl"
  have "authority_ttl L class owner (r # rs) ttl = authority_ttl L class owner rs ?t" by (simp add: authority_ttl_def)
  also have "\<dots> \<le> ?t" by (rule Cons)
  also have "\<dots> \<le> ttl" by (auto split: option.split)
  finally show ?case .
qed (simp add: authority_ttl_def)

lemma cache_lifetime_bounds:
  assumes "cache_lifetime L m maximum = (ttl, negative)"
  shows "ttl \<le> maximum" and "rr \<in> set (sections m) \<Longrightarrow> rr_type rr \<noteq> type_opt \<Longrightarrow> ttl \<le> rr_ttl rr"
proof -
  define short where "short n \<longleftrightarrow> n = 0 \<or> (\<exists>t \<le> maximum. n = least_ttl (sections m) t)" for n
  have cut: "t \<le> maximum \<Longrightarrow> short (least_ttl (sections m) t)" for t unfolding short_def by blast
  have "short 0" by (simp add: short_def)
  then have "short ttl"
    using assms cut [OF order_refl] cut [OF authority_ttl_le] unfolding cache_lifetime_def
    by (auto simp: Let_def split: list.splits if_splits option.splits)
  then have a: "ttl = 0 \<or> (\<exists>t \<le> maximum. ttl = least_ttl (sections m) t)" by (simp only: short_def)
  then show "ttl \<le> maximum" using least_ttl_le(1) by (metis le_trans zero_le)
  show "ttl \<le> rr_ttl rr" if "rr \<in> set (sections m)" "rr_type rr \<noteq> type_opt"
    using a least_ttl_le(2) [OF that] by auto
qed

text \<open>While an answer lives, its records still have time to live.\<close>

lemma aged_positive:
  assumes "now < t + secs (int ttl)" "ttl \<le> rr_ttl rr" "0 < ttl" "rr_type rr \<noteq> type_opt" "0 < time_sub now t"
  shows "0 < rr_ttl (age_rr (whole_seconds (time_sub now t)) rr)
    \<and> rr_ttl (age_rr (whole_seconds (time_sub now t)) rr) + whole_seconds (time_sub now t) = rr_ttl rr"
proof -
  have "int (whole_seconds (time_sub now t)) * 1000000000 \<le> time_sub now t"
    using whole_seconds_le assms(5) by simp
  also have "\<dots> \<le> max (- 9223372036854775808) (now - t)" by (simp add: time_sub_def)
  also have "\<dots> < int ttl * 1000000000" using assms(1,3) by (simp add: secs_def)
  finally have "whole_seconds (time_sub now t) < ttl" by simp
  then show ?thesis using assms(2,4) by (simp add: age_rr_def)
qed

section \<open>Histories of the store\<close>

datatype cache_event =
    CachePut string dns_msg string string nat time
  | CacheGet string dns_msg time
  | CacheCount time
  | CacheClear
  | CacheClose

fun cache_step :: "dns_lib \<Rightarrow> cache_config \<Rightarrow> cache_event \<Rightarrow> dns_cache \<Rightarrow> dns_cache" where
  "cache_step L cfg (CachePut key m route upstream generation now) c = cache_put_at L cfg key m route upstream generation now c"
| "cache_step L cfg (CacheGet key query now) c = fst (cache_get L now key query c)"
| "cache_step L cfg (CacheCount now) c = fst (cache_status now c)"
| "cache_step L cfg CacheClear c = fst (clear_cache c)"
| "cache_step L cfg CacheClose c = close_cache c"

definition cache_history :: "dns_lib \<Rightarrow> cache_config \<Rightarrow> cache_event list \<Rightarrow> dns_cache" where
  "cache_history L cfg evs = fold (cache_step L cfg) evs empty_cache"

definition clears :: "cache_event list \<Rightarrow> nat" where
  "clears evs = length (filter (\<lambda>ev. ev = CacheClear) evs)"

lemma cache_history_snoc: "cache_history L cfg (evs @ [ev]) = cache_step L cfg ev (cache_history L cfg evs)"
  and clears_append: "clears (xs @ ys) = clears xs + clears ys"
  by (simp_all add: cache_history_def clears_def)

text \<open>What \<open>cache_put_at\<close> stores, when it stores.\<close>

definition kept :: "dns_lib \<Rightarrow> cache_config \<Rightarrow> dns_msg \<Rightarrow> string \<Rightarrow> string \<Rightarrow> time \<Rightarrow> cache_entry \<Rightarrow> bool" where
  "kept L cfg m route upstream now e \<longleftrightarrow> (\<exists>ttl negative. cache_lifetime L m (cc_ttl cfg) = (ttl, negative) \<and> 0 < ttl
     \<and> e = \<lparr>ce_msg = stored_answer negative m, ce_created = now, ce_expires = now + secs (int ttl),
            ce_route = route, ce_upstream = upstream\<rparr>)"

lemma cache_put_cases:
  obtains (same) "cache_put_at L cfg key m route upstream generation now c = c"
  | (stored) e where "generation = dc_generation c" "kept L cfg m route upstream now e" "0 < cc_size cfg"
      "cache_put_at L cfg key m route upstream generation now c = (prune_cache now c)
        \<lparr>dc_entries := AList.update key e (make_room cfg key (dc_entries (prune_cache now c)))\<rparr>"
proof (cases "cache_put_at L cfg key m route upstream generation now c = c")
  case False
  obtain ttl negative where l: "cache_lifetime L m (cc_ttl cfg) = (ttl, negative)" by force
  let ?e = "\<lparr>ce_msg = stored_answer negative m, ce_created = now, ce_expires = now + secs (int ttl),
    ce_route = route, ce_upstream = upstream\<rparr>"
  have "generation = dc_generation c" "0 < ttl" "0 < cc_size cfg" "cache_put_at L cfg key m route upstream generation now c
      = (prune_cache now c)\<lparr>dc_entries := AList.update key ?e (make_room cfg key (dc_entries (prune_cache now c)))\<rparr>"
    using False l by (auto simp: cache_put_at_def Let_def split: if_splits option.splits)
  then show ?thesis using stored [of ?e] l unfolding kept_def by blast
qed (rule same)

text \<open>The store is bounded and has one answer per key.\<close>

definition cache_ok :: "cache_config \<Rightarrow> dns_cache \<Rightarrow> bool" where
  "cache_ok cfg c \<longleftrightarrow> distinct (map fst (dc_entries c)) \<and> length (dc_entries c) \<le> cc_size cfg"

lemma soonest_in: "es \<noteq> [] \<Longrightarrow> soonest_expiry es \<in> fst ` set es"
  unfolding soonest_expiry_def by (rule fold_picks_in) auto

lemma make_room_ok:
  assumes "distinct (map fst es)" "length es \<le> cc_size cfg" "0 < cc_size cfg"
  shows "distinct (map fst (make_room cfg key es)) \<and> set (make_room cfg key es) \<subseteq> set es
    \<and> length (AList.update key e (make_room cfg key es)) \<le> cc_size cfg"
proof (cases "length es \<ge> cc_size cfg \<and> map_of es key = None")
  case True
  then have "es \<noteq> []" using assms(3) by auto
  then have "length (AList.delete (soonest_expiry es) es) < length es" by (intro delete_smaller soonest_in)
  then show ?thesis using assms True
    by (simp add: make_room_def length_update distinct_delete) (auto simp: AList.delete_eq)
next
  case False
  then show ?thesis using assms by (auto simp: make_room_def length_update)
qed

lemma distinct_filter_keys: "distinct (map fst es) \<Longrightarrow> distinct (map fst (filter P es))"
  by (rule distinct_map_filter)

lemma cache_step_ok: "cache_ok cfg c \<Longrightarrow> cache_ok cfg (cache_step L cfg ev c)"
proof (induction ev)
  case (CachePut key m route upstream generation now)
  show ?case
  proof (cases rule: cache_put_cases [of L cfg key m route upstream generation now c])
    case (stored e)
    have "distinct (map fst (dc_entries (prune_cache now c)))" "length (dc_entries (prune_cache now c)) \<le> cc_size cfg"
      using CachePut by (auto simp: prune_cache_def cache_ok_def distinct_filter_keys intro: order_trans [OF length_filter_le])
    from make_room_ok [OF this stored(3), of key e] show ?thesis using stored(4) by (simp add: cache_ok_def distinct_update)
  qed (use CachePut in simp)
next
  case (CacheGet key query now)
  then show ?case using length_delete_le [of key "dc_entries c"]
    by (auto simp: cache_get_def cache_ok_def distinct_delete split: option.splits)
next
  case (CacheCount now)
  then show ?case
    by (auto simp: cache_status_def prune_cache_def cache_ok_def distinct_filter_keys Let_def intro: order_trans [OF length_filter_le])
qed (simp_all add: clear_cache_def close_cache_def cache_ok_def)

lemma cache_history_ok: "cache_ok cfg (cache_history L cfg evs)"
  by (induction evs rule: rev_induct) (simp_all add: cache_history_snoc cache_step_ok, simp add: cache_history_def empty_cache_def cache_ok_def)

section \<open>Where a cached answer comes from\<close>

text \<open>
  Every kept answer was put by a request of the current generation, and the store was not cleared since. A put that
  is later overwritten or removed leaves no trace, so the entry names the last one.
\<close>

definition put_since_clear :: "dns_lib \<Rightarrow> cache_config \<Rightarrow> cache_event list \<Rightarrow> string \<Rightarrow> cache_entry \<Rightarrow> bool" where
  "put_since_clear L cfg evs key e \<longleftrightarrow> (\<exists>pre m route upstream t post. kept L cfg m route upstream t e
     \<and> evs = pre @ CachePut key m route upstream (clears pre) t # post \<and> CacheClear \<notin> set post)"

lemma put_since_clear_later: "put_since_clear L cfg evs key e \<Longrightarrow> ev \<noteq> CacheClear \<Longrightarrow> put_since_clear L cfg (evs @ [ev]) key e"
proof -
  assume "ev \<noteq> CacheClear" "put_since_clear L cfg evs key e"
  then obtain pre m route upstream t post where "kept L cfg m route upstream t e"
    "evs = pre @ CachePut key m route upstream (clears pre) t # post" "CacheClear \<notin> set post"
    unfolding put_since_clear_def by blast
  then show ?thesis using \<open>ev \<noteq> CacheClear\<close> unfolding put_since_clear_def
    by (intro exI [of _ pre] exI [of _ m] exI [of _ route] exI [of _ upstream] exI [of _ t] exI [of _ "post @ [ev]"]) auto
qed

lemma put_same_generation: "dc_generation (cache_put_at L cfg key m route upstream generation now c) = dc_generation c"
  by (cases rule: cache_put_cases [of L cfg key m route upstream generation now c]) (auto simp: prune_cache_def)

lemma cache_generation: "dc_generation (cache_history L cfg evs) = clears evs"
proof (induction evs rule: rev_induct)
  case (snoc ev evs)
  then show ?case
    by (cases ev) (auto simp: cache_history_snoc clears_append put_same_generation cache_get_def cache_status_def prune_cache_def
        clear_cache_def close_cache_def clears_def Let_def split: option.split)
qed (simp add: cache_history_def empty_cache_def clears_def)

lemma cache_provenance: "(key, e) \<in> set (dc_entries (cache_history L cfg evs)) \<Longrightarrow> put_since_clear L cfg evs key e"
proof (induction evs arbitrary: key e rule: rev_induct)
  case (snoc ev evs)
  let ?c = "cache_history L cfg evs"
  have old: "put_since_clear L cfg (evs @ [ev]) key e" if "(key, e) \<in> set (dc_entries ?c)" "ev \<noteq> CacheClear"
    using snoc.IH that by (blast intro: put_since_clear_later)
  show ?case
  proof (cases ev)
    case (CachePut k m route upstream generation now)
    note e = snoc.prems [unfolded cache_history_snoc CachePut cache_step.simps]
    show ?thesis
    proof (cases rule: cache_put_cases [of L cfg k m route upstream generation now ?c])
      case same
      then show ?thesis using e old CachePut by simp
    next
      case (stored e0)
      have "set (make_room cfg k (dc_entries (prune_cache now ?c))) \<subseteq> set (dc_entries ?c)"
        by (auto simp: make_room_def prune_cache_def AList.delete_eq)
      then have "(key, e) = (k, e0) \<or> (key, e) \<in> set (dc_entries ?c)"
        using e update_set unfolding stored(4) by fastforce
      then show ?thesis
      proof
        assume "(key, e) = (k, e0)"
        then show ?thesis using stored(1,2) CachePut unfolding put_since_clear_def
          by (intro exI [of _ evs] exI [of _ m] exI [of _ route] exI [of _ upstream] exI [of _ now] exI [of _ "[]"])
             (simp add: cache_generation)
      qed (use old CachePut in simp)
    qed
  next
    case (CacheGet k q now)
    then have "(key, e) \<in> set (dc_entries ?c)" using snoc.prems
      by (auto simp: cache_history_snoc cache_get_def AList.delete_eq split: option.splits if_splits)
    then show ?thesis using old CacheGet by simp
  next
    case (CacheCount now)
    then have "(key, e) \<in> set (dc_entries ?c)" using snoc.prems
      by (auto simp: cache_history_snoc cache_status_def prune_cache_def Let_def)
    then show ?thesis using old CacheCount by simp
  qed (use snoc.prems old in \<open>auto simp: cache_history_snoc clear_cache_def close_cache_def\<close>)
qed (simp add: cache_history_def empty_cache_def)

lemma served_ttl:
  assumes "cache_lifetime L m maximum = (ttl, negative)" "0 < ttl" "now < t + secs (int ttl)"
    "rr \<in> set (dm_answer served) \<union> set (dm_extra served)" "served = dns_age_message (time_sub now t) (stored_answer negative m)"
  shows "rr_type rr = type_opt \<or> 0 < rr_ttl rr"
proof -
  have same: "dm_answer (stored_answer negative m) = dm_answer m" "dm_extra (stored_answer negative m) = dm_extra m"
    by (simp_all add: stored_answer_def)
  have le: "rr_type r = type_opt \<or> ttl \<le> rr_ttl r" if "r \<in> set (dm_answer m) \<union> set (dm_extra m)" for r
    using cache_lifetime_bounds(2) [OF assms(1)] that by (auto simp: sections_def)
  show ?thesis
  proof (cases "time_sub now t \<le> 0")
    case True
    then have "rr \<in> set (dm_answer m) \<union> set (dm_extra m)" using assms(4,5) same by (simp add: dns_age_message_def)
    then show ?thesis using le assms(2) by fastforce
  next
    case False
    then obtain r where r: "rr = age_rr (whole_seconds (time_sub now t)) r" "r \<in> set (dm_answer m) \<union> set (dm_extra m)"
      using assms(4,5) same by (auto simp: dns_age_message_def map_sections_def)
    show ?thesis
    proof (cases "rr_type r = type_opt")
      case True
      then show ?thesis using r(1) by (simp add: age_rr_def)
    next
      case other: False
      then show ?thesis using aged_positive [OF assms(3) _ assms(2) other] le [OF r(2)] False r(1) by simp
    qed
  qed
qed


definition demo_lib :: dns_lib where
  "demo_lib = \<lparr>dl_fqdn = (\<lambda>n. n), dl_sub_domain = (\<lambda>p c. has_suffix c p), dl_pack = (\<lambda>m. Some [byte_of (dm_id m)]), dl_tsig = (\<lambda>_. False)\<rparr>"

definition demo_answer :: dns_msg where
  "demo_answer = \<lparr>dm_id = 0, dm_response = True, dm_opcode = 0, dm_authoritative = False, dm_truncated = False,
     dm_recursion_available = True, dm_authenticated = False, dm_rcode = 0,
     dm_question = [\<lparr>qn_name = ''a.'', qn_type = 1, qn_class = 1\<rparr>],
     dm_answer = [\<lparr>ar_owner = ''a.'', ar_data = AddrA [9, 9, 9, 9], rr_type = 1, rr_class = 1, rr_ttl = 60\<rparr>], dm_ns = [], dm_extra = []\<rparr>"

definition demo_history :: "cache_event list" where
  "demo_history = [CacheClear, CachePut ''k'' demo_answer ''nfqws'' ''u'' 1 0]"


end
