(* ===== verification/Resolver_Flights.thy ===== *)
theory Resolver_Flights
  imports Dns_Cache "HOL-Library.Multiset"
begin

text \<open>
  The shared lookups of the DNS server (\<open>internal/services/dnsserver/resolver_inflight.go\<close>): concurrent requests
  with one question of one cache generation wait for a single upstream operation.

  Go's flight objects live in a heap, \<open>rf_heap\<close>, a flight being its index; \<open>rf_inflight\<close> is the map from question and
  generation to the flight. Every definition is one section under the resolver's mutex, or a stretch without shared
  state. The upstream lookup (\<open>resolveUncached\<close>) is the argument \<open>result\<close>: an error, or a message with the route
  and upstream that supplied it; \<open>filtered\<close> says whether the blocker refuses the message.
\<close>

section \<open>Flights\<close>

type_synonym lookup_result = "string + (dns_msg \<times> string \<times> string)"

record flight =
  fl_key :: string
  fl_generation :: nat
  fl_waiters :: nat
  fl_finished :: bool
  fl_cancelled :: bool
  fl_computed :: "(lookup_result \<times> time) option"
  fl_result :: "(lookup_result \<times> time) option"

record flights =
  rf_cache :: dns_cache
  rf_heap :: "flight list"
  rf_inflight :: "((string \<times> nat) \<times> nat) list"

definition max_flights :: nat where "max_flights = 128"
definition max_flight_waiters :: nat where "max_flight_waiters = 512"

definition new_flight :: "string \<Rightarrow> nat \<Rightarrow> flight" where
  "new_flight key generation = \<lparr>fl_key = key, fl_generation = generation, fl_waiters = 0, fl_finished = False,
     fl_cancelled = False, fl_computed = None, fl_result = None\<rparr>"

definition new_resolver :: flights where
  "new_resolver = \<lparr>rf_cache = empty_cache, rf_heap = [], rf_inflight = []\<rparr>"

definition update_flight :: "nat \<Rightarrow> (flight \<Rightarrow> flight) \<Rightarrow> flights \<Rightarrow> flights" where
  "update_flight f g s = s\<lparr>rf_heap := (rf_heap s)[f := g (rf_heap s ! f)]\<rparr>"

text \<open>A flight leaves the map only while the map still names it.\<close>

definition drop_flight :: "nat \<Rightarrow> flights \<Rightarrow> flights" where
  "drop_flight f s =
     (let k = (fl_key (rf_heap s ! f), fl_generation (rf_heap s ! f)) in
      if map_of (rf_inflight s) k = Some f then s\<lparr>rf_inflight := AList.delete k (rf_inflight s)\<rparr> else s)"

datatype join_result = JoinDone | JoinClosed | JoinCached dns_msg string string | JoinAlone | JoinFlight nat bool

text \<open>The first section of \<open>resolveShared\<close>: recheck the cache, then join a flight, start one, or look up alone.\<close>

definition join_flight :: "bool \<Rightarrow> time \<Rightarrow> string \<Rightarrow> nat \<Rightarrow> flights \<Rightarrow> flights \<times> join_result" where
  "join_flight caller_done now key generation s =
     (if caller_done then (s, JoinDone)
      else if dc_closed (rf_cache s) then (s, JoinClosed)
      else (case (case map_of (dc_entries (rf_cache s)) key of
            None \<Rightarrow> None
          | Some e \<Rightarrow> if generation = dc_generation (rf_cache s) \<and> now < ce_expires e then Some e else None) of
        Some e \<Rightarrow> (s, JoinCached (dns_age_message (time_sub now (ce_created e)) (ce_msg e)) (ce_route e) (ce_upstream e))
      | None \<Rightarrow>
          (case map_of (rf_inflight s) (key, generation) of
             None \<Rightarrow>
               (if length key > 4096 \<or> length (rf_inflight s) \<ge> max_flights then (s, JoinAlone)
                else (let f = length (rf_heap s) in
                  (s\<lparr>rf_heap := rf_heap s @ [(new_flight key generation)\<lparr>fl_waiters := 1\<rparr>],
                     rf_inflight := AList.update (key, generation) f (rf_inflight s)\<rparr>, JoinFlight f False)))
           | Some f \<Rightarrow>
               (if length key > 4096 \<or> fl_waiters (rf_heap s ! f) \<ge> max_flight_waiters then (s, JoinAlone)
                else (update_flight f (\<lambda>fl. fl\<lparr>fl_waiters := fl_waiters fl + 1\<rparr>) s, JoinFlight f True)))))"

text \<open>A message that may be kept: the lifetime of a negative answer is clipped first, and the blocker has no objection.\<close>

definition keep_answer :: "dns_lib \<Rightarrow> cache_config \<Rightarrow> (dns_msg \<Rightarrow> bool) \<Rightarrow> string \<Rightarrow> nat \<Rightarrow> time \<Rightarrow> lookup_result \<Rightarrow> bool \<Rightarrow> dns_cache
    \<Rightarrow> dns_cache \<times> lookup_result" where
  "keep_answer L cfg filtered key generation now result live c =
     (case result of
        Inl e \<Rightarrow> (c, Inl e)
      | Inr (m, route, upstream) \<Rightarrow>
          (let m1 = clip_negative_soa L m in
           (if live \<and> \<not> filtered m1 then cache_put_at L cfg key m1 route upstream generation now c else c,
            Inr (m1, route, upstream))))"

definition lookup_alone :: "dns_lib \<Rightarrow> cache_config \<Rightarrow> (dns_msg \<Rightarrow> bool) \<Rightarrow> string \<Rightarrow> nat \<Rightarrow> time \<Rightarrow> lookup_result \<Rightarrow> flights
    \<Rightarrow> flights \<times> lookup_result" where
  "lookup_alone L cfg filtered key generation now result s =
     (let (c, r) = keep_answer L cfg filtered key generation now result True (rf_cache s) in (s\<lparr>rf_cache := c\<rparr>, r))"

text \<open>\<open>runResolverFlight\<close>: the lookup returned, its answer may be kept; then, in a section of its own, the flight ends.\<close>

definition flight_computed :: "dns_lib \<Rightarrow> cache_config \<Rightarrow> (dns_msg \<Rightarrow> bool) \<Rightarrow> nat \<Rightarrow> time \<Rightarrow> lookup_result \<Rightarrow> flights \<Rightarrow> flights" where
  "flight_computed L cfg filtered f now result s =
     (let fl = rf_heap s ! f;
          (c, r) = keep_answer L cfg filtered (fl_key fl) (fl_generation fl) now result
                     (\<not> fl_cancelled fl \<and> \<not> dc_closed (rf_cache s)) (rf_cache s) in
      update_flight f (\<lambda>fl. fl\<lparr>fl_computed := Some (r, now)\<rparr>) (s\<lparr>rf_cache := c\<rparr>))"

definition flight_finish :: "nat \<Rightarrow> flights \<Rightarrow> flights" where
  "flight_finish f s =
     drop_flight f (update_flight f (\<lambda>fl. fl\<lparr>fl_result := fl_computed fl, fl_finished := True\<rparr>) s)"

definition release_flight :: "nat \<Rightarrow> flights \<Rightarrow> flights" where
  "release_flight f s =
     (let s1 = update_flight f (\<lambda>fl. fl\<lparr>fl_waiters := fl_waiters fl - 1\<rparr>) s in
      if fl_waiters (rf_heap s1 ! f) = 0 \<and> \<not> fl_finished (rf_heap s1 ! f)
      then update_flight f (\<lambda>fl. fl\<lparr>fl_cancelled := True\<rparr>) (drop_flight f s1) else s1)"

text \<open>What a waiter gets once its flight has ended.\<close>

definition flight_answer :: "nat \<Rightarrow> time \<Rightarrow> flights \<Rightarrow> lookup_result option" where
  "flight_answer f now s =
     (case fl_result (rf_heap s ! f) of
        None \<Rightarrow> None
      | Some (Inl e, t) \<Rightarrow> Some (Inl e)
      | Some (Inr (m, route, upstream), t) \<Rightarrow> Some (Inr (dns_age_message (time_sub now t) m, route, upstream)))"

section \<open>Runs\<close>

text \<open>
  The callers that hold a flight are a multiset of flights. A caller that joined leaves once, whatever it waited for; an
  operation computes once and then ends. The operations on the cache happen in between.
\<close>

inductive flight_run :: "dns_lib \<Rightarrow> cache_config \<Rightarrow> (dns_msg \<Rightarrow> bool) \<Rightarrow> flights \<Rightarrow> nat multiset \<Rightarrow> bool"
  for L :: dns_lib and cfg :: cache_config and filtered :: "dns_msg \<Rightarrow> bool" where
  begins: "flight_run L cfg filtered new_resolver {#}"
| joins: "flight_run L cfg filtered s held \<Longrightarrow> join_flight caller_done now key generation s = (s', r)
    \<Longrightarrow> held' = (case r of JoinFlight f _ \<Rightarrow> add_mset f held | _ \<Rightarrow> held) \<Longrightarrow> flight_run L cfg filtered s' held'"
| alone: "flight_run L cfg filtered s held \<Longrightarrow> lookup_alone L cfg filtered key generation now result s = (s', r)
    \<Longrightarrow> flight_run L cfg filtered s' held"
| computes: "flight_run L cfg filtered s held \<Longrightarrow> f < length (rf_heap s) \<Longrightarrow> fl_computed (rf_heap s ! f) = None
    \<Longrightarrow> flight_run L cfg filtered (flight_computed L cfg filtered f now result s) held"
| finishes: "flight_run L cfg filtered s held \<Longrightarrow> f < length (rf_heap s) \<Longrightarrow> fl_computed (rf_heap s ! f) = Some rt
    \<Longrightarrow> \<not> fl_finished (rf_heap s ! f) \<Longrightarrow> flight_run L cfg filtered (flight_finish f s) held"
| leaves: "flight_run L cfg filtered s held \<Longrightarrow> f \<in># held \<Longrightarrow> flight_run L cfg filtered (release_flight f s) (held - {#f#})"
| caches: "flight_run L cfg filtered s held \<Longrightarrow> flight_run L cfg filtered (s\<lparr>rf_cache := cache_step L cfg ev (rf_cache s)\<rparr>) held"

definition listed :: "flights \<Rightarrow> nat \<Rightarrow> bool" where
  "listed s f \<longleftrightarrow> map_of (rf_inflight s) (fl_key (rf_heap s ! f), fl_generation (rf_heap s ! f)) = Some f"

definition flight_ok :: "flights \<Rightarrow> nat multiset \<Rightarrow> nat \<Rightarrow> bool" where
  "flight_ok s held f \<longleftrightarrow> (let fl = rf_heap s ! f in
     fl_waiters fl = count held f \<and> fl_waiters fl \<le> max_flight_waiters
     \<and> (listed s f \<longleftrightarrow> \<not> fl_finished fl \<and> \<not> fl_cancelled fl)
     \<and> (fl_cancelled fl \<longrightarrow> fl_waiters fl = 0) \<and> (\<not> fl_finished fl \<and> fl_waiters fl = 0 \<longrightarrow> fl_cancelled fl)
     \<and> (fl_finished fl \<longleftrightarrow> fl_result fl \<noteq> None))"

definition flights_ok :: "flights \<Rightarrow> nat multiset \<Rightarrow> bool" where
  "flights_ok s held \<longleftrightarrow> (\<forall>f < length (rf_heap s). flight_ok s held f) \<and> (\<forall>f \<in># held. f < length (rf_heap s))
     \<and> (\<forall>(k, f) \<in> set (rf_inflight s). f < length (rf_heap s) \<and> k = (fl_key (rf_heap s ! f), fl_generation (rf_heap s ! f)))
     \<and> distinct (map fst (rf_inflight s)) \<and> length (rf_inflight s) \<le> max_flights"

section \<open>The operations on flights\<close>

definition keeps_key :: "(flight \<Rightarrow> flight) \<Rightarrow> bool" where
  "keeps_key g \<longleftrightarrow> (\<forall>x. fl_key (g x) = fl_key x \<and> fl_generation (g x) = fl_generation x)"

lemma update_flight_simps [simp]:
  "rf_inflight (update_flight f g s) = rf_inflight s" "rf_cache (update_flight f g s) = rf_cache s"
  "length (rf_heap (update_flight f g s)) = length (rf_heap s)"
  "f < length (rf_heap s) \<Longrightarrow> rf_heap (update_flight f g s) ! f' = (if f' = f then g (rf_heap s ! f) else rf_heap s ! f')"
  by (simp_all add: update_flight_def)

lemma update_flight_id:
  assumes "keeps_key g" "f < length (rf_heap s)"
  shows "fl_key (rf_heap (update_flight f g s) ! f') = fl_key (rf_heap s ! f')"
    and "fl_generation (rf_heap (update_flight f g s) ! f') = fl_generation (rf_heap s ! f')"
    and "listed (update_flight f g s) f' = listed s f'"
  using assms by (simp_all add: keeps_key_def listed_def)

lemma drop_flight_simps [simp]:
  "rf_heap (drop_flight f s) = rf_heap s" "rf_cache (drop_flight f s) = rf_cache s"
  "rf_inflight (drop_flight f s) = (if listed s f then AList.delete (fl_key (rf_heap s ! f), fl_generation (rf_heap s ! f)) (rf_inflight s)
     else rf_inflight s)"
  by (simp_all add: drop_flight_def listed_def Let_def)

lemma listed_drop: "listed (drop_flight f s) f' \<longleftrightarrow> listed s f' \<and> f' \<noteq> f"
proof -
  have "rf_heap s ! f' = rf_heap s ! f' \<Longrightarrow> listed s f \<Longrightarrow> listed s f' \<Longrightarrow> f' \<noteq> f
      \<Longrightarrow> (fl_key (rf_heap s ! f), fl_generation (rf_heap s ! f)) \<noteq> (fl_key (rf_heap s ! f'), fl_generation (rf_heap s ! f'))"
    by (auto simp: listed_def)
  then show ?thesis by (auto simp: listed_def delete_conv' split: if_splits)
qed

lemma drop_keeps_map:
  assumes "\<forall>(k, f) \<in> set (rf_inflight s). P k f" "distinct (map fst (rf_inflight s))" "length (rf_inflight s) \<le> n"
  shows "(\<forall>(k, f) \<in> set (rf_inflight (drop_flight f0 s)). P k f) \<and> distinct (map fst (rf_inflight (drop_flight f0 s)))
    \<and> length (rf_inflight (drop_flight f0 s)) \<le> n"
  using assms by (auto simp: AList.delete_eq intro: distinct_map_filter order_trans [OF length_filter_le])

text \<open>A change of the flights that leaves the map alone: only the flight that changed must be looked at again.\<close>

lemma flights_ok_update:
  assumes "flights_ok s held" "f < length (rf_heap s)" "keeps_key g"
    "\<And>f'. f' \<noteq> f \<Longrightarrow> count held' f' = count held f'" "flight_ok (update_flight f g s) held' f"
    "\<forall>f' \<in># held'. f' < length (rf_heap s)"
  shows "flights_ok (update_flight f g s) held'"
proof -
  have "flight_ok (update_flight f g s) held' f'" if "f' < length (rf_heap s)" for f'
  proof (cases "f' = f")
    case False
    then have "flight_ok s held f'" "count held' f' = count held f'" using assms(1,4) that by (simp_all add: flights_ok_def)
    then show ?thesis using False assms(2) by (auto simp: flight_ok_def update_flight_id [OF assms(3,2)] Let_def)
  qed (use assms(5) in simp)
  then show ?thesis using assms(1,6) by (simp add: flights_ok_def update_flight_id [OF assms(3,2)])
qed

lemma flights_ok_drop:
  assumes "flights_ok s held" "f < length (rf_heap s)" "keeps_key g"
    "\<And>f'. f' \<noteq> f \<Longrightarrow> count held' f' = count held f'"
    "flight_ok (drop_flight f (update_flight f g s)) held' f" "\<forall>f' \<in># held'. f' < length (rf_heap s)"
  shows "flights_ok (drop_flight f (update_flight f g s)) held'"
proof -
  let ?s = "update_flight f g s"
  have "\<forall>(k, f) \<in> set (rf_inflight ?s). f < length (rf_heap s) \<and> k = (fl_key (rf_heap ?s ! f), fl_generation (rf_heap ?s ! f))"
    using assms(1) unfolding flights_ok_def by (simp add: update_flight_id [OF assms(3,2)])
  moreover have "distinct (map fst (rf_inflight ?s))" "length (rf_inflight ?s) \<le> max_flights"
    using assms(1) by (simp_all add: flights_ok_def)
  ultimately have m: "(\<forall>(k, f) \<in> set (rf_inflight (drop_flight f ?s)). f < length (rf_heap s)
      \<and> k = (fl_key (rf_heap ?s ! f), fl_generation (rf_heap ?s ! f)))
      \<and> distinct (map fst (rf_inflight (drop_flight f ?s))) \<and> length (rf_inflight (drop_flight f ?s)) \<le> max_flights"
    by (rule drop_keeps_map)
  have "flight_ok (drop_flight f ?s) held' f'" if "f' < length (rf_heap s)" for f'
  proof (cases "f' = f")
    case False
    then have "flight_ok s held f'" "count held' f' = count held f'" using assms(1,4) that by (simp_all add: flights_ok_def)
    then show ?thesis using False assms(2)
      by (auto simp: flight_ok_def listed_drop update_flight_id [OF assms(3,2)] Let_def)
  qed (use assms(5) in simp)
  then show ?thesis using m assms(6) by (simp add: flights_ok_def)
qed

lemma new_resolver_ok: "flights_ok new_resolver {#}"
  by (simp add: flights_ok_def new_resolver_def)

lemma start_flight_ok:
  assumes "flights_ok s held" "map_of (rf_inflight s) (key, generation) = None" "length (rf_inflight s) < max_flights"
  shows "flights_ok (s\<lparr>rf_heap := rf_heap s @ [(new_flight key generation)\<lparr>fl_waiters := 1\<rparr>],
      rf_inflight := AList.update (key, generation) (length (rf_heap s)) (rf_inflight s)\<rparr>) (add_mset (length (rf_heap s)) held)"
    (is "flights_ok ?s ?held")
proof -
  have new: "(key, generation) \<notin> fst ` set (rf_inflight s)" using assms(2) by (simp add: map_of_eq_None_iff)
  have u: "rf_inflight ?s = rf_inflight s @ [((key, generation), length (rf_heap s))]" using new by (simp add: update_new)
  let ?n = "length (rf_heap s)"
  have heap: "rf_heap ?s ! f = rf_heap s ! f" if "f < ?n" for f using that by (simp add: nth_append)
  have last: "rf_heap ?s ! ?n = (new_flight key generation)\<lparr>fl_waiters := 1\<rparr>" by simp
  have find: "map_of (rf_inflight ?s) k = (if k = (key, generation) then Some ?n else map_of (rf_inflight s) k)" for k
    by (simp add: update_conv')
  have old: "listed ?s f = listed s f" if "f < ?n" for f
    using that assms(2) unfolding listed_def find heap [OF that] by auto
  have fresh: "count held ?n = 0" using assms(1) by (auto simp: flights_ok_def count_eq_zero_iff)
  have f1: "flight_ok ?s ?held f" if "f < ?n" for f
  proof -
    have "flight_ok s held f" using assms(1) that by (simp add: flights_ok_def)
    then show ?thesis using that unfolding flight_ok_def heap [OF that] old [OF that] Let_def by auto
  qed
  have f2: "flight_ok ?s ?held ?n"
    unfolding flight_ok_def last Let_def listed_def find
    by (simp add: new_flight_def fresh max_flight_waiters_def)
  have "flight_ok ?s ?held f" if "f < length (rf_heap ?s)" for f
    using that f1 f2 by (cases "f = ?n") simp_all
  moreover have "\<forall>(k, f) \<in> set (rf_inflight ?s). f < length (rf_heap ?s) \<and> k = (fl_key (rf_heap ?s ! f), fl_generation (rf_heap ?s ! f))"
    using assms(1) unfolding u flights_ok_def by (auto simp: nth_append new_flight_def)
  ultimately show ?thesis using assms(1,3) new unfolding flights_ok_def u by (auto simp: less_Suc_eq)
qed

lemma held_flight:
  assumes "flights_ok s held" "f \<in># held"
  shows "f < length (rf_heap s)" "flight_ok s held f" "0 < fl_waiters (rf_heap s ! f)" "\<not> fl_cancelled (rf_heap s ! f)"
proof -
  show "f < length (rf_heap s)" using assms by (simp add: flights_ok_def)
  then show ok: "flight_ok s held f" using assms(1) by (simp add: flights_ok_def)
  show "0 < fl_waiters (rf_heap s ! f)" using ok assms(2) by (simp add: flight_ok_def Let_def)
  then show "\<not> fl_cancelled (rf_heap s ! f)" using ok by (auto simp: flight_ok_def Let_def)
qed

lemma inflight_flight:
  assumes "flights_ok s held" "map_of (rf_inflight s) k = Some f"
  shows "f < length (rf_heap s)" "flight_ok s held f" "listed s f" "k = (fl_key (rf_heap s ! f), fl_generation (rf_heap s ! f))"
  using assms(1) map_of_SomeD [OF assms(2)] assms(2) by (auto simp: flights_ok_def listed_def)

lemma join_flight_cases:
  assumes "join_flight caller_done now key generation s = (s', r)"
  shows "s' = s \<and> (\<forall>f b. r \<noteq> JoinFlight f b)
    \<or> map_of (rf_inflight s) (key, generation) = None \<and> length (rf_inflight s) < max_flights \<and> r = JoinFlight (length (rf_heap s)) False
      \<and> s' = s\<lparr>rf_heap := rf_heap s @ [(new_flight key generation)\<lparr>fl_waiters := 1\<rparr>],
          rf_inflight := AList.update (key, generation) (length (rf_heap s)) (rf_inflight s)\<rparr>
    \<or> (\<exists>f. map_of (rf_inflight s) (key, generation) = Some f \<and> fl_waiters (rf_heap s ! f) < max_flight_waiters
      \<and> s' = update_flight f (\<lambda>fl. fl\<lparr>fl_waiters := fl_waiters fl + 1\<rparr>) s \<and> r = JoinFlight f True)"
  using assms unfolding join_flight_def Let_def
  by (elim if_keep option_drop) (simp_all, intro disjI1, auto)

lemma join_flight_ok:
  assumes "flights_ok s held" "join_flight caller_done now key generation s = (s', r)"
    "held' = (case r of JoinFlight f _ \<Rightarrow> add_mset f held | _ \<Rightarrow> held)"
  shows "flights_ok s' held'"
proof -
  from join_flight_cases [OF assms(2)] show ?thesis
  proof (elim disjE conjE exE)
    assume same: "s' = s" "\<forall>f b. r \<noteq> JoinFlight f b"
    then have "held' = held" using assms(3) by (simp split: join_result.split)
    then show ?thesis using same(1) assms(1) by simp
  next
    assume created: "map_of (rf_inflight s) (key, generation) = None" "length (rf_inflight s) < max_flights"
      "r = JoinFlight (length (rf_heap s)) False"
      "s' = s\<lparr>rf_heap := rf_heap s @ [(new_flight key generation)\<lparr>fl_waiters := 1\<rparr>],
          rf_inflight := AList.update (key, generation) (length (rf_heap s)) (rf_inflight s)\<rparr>"
    have "held' = add_mset (length (rf_heap s)) held" using assms(3) created(3) by simp
    then show ?thesis using start_flight_ok [OF assms(1) created(1,2)] created(4) by simp
  next
    fix f
    assume joined: "map_of (rf_inflight s) (key, generation) = Some f" "fl_waiters (rf_heap s ! f) < max_flight_waiters"
      "s' = update_flight f (\<lambda>fl. fl\<lparr>fl_waiters := fl_waiters fl + 1\<rparr>) s" "r = JoinFlight f True"
    note fl = inflight_flight [OF assms(1) joined(1)]
    have k: "keeps_key (\<lambda>fl. fl\<lparr>fl_waiters := fl_waiters fl + 1\<rparr>)" by (simp add: keeps_key_def)
    have "flight_ok s' (add_mset f held) f" using fl(2,3) joined(2) fl(1)
      unfolding joined(3) flight_ok_def update_flight_id(3) [OF k fl(1)] Let_def by auto
    moreover have "\<forall>f' \<in># add_mset f held. f' < length (rf_heap s)" using assms(1) fl(1) by (simp add: flights_ok_def)
    ultimately have "flights_ok s' (add_mset f held)" unfolding joined(3)
      by (intro flights_ok_update [OF assms(1) fl(1) k]) simp_all
    moreover have "held' = add_mset f held" using assms(3) joined(4) by simp
    ultimately show ?thesis by simp
  qed
qed

lemma flights_ok_cache: "flights_ok (s\<lparr>rf_cache := c\<rparr>) held = flights_ok s held"
  by (simp add: flights_ok_def flight_ok_def listed_def)

lemma flight_computed_ok:
  assumes "flights_ok s held" "f < length (rf_heap s)"
  shows "flights_ok (flight_computed L cfg filtered f now result s) held"
proof -
  obtain c r where c: "flight_computed L cfg filtered f now result s
      = update_flight f (\<lambda>fl. fl\<lparr>fl_computed := Some (r, now)\<rparr>) (s\<lparr>rf_cache := c\<rparr>)"
    unfolding flight_computed_def Let_def
    by (rule prod.exhaust [of "keep_answer L cfg filtered (fl_key (rf_heap s ! f)) (fl_generation (rf_heap s ! f)) now result
          (\<not> fl_cancelled (rf_heap s ! f) \<and> \<not> dc_closed (rf_cache s)) (rf_cache s)"]) simp
  let ?s = "s\<lparr>rf_cache := c\<rparr>"
  have k: "keeps_key (\<lambda>fl. fl\<lparr>fl_computed := Some (r, now)\<rparr>)" by (simp add: keeps_key_def)
  have ok: "flights_ok ?s held" using assms(1) by (simp add: flights_ok_cache)
  then have "flight_ok ?s held f" using assms(2) by (simp add: flights_ok_def)
  then have "flight_ok (update_flight f (\<lambda>fl. fl\<lparr>fl_computed := Some (r, now)\<rparr>) ?s) held f"
    using assms(2) unfolding flight_ok_def Let_def update_flight_id(3) [OF k, of f ?s, simplified, OF assms(2)] by auto
  then show ?thesis unfolding c
    by (intro flights_ok_update [OF ok _ k]) (use assms ok in \<open>auto simp: flights_ok_def\<close>)
qed

lemma flight_finish_ok:
  assumes "flights_ok s held" "f < length (rf_heap s)" "fl_computed (rf_heap s ! f) = Some rt"
  shows "flights_ok (flight_finish f s) held"
proof -
  let ?g = "\<lambda>fl. fl\<lparr>fl_result := fl_computed fl, fl_finished := True\<rparr>"
  have k: "keeps_key ?g" by (simp add: keeps_key_def)
  have "flight_ok s held f" using assms(1,2) by (simp add: flights_ok_def)
  then have "flight_ok (drop_flight f (update_flight f ?g s)) held f" using assms(2,3)
    by (cases rt) (auto simp: flight_ok_def Let_def listed_drop)
  then show ?thesis unfolding flight_finish_def
    by (intro flights_ok_drop [OF assms(1,2) k]) (use assms in \<open>auto simp: flights_ok_def\<close>)
qed

lemma update_twice: "f < length (rf_heap s) \<Longrightarrow> update_flight f g (drop_flight f (update_flight f h s)) = drop_flight f (update_flight f (\<lambda>x. g (h x)) s)"
  if "keeps_key g" for g h
  using that by (simp add: update_flight_def drop_flight_def keeps_key_def Let_def)

lemma release_flight_ok:
  assumes "flights_ok s held" "f \<in># held"
  shows "flights_ok (release_flight f s) (held - {#f#})"
proof -
  note fl = held_flight [OF assms]
  let ?g = "\<lambda>fl. fl\<lparr>fl_waiters := fl_waiters fl - 1\<rparr>" and ?c = "\<lambda>fl :: flight. fl\<lparr>fl_cancelled := True\<rparr>"
  have k: "keeps_key ?g" "keeps_key ?c" "keeps_key (\<lambda>x. ?c (?g x))" by (simp_all add: keeps_key_def)
  have sub: "\<forall>f' \<in># held - {#f#}. f' < length (rf_heap s)" using assms(1) by (auto simp: flights_ok_def dest: in_diffD)
  show ?thesis
  proof (cases "fl_waiters (rf_heap s ! f) = 1 \<and> \<not> fl_finished (rf_heap s ! f)")
    case True
    have r: "release_flight f s = drop_flight f (update_flight f (\<lambda>x. ?c (?g x)) s)"
      using True fl(1) by (simp add: release_flight_def Let_def update_twice [OF k(2)])
    have "flight_ok (release_flight f s) (held - {#f#}) f" using fl True unfolding r
      by (auto simp: flight_ok_def Let_def listed_drop)
    then show ?thesis unfolding r by (intro flights_ok_drop [OF assms(1) fl(1) k(3)]) (use sub in auto)
  next
    case False
    have r: "release_flight f s = update_flight f ?g s"
      using False fl by (auto simp: release_flight_def Let_def)
    have l: "listed (update_flight f ?g s) f = listed s f" by (rule update_flight_id(3) [OF k(1) fl(1)])
    have "fl_waiters (rf_heap s ! f) = count held f" "0 < fl_waiters (rf_heap s ! f)"
      using fl(2,3) by (simp_all add: flight_ok_def Let_def)
    then have "2 \<le> count held f" if "\<not> fl_finished (rf_heap s ! f)" using False that by linarith
    then have "flight_ok (release_flight f s) (held - {#f#}) f" using fl False unfolding r flight_ok_def Let_def l by auto
    then show ?thesis unfolding r by (intro flights_ok_update [OF assms(1) fl(1) k(1)]) (use sub in auto)
  qed
qed

lemma flight_run_ok: "flight_run L cfg filtered s held \<Longrightarrow> flights_ok s held"
proof (induction rule: flight_run.induct)
  case (alone s held key generation now result s' r)
  then show ?case by (auto simp: lookup_alone_def flights_ok_cache split: prod.splits)
qed (simp_all add: new_resolver_ok join_flight_ok flight_computed_ok flight_finish_ok release_flight_ok flights_ok_cache)

section \<open>The cache of a run\<close>

lemma keep_answer_step:
  assumes "keep_answer L cfg filtered key generation now result live (cache_history L cfg evs) = (c, r)"
  shows "\<exists>evs'. c = cache_history L cfg evs'"
proof (cases result)
  case (Inr v)
  then show ?thesis using assms cache_history_snoc [of L cfg evs, symmetric]
    by (cases v) (auto simp: keep_answer_def Let_def simp flip: cache_step.simps(1) split: if_splits)
qed (use assms in \<open>auto simp: keep_answer_def\<close>)

lemma flight_run_cache: "flight_run L cfg filtered s held \<Longrightarrow> \<exists>evs. rf_cache s = cache_history L cfg evs"
proof (induction rule: flight_run.induct)
  case begins
  then show ?case by (intro exI [of _ "[]"]) (simp add: new_resolver_def cache_history_def)
next
  case (joins s held caller_done now key generation s' r held')
  have "rf_cache s' = rf_cache s" using join_flight_cases [OF joins.hyps(2)] by auto
  then show ?case using joins.IH by simp
next
  case (alone s held key generation now result s' r)
  then show ?case using keep_answer_step by (fastforce simp: lookup_alone_def split: prod.splits)
next
  case (computes s held f now result)
  then show ?case using keep_answer_step unfolding flight_computed_def Let_def by (auto split: prod.splits)
next
  case (finishes s held f rt)
  then show ?case by (simp add: flight_finish_def)
next
  case (leaves s held f)
  then show ?case by (simp add: release_flight_def Let_def)
next
  case (caches s held ev)
  then show ?case by (metis cache_history_snoc flights.simps(1) flights.simps(5) flights.surjective flights.update_convs(1))
qed

text \<open>(C30) A lookup shared by several requests is never abandoned while one of them waits, and never done twice at a
  time. In every run of the resolver, each request that waits holds a flight that was not cancelled and that either ended,
  with its result ready, or is still the one the map names for its question; two flights under way never have the same
  question and generation; at most 128 are under way, each with as many waiters as requests hold it, at most 512; and
  the answers kept are those of a history of the bounded cache.\<close>

theorem shared_lookups:
  assumes "flight_run L cfg filtered s held"
  shows "(\<forall>f \<in># held. f < length (rf_heap s) \<and> \<not> fl_cancelled (rf_heap s ! f) \<and> (fl_result (rf_heap s ! f) \<noteq> None
      \<or> map_of (rf_inflight s) (fl_key (rf_heap s ! f), fl_generation (rf_heap s ! f)) = Some f))
    \<and> (\<forall>f < length (rf_heap s). \<forall>f' < length (rf_heap s). let fl = rf_heap s ! f; fl' = rf_heap s ! f' in
         fl_key fl = fl_key fl' \<and> fl_generation fl = fl_generation fl' \<and> \<not> fl_finished fl \<and> \<not> fl_cancelled fl
           \<and> \<not> fl_finished fl' \<and> \<not> fl_cancelled fl' \<longrightarrow> f = f')
    \<and> length (rf_inflight s) \<le> 128
    \<and> (\<forall>f < length (rf_heap s). fl_waiters (rf_heap s ! f) = count held f \<and> count held f \<le> 512)
    \<and> (\<exists>evs. rf_cache s = cache_history L cfg evs) \<and> length (dc_entries (rf_cache s)) \<le> cc_size cfg"
proof -
  have ok: "flights_ok s held" using assms by (rule flight_run_ok)
  then have fl: "flight_ok s held f" if "f < length (rf_heap s)" for f using that by (simp add: flights_ok_def)
  obtain evs where c: "rf_cache s = cache_history L cfg evs" using flight_run_cache [OF assms] by blast
  have "length (dc_entries (rf_cache s)) \<le> cc_size cfg" using cache_history_ok [of cfg L evs] by (simp add: c cache_ok_def)
  moreover have "f < length (rf_heap s) \<and> \<not> fl_cancelled (rf_heap s ! f) \<and> (fl_result (rf_heap s ! f) \<noteq> None
      \<or> map_of (rf_inflight s) (fl_key (rf_heap s ! f), fl_generation (rf_heap s ! f)) = Some f)" if "f \<in># held" for f
    using held_flight [OF ok that] by (auto simp: flight_ok_def Let_def listed_def)
  moreover have "f = f'" if "f < length (rf_heap s)" "f' < length (rf_heap s)"
    "fl_key (rf_heap s ! f) = fl_key (rf_heap s ! f')" "fl_generation (rf_heap s ! f) = fl_generation (rf_heap s ! f')"
    "\<not> fl_finished (rf_heap s ! f)" "\<not> fl_cancelled (rf_heap s ! f)" "\<not> fl_finished (rf_heap s ! f')" "\<not> fl_cancelled (rf_heap s ! f')"
    for f f'
    using fl [OF that(1)] fl [OF that(2)] that(3-) by (auto simp: flight_ok_def Let_def listed_def)
  moreover have "length (rf_inflight s) \<le> 128" using ok by (simp add: flights_ok_def max_flights_def)
  moreover have "fl_waiters (rf_heap s ! f) = count held f \<and> count held f \<le> 512" if "f < length (rf_heap s)" for f
    using fl [OF that] by (simp add: flight_ok_def Let_def max_flight_waiters_def)
  ultimately show ?thesis using c unfolding Let_def by blast
qed

definition demo_cfg :: cache_config where "demo_cfg = \<lparr>cc_size = 2, cc_ttl = 300\<rparr>"

definition demo_flight :: flights where
  "demo_flight = release_flight 0 (flight_finish 0 (flight_computed demo_lib demo_cfg (\<lambda>_. False) 0 0 (Inr (demo_answer, ''nfqws'', ''u''))
     (fst (join_flight False 0 ''k'' 0 (fst (join_flight False 0 ''k'' 0 new_resolver))))))"

lemma demo_flight_run: "flight_run demo_lib demo_cfg (\<lambda>_. False) demo_flight {#0#}"
proof -
  let ?s1 = "fst (join_flight False 0 ''k'' 0 new_resolver)" and ?s2 = "fst (join_flight False 0 ''k'' 0 (fst (join_flight False 0 ''k'' 0 new_resolver)))"
  have j: "join_flight False 0 ''k'' 0 new_resolver = (?s1, JoinFlight 0 False)" "join_flight False 0 ''k'' 0 ?s1 = (?s2, JoinFlight 0 True)"
    by code_simp+
  have r1: "flight_run demo_lib demo_cfg (\<lambda>_. False) ?s1 {#0#}" by (rule joins [OF begins j(1)]) simp
  have r2: "flight_run demo_lib demo_cfg (\<lambda>_. False) ?s2 {#0, 0#}" by (rule joins [OF r1 j(2)]) simp
  let ?s3 = "flight_computed demo_lib demo_cfg (\<lambda>_. False) 0 0 (Inr (demo_answer, ''nfqws'', ''u'')) ?s2"
  have c: "0 < length (rf_heap ?s2)" "fl_computed (rf_heap ?s2 ! 0) = None" "0 < length (rf_heap ?s3)"
    "fl_computed (rf_heap ?s3 ! 0) = Some (Inr (demo_answer, ''nfqws'', ''u''), 0)" "\<not> fl_finished (rf_heap ?s3 ! 0)" by code_simp+
  have "flight_run demo_lib demo_cfg (\<lambda>_. False) (release_flight 0 (flight_finish 0 ?s3)) ({#0, 0#} - {#0#})"
    by (rule leaves [OF finishes [OF computes [OF r2 c(1,2)] c(3,4,5)]]) simp
  then show ?thesis by (simp add: demo_flight_def)
qed

theorem shared_lookups_witness:
  "fl_waiters (rf_heap demo_flight ! 0) = 1 \<and> length (dc_entries (rf_cache demo_flight)) \<le> 2 \<and> flight_answer 0 (secs 9) demo_flight \<noteq> None"
proof -
  have "length (rf_heap demo_flight) = 1" "flight_answer 0 (secs 9) demo_flight \<noteq> None" by code_simp+
  then show ?thesis using shared_lookups [OF demo_flight_run] by (auto simp: demo_cfg_def)
qed

end
