(* ===== verification/Shadow_Fallback.thy ===== *)
theory Shadow_Fallback
  imports Resolver_Flights
begin

text \<open>
  The fallback of Shadow DNS (\<open>internal/services/dnsserver/shadow_fallback.go\<close>): names that belong to the provider's
  resolvers are looked up there; when that fails the configured routes answer instead, and one request at a time
  tests whether the provider came back.

  The generation counter (\<open>uint64\<close>) is a \<^typ>\<open>nat\<close>. The two sections under the resolver's mutex are
  \<open>begin_shadow\<close> and \<open>finish_shadow\<close>; the queries between them are arguments.
\<close>

section \<open>The state\<close>

definition shadow_retry_interval :: duration where "shadow_retry_interval = secs 30"

record shadow_state =
  sf_generation :: nat
  sf_retry_at :: time
  sf_probing :: bool
  sf_active :: bool
  sf_error :: string
  sf_servers :: "string list"
  sf_next_probe :: "time option"

definition initial_shadow :: shadow_state where
  "initial_shadow = \<lparr>sf_generation = 0, sf_retry_at = zero_time, sf_probing = False, sf_active = False,
     sf_error = [], sf_servers = [], sf_next_probe = None\<rparr>"

definition begin_shadow :: "time \<Rightarrow> shadow_state \<Rightarrow> shadow_state \<times> bool \<times> nat \<times> string" where
  "begin_shadow now s =
     (if sf_active s then
        (if now < sf_retry_at s \<or> sf_probing s then (s, False, sf_generation s, sf_error s)
         else (s\<lparr>sf_probing := True\<rparr>, True, sf_generation s, sf_error s))
      else (s, True, sf_generation s, sf_error s))"

definition finish_shadow :: "time \<Rightarrow> nat \<Rightarrow> string list \<Rightarrow> string option \<Rightarrow> bool \<Rightarrow> shadow_state \<Rightarrow> shadow_state" where
  "finish_shadow now generation servers err canceled s =
     (if generation \<noteq> sf_generation s then s
      else (let s1 = s\<lparr>sf_probing := False\<rparr> in
        if canceled then s1
        else (let s2 = s1\<lparr>sf_servers := servers\<rparr> in
          case err of
            None \<Rightarrow> s2\<lparr>sf_generation := (if sf_active s2 then sf_generation s2 + 1 else sf_generation s2),
                      sf_retry_at := zero_time, sf_active := False, sf_next_probe := None, sf_error := []\<rparr>
          | Some e \<Rightarrow> s2\<lparr>sf_generation := sf_generation s2 + 1, sf_retry_at := now + shadow_retry_interval,
                        sf_active := True, sf_next_probe := Some (now + shadow_retry_interval), sf_error := e\<rparr>)))"

definition clip_ttl :: "dns_rr \<Rightarrow> dns_rr" where
  "clip_ttl rr = (if rr_type rr = type_opt then rr else if rr_ttl rr > 30 then rr\<lparr>rr_ttl := 30\<rparr> else rr)"

definition clip_shadow_ttl :: "dns_msg \<Rightarrow> dns_msg" where
  "clip_shadow_ttl m = map_sections clip_ttl m"

text \<open>The label between the two errors, in UTF-8.\<close>

definition fallback_label :: string where
  "fallback_label = str_of_bytes [59, 32, 209, 128, 208, 181, 208, 183, 208, 181, 209, 128, 208, 178, 32, 68, 78, 83, 32,
     83, 101, 114, 118, 101, 114, 58, 32]"

text \<open>
  \<open>resolveShadow\<close> after its attempt: \<open>provider\<close> is the provider's result, \<^term>\<open>None\<close> when the attempt was not made;
  \<open>stopped\<close> the error of a client or service that ended meanwhile; \<open>configured\<close> the result of the configured routes.
\<close>

definition shadow_result :: "string \<Rightarrow> lookup_result option \<Rightarrow> string option \<Rightarrow> lookup_result \<Rightarrow> lookup_result" where
  "shadow_result last_error provider stopped configured =
     (let fallback = (\<lambda>provider_error. case stopped of Some e \<Rightarrow> Inl e | None \<Rightarrow>
            (case configured of Inl e \<Rightarrow> Inl (provider_error @ fallback_label @ e)
             | Inr (m, route, upstream) \<Rightarrow> Inr (clip_shadow_ttl m, route, upstream))) in
      case provider of
        Some (Inr answer) \<Rightarrow> Inr answer
      | Some (Inl e) \<Rightarrow> fallback e
      | None \<Rightarrow> fallback last_error)"

section \<open>Runs\<close>

text \<open>Every attempt that began ends, at some time, with the generation it began with.\<close>

datatype shadow_event = ShadowBegan time nat | ShadowEnded time nat "string list" "string option" bool

inductive shadow_run :: "shadow_state \<Rightarrow> nat multiset \<Rightarrow> shadow_event list \<Rightarrow> bool" where
  shadow_start: "shadow_run initial_shadow {#} []"
| shadow_refused: "shadow_run s out log \<Longrightarrow> begin_shadow now s = (s', False, g, e) \<Longrightarrow> shadow_run s' out log"
| shadow_begun: "shadow_run s out log \<Longrightarrow> begin_shadow now s = (s', True, g, e)
    \<Longrightarrow> shadow_run s' (add_mset g out) (log @ [ShadowBegan now g])"
| shadow_ended: "shadow_run s out log \<Longrightarrow> g \<in># out
    \<Longrightarrow> shadow_run (finish_shadow now g servers err canceled s) (out - {#g#}) (log @ [ShadowEnded now g servers err canceled])"

text \<open>While the fallback is active, the last attempt that counted failed, and that failure set the time of the retry.\<close>

definition failed_since :: "shadow_state \<Rightarrow> shadow_event list \<Rightarrow> bool" where
  "failed_since s log \<longleftrightarrow> (\<exists>pre t g servers e post. log = pre @ ShadowEnded t g servers (Some e) False # post
     \<and> sf_generation s = g + 1 \<and> sf_retry_at s = t + secs 30 \<and> sf_error s = e
     \<and> (\<forall>ev \<in> set post. \<forall>t' servers' err'. ev \<noteq> ShadowEnded t' (g + 1) servers' err' False))"

definition shadow_ok :: "shadow_state \<Rightarrow> nat multiset \<Rightarrow> shadow_event list \<Rightarrow> bool" where
  "shadow_ok s out log \<longleftrightarrow> (\<forall>g \<in># out. g \<le> sf_generation s)
     \<and> (if sf_active s then count out (sf_generation s) = (if sf_probing s then 1 else 0) \<and> failed_since s log else \<not> sf_probing s)"

lemma failed_since_later:
  assumes "failed_since s log" "sf_generation s' = sf_generation s" "sf_retry_at s' = sf_retry_at s" "sf_error s' = sf_error s"
    "\<forall>t servers err. ev \<noteq> ShadowEnded t (sf_generation s) servers err False"
  shows "failed_since s' (log @ [ev])"
proof -
  obtain pre t g servers e post where f: "log = pre @ ShadowEnded t g servers (Some e) False # post"
    "sf_generation s = g + 1" "sf_retry_at s = t + secs 30" "sf_error s = e"
    "\<forall>ev \<in> set post. \<forall>t' servers' err'. ev \<noteq> ShadowEnded t' (g + 1) servers' err' False"
    using assms(1) unfolding failed_since_def by blast
  then show ?thesis using assms(2-) unfolding failed_since_def
    by (intro exI [of _ pre] exI [of _ t] exI [of _ g] exI [of _ servers] exI [of _ e] exI [of _ "post @ [ev]"]) auto
qed

lemma shadow_run_ok: "shadow_run s out log \<Longrightarrow> shadow_ok s out log"
proof (induction rule: shadow_run.induct)
  case shadow_start
  then show ?case by (simp add: shadow_ok_def initial_shadow_def)
next
  case (shadow_refused s out log now s' g e)
  then show ?case by (auto simp: begin_shadow_def split: if_splits)
next
  case (shadow_begun s out log now s' g e)
  then have g: "g = sf_generation s" "sf_active s \<Longrightarrow> \<not> sf_probing s \<and> s' = s\<lparr>sf_probing := True\<rparr>" "\<not> sf_active s \<Longrightarrow> s' = s"
    by (auto simp: begin_shadow_def split: if_splits)
  show ?case
  proof (cases "sf_active s")
    case True
    then have "failed_since s' (log @ [ShadowBegan now g])" using shadow_begun.IH g(2)
      by (intro failed_since_later [of s]) (auto simp: shadow_ok_def)
    then show ?thesis using True g shadow_begun.IH by (auto simp: shadow_ok_def)
  next
    case False
    then show ?thesis using g shadow_begun.IH by (auto simp: shadow_ok_def)
  qed
next
  case (shadow_ended s out log g now servers err canceled)
  let ?s = "finish_shadow now g servers err canceled s" and ?ev = "ShadowEnded now g servers err canceled"
  have le: "\<forall>g' \<in># out - {#g#}. g' \<le> sf_generation s" using shadow_ended.IH by (auto simp: shadow_ok_def dest: in_diffD)
  consider "g \<noteq> sf_generation s" | "g = sf_generation s" "canceled" | "g = sf_generation s" "\<not> canceled" "err = None"
    | e where "g = sf_generation s" "\<not> canceled" "err = Some e" by (cases err) auto
  then show ?case
  proof cases
    case 1
    then have "failed_since s log \<Longrightarrow> failed_since s (log @ [?ev])" by (intro failed_since_later [of s]) auto
    then show ?thesis using 1 shadow_ended le by (auto simp: shadow_ok_def finish_shadow_def)
  next
    case 2
    then have s: "?s = s\<lparr>sf_probing := False\<rparr>" by (simp add: finish_shadow_def)
    have "failed_since s log \<Longrightarrow> failed_since ?s (log @ [?ev])" using 2 s by (intro failed_since_later) auto
    then show ?thesis using 2 shadow_ended le unfolding s by (auto simp: shadow_ok_def split: if_splits)
  next
    case 3
    then show ?thesis using le by (auto simp: shadow_ok_def finish_shadow_def Let_def le_Suc_eq)
  next
    case (4 e)
    have "failed_since ?s (log @ [?ev])" using 4 unfolding failed_since_def
      by (intro exI [of _ log] exI [of _ now] exI [of _ g] exI [of _ servers] exI [of _ e] exI [of _ "[]"])
         (simp add: finish_shadow_def Let_def shadow_retry_interval_def)
    moreover have "sf_generation s + 1 \<notin># out - {#g#}" using le by fastforce
    ultimately show ?thesis using 4 le by (auto simp: shadow_ok_def finish_shadow_def Let_def le_Suc_eq not_in_iff)
  qed
qed

section \<open>Answers of the fallback\<close>

lemma clip_shadow_short: "rr \<in> set (sections (clip_shadow_ttl m)) \<Longrightarrow> rr_type rr = type_opt \<or> rr_ttl rr \<le> 30"
  by (auto simp: sections_def clip_shadow_ttl_def map_sections_def clip_ttl_def)

lemma clip_shadow_lifetime:
  assumes "cache_lifetime L (clip_shadow_ttl m) maximum = (ttl, negative)" "\<exists>rr \<in> set (sections m). rr_type rr \<noteq> type_opt"
  shows "ttl \<le> 30"
proof -
  obtain rr where "rr \<in> set (sections m)" "rr_type rr \<noteq> type_opt" using assms(2) by blast
  then have r: "clip_ttl rr \<in> set (sections (clip_shadow_ttl m))" "rr_type (clip_ttl rr) \<noteq> type_opt"
    by (auto simp: sections_def clip_shadow_ttl_def map_sections_def clip_ttl_def)
  then have "ttl \<le> rr_ttl (clip_ttl rr)" by (rule cache_lifetime_bounds(2) [OF assms(1)])
  then show ?thesis using clip_shadow_short [OF r(1)] r(2) by auto
qed


definition demo_outage :: shadow_state where
  "demo_outage = finish_shadow (secs 5) 0 [] (Some ''timeout'') False initial_shadow"


text \<open>An answer that the fallback supplied is short-lived: whatever the configured routes said, each of its records lives
  at most thirty seconds, for the clients as for the cache, so it cannot hide the provider's return; an answer of the provider
  passes unchanged, and a request that was given up gets the error and no answer.\<close>

theorem fallback_answers_expire:
  assumes "shadow_result last_error provider stopped configured = Inr (m, route, upstream)"
  shows "provider = Some (Inr (m, route, upstream))
    \<or> stopped = None \<and> (\<exists>m0. configured = Inr (m0, route, upstream) \<and> dm_answer m = map clip_ttl (dm_answer m0)
        \<and> (\<forall>rr \<in> set (sections m). rr_type rr = type_opt \<or> rr_ttl rr \<le> 30)
        \<and> ((\<exists>rr \<in> set (sections m0). rr_type rr \<noteq> type_opt) \<longrightarrow> fst (cache_lifetime L m maximum) \<le> 30))"
proof -
  consider "provider = Some (Inr (m, route, upstream))"
    | m0 where "stopped = None" "configured = Inr (m0, route, upstream)" "m = clip_shadow_ttl m0"
    using assms unfolding shadow_result_def Let_def
    by (cases provider; cases "the provider"; cases stopped; cases configured) auto
  then show ?thesis
  proof cases
    case (2 m0)
    then show ?thesis using clip_shadow_short [of _ m0] clip_shadow_lifetime [of L m0 maximum]
      by (cases "cache_lifetime L m maximum") (auto simp: clip_shadow_ttl_def map_sections_def)
  qed simp
qed

theorem fallback_answers_expire_witness:
  "fst (cache_lifetime demo_lib (clip_shadow_ttl demo_answer) 300) \<le> 30"
proof -
  have r: "shadow_result [] (Some (Inl ''timeout'')) None (Inr (demo_answer, ''nfqws'', ''u'')) = Inr (clip_shadow_ttl demo_answer, ''nfqws'', ''u'')"
    by code_simp
  have "\<exists>rr \<in> set (sections demo_answer). rr_type rr \<noteq> type_opt" by code_simp
  then show ?thesis using fallback_answers_expire [OF r, of demo_lib 300] by auto
qed

end
