(* ===== verification/Dns_Pools.thy ===== *)
theory Dns_Pools
  imports Go_Text Assoc
begin

text \<open>
  Which upstream over which route may answer a name: the pools of \<open>internal/services/dnsserver/config.go\<close>, the eligible
  routes and the configured candidates of \<open>scheduler.go\<close>, and the live policy of disabled methods of \<open>methods.go\<close>.
  The parts of the configuration that other definitions read are left out of \<open>pool_config\<close>.
\<close>

section \<open>Pools\<close>

record upstream =
  up_address :: string
  up_bootstrap :: "string list"

record dns_rule =
  dr_id :: string
  dr_enabled :: bool
  dr_domain :: string
  dr_subdomains :: bool
  dr_upstream :: upstream
  dr_pool :: "upstream list"

record disabled_method =
  dme_upstream :: string
  dme_route :: string

record pool_config =
  pc_default_upstream :: upstream
  pc_default_pool :: "upstream list"
  pc_rules :: "dns_rule list"
  pc_awg_fallback :: string
  pc_route_mode :: string
  pc_scheduler :: bool
  pc_disabled :: "disabled_method list"

record dns_route =
  ro_id :: string
  ro_name :: string
  ro_available :: bool
  ro_error :: string

definition rule_matches :: "string \<Rightarrow> dns_rule \<Rightarrow> bool" where
  "rule_matches domain r \<longleftrightarrow> dr_enabled r
     \<and> (domain = dr_domain r \<or> dr_subdomains r \<and> has_suffix domain (''.'' @ dr_domain r))"

definition upstreams_for :: "pool_config \<Rightarrow> string \<Rightarrow> upstream list \<times> string" where
  "upstreams_for cfg domain =
     (let (best, u, pool, source) =
        fold (\<lambda>r (best, u, pool, source).
            if dr_enabled r \<and> int (length (dr_domain r)) > best
              \<and> (domain = dr_domain r \<or> dr_subdomains r \<and> has_suffix domain (''.'' @ dr_domain r))
            then (int (length (dr_domain r)), dr_upstream r, dr_pool r, dr_domain r) else (best, u, pool, source))
          (pc_rules cfg) (- 1, pc_default_upstream cfg, pc_default_pool cfg, ''default'') in
      (u # pool, source))"

section \<open>Routes and candidates\<close>

definition route_allowed :: "pool_config \<Rightarrow> dns_route \<Rightarrow> bool" where
  "route_allowed cfg route \<longleftrightarrow>
     (ro_id route = ''nfqws'' \<and> pc_route_mode cfg \<noteq> ''vpn_only'')
     \<or> (has_prefix (ro_id route) ''awg:'' \<and> pc_awg_fallback cfg \<noteq> ''off''
        \<and> (pc_awg_fallback cfg = ''auto'' \<or> ro_id route = ''awg:'' @ pc_awg_fallback cfg))"

definition eligible_routes :: "pool_config \<Rightarrow> dns_route list \<Rightarrow> dns_route list" where
  "eligible_routes cfg routes =
     snd (fold (\<lambda>route (seen, result).
         if route_allowed cfg route \<and> ro_id route \<notin> set seen then (ro_id route # seen, result @ [route]) else (seen, result))
       routes ([], []))"

definition scheduler_key :: "string \<Rightarrow> string \<Rightarrow> string" where
  "scheduler_key route upstream = route @ ''|'' @ upstream"

definition disabled_method_set :: "disabled_method list \<Rightarrow> string list" where
  "disabled_method_set methods = map (\<lambda>m. scheduler_key (dme_route m) (dme_upstream m)) methods"

text \<open>The usable pairs of pool and route in declaration order, then the rest.\<close>

definition pairs :: "upstream list \<Rightarrow> dns_route list \<Rightarrow> (upstream \<times> dns_route) list" where
  "pairs pool routes = concat (map (\<lambda>u. map (\<lambda>r. (u, r)) routes) pool)"

definition pair_disabled :: "pool_config \<Rightarrow> upstream \<times> dns_route \<Rightarrow> bool" where
  "pair_disabled cfg p = (scheduler_key (ro_id (snd p)) (up_address (fst p)) \<in> set (disabled_method_set (pc_disabled cfg)))"

definition usable :: "pool_config \<Rightarrow> upstream \<times> dns_route \<Rightarrow> bool" where
  "usable cfg p \<longleftrightarrow> ro_available (snd p) \<and> \<not> pair_disabled cfg p"

definition configured_candidates :: "pool_config \<Rightarrow> dns_route list \<Rightarrow> string \<Rightarrow> (upstream \<times> dns_route) list \<times> string" where
  "configured_candidates cfg routes domain =
     (let (pool, source) = upstreams_for cfg domain; ps = pairs pool (eligible_routes cfg routes) in
      (filter (usable cfg) ps @ filter (\<lambda>p. \<not> usable cfg p) ps, source))"

definition active_count :: "pool_config \<Rightarrow> (upstream \<times> dns_route) list \<Rightarrow> nat" where
  "active_count cfg ps = length (takeWhile (usable cfg) ps)"

section \<open>The live policy of methods\<close>

text \<open>
  A call holds a context; \<open>mp_cancelled\<close> are the calls whose context was cancelled because their method was disabled.
\<close>

record method_policy =
  mp_disabled :: "string list"
  mp_methods :: "disabled_method list"
  mp_active :: "(string \<times> nat) list"
  mp_next_id :: nat
  mp_cancelled :: "nat list"

definition new_method_policy :: "disabled_method list \<Rightarrow> method_policy" where
  "new_method_policy methods = \<lparr>mp_disabled = disabled_method_set methods, mp_methods = methods, mp_active = [], mp_next_id = 0, mp_cancelled = []\<rparr>"

definition method_allowed :: "method_policy \<Rightarrow> string \<Rightarrow> string \<Rightarrow> bool" where
  "method_allowed p route upstream \<longleftrightarrow> scheduler_key route upstream \<notin> set (mp_disabled p)"

definition apply_methods :: "disabled_method list \<Rightarrow> method_policy \<Rightarrow> method_policy" where
  "apply_methods methods p =
     (let disabled = disabled_method_set methods in
      p\<lparr>mp_methods := methods, mp_disabled := disabled,
        mp_cancelled := map snd (filter (\<lambda>(key, i). key \<in> set disabled) (mp_active p)) @ mp_cancelled p\<rparr>)"

definition begin_method :: "string \<Rightarrow> string \<Rightarrow> method_policy \<Rightarrow> method_policy \<times> nat option" where
  "begin_method route upstream p =
     (let key = scheduler_key route upstream in
      if key \<in> set (mp_disabled p) then (p, None)
      else (p\<lparr>mp_next_id := mp_next_id p + 1, mp_active := (key, mp_next_id p + 1) # mp_active p\<rparr>, Some (mp_next_id p + 1)))"

definition release_method :: "string \<Rightarrow> string \<Rightarrow> nat \<Rightarrow> method_policy \<Rightarrow> method_policy" where
  "release_method route upstream i p = p\<lparr>mp_active := removeAll (scheduler_key route upstream, i) (mp_active p)\<rparr>"

section \<open>The most specific rule owns the pool\<close>

text \<open>The reference: the first of the longest enabled rules that match.\<close>

definition owning_rule :: "pool_config \<Rightarrow> string \<Rightarrow> dns_rule option" where
  "owning_rule cfg domain =
     (let ms = filter (rule_matches domain) (pc_rules cfg) in
      find (\<lambda>r. \<forall>r' \<in> set ms. length (dr_domain r') \<le> length (dr_domain r)) ms)"

definition longer :: "('a \<Rightarrow> int) \<Rightarrow> ('a \<Rightarrow> 'b) \<Rightarrow> 'a \<Rightarrow> int \<times> 'b \<Rightarrow> int \<times> 'b" where
  "longer f g r acc = (if f r > fst acc then (f r, g r) else acc)"

lemma fold_longer:
  "(\<forall>r \<in> set rs. f r \<le> b) \<and> fold (longer f g) rs (b, v) = (b, v)
    \<or> (\<exists>xs r ys. rs = xs @ r # ys \<and> b < f r \<and> (\<forall>x \<in> set xs. f x < f r) \<and> (\<forall>y \<in> set ys. f y \<le> f r)
        \<and> fold (longer f g) rs (b, v) = (f r, g r))"
proof (induction rs rule: rev_induct)
  case (snoc z rs)
  have s: "fold (longer f g) (rs @ [z]) (b, v) = longer f g z (fold (longer f g) rs (b, v))" by simp
  have last: ?case if "\<forall>x \<in> set rs. f x < f z" "b < f z" "fold (longer f g) (rs @ [z]) (b, v) = (f z, g z)"
    using that by (intro disjI2 exI conjI) (rule refl, assumption+, simp_all)
  from snoc.IH show ?case
  proof (elim disjE conjE exE)
    assume a: "\<forall>r \<in> set rs. f r \<le> b" "fold (longer f g) rs (b, v) = (b, v)"
    show ?case
    proof (cases "b < f z")
      case True
      then show ?thesis using a by (intro last) (auto simp only: s a(2) longer_def fst_conv if_True intro: le_less_trans)
    next
      case False
      then show ?thesis using a(1) by (intro disjI1) (simp only: s a(2), simp add: longer_def)
    qed
  next
    fix xs r ys
    assume a: "rs = xs @ r # ys" "b < f r" "\<forall>x \<in> set xs. f x < f r" "\<forall>y \<in> set ys. f y \<le> f r"
      "fold (longer f g) rs (b, v) = (f r, g r)"
    show ?case
    proof (cases "f r < f z")
      case True
      have "\<forall>x \<in> set rs. f x < f z" using a(1,3,4) True by (auto intro: less_trans le_less_trans)
      moreover have "fold (longer f g) (rs @ [z]) (b, v) = (f z, g z)" unfolding s a(5) using True by (simp add: longer_def)
      ultimately show ?thesis using a(2) True by (intro last) simp_all
    next
      case False
      then have "fold (longer f g) (rs @ [z]) (b, v) = (f r, g r)" by (simp only: s a(5)) (simp add: longer_def)
      moreover have "rs @ [z] = xs @ r # (ys @ [z])" "\<forall>y \<in> set (ys @ [z]). f y \<le> f r" using a(1,4) False by auto
      ultimately show ?thesis using a(2,3) by blast
    qed
  qed
qed simp

lemma fold_matching: "fold (\<lambda>r acc. if P r \<and> f r > fst acc then (f r, g r) else acc) rs acc = fold (longer f g) (filter P rs) acc"
  by (induction rs arbitrary: acc) (auto simp: longer_def)

lemma find_longest:
  fixes f :: "'a \<Rightarrow> int"
  assumes "\<forall>x \<in> set xs. f x < f r" "\<forall>y \<in> set ys. f y \<le> f r"
  shows "find (\<lambda>x. \<forall>y \<in> set (xs @ r # ys). f y \<le> f x) (xs @ r # ys) = Some r"
proof -
  have "find (\<lambda>x. \<forall>y \<in> set (xs @ r # ys). f y \<le> f x) xs = None" using assms(1) by (fastforce simp: find_None_iff)
  then show ?thesis using assms by (simp add: find_append) (auto intro: less_imp_le)
qed

text \<open>(C34) A domain is resolved by the pool of one rule: the longest enabled rule that covers it, the first of equally long
  ones; only a domain that no rule covers goes to the default pool. So a fallback never sends a domain that was assigned
  to a special resolver to the default one.\<close>

theorem pool_of_longest_rule:
  "upstreams_for cfg domain =
     (case owning_rule cfg domain of
        None \<Rightarrow> (pc_default_upstream cfg # pc_default_pool cfg, ''default'')
      | Some r \<Rightarrow> (dr_upstream r # dr_pool r, dr_domain r))"
proof -
  let ?f = "\<lambda>r. int (length (dr_domain r))" and ?g = "\<lambda>r. (dr_upstream r, dr_pool r, dr_domain r)"
  let ?ms = "filter (rule_matches domain) (pc_rules cfg)" and ?v = "(pc_default_upstream cfg, pc_default_pool cfg, ''default'')"
  have "(\<lambda>r (best, u, pool, source). if dr_enabled r \<and> ?f r > best
        \<and> (domain = dr_domain r \<or> dr_subdomains r \<and> has_suffix domain (''.'' @ dr_domain r))
      then (?f r, dr_upstream r, dr_pool r, dr_domain r) else (best, u, pool, source))
      = (\<lambda>r acc. if rule_matches domain r \<and> ?f r > fst acc then (?f r, ?g r) else acc)"
    by (auto simp: fun_eq_iff rule_matches_def)
  then have u: "upstreams_for cfg domain = (let (best, u, pool, source) = fold (longer ?f ?g) ?ms (- 1, ?v) in (u # pool, source))"
    unfolding upstreams_for_def by (simp only: fold_matching)
  from fold_longer [of ?ms ?f "- 1" ?g ?v] show ?thesis
  proof (elim disjE conjE exE)
    assume a: "\<forall>r \<in> set ?ms. ?f r \<le> - 1" "fold (longer ?f ?g) ?ms (- 1, ?v) = (- 1, ?v)"
    have "?ms = []" using a(1) by (cases ?ms) fastforce+
    then show ?thesis by (simp add: u owning_rule_def)
  next
    fix xs r ys
    assume a: "?ms = xs @ r # ys" "\<forall>x \<in> set xs. ?f x < ?f r" "\<forall>y \<in> set ys. ?f y \<le> ?f r"
      "fold (longer ?f ?g) ?ms (- 1, ?v) = (?f r, ?g r)"
    then have "owning_rule cfg domain = Some r"
      unfolding owning_rule_def Let_def a(1) using find_longest [of xs ?f r ys] by simp
    then show ?thesis by (simp add: u a(4))
  qed
qed

section \<open>Candidates\<close>

lemma eligible_fold:
  assumes "set seen = ro_id ` set acc" "distinct (map ro_id acc)" "\<forall>r \<in> set acc. route_allowed cfg r"
  shows "let acc' = snd (fold (\<lambda>route (seen, result).
       if route_allowed cfg route \<and> ro_id route \<notin> set seen then (ro_id route # seen, result @ [route]) else (seen, result)) routes (seen, acc)) in
     distinct (map ro_id acc') \<and> (\<forall>r \<in> set acc'. route_allowed cfg r) \<and> set acc' \<subseteq> set acc \<union> set routes
      \<and> ro_id ` set acc' = ro_id ` (set acc \<union> {r \<in> set routes. route_allowed cfg r})"
  using assms
proof (induction routes arbitrary: seen acc)
  case (Cons r routes)
  show ?case
  proof (cases "route_allowed cfg r \<and> ro_id r \<notin> set seen")
    case True
    then have "{x \<in> set (r # routes). route_allowed cfg x} = insert r {x \<in> set routes. route_allowed cfg x}" by auto
    then show ?thesis using Cons.prems True Cons.IH [of "ro_id r # seen" "acc @ [r]"] by (auto simp: Let_def)
  next
    case False
    then have "ro_id ` (set acc \<union> {x \<in> set (r # routes). route_allowed cfg x}) = ro_id ` (set acc \<union> {x \<in> set routes. route_allowed cfg x})"
      using Cons.prems(1) by (cases "route_allowed cfg r") (auto simp: image_iff)
    then show ?thesis using Cons.prems False Cons.IH [of seen acc] by (auto simp: Let_def)
  qed
qed (simp add: Let_def)

lemma eligible_routes_props:
  "distinct (map ro_id (eligible_routes cfg routes)) \<and> (\<forall>r \<in> set (eligible_routes cfg routes). route_allowed cfg r \<and> r \<in> set routes)
    \<and> ro_id ` set (eligible_routes cfg routes) = ro_id ` {r \<in> set routes. route_allowed cfg r}"
  using eligible_fold [of "[]" "[]" cfg routes] by (auto simp: eligible_routes_def Let_def)

lemma active_count_configured:
  assumes "fst (configured_candidates cfg routes domain) = ps"
  shows "take (active_count cfg ps) ps = filter (usable cfg) (pairs (fst (upstreams_for cfg domain)) (eligible_routes cfg routes))"
proof -
  have "takeWhile P (filter P xs @ filter (\<lambda>x. \<not> P x) xs) = filter P xs" for P and xs :: "(upstream \<times> dns_route) list"
  proof -
    have "\<forall>x \<in> set (filter (\<lambda>x. \<not> P x) xs). \<not> P x" by simp
    then have "takeWhile P (filter (\<lambda>x. \<not> P x) xs) = []" by (cases "filter (\<lambda>x. \<not> P x) xs") auto
    then show ?thesis by (simp add: takeWhile_append)
  qed
  then show ?thesis using assms
    by (auto simp: configured_candidates_def active_count_def Let_def split: prod.splits)
qed

section \<open>Disabled methods\<close>

datatype policy_event = PolicyApply "disabled_method list" | PolicyBegin string string | PolicyRelease string string nat

fun policy_step :: "policy_event \<Rightarrow> method_policy \<Rightarrow> method_policy" where
  "policy_step (PolicyApply methods) p = apply_methods methods p"
| "policy_step (PolicyBegin route upstream) p = fst (begin_method route upstream p)"
| "policy_step (PolicyRelease route upstream i) p = release_method route upstream i p"

text \<open>A method the user disabled is not used: in any order of settings, starts and ends, every call under way whose
  method is disabled has been cancelled, and a new one is refused.\<close>

theorem disabled_methods_stop:
  "let p = fold policy_step evs (new_method_policy methods) in
     (\<forall>(key, i) \<in> set (mp_active p). key \<in> set (mp_disabled p) \<longrightarrow> i \<in> set (mp_cancelled p))
     \<and> (snd (begin_method route upstream p) = None) = (\<not> method_allowed p route upstream)"
proof -
  have "\<forall>(key, i) \<in> set (mp_active (fold policy_step evs (new_method_policy methods))).
      key \<in> set (mp_disabled (fold policy_step evs (new_method_policy methods)))
      \<longrightarrow> i \<in> set (mp_cancelled (fold policy_step evs (new_method_policy methods)))"
  proof (induction evs rule: rev_induct)
    case (snoc ev evs)
    then show ?case
      by (cases ev) (auto simp: apply_methods_def begin_method_def release_method_def Let_def image_iff)
  qed (simp add: new_method_policy_def)
  then show ?thesis by (simp add: Let_def begin_method_def method_allowed_def)
qed

end
