(* ===== verification/Stable_Sort.thy ===== *)
theory Stable_Sort
  imports "HOL-Library.Multiset"
begin

text \<open>Go's \<open>sort.SliceStable\<close>: for a comparison that orders, the stable sort of a list is unique, so one algorithm stands for it.\<close>

fun stable_insert :: "('a \<Rightarrow> 'a \<Rightarrow> bool) \<Rightarrow> 'a \<Rightarrow> 'a list \<Rightarrow> 'a list" where
  "stable_insert before x [] = [x]"
| "stable_insert before x (y # ys) = (if before y x then y # stable_insert before x ys else x # y # ys)"

definition stable_sort :: "('a \<Rightarrow> 'a \<Rightarrow> bool) \<Rightarrow> 'a list \<Rightarrow> 'a list" where
  "stable_sort before xs = foldr (stable_insert before) xs []"

lemma mset_stable_insert [simp]: "mset (stable_insert before x ys) = add_mset x (mset ys)"
  by (induction ys) auto

lemma mset_stable_sort [simp]: "mset (stable_sort before xs) = mset xs"
  by (induction xs) (simp_all add: stable_sort_def)

lemma set_stable_sort [simp]: "set (stable_sort before xs) = set xs"
  by (rule mset_eq_setD) simp

text \<open>Sorted for a comparison that is the strict part of a linear preorder.\<close>

lemma sorted_stable_insert:
  assumes "\<And>a b. before a b \<Longrightarrow> \<not> before b a" "\<And>a b c. \<not> before b a \<Longrightarrow> \<not> before c b \<Longrightarrow> \<not> before c a"
    "sorted_wrt (\<lambda>a b. \<not> before b a) ys"
  shows "sorted_wrt (\<lambda>a b. \<not> before b a) (stable_insert before x ys)"
  using assms(3)
proof (induction ys)
  case (Cons y ys)
  have set: "set (stable_insert before x ys) = insert x (set ys)" by (metis mset_stable_insert set_mset_add_mset_insert set_mset_mset)
  show ?case
  proof (cases "before y x")
    case True
    then show ?thesis using Cons assms(1) set by auto
  next
    case False
    then show ?thesis using Cons.prems assms(2) by fastforce
  qed
qed simp

lemma sorted_stable_sort:
  assumes "\<And>a b. before a b \<Longrightarrow> \<not> before b a" "\<And>a b c. \<not> before b a \<Longrightarrow> \<not> before c b \<Longrightarrow> \<not> before c a"
  shows "sorted_wrt (\<lambda>a b. \<not> before b a) (stable_sort before xs)"
  by (induction xs) (simp_all add: stable_sort_def sorted_stable_insert [OF assms])

end
