(* ===== verification/Dns_Scheduler.thy ===== *)
theory Dns_Scheduler
  imports Dns_Pools Go_Utf8 Go_Time Stable_Sort
begin

text \<open>
  The adaptive order of the DNS attempts (\<open>internal/services/dnsserver/scheduler.go\<close>, \<open>scheduler_probe.go\<close>): what is
  remembered of each pair of route and upstream, the ranking of the candidates of a query, and the background probes.

  The arithmetic of \<open>float64\<close> is the parameter \<open>float_ops\<close>, over a linearly ordered type: no quantity of the source is
  a NaN. Counters (\<open>uint64\<close>) are naturals. The map of entries is an association list with distinct keys.
\<close>

section \<open>What is remembered\<close>

record 'f float_ops =
  fo_half :: 'f
  fo_of_int :: "int \<Rightarrow> 'f"
  fo_mix :: "'f \<Rightarrow> 'f \<Rightarrow> 'f"
  fo_decay :: "'f \<Rightarrow> 'f"
  fo_score :: "'f \<Rightarrow> 'f \<Rightarrow> nat \<Rightarrow> 'f"

text \<open>
  \<open>fo_mix old new\<close> is \<open>.8*old + .2*new\<close>, \<open>fo_decay r\<close> is \<open>r * .8\<close>, and \<open>fo_score reliability latency failures\<close> the
  rounded score \<open>100*reliability - min(80, latency/20) - min(100, failures*20)\<close>.
\<close>

record 'f sched_entry =
  se_reliability :: 'f
  se_latency :: 'f
  se_attempts :: nat
  se_successes :: nat
  se_failures :: nat
  se_consecutive :: nat
  se_last_error :: string
  se_last_attempt :: time
  se_touched :: time
  se_last_result :: time
  se_last_probe :: time
  se_probing :: bool
  se_probe_attempts :: nat
  se_probe_successes :: nat
  se_probe_failures :: nat

record 'f scheduler =
  sd_entries :: "(string \<times> 'f sched_entry) list"
  sd_races :: nat
  sd_probe_key :: string
  sd_probe_token :: nat
  sd_probe_cursor :: nat
  sd_last_probe :: time

record attempt_event =
  ae_route :: string
  ae_upstream :: string
  ae_duration :: int
  ae_success :: bool
  ae_canceled :: bool
  ae_error :: string

definition max_scheduler_pairs :: nat where "max_scheduler_pairs = 2048"
definition scheduler_stale_after :: duration where "scheduler_stale_after = secs 300"
definition probe_interval :: duration where "probe_interval = secs 5"
definition probe_recheck :: duration where "probe_recheck = secs 60"

definition new_scheduler :: "'f scheduler" where
  "new_scheduler = \<lparr>sd_entries = [], sd_races = 0, sd_probe_key = [], sd_probe_token = 0, sd_probe_cursor = 0, sd_last_probe = zero_time\<rparr>"

definition new_entry :: "'f float_ops \<Rightarrow> 'f sched_entry" where
  "new_entry F = \<lparr>se_reliability = fo_half F, se_latency = fo_of_int F 500, se_attempts = 0, se_successes = 0, se_failures = 0,
     se_consecutive = 0, se_last_error = [], se_last_attempt = zero_time, se_touched = zero_time, se_last_result = zero_time,
     se_last_probe = zero_time, se_probing = False, se_probe_attempts = 0, se_probe_successes = 0, se_probe_failures = 0\<rparr>"

text \<open>The entry to forget: the one touched longest ago among those that are not probed.\<close>

fun older_entry :: "string \<times> 'f sched_entry \<Rightarrow> string \<times> time \<Rightarrow> string \<times> time" where
  "older_entry (k, e) (oldest, earliest) =
     (if se_probing e then (oldest, earliest)
      else if earliest = zero_time \<or> se_touched e < earliest then (k, se_touched e) else (oldest, earliest))"

definition oldest_entry :: "(string \<times> 'f sched_entry) list \<Rightarrow> string" where
  "oldest_entry es = fst (fold older_entry es ([], zero_time))"

definition entry_at :: "'f float_ops \<Rightarrow> string \<Rightarrow> time \<Rightarrow> 'f scheduler \<Rightarrow> 'f scheduler" where
  "entry_at F key now s =
     (case map_of (sd_entries s) key of
        Some e \<Rightarrow> s\<lparr>sd_entries := AList.update key (e\<lparr>se_touched := now\<rparr>) (sd_entries s)\<rparr>
      | None \<Rightarrow>
          (let es = (if length (sd_entries s) \<ge> max_scheduler_pairs then AList.delete (oldest_entry (sd_entries s)) (sd_entries s)
                     else sd_entries s) in
           s\<lparr>sd_entries := AList.update key ((new_entry F)\<lparr>se_touched := now\<rparr>) es\<rparr>))"

definition change_entry :: "string \<Rightarrow> ('f sched_entry \<Rightarrow> 'f sched_entry) \<Rightarrow> 'f scheduler \<Rightarrow> 'f scheduler" where
  "change_entry key g s =
     (case map_of (sd_entries s) key of None \<Rightarrow> s | Some e \<Rightarrow> s\<lparr>sd_entries := AList.update key (g e) (sd_entries s)\<rparr>)"

definition started :: "'f float_ops \<Rightarrow> string \<Rightarrow> string \<Rightarrow> time \<Rightarrow> 'f scheduler \<Rightarrow> 'f scheduler" where
  "started F route upstream now s =
     change_entry (scheduler_key route upstream) (\<lambda>e. e\<lparr>se_attempts := se_attempts e + 1, se_last_attempt := now\<rparr>)
       (entry_at F (scheduler_key route upstream) now s)"

text \<open>An error text is cut to 512 bytes, then to valid UTF-8.\<close>

function cut_to_valid :: "string \<Rightarrow> string" where
  "cut_to_valid s = (if valid_utf8 s then s else cut_to_valid (butlast s))"
  by pat_completeness auto
termination
proof (relation "measure length")
  fix s assume "\<not> valid_utf8 s"
  then have "s \<noteq> []" by auto
  then show "(butlast s, s) \<in> measure length" by simp
qed simp

declare cut_to_valid.simps [simp del]

definition short_error :: "string \<Rightarrow> string" where
  "short_error e = (if length e > 512 then cut_to_valid (take 512 e) else e)"

definition measured :: "'f float_ops \<Rightarrow> attempt_event \<Rightarrow> time \<Rightarrow> 'f sched_entry \<Rightarrow> 'f sched_entry" where
  "measured F ev now e0 =
     (let stale = (se_last_result e0 \<noteq> zero_time \<and> time_sub now (se_last_result e0) \<ge> scheduler_stale_after);
          first = (se_successes e0 + se_failures e0 = 0 \<or> stale);
          e1 = (if stale then e0\<lparr>se_reliability := fo_half F, se_latency := fo_of_int F 500, se_consecutive := 0\<rparr> else e0);
          e = e1\<lparr>se_last_result := now\<rparr> in
      if ae_success ev then
        e\<lparr>se_latency := (if se_successes e = 0 \<or> stale then fo_of_int F (ae_duration ev)
                            else fo_mix F (se_latency e) (fo_of_int F (ae_duration ev))),
          se_reliability := (if first then fo_of_int F 1 else fo_mix F (se_reliability e) (fo_of_int F 1)),
          se_successes := se_successes e + 1, se_consecutive := 0, se_last_error := []\<rparr>
      else
        e\<lparr>se_reliability := (if first then fo_of_int F 0 else fo_decay F (se_reliability e)),
          se_failures := se_failures e + 1, se_consecutive := se_consecutive e + 1, se_last_error := short_error (ae_error ev)\<rparr>)"

definition record_at :: "'f float_ops \<Rightarrow> attempt_event \<Rightarrow> time \<Rightarrow> 'f scheduler \<Rightarrow> 'f scheduler" where
  "record_at F ev now s =
     (let key = scheduler_key (ae_route ev) (ae_upstream ev) in change_entry key (measured F ev now) (entry_at F key now s))"

definition record_attempt :: "'f float_ops \<Rightarrow> attempt_event \<Rightarrow> time \<Rightarrow> 'f scheduler \<Rightarrow> 'f scheduler" where
  "record_attempt F ev now s = (if ae_canceled ev then s else record_at F ev now s)"

section \<open>Ranking\<close>

record 'f candidate =
  ca_pair :: "upstream \<times> dns_route"
  ca_disabled :: bool
  ca_score :: 'f
  ca_last_result :: time
  ca_position :: nat
  ca_exploration :: bool

definition candidate_of :: "'f float_ops \<Rightarrow> pool_config \<Rightarrow> 'f scheduler \<Rightarrow> upstream \<times> dns_route \<Rightarrow> 'f candidate" where
  "candidate_of F cfg s p =
     (let e = (case map_of (sd_entries s) (scheduler_key (ro_id (snd p)) (up_address (fst p))) of None \<Rightarrow> new_entry F | Some e \<Rightarrow> e) in
      \<lparr>ca_pair = p, ca_disabled = pair_disabled cfg p, ca_score = fo_score F (se_reliability e) (se_latency e) (se_consecutive e),
       ca_last_result = se_last_result e, ca_position = 0, ca_exploration = False\<rparr>)"

definition ranks_before :: "('f :: linorder) candidate \<Rightarrow> 'f candidate \<Rightarrow> bool" where
  "ranks_before a b \<longleftrightarrow>
     (if ca_disabled a \<noteq> ca_disabled b then \<not> ca_disabled a
      else if ro_available (snd (ca_pair a)) \<noteq> ro_available (snd (ca_pair b)) then ro_available (snd (ca_pair a))
      else ca_score a > ca_score b)"

definition ready :: "('f :: linorder) candidate \<Rightarrow> bool" where
  "ready c \<longleftrightarrow> ro_available (snd (ca_pair c)) \<and> \<not> ca_disabled c"

text \<open>The first of the candidates with the oldest result.\<close>

definition oldest_result :: "('f :: linorder) candidate list \<Rightarrow> nat \<Rightarrow> nat" where
  "oldest_result cs available =
     fold (\<lambda>i oldest. if ca_last_result (cs ! i) < ca_last_result (cs ! oldest) then i else oldest) [1..<available] 0"

definition number_candidates :: "('f :: linorder) candidate list \<Rightarrow> 'f candidate list" where
  "number_candidates cs = map (\<lambda>(i, c). if ca_disabled c then c else c\<lparr>ca_position := i + 1\<rparr>) (enumerate 0 cs)"

definition ranked :: "('f :: linorder) float_ops \<Rightarrow> pool_config \<Rightarrow> (upstream \<times> dns_route) list \<Rightarrow> bool \<Rightarrow> 'f scheduler
    \<Rightarrow> 'f scheduler \<times> 'f candidate list" where
  "ranked F cfg ps advance s =
     (let cs = stable_sort ranks_before (map (candidate_of F cfg s) ps);
          available = length (takeWhile ready cs);
          next_race = sd_races s + 1;
          s1 = (if advance then s\<lparr>sd_races := next_race\<rparr> else s);
          cs1 = (if available > 1 \<and> next_race mod 8 = 0 then
                   (let oldest = oldest_result cs available in
                    (cs ! oldest)\<lparr>ca_exploration := True\<rparr> # take oldest cs @ drop (oldest + 1) cs)
                 else cs) in
      (s1, number_candidates cs1))"

definition plain_candidate :: "pool_config \<Rightarrow> 'f \<Rightarrow> upstream \<times> dns_route \<Rightarrow> ('f :: linorder) candidate" where
  "plain_candidate cfg score p = \<lparr>ca_pair = p, ca_disabled = pair_disabled cfg p, ca_score = score, ca_last_result = zero_time,
     ca_position = 0, ca_exploration = False\<rparr>"

definition order_attempts :: "('f :: linorder) float_ops \<Rightarrow> pool_config \<Rightarrow> dns_route list \<Rightarrow> string \<Rightarrow> 'f scheduler
    \<Rightarrow> 'f scheduler \<times> 'f candidate list" where
  "order_attempts F cfg routes domain s =
     (let ps = fst (configured_candidates cfg routes domain); available = active_count cfg ps in
      if \<not> pc_scheduler cfg \<or> available \<le> 1
      then (s, take available (number_candidates (map (plain_candidate cfg (fo_of_int F 0)) ps)))
      else (let (s1, cs) = ranked F cfg ps True s in (s1, take available cs)))"

section \<open>Probes\<close>

record probe =
  pr_route :: dns_route
  pr_upstream :: upstream
  pr_domain :: string
  pr_type :: nat
  pr_token :: nat

definition probe_key :: "probe \<Rightarrow> string" where
  "probe_key p = scheduler_key (ro_id (pr_route p)) (up_address (pr_upstream p))"

definition probes_of_pool :: "pool_config \<Rightarrow> dns_route list \<Rightarrow> string \<Rightarrow> nat \<Rightarrow> probe list" where
  "probes_of_pool cfg routes domain qtype =
     (let ps = filter (usable cfg) (pairs (fst (upstreams_for cfg domain)) (eligible_routes cfg routes)) in
      if length ps \<le> 1 then []
      else map (\<lambda>(u, r). \<lparr>pr_route = r, pr_upstream = u, pr_domain = domain, pr_type = qtype, pr_token = 0\<rparr>) ps)"

text \<open>The pools of the root and of every enabled rule, each pair once; names of Shadow DNS are never probed.\<close>

definition probe_candidates :: "(string \<Rightarrow> bool) \<Rightarrow> pool_config \<Rightarrow> dns_route list \<Rightarrow> probe list" where
  "probe_candidates shadow cfg routes =
     (if \<not> pc_scheduler cfg then []
      else snd (fold (\<lambda>p (seen, result). if probe_key p \<in> set seen then (seen, result) else (probe_key p # seen, result @ [p]))
        (concat (map (\<lambda>(domain, qtype). if shadow domain then [] else probes_of_pool cfg routes domain qtype)
           (([CHR ''.''], 2) # map (\<lambda>r. (dr_domain r, 1)) (filter dr_enabled (pc_rules cfg))))) ([], [])))"

text \<open>The candidate to probe: not measured within a minute; the oldest result, then the oldest probe, then in turn.\<close>

definition pick_probe :: "'f scheduler \<Rightarrow> probe list \<Rightarrow> time \<Rightarrow> nat option" where
  "pick_probe s cs now =
     fst (fold (\<lambda>offset (best, oldest_at, oldest_probe).
        let index = (sd_probe_cursor s + offset) mod length cs;
            (result_at, probe_at) = (case map_of (sd_entries s) (probe_key (cs ! index)) of
                None \<Rightarrow> (zero_time, zero_time) | Some e \<Rightarrow> (se_last_result e, se_last_probe e)) in
        if result_at \<noteq> zero_time \<and> time_sub now result_at < probe_recheck then (best, oldest_at, oldest_probe)
        else if best = None \<or> result_at < oldest_at \<or> (result_at = oldest_at \<and> probe_at < oldest_probe)
        then (Some index, result_at, probe_at) else (best, oldest_at, oldest_probe))
      [0..<length cs] (None, zero_time, zero_time))"

definition next_probe :: "'f float_ops \<Rightarrow> probe list \<Rightarrow> time \<Rightarrow> 'f scheduler \<Rightarrow> 'f scheduler \<times> probe option" where
  "next_probe F cs now s =
     (if sd_probe_key s \<noteq> [] \<or> cs = [] \<or> (sd_last_probe s \<noteq> zero_time \<and> time_sub now (sd_last_probe s) < probe_interval) then (s, None)
      else (case pick_probe s cs now of
          None \<Rightarrow> (s, None)
        | Some best \<Rightarrow>
            (let p = cs ! best; key = probe_key p; token = sd_probe_token s + 1;
                 s1 = change_entry key (\<lambda>e. e\<lparr>se_probing := True, se_probe_attempts := se_probe_attempts e + 1,
                   se_attempts := se_attempts e + 1, se_last_probe := now, se_last_attempt := now\<rparr>) (entry_at F key now s) in
             (s1\<lparr>sd_probe_token := token, sd_probe_key := key, sd_last_probe := now, sd_probe_cursor := (best + 1) mod length cs\<rparr>,
              Some (p\<lparr>pr_token := token\<rparr>)))))"

text \<open>\<^term>\<open>None\<close> is the dereference of an entry that is gone.\<close>

definition finish_probe :: "'f float_ops \<Rightarrow> probe \<Rightarrow> attempt_event \<Rightarrow> time \<Rightarrow> 'f scheduler \<Rightarrow> 'f scheduler option" where
  "finish_probe F p ev now s =
     (let key = probe_key p in
      if pr_token p \<noteq> sd_probe_token s \<or> key \<noteq> sd_probe_key s then Some s
      else (let s1 = s\<lparr>sd_probe_key := []\<rparr> in
        case map_of (sd_entries s1) key of
          None \<Rightarrow> None
        | Some _ \<Rightarrow>
            (let s2 = change_entry key (\<lambda>e. e\<lparr>se_probing := False\<rparr>) s1 in
             if ae_canceled ev then Some s2
             else Some (change_entry key (\<lambda>e. if ae_success ev then e\<lparr>se_probe_successes := se_probe_successes e + 1\<rparr>
                     else e\<lparr>se_probe_failures := se_probe_failures e + 1\<rparr>)
                   (record_at F (ev\<lparr>ae_route := ro_id (pr_route p), ae_upstream := up_address (pr_upstream p)\<rparr>) now s2)))))"

section \<open>Ranking keeps the usable pairs, first\<close>

lemma ranks_before_order: "ranks_before a b \<Longrightarrow> \<not> ranks_before b a"
  "\<not> ranks_before b a \<Longrightarrow> \<not> ranks_before c b \<Longrightarrow> \<not> ranks_before c a"
  by (auto simp: ranks_before_def split: if_splits)

lemma takeWhile_prefix_filter:
  assumes "sorted_wrt (\<lambda>a b. \<not> before b a) xs" "\<And>a b. P a \<Longrightarrow> \<not> P b \<Longrightarrow> before a b"
  shows "takeWhile P xs = filter P xs"
  using assms(1)
proof (induction xs)
  case (Cons x xs)
  show ?case
  proof (cases "P x")
    case False
    then have "filter P xs = []" using Cons.prems assms(2) by (auto simp: filter_empty_conv)
    then show ?thesis using False by simp
  qed (use Cons in simp)
qed simp

lemma ready_before: "ready a \<Longrightarrow> \<not> ready b \<Longrightarrow> ranks_before a b"
  by (auto simp: ready_def ranks_before_def)

lemma ready_usable: "ready (candidate_of F cfg s p) = usable cfg p"
  and ca_pair_candidate: "ca_pair (candidate_of F cfg s p) = p"
  and ca_pair_plain: "ca_pair (plain_candidate cfg score p) = p"
  by (auto simp: ready_def candidate_of_def usable_def plain_candidate_def Let_def)

lemma ranked_ready:
  fixes F :: "('f :: linorder) float_ops"
  assumes "cs = stable_sort ranks_before (map (candidate_of F cfg s) ps)"
  shows "takeWhile ready cs = filter ready cs" "mset (map ca_pair (filter ready cs)) = mset (filter (usable cfg) ps)"
proof -
  have "sorted_wrt (\<lambda>a b. \<not> ranks_before b a) cs" unfolding assms by (rule sorted_stable_sort [OF ranks_before_order])
  then show "takeWhile ready cs = filter ready cs" by (rule takeWhile_prefix_filter) (rule ready_before)
  have "mset (filter ready cs) = filter_mset ready (image_mset (candidate_of F cfg s) (mset ps))" by (simp add: assms)
  also have "\<dots> = image_mset (candidate_of F cfg s) (filter_mset (usable cfg) (mset ps))"
    by (simp add: filter_mset_image_mset comp_def ready_usable)
  finally have "image_mset ca_pair (mset (filter ready cs)) = image_mset (\<lambda>p. ca_pair (candidate_of F cfg s p)) (filter_mset (usable cfg) (mset ps))"
    by (simp add: multiset.map_comp comp_def)
  then show "mset (map ca_pair (filter ready cs)) = mset (filter (usable cfg) ps)" by (simp add: ca_pair_candidate)
qed

lemma map_number [simp]: "map ca_pair (number_candidates cs) = map ca_pair cs" "length (number_candidates cs) = length cs"
  by (auto simp: number_candidates_def comp_def split_def nth_enumerate_eq intro!: nth_equalityI)

lemma take_number: "map ca_pair (take n (number_candidates cs)) = map ca_pair (take n cs)"
  by (simp add: take_map [symmetric])

lemma oldest_result_min:
  "0 < available \<Longrightarrow> oldest_result cs available < available \<and> (\<forall>i < available. ca_last_result (cs ! oldest_result cs available) \<le> ca_last_result (cs ! i))"
proof (induction available)
  case (Suc n)
  show ?case
  proof (cases "n = 0")
    case True
    then show ?thesis by (simp add: oldest_result_def)
  next
    case False
    then have "oldest_result cs (Suc n)
        = (if ca_last_result (cs ! n) < ca_last_result (cs ! oldest_result cs n) then n else oldest_result cs n)"
      by (simp add: oldest_result_def)
    then show ?thesis using Suc False by (auto simp: less_Suc_eq dest: less_imp_le order.strict_trans2)
  qed
qed simp

lemma mset_rotate: "i < n \<Longrightarrow> n \<le> length cs \<Longrightarrow> mset (take n (cs ! i # take i cs @ drop (i + 1) cs)) = mset (take n cs)"
proof -
  assume i: "i < n" "n \<le> length cs"
  then have "mset (take n cs) = mset (take i cs @ cs ! i # drop (i + 1) (take n cs))"
    using arg_cong [OF id_take_nth_drop [of i "take n cs"], of mset] by (simp add: min_absorb1)
  moreover have "take n (cs ! i # take i cs @ drop (i + 1) cs) = cs ! i # take i cs @ drop (i + 1) (take n cs)"
    using i by (cases n) (auto simp: min_absorb2 drop_take)
  ultimately show ?thesis by simp
qed

lemma ranked_attempts:
  fixes F :: "('f :: linorder) float_ops"
  assumes "ranked F cfg ps True s = (s1, cs)" "n = length (filter (usable cfg) ps)" "1 < n"
  shows "mset (map ca_pair (take n cs)) = mset (filter (usable cfg) ps)"
    and "if sd_races s1 mod 8 = 0
      then \<forall>p \<in> set (filter (usable cfg) ps). ca_last_result (candidate_of F cfg s (ca_pair (hd cs))) \<le> ca_last_result (candidate_of F cfg s p)
      else sorted_wrt (\<lambda>p q. ca_score (candidate_of F cfg s p) \<ge> ca_score (candidate_of F cfg s q)) (map ca_pair (take n cs))"
proof -
  define os where "os = stable_sort ranks_before (map (candidate_of F cfg s) ps)"
  note rr = ranked_ready [OF os_def]
  define ot where "ot = oldest_result os n"
  have n: "length (takeWhile ready os) = n" using mset_eq_length [OF rr(2)] by (simp add: rr(1) assms(2))
  then have tk: "take n os = filter ready os" using takeWhile_eq_take [of ready os] by (simp add: rr(1))
  have le: "n \<le> length os" using n length_takeWhile_le [of ready os] by simp
  have races: "sd_races s1 = sd_races s + 1" using assms(1) by (auto simp: ranked_def Let_def)
  have cs: "cs = number_candidates (if (sd_races s + 1) mod 8 = 0 then (os ! ot)\<lparr>ca_exploration := True\<rparr> # take ot os @ drop (ot + 1) os else os)"
    using assms(1,3) n by (auto simp: ranked_def Let_def os_def [symmetric] ot_def)
  have ot: "ot < n" "\<forall>i < n. ca_last_result (os ! ot) \<le> ca_last_result (os ! i)"
    using oldest_result_min [of n os] assms(3) by (simp_all add: ot_def)
  have self: "c = candidate_of F cfg s (ca_pair c)" if "c \<in> set os" for c
    using that by (auto simp: os_def ca_pair_candidate)
  have pairs_cs: "map ca_pair (take n cs) = map ca_pair (take n (if (sd_races s + 1) mod 8 = 0 then os ! ot # take ot os @ drop (ot + 1) os else os))"
    unfolding cs take_number by (simp add: take_Cons')
  have "mset (take n (if (sd_races s + 1) mod 8 = 0 then os ! ot # take ot os @ drop (ot + 1) os else os)) = mset (filter ready os)"
    using mset_rotate [OF ot(1) le] tk by simp
  then show "mset (map ca_pair (take n cs)) = mset (filter (usable cfg) ps)"
    unfolding pairs_cs using rr(2) by (metis mset_map)
  show "if sd_races s1 mod 8 = 0
      then \<forall>p \<in> set (filter (usable cfg) ps). ca_last_result (candidate_of F cfg s (ca_pair (hd cs))) \<le> ca_last_result (candidate_of F cfg s p)
      else sorted_wrt (\<lambda>p q. ca_score (candidate_of F cfg s p) \<ge> ca_score (candidate_of F cfg s q)) (map ca_pair (take n cs))"
  proof (cases "(sd_races s + 1) mod 8 = 0")
    case True
    have hd: "ca_pair (hd cs) = ca_pair (os ! ot)" using True by (simp add: cs number_candidates_def)
    have "ca_last_result (candidate_of F cfg s (ca_pair (os ! ot))) \<le> ca_last_result (candidate_of F cfg s p)"
      if "p \<in> set (filter (usable cfg) ps)" for p
    proof -
      have "candidate_of F cfg s p \<in> set (take n os)" using that unfolding tk by (auto simp: os_def ready_usable)
      then obtain i where "i < n" "os ! i = candidate_of F cfg s p" using le by (auto simp: in_set_conv_nth)
      moreover have "os ! ot = candidate_of F cfg s (ca_pair (os ! ot))" using ot(1) le by (intro self) simp
      ultimately show ?thesis using ot(2) by metis
    qed
    then show ?thesis using True by (simp add: races hd)
  next
    case False
    have "sorted_wrt (\<lambda>a b. \<not> ranks_before b a) os" unfolding os_def by (rule sorted_stable_sort [OF ranks_before_order])
    then have "sorted_wrt (\<lambda>a b. \<not> ranks_before b a) (filter ready os)" by (rule sorted_wrt_filter)
    then have "sorted_wrt (\<lambda>a b. ca_score (candidate_of F cfg s (ca_pair a)) \<ge> ca_score (candidate_of F cfg s (ca_pair b))) (filter ready os)"
    proof (rule sorted_wrt_mono_rel [rotated])
      fix a b assume "a \<in> set (filter ready os)" "b \<in> set (filter ready os)" "\<not> ranks_before b a"
      moreover from this have "a = candidate_of F cfg s (ca_pair a)" "b = candidate_of F cfg s (ca_pair b)" by (auto intro: self)
      ultimately show "ca_score (candidate_of F cfg s (ca_pair b)) \<le> ca_score (candidate_of F cfg s (ca_pair a))"
        by (auto simp: ranks_before_def ready_def not_less)
    qed
    then show ?thesis using False by (simp add: races pairs_cs tk sorted_wrt_map)
  qed
qed

text \<open>A query tries every usable pair of its pool and the eligible routes once and nothing else, whatever the scheduler has
  learnt: with the scheduler off, or at most one usable pair, in the declared order; otherwise by falling score, except that in
  every eighth race the first attempt goes to a pair whose last result is the oldest, so a pair that always loses its race
  is measured again.\<close>

theorem attempts_are_the_usable_pairs:
  fixes F :: "('f :: linorder) float_ops"
  shows "let ps = filter (usable cfg) (pairs (fst (upstreams_for cfg domain)) (eligible_routes cfg routes));
      (s1, cs) = order_attempts F cfg routes domain s in
    mset (map ca_pair cs) = mset ps
    \<and> (if pc_scheduler cfg \<and> 1 < length ps
       then sd_races s1 = sd_races s + 1
         \<and> (if sd_races s1 mod 8 = 0
            then list_all (\<lambda>p. ca_last_result (candidate_of F cfg s (ca_pair (hd cs))) \<le> ca_last_result (candidate_of F cfg s p)) ps
            else sorted_wrt (\<lambda>p q. ca_score (candidate_of F cfg s p) \<ge> ca_score (candidate_of F cfg s q)) (map ca_pair cs))
       else s1 = s \<and> map ca_pair cs = ps)"
proof -
  define qs where "qs = fst (configured_candidates cfg routes domain)"
  define ps where "ps = filter (usable cfg) (pairs (fst (upstreams_for cfg domain)) (eligible_routes cfg routes))"
  have tk: "take (active_count cfg qs) qs = ps" unfolding ps_def by (rule active_count_configured) (simp add: qs_def)
  have ac: "active_count cfg qs = length ps"
    using arg_cong [OF tk, of length] length_takeWhile_le [of "usable cfg" qs] by (simp add: active_count_def min_absorb2)
  have fl: "mset (filter (usable cfg) qs) = mset ps"
    by (simp add: qs_def ps_def configured_candidates_def Let_def split_def filter_mset_eq_conv)
  have len: "length ps = length (filter (usable cfg) qs)" using mset_eq_length [OF fl] by simp
  show ?thesis
  proof (cases "pc_scheduler cfg \<and> 1 < length ps")
    case True
    obtain s1 cs where r: "ranked F cfg qs True s = (s1, cs)" by force
    have o1: "order_attempts F cfg routes domain s = (s1, take (length ps) cs)"
      using True by (simp add: order_attempts_def qs_def [symmetric] ac r)
    have hd: "hd (take (length ps) cs) = hd cs" using True by (cases cs; cases "length ps") auto
    have races: "sd_races s1 = sd_races s + 1" using r by (auto simp: ranked_def Let_def)
    note ra = ranked_attempts [OF r len] 
    show ?thesis using True ra fl mset_eq_setD [OF fl]
      by (simp add: o1 Let_def ps_def [symmetric] hd races list_all_iff)
  next
    case False
    then have "order_attempts F cfg routes domain s
        = (s, take (length ps) (number_candidates (map (plain_candidate cfg (fo_of_int F 0)) qs)))"
      by (auto simp: order_attempts_def qs_def [symmetric] ac)
    moreover have "map ca_pair (take (length ps) (number_candidates (map (plain_candidate cfg (fo_of_int F 0)) qs))) = ps"
      using tk by (simp add: take_number ac take_map comp_def ca_pair_plain)
    ultimately show ?thesis using False by (simp add: Let_def ps_def [symmetric] del: mset_map)
  qed
qed

section \<open>The probe lease\<close>

text \<open>At most 2048 pairs are remembered, and the only one that may be probed is the one the lease names.\<close>

definition probed :: "'f scheduler \<Rightarrow> string set" where
  "probed s = {k. \<exists>e. (k, e) \<in> set (sd_entries s) \<and> se_probing e}"

definition sched_ok :: "'f scheduler \<Rightarrow> bool" where
  "sched_ok s \<longleftrightarrow> distinct (map fst (sd_entries s)) \<and> length (sd_entries s) \<le> max_scheduler_pairs
     \<and> probed s = (if sd_probe_key s = [] then {} else {sd_probe_key s})"

lemma scheduler_key_nonempty [simp]: "scheduler_key route upstream \<noteq> []"
  by (simp add: scheduler_key_def)

lemma map_of_probed: "distinct (map fst (sd_entries s)) \<Longrightarrow> k \<in> probed s \<longleftrightarrow> (\<exists>e. map_of (sd_entries s) k = Some e \<and> se_probing e)"
  by (auto simp: probed_def)

declare map_of_eq_Some_iff [simp del]

lemma fold_older:
  "fst (fold older_entry es acc) = fst acc \<or> (\<exists>e. (fst (fold older_entry es acc), e) \<in> set es \<and> \<not> se_probing e)"
proof (induction es arbitrary: acc)
  case (Cons x es)
  obtain k e oldest earliest where x: "x = (k, e)" "acc = (oldest, earliest)" by (cases x; cases acc)
  have "fst (older_entry x acc) = oldest \<or> fst (older_entry x acc) = k \<and> \<not> se_probing e" by (simp add: x)
  then show ?case using Cons [of "older_entry x acc"] by (auto simp: x simp del: older_entry.simps)
qed simp

lemma oldest_not_probed: "distinct (map fst (sd_entries s)) \<Longrightarrow> oldest_entry (sd_entries s) \<notin> probed s \<or> oldest_entry (sd_entries s) = []"
  using fold_older [of "sd_entries s" "([], zero_time)"]
  by (auto simp: oldest_entry_def probed_def dest: eq_key_imp_eq_value)

lemma oldest_found:
  assumes "\<exists>x \<in> set es. \<not> se_probing (snd x)"
  shows "oldest_entry es \<in> fst ` set es"
proof -
  have keep: "fst acc \<in> K \<Longrightarrow> fst ` set qs \<subseteq> K \<Longrightarrow> fst (fold older_entry qs acc) \<in> K" for qs :: "(string \<times> 'a sched_entry) list" and acc K
    by (rule fold_picks_key) (auto split: if_splits)
  have skip: "\<forall>y \<in> set qs. se_probing (snd y) \<Longrightarrow> fold older_entry qs acc = acc" for qs :: "(string \<times> 'a sched_entry) list" and acc
    by (induction qs arbitrary: acc) (auto split: prod.splits)
  from split_list_first_prop [OF assms] obtain xs x ys where
    es: "es = xs @ x # ys" "\<not> se_probing (snd x)" "\<forall>y \<in> set xs. se_probing (snd y)" by auto
  have "fold older_entry xs ([], zero_time) = ([], zero_time)" by (rule skip) (rule es(3))
  then have "oldest_entry es = fst (fold older_entry ys (fst x, se_touched (snd x)))"
    using es(1,2) by (cases x) (simp add: oldest_entry_def)
  also have "\<dots> \<in> fst ` set es" by (rule keep) (auto simp: es(1))
  finally show ?thesis .
qed

lemma change_entry_fields [simp]:
  "sd_probe_key (change_entry key g s) = sd_probe_key s" "sd_probe_token (change_entry key g s) = sd_probe_token s"
  "map fst (sd_entries (change_entry key g s)) = map fst (sd_entries s)"
  "length (sd_entries (change_entry key g s)) = length (sd_entries s)"
  "map_of (sd_entries (change_entry key g s)) k = (if k = key then map_option g (map_of (sd_entries s) k) else map_of (sd_entries s) k)"
proof -
  have dom: "map_of es key = Some e \<Longrightarrow> map fst (AList.update key v es) = map fst es" for es and e v :: "'a sched_entry"
    by (induction es) auto
  show "map fst (sd_entries (change_entry key g s)) = map fst (sd_entries s)"
    by (auto simp: change_entry_def dom split: option.split)
  from arg_cong [OF this, of length] show "length (sd_entries (change_entry key g s)) = length (sd_entries s)" by simp
qed (auto simp: change_entry_def update_conv' split: option.split)

lemma probed_change:
  assumes "distinct (map fst (sd_entries s))" "map_of (sd_entries s) key \<noteq> None"
  shows "probed (change_entry key g s) = (if se_probing (g (the (map_of (sd_entries s) key))) then insert key (probed s) else probed s - {key})"
proof (rule set_eqI)
  fix x
  obtain e where e: "map_of (sd_entries s) key = Some e" using assms(2) by auto
  have c: "x \<in> probed (change_entry key g s) \<longleftrightarrow> (if x = key then se_probing (g e) else x \<in> probed s)"
    using assms(1) e by (auto simp: map_of_probed)
  show "x \<in> probed (change_entry key g s)
      \<longleftrightarrow> x \<in> (if se_probing (g (the (map_of (sd_entries s) key))) then insert key (probed s) else probed s - {key})"
    unfolding c e by auto
qed

lemma probed_same:
  assumes "distinct (map fst (sd_entries s))" "\<And>e. map_of (sd_entries s) key = Some e \<Longrightarrow> se_probing (g e) = se_probing e"
  shows "probed (change_entry key g s) = probed s"
proof (rule set_eqI)
  fix x
  show "x \<in> probed (change_entry key g s) \<longleftrightarrow> x \<in> probed s" using assms by (auto simp: map_of_probed)
qed

lemma entry_at_fields [simp]:
  "sd_probe_key (entry_at F key now s) = sd_probe_key s" "sd_probe_token (entry_at F key now s) = sd_probe_token s"
  "sd_races (entry_at F key now s) = sd_races s"
  "map_of (sd_entries (entry_at F key now s)) key \<noteq> None"
  by (auto simp: entry_at_def Let_def update_conv' split: option.split)

lemma entry_at_ok:
  assumes "sched_ok s"
  shows "sched_ok (entry_at F key now s)"
proof (cases "map_of (sd_entries s) key")
  case (Some e)
  then have "entry_at F key now s = change_entry key (\<lambda>e. e\<lparr>se_touched := now\<rparr>) s" by (simp add: entry_at_def change_entry_def)
  then show ?thesis using assms by (simp add: sched_ok_def probed_same)
next
  case None
  define es where "es = (if length (sd_entries s) \<ge> max_scheduler_pairs then AList.delete (oldest_entry (sd_entries s)) (sd_entries s)
                     else sd_entries s)"
  have d: "distinct (map fst es)" using assms by (simp add: es_def sched_ok_def distinct_delete)
  have new: "key \<notin> fst ` set es" using None by (auto simp: es_def map_of_eq_None_iff delete_filter)
  have e: "entry_at F key now s = s\<lparr>sd_entries := es @ [(key, (new_entry F)\<lparr>se_touched := now\<rparr>)]\<rparr>"
    using None by (simp add: entry_at_def es_def [symmetric] update_new [OF new])
  have len: "length es < max_scheduler_pairs"
  proof (cases "length (sd_entries s) \<ge> max_scheduler_pairs")
    case True
    have "\<exists>x \<in> set (sd_entries s). \<not> se_probing (snd x)"
    proof (rule ccontr)
      assume "\<not> ?thesis"
      then have "fst ` set (sd_entries s) \<subseteq> probed s" unfolding probed_def by force
      then have "card (fst ` set (sd_entries s)) \<le> 1" using assms card_mono [of "probed s" "fst ` set (sd_entries s)"]
        by (auto simp: sched_ok_def split: if_splits)
      moreover have "card (fst ` set (sd_entries s)) = length (sd_entries s)"
        using assms distinct_card [of "map fst (sd_entries s)"] by (simp add: sched_ok_def)
      ultimately show False using True by (simp add: max_scheduler_pairs_def)
    qed
    then have "oldest_entry (sd_entries s) \<in> fst ` set (sd_entries s)" by (rule oldest_found)
    then have "length es < length (sd_entries s)" using True by (simp add: es_def delete_smaller)
    then show ?thesis using assms by (simp add: sched_ok_def)
  qed (use es_def in auto)
  have "probed (entry_at F key now s) = {k. \<exists>e. (k, e) \<in> set es \<and> se_probing e}" by (auto simp: e probed_def new_entry_def)
  also have "\<dots> = probed s"
  proof (cases "length (sd_entries s) \<ge> max_scheduler_pairs")
    case True
    have "oldest_entry (sd_entries s) \<notin> probed s \<or> oldest_entry (sd_entries s) = []"
      by (rule oldest_not_probed) (use assms in \<open>simp add: sched_ok_def\<close>)
    then have "oldest_entry (sd_entries s) \<notin> probed s" using assms by (auto simp: sched_ok_def)
    then show ?thesis using True by (auto simp: es_def probed_def delete_filter)
  qed (simp add: es_def probed_def)
  finally show ?thesis using assms d new len by (auto simp: sched_ok_def e)
qed

lemma change_entry_ok: "sched_ok s \<Longrightarrow> (\<And>e. se_probing (g e) = se_probing e) \<Longrightarrow> sched_ok (change_entry key g s)"
  by (simp add: sched_ok_def probed_same)

lemma measured_probing [simp]: "se_probing (measured F ev now e) = se_probing e"
  by (simp add: measured_def Let_def)

lemma record_at_ok: "sched_ok s \<Longrightarrow> sched_ok (record_at F ev now s)"
  by (simp add: record_at_def Let_def change_entry_ok entry_at_ok)

datatype sched_event =
    SchedStarted string string time
  | SchedRecord attempt_event time
  | SchedOrder pool_config "dns_route list" string
  | SchedProbe "probe list" time
  | SchedFinish probe attempt_event time

fun sched_step :: "('f :: linorder) float_ops \<Rightarrow> sched_event \<Rightarrow> 'f scheduler \<Rightarrow> 'f scheduler option" where
  "sched_step F (SchedStarted route upstream now) s = Some (started F route upstream now s)"
| "sched_step F (SchedRecord ev now) s = Some (record_attempt F ev now s)"
| "sched_step F (SchedOrder cfg routes domain) s = Some (fst (order_attempts F cfg routes domain s))"
| "sched_step F (SchedProbe cs now) s = Some (fst (next_probe F cs now s))"
| "sched_step F (SchedFinish p ev now) s = finish_probe F p ev now s"

fun sched_run :: "('f :: linorder) float_ops \<Rightarrow> sched_event list \<Rightarrow> 'f scheduler \<Rightarrow> 'f scheduler option" where
  "sched_run F [] s = Some s"
| "sched_run F (ev # evs) s = (case sched_step F ev s of None \<Rightarrow> None | Some s1 \<Rightarrow> sched_run F evs s1)"

lemma next_probe_ok: "sched_ok s \<Longrightarrow> sched_ok (fst (next_probe F cs now s))"
proof -
  assume ok: "sched_ok s"
  show ?thesis
  proof (cases "fst (next_probe F cs now s) = s")
    case False
    then obtain best where b: "pick_probe s cs now = Some best" and free: "sd_probe_key s = []"
      by (auto simp: next_probe_def split: if_splits option.splits)
    define key where "key = probe_key (cs ! best)"
    define s1 where "s1 = entry_at F key now s"
    define g where "g = (\<lambda>e :: 'a sched_entry. e\<lparr>se_probing := True, se_probe_attempts := se_probe_attempts e + 1,
                   se_attempts := se_attempts e + 1, se_last_probe := now, se_last_attempt := now\<rparr>)"
    have s1: "sched_ok s1" "map_of (sd_entries s1) key \<noteq> None" "sd_probe_key s1 = []"
      using entry_at_ok [OF ok] free unfolding s1_def by (simp_all only: entry_at_fields, simp_all)
    have "probed (change_entry key g s1) = {key}" using s1 by (simp add: sched_ok_def probed_change g_def)
    moreover have "fst (next_probe F cs now s) = (change_entry key g s1)\<lparr>sd_probe_token := sd_probe_token s + 1, sd_probe_key := key,
        sd_last_probe := now, sd_probe_cursor := (best + 1) mod length cs\<rparr>"
      using False b by (auto simp: next_probe_def Let_def key_def s1_def g_def split: if_splits)
    moreover have "key \<noteq> []" by (simp add: key_def probe_key_def)
    ultimately show ?thesis using s1(1) by (simp add: sched_ok_def probed_def)
  qed (use ok in simp)
qed

lemma finish_probe_ok: "sched_ok s \<Longrightarrow> \<exists>s'. finish_probe F p ev now s = Some s' \<and> sched_ok s'"
proof (cases "pr_token p \<noteq> sd_probe_token s \<or> probe_key p \<noteq> sd_probe_key s")
  case False
  assume ok: "sched_ok s"
  define key where "key = probe_key p"
  have k: "key = sd_probe_key s" "key \<noteq> []" using False by (auto simp: key_def probe_key_def)
  then have "key \<in> probed s" using ok by (simp add: sched_ok_def)
  then obtain e where e: "map_of (sd_entries s) key = Some e"
    using ok map_of_probed [of s key] unfolding sched_ok_def by blast
  define s1 where "s1 = change_entry key (\<lambda>e. e\<lparr>se_probing := False\<rparr>) (s\<lparr>sd_probe_key := []\<rparr>)"
  have "probed (s\<lparr>sd_probe_key := []\<rparr>) = {key}" using ok k by (simp add: sched_ok_def probed_def)
  then have "probed s1 = {}" using ok e unfolding s1_def by (subst probed_change) (auto simp: sched_ok_def)
  then have ok1: "sched_ok s1" using ok by (simp add: sched_ok_def s1_def)
  have "finish_probe F p ev now s = Some (if ae_canceled ev then s1 else
      change_entry key (\<lambda>e. if ae_success ev then e\<lparr>se_probe_successes := se_probe_successes e + 1\<rparr>
                     else e\<lparr>se_probe_failures := se_probe_failures e + 1\<rparr>)
        (record_at F (ev\<lparr>ae_route := ro_id (pr_route p), ae_upstream := up_address (pr_upstream p)\<rparr>) now s1))"
    using False e by (auto simp: finish_probe_def Let_def key_def s1_def)
  then show ?thesis using ok1 by (auto intro!: change_entry_ok record_at_ok split: if_splits)
qed (auto simp: finish_probe_def)

lemma sched_step_ok:
  fixes F :: "('f :: linorder) float_ops"
  assumes "sched_ok s"
  shows "\<exists>s'. sched_step F ev s = Some s' \<and> sched_ok s'"
proof (cases ev)
  case (SchedOrder cfg routes domain)
  have "sd_entries (fst (order_attempts F cfg routes domain s)) = sd_entries s \<and> sd_probe_key (fst (order_attempts F cfg routes domain s)) = sd_probe_key s"
    by (simp add: order_attempts_def ranked_def Let_def)
  then show ?thesis using assms SchedOrder by (simp add: sched_ok_def probed_def)
next
  case (SchedFinish p e now)
  then show ?thesis using finish_probe_ok [OF assms] by simp
qed (use assms in \<open>auto simp: started_def record_attempt_def intro!: change_entry_ok entry_at_ok record_at_ok next_probe_ok\<close>)

text \<open>(C33) The bookkeeping of the scheduler is bounded and its probe lease is safe. In any order of starts, results, rankings and
  probes, with ends of probes repeated, late or made up: no end of a probe meets an entry that was evicted, at most one pair
  is marked as probed, and only while the lease names it, and at most 2048 pairs are remembered.\<close>

theorem probe_lease_safe:
  fixes F :: "('f :: linorder) float_ops"
  shows "\<exists>s. sched_run F evs new_scheduler = Some s \<and> length (sd_entries s) \<le> 2048
    \<and> probed s = (if sd_probe_key s = [] then {} else {sd_probe_key s})"
proof -
  have run: "\<exists>s'. sched_run F evs s = Some s' \<and> sched_ok s'" if "sched_ok s" for s
    using that
  proof (induction evs arbitrary: s)
    case (Cons ev evs)
    then show ?case using sched_step_ok [OF Cons.prems, of F ev] by auto
  qed simp
  have "sched_ok (new_scheduler :: 'f scheduler)" by (simp add: sched_ok_def new_scheduler_def probed_def)
  from run [OF this] show ?thesis by (auto simp: sched_ok_def max_scheduler_pairs_def)
qed

end
