(* ===== verification/Fast_Dns.thy ===== *)
theory Fast_Dns
  imports Go_Time Go_Net Go_Text Go_Utf8 Assoc "HOL-Library.Multiset"
begin

text \<open>
  The bootstrap addresses of DoH providers (\<open>internal/services/dnsserver/fast_dns.go\<close>): a bounded cache of warm
  addresses, its queue of refreshes and the two workers that serve it.

  Go's flight objects live in a heap, \<open>fc_flights\<close>, a flight being its index; the address of an entry is \<open>fe_id\<close>. Every
  definition is one section under the mutex, or a stretch without shared state. The channel \<open>wake\<close> is the number of its
  pending tokens; \<open>fc_looking\<close> counts the workers at the top of their loop, \<open>fc_idle\<close> those that wait for a token, and
  \<open>fc_busy\<close> holds entry, target and flight of each lookup under way. The live policy (\<open>allowed\<close>) is an argument. A Go
  map is an association list; the order of its scan, which Go leaves open, is the order of the list.
\<close>

section \<open>State\<close>

definition fast_capacity :: nat where "fast_capacity = 256"
definition fast_workers :: nat where "fast_workers = 2"
definition fast_refresh_interval :: duration where "fast_refresh_interval = secs 3600"
definition fast_stale_interval :: duration where "fast_stale_interval = secs 3600"
definition fast_retry_interval :: duration where "fast_retry_interval = secs 60"

record fast_target =
  ft_route :: string
  ft_host :: string

datatype fast_error = FastCancelled | FastClosed | FastDisabled | FastFull | FastYielded | FastBootstrap string string | FastFailed string

record fast_flight =
  ff_ips :: "string list"
  ff_err :: "fast_error option"
  ff_done :: bool
  ff_foreground :: bool
  ff_running :: bool
  ff_sequence :: nat
  ff_cancelled :: bool

record fast_entry =
  fe_id :: nat
  fe_target :: fast_target
  fe_ips :: "string list"
  fe_refreshed :: time
  fe_expires :: time
  fe_stale_until :: time
  fe_retry_at :: time
  fe_last_used :: time
  fe_last_error :: string
  fe_refresh_soon :: bool
  fe_flight :: "nat option"

record fast_cache =
  fc_entries :: "(string \<times> fast_entry) list"
  fc_flights :: "fast_flight list"
  fc_created :: nat
  fc_sequence :: nat
  fc_closed :: bool
  fc_wake :: nat
  fc_looking :: nat
  fc_idle :: nat
  fc_busy :: "(nat \<times> fast_target \<times> nat) list"

definition new_fast_cache :: fast_cache where
  "new_fast_cache = \<lparr>fc_entries = [], fc_flights = [], fc_created = 0, fc_sequence = 0, fc_closed = False, fc_wake = 0,
     fc_looking = fast_workers, fc_idle = 0, fc_busy = []\<rparr>"

definition fast_host :: "string \<Rightarrow> string" where
  "fast_host host = trim_suffix (to_lower host) ''.''"

definition fast_key :: "string \<Rightarrow> string \<Rightarrow> string" where
  "fast_key route host = route @ ''|'' @ fast_host host"

definition new_fast_entry :: "nat \<Rightarrow> fast_target \<Rightarrow> time \<Rightarrow> fast_entry" where
  "new_fast_entry i t now = \<lparr>fe_id = i, fe_target = t\<lparr>ft_host := fast_host (ft_host t)\<rparr>, fe_ips = [], fe_refreshed = zero_time,
     fe_expires = zero_time, fe_stale_until = zero_time, fe_retry_at = zero_time, fe_last_used = now, fe_last_error = [],
     fe_refresh_soon = False, fe_flight = None\<rparr>"

definition new_fast_flight :: "bool \<Rightarrow> nat \<Rightarrow> fast_flight" where
  "new_fast_flight foreground sequence = \<lparr>ff_ips = [], ff_err = None, ff_done = False, ff_foreground = foreground,
     ff_running = False, ff_sequence = sequence, ff_cancelled = False\<rparr>"

definition set_flight :: "nat \<Rightarrow> (fast_flight \<Rightarrow> fast_flight) \<Rightarrow> fast_cache \<Rightarrow> fast_cache" where
  "set_flight f g c = c\<lparr>fc_flights := (fc_flights c)[f := g (fc_flights c ! f)]\<rparr>"

definition end_flight :: "nat \<Rightarrow> string list \<Rightarrow> fast_error option \<Rightarrow> fast_cache \<Rightarrow> fast_cache" where
  "end_flight f ips err = set_flight f (\<lambda>x. x\<lparr>ff_ips := ips, ff_err := err, ff_done := True\<rparr>)"

section \<open>Entries and the queue\<close>

text \<open>The entry to evict: never one whose lookup runs or is awaited by a request.\<close>

definition evictable :: "fast_cache \<Rightarrow> fast_entry \<Rightarrow> bool" where
  "evictable c e = (case fe_flight e of None \<Rightarrow> True
     | Some f \<Rightarrow> \<not> (ff_running (fc_flights c ! f) \<or> ff_foreground (fc_flights c ! f)))"

fun least_used :: "fast_cache \<Rightarrow> (string \<times> fast_entry) list \<Rightarrow> (string \<times> fast_entry) option \<Rightarrow> (string \<times> fast_entry) option" where
  "least_used c [] best = best"
| "least_used c ((k, e) # es) best =
     least_used c es
       (if \<not> evictable c e then best
        else (case best of
            None \<Rightarrow> Some (k, e)
          | Some (k', e') \<Rightarrow> if fe_last_used e < fe_last_used e' then Some (k, e) else best))"

definition add_entry :: "fast_target \<Rightarrow> time \<Rightarrow> fast_cache \<Rightarrow> fast_cache \<times> string option" where
  "add_entry t now c =
     (let key = fast_key (ft_route t) (ft_host t) in
      (c\<lparr>fc_entries := AList.update key (new_fast_entry (fc_created c) t now) (fc_entries c), fc_created := fc_created c + 1\<rparr>, Some key))"

definition drop_entry :: "string \<Rightarrow> fast_cache \<Rightarrow> fast_cache" where
  "drop_entry key c = c\<lparr>fc_entries := AList.delete key (fc_entries c)\<rparr>"

text \<open>\<open>entryLocked\<close>: the key of the entry, when there is room for one.\<close>

definition entry_locked :: "(string \<Rightarrow> string \<Rightarrow> bool) \<Rightarrow> fast_target \<Rightarrow> bool \<Rightarrow> time \<Rightarrow> fast_cache \<Rightarrow> fast_cache \<times> string option" where
  "entry_locked allowed t foreground now c =
     (let key = fast_key (ft_route t) (ft_host t) in
      if \<not> allowed (ft_route t) (ft_host t) then (c, None)
      else if map_of (fc_entries c) key \<noteq> None then (c, Some key)
      else if length (fc_entries c) < fast_capacity then add_entry t now c
      else if \<not> foreground then (c, None)
      else (case least_used c (fc_entries c) None of
          None \<Rightarrow> (c, None)
        | Some (k, e) \<Rightarrow>
            add_entry t now (drop_entry k
              (case fe_flight e of None \<Rightarrow> c | Some f \<Rightarrow> end_flight f [] (Some FastYielded) c))))"

definition change_entry :: "string \<Rightarrow> (fast_entry \<Rightarrow> fast_entry) \<Rightarrow> fast_cache \<Rightarrow> fast_cache" where
  "change_entry key g c = c\<lparr>fc_entries := AList.map_entry key g (fc_entries c)\<rparr>"

definition schedule :: "string \<Rightarrow> bool \<Rightarrow> fast_cache \<Rightarrow> fast_cache" where
  "schedule key foreground c =
     (case map_of (fc_entries c) key of
        None \<Rightarrow> c
      | Some e \<Rightarrow>
          (if fc_closed c \<or> fe_flight e \<noteq> None then c
           else (change_entry key (\<lambda>e. e\<lparr>fe_flight := Some (length (fc_flights c))\<rparr>) c)
             \<lparr>fc_sequence := fc_sequence c + 1,
              fc_flights := fc_flights c @ [new_fast_flight foreground (fc_sequence c + 1)],
              fc_wake := (if fc_wake c < fast_workers then fc_wake c + 1 else fc_wake c)\<rparr>))"

datatype fast_answer = FastError fast_error | FastIps "string list" | FastWait nat

text \<open>\<open>Lookup\<close>, up to the point where the caller waits for a flight.\<close>

definition fast_lookup :: "(string \<Rightarrow> string \<Rightarrow> bool) \<Rightarrow> bool \<Rightarrow> time \<Rightarrow> string \<Rightarrow> string \<Rightarrow> fast_cache \<Rightarrow> fast_cache \<times> fast_answer" where
  "fast_lookup allowed caller_done now route host c =
     (if caller_done then (c, FastError FastCancelled)
      else if fc_closed c then (c, FastError FastClosed)
      else if \<not> allowed route host then (c, FastError FastDisabled)
      else (case entry_locked allowed \<lparr>ft_route = route, ft_host = host\<rparr> True now c of
          (c1, None) \<Rightarrow> (c1, FastError FastFull)
        | (c1, Some key) \<Rightarrow>
            (case map_of (fc_entries c1) key of
               None \<Rightarrow> (c1, FastError FastFull)
             | Some e \<Rightarrow>
                 (let c2 = change_entry key (\<lambda>e. e\<lparr>fe_last_used := now\<rparr>) c1;
                      usable = (fe_ips e \<noteq> [] \<and> now < fe_stale_until e) in
                  if fe_ips e \<noteq> [] \<and> now < fe_expires e then (c2, FastIps (fe_ips e))
                  else (let c3 = (case fe_flight e of
                              None \<Rightarrow> if \<not> now < fe_retry_at e then schedule key (\<not> usable) c2 else c2
                            | Some f \<Rightarrow> if \<not> usable then set_flight f (\<lambda>x. x\<lparr>ff_foreground := True\<rparr>) c2 else c2) in
                    if usable then (c3, FastIps (fe_ips e))
                    else (case Option.bind (map_of (fc_entries c3) key) fe_flight of
                        None \<Rightarrow> (c3, FastError (FastBootstrap host (fe_last_error e)))
                      | Some f \<Rightarrow> (c3, FastWait f)))))))"

text \<open>What a waiter gets once its flight has ended.\<close>

definition fast_waited :: "nat \<Rightarrow> fast_cache \<Rightarrow> fast_answer option" where
  "fast_waited f c =
     (let x = fc_flights c ! f in
      if ff_done x then Some (case ff_err x of None \<Rightarrow> FastIps (ff_ips x) | Some e \<Rightarrow> FastError e) else None)"

definition refresh_soon :: "(string \<Rightarrow> string \<Rightarrow> bool) \<Rightarrow> time \<Rightarrow> string \<Rightarrow> string \<Rightarrow> fast_cache \<Rightarrow> fast_cache" where
  "refresh_soon allowed now route host c =
     (if fc_closed c then c
      else (let key = fast_key route host in
        case map_of (fc_entries c) key of
          None \<Rightarrow> c
        | Some e \<Rightarrow>
            (if fe_flight e \<noteq> None \<or> \<not> allowed route host then c
             else (let c1 = change_entry key (\<lambda>e. e\<lparr>fe_refresh_soon := True\<rparr>) c in
               if now < fe_retry_at e \<or> now < fe_refreshed e + fast_retry_interval then c1
               else schedule key False c1))))"

definition refresh_due :: "(string \<Rightarrow> string \<Rightarrow> bool) \<Rightarrow> time \<Rightarrow> fast_entry \<Rightarrow> bool" where
  "refresh_due allowed now e \<longleftrightarrow> fe_flight e = None \<and> allowed (ft_route (fe_target e)) (ft_host (fe_target e))
     \<and> (\<not> now < fe_expires e \<or> fe_last_error e \<noteq> [] \<or> fe_refresh_soon e) \<and> \<not> now < fe_retry_at e"

fun schedule_due :: "(string \<Rightarrow> string \<Rightarrow> bool) \<Rightarrow> time \<Rightarrow> string list \<Rightarrow> fast_cache \<Rightarrow> fast_cache" where
  "schedule_due allowed now [] c = c"
| "schedule_due allowed now (k # ks) c =
     schedule_due allowed now ks
       (case map_of (fc_entries c) k of
          None \<Rightarrow> c
        | Some e \<Rightarrow> if refresh_due allowed now e then schedule k False c else c)"

fun warm_targets :: "(string \<Rightarrow> string \<Rightarrow> bool) \<Rightarrow> time \<Rightarrow> fast_target list \<Rightarrow> fast_cache \<Rightarrow> fast_cache" where
  "warm_targets allowed now [] c = c"
| "warm_targets allowed now (t # ts) c = warm_targets allowed now ts (fst (entry_locked allowed t False now c))"

definition fast_maintain :: "(string \<Rightarrow> string \<Rightarrow> bool) \<Rightarrow> fast_target list \<Rightarrow> time \<Rightarrow> fast_cache \<Rightarrow> fast_cache" where
  "fast_maintain allowed targets now c =
     (if fc_closed c then c
      else (let c1 = warm_targets allowed now (take fast_capacity targets) c in
        schedule_due allowed now (map fst (fc_entries c1)) c1))"

section \<open>Workers\<close>

text \<open>The next flight: one that a request waits for before the others, and the oldest among equals.\<close>

definition before_flight :: "fast_flight \<Rightarrow> fast_flight \<Rightarrow> bool" where
  "before_flight a b \<longleftrightarrow> ff_foreground a \<and> \<not> ff_foreground b \<or> ff_foreground a = ff_foreground b \<and> ff_sequence a < ff_sequence b"

fun next_flight :: "fast_cache \<Rightarrow> (string \<times> fast_entry) list \<Rightarrow> (fast_entry \<times> nat) option \<Rightarrow> (fast_entry \<times> nat) option" where
  "next_flight c [] best = best"
| "next_flight c ((k, e) # es) best =
     next_flight c es
       (case fe_flight e of
          None \<Rightarrow> best
        | Some f \<Rightarrow>
            (if ff_running (fc_flights c ! f) then best
             else (case best of
                 None \<Rightarrow> Some (e, f)
               | Some (e', f') \<Rightarrow> if before_flight (fc_flights c ! f) (fc_flights c ! f') then Some (e, f) else best)))"

definition worker_look :: "(string \<Rightarrow> string \<Rightarrow> bool) \<Rightarrow> fast_cache \<Rightarrow> fast_cache" where
  "worker_look allowed c =
     (if fc_closed c then c\<lparr>fc_looking := fc_looking c - 1\<rparr>
      else (case next_flight c (fc_entries c) None of
          None \<Rightarrow> c\<lparr>fc_looking := fc_looking c - 1, fc_idle := fc_idle c + 1\<rparr>
        | Some (e, f) \<Rightarrow>
            (set_flight f (\<lambda>x. x\<lparr>ff_running := True,
               ff_cancelled := \<not> allowed (ft_route (fe_target e)) (ft_host (fe_target e))\<rparr>) c)
              \<lparr>fc_looking := fc_looking c - 1, fc_busy := (fe_id e, fe_target e, f) # fc_busy c\<rparr>))"

definition worker_wake :: "fast_cache \<Rightarrow> fast_cache" where
  "worker_wake c = c\<lparr>fc_wake := fc_wake c - 1, fc_idle := fc_idle c - 1, fc_looking := fc_looking c + 1\<rparr>"

fun fast_ips_loop :: "string list \<Rightarrow> string list \<Rightarrow> string list" where
  "fast_ips_loop [] result = result"
| "fast_ips_loop (text # ips) result =
     (case parse_ip text of
        None \<Rightarrow> fast_ips_loop ips result
      | Some ip \<Rightarrow>
          (if is_unspecified ip \<or> is_multicast ip \<or> ip_string ip \<in> set result then fast_ips_loop ips result
           else if length result + 1 = 16 then result @ [ip_string ip]
           else fast_ips_loop ips (result @ [ip_string ip])))"

definition valid_fast_ips :: "string list \<Rightarrow> string list" where
  "valid_fast_ips ips = fast_ips_loop ips []"

text \<open>The text of the error when the answer holds no address: a colon, and \<open>net IP-adresov\<close> in Cyrillic.\<close>

definition no_addresses_text :: string where
  "no_addresses_text = '': '' @ map char_of [0xD0, 0xBD, 0xD0, 0xB5, 0xD1, 0x82 :: nat] @ '' IP-''
     @ map char_of [0xD0, 0xB0, 0xD0, 0xB4, 0xD1, 0x80, 0xD0, 0xB5, 0xD1, 0x81, 0xD0, 0xBE, 0xD0, 0xB2 :: nat]"

definition fast_outcome :: "string option \<Rightarrow> string \<Rightarrow> string + string list \<Rightarrow> string + string list" where
  "fast_outcome expired host result =
     (case result of
        Inl e \<Rightarrow> Inl e
      | Inr ips \<Rightarrow>
          (case expired of
             Some e \<Rightarrow> Inl e
           | None \<Rightarrow> if valid_fast_ips ips = [] then Inl (''fast-dns bootstrap '' @ host @ no_addresses_text) else Inr (valid_fast_ips ips)))"

function drop_broken :: "string \<Rightarrow> string" where
  "drop_broken s = (if valid_utf8 s then s else drop_broken (butlast s))"
  by pat_completeness auto
termination
  by (relation "measure length") (auto simp: less_Suc_eq_le length_butlast intro!: diff_less)

declare drop_broken.simps [simp del]

definition clip_error :: "string \<Rightarrow> string" where
  "clip_error s = (if length s > 512 then drop_broken (take 512 s) else s)"

definition refreshed_entry :: "time \<Rightarrow> string + string list \<Rightarrow> fast_entry \<Rightarrow> fast_entry" where
  "refreshed_entry now outcome e =
     (case outcome of
        Inl err \<Rightarrow> e\<lparr>fe_flight := None, fe_retry_at := now + fast_retry_interval, fe_last_error := clip_error err\<rparr>
      | Inr ips \<Rightarrow> e\<lparr>fe_flight := None, fe_ips := ips, fe_refreshed := now, fe_expires := now + fast_refresh_interval,
          fe_stale_until := now + fast_refresh_interval + fast_stale_interval, fe_retry_at := now + fast_retry_interval,
          fe_last_error := [], fe_refresh_soon := False\<rparr>)"

text \<open>The end of a lookup. Its entry may have been removed, or replaced by a new one, meanwhile.\<close>

definition worker_done :: "time \<Rightarrow> string option \<Rightarrow> string + string list \<Rightarrow> nat \<times> fast_target \<times> nat \<Rightarrow> fast_cache \<Rightarrow> fast_cache" where
  "worker_done now expired result w c =
     (case w of (i, t, f) \<Rightarrow>
        (let c1 = c\<lparr>fc_busy := remove1 w (fc_busy c)\<rparr>; key = fast_key (ft_route t) (ft_host t) in
         case fast_outcome expired (ft_host t) result of outcome \<Rightarrow>
         if map_option fe_id (map_of (fc_entries c) key) \<noteq> Some i
         then (end_flight f [] (Some FastDisabled) c1)\<lparr>fc_looking := fc_looking c + 1\<rparr>
         else if fc_closed c then end_flight f [] (Some FastClosed) c1
         else (end_flight f (case outcome of Inl _ \<Rightarrow> [] | Inr ips \<Rightarrow> ips)
                 (case outcome of Inl e \<Rightarrow> Some (FastFailed e) | Inr _ \<Rightarrow> None)
                 (change_entry key (refreshed_entry now outcome) c1))\<lparr>fc_looking := fc_looking c + 1\<rparr>))"

text \<open>\<open>pruneDisallowed\<close>: the entries whose last provider was disabled.\<close>

fun prune_entries :: "(string \<Rightarrow> string \<Rightarrow> bool) \<Rightarrow> (string \<times> fast_entry) list \<Rightarrow> fast_cache \<Rightarrow> fast_cache" where
  "prune_entries allowed [] c = c"
| "prune_entries allowed ((k, e) # es) c =
     prune_entries allowed es
       (if allowed (ft_route (fe_target e)) (ft_host (fe_target e)) then c
        else drop_entry k (case fe_flight e of
            None \<Rightarrow> c
          | Some f \<Rightarrow> if ff_running (fc_flights c ! f) then set_flight f (\<lambda>x. x\<lparr>ff_cancelled := True\<rparr>) c
              else end_flight f [] (Some FastDisabled) c))"

definition prune_disallowed :: "(string \<Rightarrow> string \<Rightarrow> bool) \<Rightarrow> fast_cache \<Rightarrow> fast_cache" where
  "prune_disallowed allowed c = prune_entries allowed (fc_entries c) c"

section \<open>The status shown to the user\<close>

record fast_status =
  fs_entries :: nat
  fs_ready :: nat
  fs_refreshing :: nat
  fs_last_refresh :: "time option"
  fs_next_refresh :: "time option"
  fs_last_error :: string

definition refresh_at :: "time \<Rightarrow> fast_entry \<Rightarrow> time" where
  "refresh_at now e = (if fe_last_error e \<noteq> [] \<or> fe_refresh_soon e
       \<or> \<not> now < fe_expires e \<and> fe_expires e < fe_retry_at e then fe_retry_at e else fe_expires e)"

fun error_shown :: "fast_entry list \<Rightarrow> string \<times> time \<Rightarrow> string \<times> time" where
  "error_shown [] acc = acc"
| "error_shown (e # es) (err, at) =
     error_shown es (if fe_last_error e \<noteq> [] \<and> at < fe_retry_at e then (fe_last_error e, fe_retry_at e) else (err, at))"

fun next_shown :: "time \<Rightarrow> fast_entry list \<Rightarrow> time \<Rightarrow> time" where
  "next_shown now [] nxt = nxt"
| "next_shown now (e # es) nxt =
     next_shown now es
       (let at = refresh_at now e in if at \<noteq> zero_time \<and> (nxt = zero_time \<or> at < nxt) then at else nxt)"

definition shown_time :: "time \<Rightarrow> time option" where
  "shown_time t = (if t = zero_time then None else Some t)"

definition fast_snapshot :: "time \<Rightarrow> fast_cache \<Rightarrow> fast_status" where
  "fast_snapshot now c =
     (let es = map snd (fc_entries c) in
      \<lparr>fs_entries = length es,
       fs_ready = length (filter (\<lambda>e. fe_ips e \<noteq> [] \<and> now < fe_stale_until e) es),
       fs_refreshing = length (filter (\<lambda>e. fe_flight e \<noteq> None) es),
       fs_last_refresh = shown_time (fold (\<lambda>e latest. max latest (fe_refreshed e)) es zero_time),
       fs_next_refresh = shown_time (next_shown now es zero_time),
       fs_last_error = fst (error_shown es ([], zero_time))\<rparr>)"

section \<open>Runs\<close>

text \<open>The hosts are those of configured providers: normalised names, without a trailing dot.\<close>

definition plain_host :: "string \<Rightarrow> bool" where
  "plain_host host \<longleftrightarrow> fast_host (fast_host host) = fast_host host"

inductive fast_run :: "fast_cache \<Rightarrow> bool" where
  starts: "fast_run new_fast_cache"
| looks_up: "fast_run c \<Longrightarrow> plain_host host \<Longrightarrow> fast_run (fst (fast_lookup allowed caller_done now route host c))"
| hints: "fast_run c \<Longrightarrow> fast_run (refresh_soon allowed now route host c)"
| maintains: "fast_run c \<Longrightarrow> \<forall>t \<in> set targets. plain_host (ft_host t) \<Longrightarrow> fast_run (fast_maintain allowed targets now c)"
| looks: "fast_run c \<Longrightarrow> 0 < fc_looking c \<Longrightarrow> fast_run (worker_look allowed c)"
| wakes: "fast_run c \<Longrightarrow> 0 < fc_idle c \<Longrightarrow> 0 < fc_wake c \<Longrightarrow> fast_run (worker_wake c)"
| ends: "fast_run c \<Longrightarrow> w \<in> set (fc_busy c) \<Longrightarrow> fast_run (worker_done now expired result w c)"
| prunes: "fast_run c \<Longrightarrow> fast_run (prune_disallowed allowed c)"
| closes: "fast_run c \<Longrightarrow> fast_run (c\<lparr>fc_closed := True\<rparr>)"

section \<open>The invariant\<close>

text \<open>What the invariant depends on: of an entry its address, target and flight; of a flight whether it ended and runs.\<close>

type_synonym entry_view = "string \<times> nat \<times> fast_target \<times> nat option"

definition entries_view :: "fast_cache \<Rightarrow> entry_view list" where
  "entries_view c = map (\<lambda>(k, e). (k, fe_id e, fe_target e, fe_flight e)) (fc_entries c)"

definition flights_view :: "fast_cache \<Rightarrow> (bool \<times> bool) list" where
  "flights_view c = map (\<lambda>x. (ff_done x, ff_running x)) (fc_flights c)"

fun entry_good :: "(bool \<times> bool) list \<Rightarrow> (nat \<times> fast_target \<times> nat) list \<Rightarrow> nat \<Rightarrow> entry_view \<Rightarrow> bool" where
  "entry_good fl busy n (k, i, t, fo) \<longleftrightarrow> k = fast_key (ft_route t) (ft_host t) \<and> i < n
     \<and> (case fo of None \<Rightarrow> True
        | Some f \<Rightarrow> f < length fl \<and> \<not> fst (fl ! f) \<and> (if snd (fl ! f) then (i, t, f) \<in> set busy else True))"

fun apart :: "entry_view \<Rightarrow> entry_view \<Rightarrow> bool" where
  "apart (k, i, t, fo) (k', i', t', fo') \<longleftrightarrow> k = k' \<or> i \<noteq> i' \<and> (fo \<noteq> fo' \<or> fo = None)"

definition entries_ok :: "entry_view list \<Rightarrow> (bool \<times> bool) list \<Rightarrow> (nat \<times> fast_target \<times> nat) list \<Rightarrow> nat \<Rightarrow> bool" where
  "entries_ok es fl busy n \<longleftrightarrow> distinct (map fst es) \<and> length es \<le> fast_capacity
     \<and> (\<forall>e \<in> set es. entry_good fl busy n e) \<and> (\<forall>e \<in> set es. \<forall>e' \<in> set es. apart e e')"

definition busy_ok :: "entry_view list \<Rightarrow> (bool \<times> bool) list \<Rightarrow> (nat \<times> fast_target \<times> nat) list \<Rightarrow> nat \<Rightarrow> bool" where
  "busy_ok es fl busy n \<longleftrightarrow> distinct (map (\<lambda>(i, t, f). f) busy)
     \<and> (\<forall>(i, t, f) \<in> set busy. i < n \<and> f < length fl \<and> fl ! f = (False, True)
          \<and> (\<forall>(k, i', t', fo) \<in> set es. i' = i \<longrightarrow> t' = t \<and> fo = Some f))"

definition flights_owned :: "entry_view list \<Rightarrow> (bool \<times> bool) list \<Rightarrow> (nat \<times> fast_target \<times> nat) list \<Rightarrow> bool" where
  "flights_owned es fl busy \<longleftrightarrow> (\<forall>f < length fl. \<not> fst (fl ! f) \<longrightarrow>
     (if snd (fl ! f) then \<exists>i t. (i, t, f) \<in> set busy else \<exists>k i t. (k, i, t, Some f) \<in> set es))"

definition view_ok :: "entry_view list \<Rightarrow> (bool \<times> bool) list \<Rightarrow> (nat \<times> fast_target \<times> nat) list \<Rightarrow> nat \<Rightarrow> bool" where
  "view_ok es fl busy n \<longleftrightarrow> entries_ok es fl busy n \<and> busy_ok es fl busy n \<and> flights_owned es fl busy"

lemmas view_ok_defs = view_ok_def entries_ok_def busy_ok_def flights_owned_def

definition queued :: "(bool \<times> bool) list \<Rightarrow> nat" where
  "queued fl = count (mset fl) (False, False)"

text \<open>No wake-up is lost: tokens and looking workers suffice for the queue, or for all workers that are free.\<close>

definition wake_ok :: "fast_cache \<Rightarrow> bool" where
  "wake_ok c \<longleftrightarrow> fc_wake c \<le> fast_workers \<and> length (fc_busy c) + fc_looking c + fc_idle c = fast_workers
     \<and> min (queued (flights_view c)) (fc_idle c + fc_looking c) \<le> fc_wake c + fc_looking c"

definition fast_ok :: "fast_cache \<Rightarrow> bool" where
  "fast_ok c \<longleftrightarrow> view_ok (entries_view c) (flights_view c) (fc_busy c) (fc_created c) \<and> wake_ok c"

text \<open>The changes of the view.\<close>

lemma entry_good_cong:
  assumes "entry_good fl busy n e" "\<And>k i t f. e = (k, i, t, Some f) \<Longrightarrow> f < length fl \<Longrightarrow> f < length fl' \<and> fl' ! f = fl ! f"
    "\<And>k i t f. e = (k, i, t, Some f) \<Longrightarrow> (i, t, f) \<in> set busy \<Longrightarrow> (i, t, f) \<in> set busy'" "n \<le> n'"
  shows "entry_good fl' busy' n' e"
proof -
  obtain k i t fo where e: "e = (k, i, t, fo)" by (cases e) auto
  show ?thesis
  proof (cases fo)
    case (Some f)
    then show ?thesis using assms(1,4) assms(2,3) [of k i t f] by (auto simp: e split: if_splits)
  qed (use assms(1,4) in \<open>simp add: e\<close>)
qed

lemma view_unique: "view_ok es fl busy n \<Longrightarrow> (k, a) \<in> set es \<Longrightarrow> (k, b) \<in> set es \<Longrightarrow> a = b"
  by (auto simp: view_ok_defs intro: eq_key_imp_eq_value)

lemma view_good: "view_ok es fl busy n \<Longrightarrow> e \<in> set es \<Longrightarrow> entry_good fl busy n e"
  by (simp add: view_ok_def entries_ok_def)

lemma view_owner:
  assumes "view_ok es fl busy n" "(k, i, t, Some f) \<in> set es" "(k', i', t', Some f) \<in> set es"
  shows "k' = k \<and> i' = i \<and> t' = t"
proof -
  have "apart (k, i, t, Some f) (k', i', t', Some f)" using assms unfolding view_ok_def entries_ok_def by blast
  then have "k' = k" by simp
  then show ?thesis using view_unique [OF assms(1)] assms(2,3) by blast
qed

lemma view_flight:
  assumes "view_ok es fl busy n" "(k, i, t, Some f) \<in> set es"
  shows "f < length fl" "\<not> fst (fl ! f)" "snd (fl ! f) \<Longrightarrow> (i, t, f) \<in> set busy"
  using view_good [OF assms] by auto

lemma view_busy:
  assumes "view_ok es fl busy n" "(i, t, f) \<in> set busy"
  shows "i < n" "f < length fl" "fl ! f = (False, True)" "(k, i, t', fo) \<in> set es \<Longrightarrow> t' = t \<and> fo = Some f"
    "(i', t', f) \<in> set busy \<Longrightarrow> (i', t') = (i, t)"
proof -
  show "i < n" "f < length fl" "fl ! f = (False, True)" "(k, i, t', fo) \<in> set es \<Longrightarrow> t' = t \<and> fo = Some f"
    using assms by (auto simp: view_ok_def busy_ok_def)
  have "inj_on (\<lambda>(i, t, f). f) (set busy)" using assms(1) by (simp add: view_ok_def busy_ok_def distinct_map)
  then show "(i', t', f) \<in> set busy \<Longrightarrow> (i', t') = (i, t)" using assms(2) inj_onD [of "\<lambda>(i, t, f). f" "set busy" "(i', t', f)" "(i, t, f)"] by simp
qed

lemma busy_okI:
  assumes "distinct (map (\<lambda>(i, t, f). f) busy)" "\<And>i t f. (i, t, f) \<in> set busy \<Longrightarrow> i < n \<and> f < length fl \<and> fl ! f = (False, True)"
    "\<And>i t f k t' fo. (i, t, f) \<in> set busy \<Longrightarrow> (k, i, t', fo) \<in> set es \<Longrightarrow> t' = t \<and> fo = Some f"
  shows "busy_ok es fl busy n"
  using assms unfolding busy_ok_def by blast

lemma view_busy_distinct: "view_ok es fl busy n \<Longrightarrow> distinct (map (\<lambda>(i, t, f). f) busy)"
  by (simp add: view_ok_def busy_ok_def)

lemma view_owned:
  assumes "view_ok es fl busy n" "f < length fl" "\<not> fst (fl ! f)"
  shows "if snd (fl ! f) then \<exists>i t. (i, t, f) \<in> set busy else \<exists>k i t. (k, i, t, Some f) \<in> set es"
  using assms by (simp add: view_ok_def flights_owned_def)

lemma view_idle:
  assumes "view_ok es fl busy n" "\<not> snd (fl ! f)" "f < length fl"
  shows "(i, t, f) \<notin> set busy"
  using view_busy(3) [OF assms(1)] assms(2) by fastforce

lemma entries_filter:
  assumes "entries_ok es fl busy n" "\<And>e. e \<in> set (filter P es) \<Longrightarrow> entry_good fl' busy' n e"
  shows "entries_ok (filter P es) fl' busy' n"
  using assms le_trans [OF length_filter_le, of es fast_capacity P]
  by (auto simp: entries_ok_def distinct_map_filter)

lemma view_add:
  assumes "view_ok es fl busy n" "k \<notin> fst ` set es" "length es < fast_capacity" "k = fast_key (ft_route t) (ft_host t)"
  shows "view_ok (es @ [(k, n, t, None)]) fl busy (n + 1)"
proof -
  have g: "entry_good fl busy (n + 1) e" if "e \<in> set es" for e
    by (rule entry_good_cong [OF view_good [OF assms(1) that]]) auto
  have "apart (k, n, t, None) e \<and> apart e (k, n, t, None)" if "e \<in> set es" for e
    using view_good [OF assms(1) that] by (cases e) auto
  moreover have "apart (k, n, t, None) (k, n, t, None)" by simp
  ultimately have "entries_ok (es @ [(k, n, t, None)]) fl busy (n + 1)"
    using assms g by (auto simp: view_ok_def entries_ok_def)
  moreover have "busy_ok (es @ [(k, n, t, None)]) fl busy (n + 1)"
    using assms(1) by (auto simp: view_ok_def busy_ok_def)
  moreover have "flights_owned (es @ [(k, n, t, None)]) fl busy"
    using assms(1) by (auto simp: view_ok_def flights_owned_def split: if_splits)
  ultimately show ?thesis by (simp add: view_ok_def)
qed

text \<open>Dropping an entry whose flight waits in the queue ends the flight; a running flight ends by itself.\<close>

lemma view_drop_flight:
  assumes "view_ok es fl busy n" "(k, i, t, Some f) \<in> set es" "\<not> snd (fl ! f)"
  shows "view_ok (filter (\<lambda>e. fst e \<noteq> k) es) (fl[f := (True, False)]) busy n"
proof -
  let ?es = "filter (\<lambda>e. fst e \<noteq> k) es" and ?fl = "fl[f := (True, False)]"
  have other: "f' \<noteq> f" if "(k', i', t', Some f') \<in> set ?es" for k' i' t' f'
    using view_owner [OF assms(1,2), of k' i' t'] that by auto
  have "entries_ok ?es ?fl busy n"
  proof (rule entries_filter [of es fl busy n])
    show "entries_ok es fl busy n" using assms(1) by (simp add: view_ok_def)
    show "entry_good ?fl busy n e" if e: "e \<in> set ?es" for e
      by (rule entry_good_cong [OF view_good [OF assms(1)], of e]) (use e other in \<open>fastforce+\<close>)
  qed
  moreover have "busy_ok ?es ?fl busy n"
    using view_busy_distinct [OF assms(1)]
  proof (rule busy_okI)
    fix i' t' f' assume b: "(i', t', f') \<in> set busy"
    then have "f' \<noteq> f" using view_idle [OF assms(1,3) view_flight(1) [OF assms(1,2)]] by blast
    then show "i' < n \<and> f' < length ?fl \<and> ?fl ! f' = (False, True)" using view_busy(1,2,3) [OF assms(1) b] by simp
  qed (use view_busy(4) [OF assms(1)] in auto)
  moreover have "flights_owned ?es ?fl busy"
    unfolding flights_owned_def
  proof (intro allI impI)
    fix g assume g: "g < length ?fl" "\<not> fst (?fl ! g)"
    then have n: "g \<noteq> f" by auto
    have gl: "g < length fl" "\<not> fst (fl ! g)" using g n by simp_all
    have "k' \<noteq> k" if "(k', i', t', Some g) \<in> set es" for k' i' t' using view_unique [OF assms(1,2)] that n by blast
    then show "if snd (?fl ! g) then \<exists>i t. (i, t, g) \<in> set busy else \<exists>k i t. (k, i, t, Some g) \<in> set ?es"
      using view_owned [OF assms(1) gl] n by (simp split: if_splits) blast
  qed
  ultimately show ?thesis by (simp add: view_ok_def)
qed

lemma view_drop_running:
  assumes "view_ok es fl busy n" "(k, i, t, fo) \<in> set es" "case fo of None \<Rightarrow> True | Some f \<Rightarrow> snd (fl ! f)"
  shows "view_ok (filter (\<lambda>e. fst e \<noteq> k) es) fl busy n"
proof -
  let ?es = "filter (\<lambda>e. fst e \<noteq> k) es"
  have "entries_ok ?es fl busy n"
    by (rule entries_filter [of es fl busy n]) (use assms(1) in \<open>auto simp: view_ok_def entries_ok_def\<close>)
  moreover have "busy_ok ?es fl busy n" using assms(1) by (auto simp: view_ok_def busy_ok_def)
  moreover have "flights_owned ?es fl busy"
    unfolding flights_owned_def
  proof (intro allI impI)
    fix g assume g: "g < length fl" "\<not> fst (fl ! g)"
    have "k' \<noteq> k" if "(k', i', t', Some g) \<in> set es" "\<not> snd (fl ! g)" for k' i' t'
      using view_unique [OF assms(1,2)] assms(3) that by (auto split: option.splits)
    then show "if snd (fl ! g) then \<exists>i t. (i, t, g) \<in> set busy else \<exists>k i t. (k, i, t, Some g) \<in> set ?es"
      using view_owned [OF assms(1) g] by (simp split: if_splits) blast
  qed
  ultimately show ?thesis by (simp add: view_ok_def)
qed

definition with_flight :: "string \<Rightarrow> nat option \<Rightarrow> entry_view list \<Rightarrow> entry_view list" where
  "with_flight k fo es = map (\<lambda>(k', i, t, fo'). (k', i, t, if k' = k then fo else fo')) es"

lemma with_flight_simps [simp]: "length (with_flight k fo es) = length es" "map fst (with_flight k fo es) = map fst es"
  by (auto simp: with_flight_def)

lemma with_flight_set:
  "(k', i, t, fo') \<in> set (with_flight k fo es) \<longleftrightarrow> (if k' = k then fo' = fo \<and> (\<exists>fo''. (k, i, t, fo'') \<in> set es) else (k', i, t, fo') \<in> set es)"
  by (force simp: with_flight_def)

lemma view_with_flight:
  assumes "view_ok es fl busy n" "\<And>e. e \<in> set (with_flight k fo es) \<Longrightarrow> entry_good fl' busy' n e"
    "\<And>k' i t f. fo = Some f \<Longrightarrow> (k', i, t, Some f) \<notin> set es"
  shows "entries_ok (with_flight k fo es) fl' busy' n"
proof -
  have "apart e e'" if m1: "e \<in> set (with_flight k fo es)" and m2: "e' \<in> set (with_flight k fo es)" for e e'
  proof -
    obtain k1 i1 t1 f1 where e: "e = (k1, i1, t1, f1)" by (cases e) auto
    obtain k2 i2 t2 f2 where e': "e' = (k2, i2, t2, f2)" by (cases e') auto
    obtain g1 where 1: "(k1, i1, t1, g1) \<in> set es" "f1 = (if k1 = k then fo else g1)"
      using m1 by (auto simp: e with_flight_set split: if_splits)
    obtain g2 where 2: "(k2, i2, t2, g2) \<in> set es" "f2 = (if k2 = k then fo else g2)"
      using m2 by (auto simp: e' with_flight_set split: if_splits)
    have "apart (k1, i1, t1, g1) (k2, i2, t2, g2)" using assms(1) 1(1) 2(1) unfolding view_ok_def entries_ok_def by blast
    moreover have "fo \<noteq> g1 \<or> fo = None" "fo \<noteq> g2 \<or> fo = None" using assms(3) 1(1) 2(1) by (cases fo; auto)+
    ultimately show ?thesis by (auto simp: e e' 1(2) 2(2))
  qed
  then show ?thesis using assms(1,2) by (auto simp: view_ok_def entries_ok_def)
qed

lemma view_schedule:
  assumes "view_ok es fl busy n" "(k, i, t, None) \<in> set es"
  shows "view_ok (with_flight k (Some (length fl)) es) (fl @ [(False, False)]) busy n"
proof -
  let ?es = "with_flight k (Some (length fl)) es" and ?fl = "fl @ [(False, False)]"
  have uniq: "i' = i \<and> t' = t" if "(k, i', t', fo) \<in> set es" for i' t' fo using view_unique [OF assms(1)] that assms(2) by blast
  have "entries_ok ?es ?fl busy n"
  proof (rule view_with_flight [OF assms(1)])
    fix e assume e: "e \<in> set ?es"
    obtain k' i' t' fo where e': "e = (k', i', t', fo)" by (cases e) auto
    show "entry_good ?fl busy n e"
    proof (cases "k' = k")
      case True
      then show ?thesis using e view_good [OF assms] uniq by (auto simp: e' with_flight_set)
    next
      case False
      then have "e \<in> set es" using e by (simp add: e' with_flight_set)
      from view_good [OF assms(1) this] show ?thesis by (rule entry_good_cong) (auto simp: nth_append)
    qed
  next
    fix k' i t f
    assume "Some (length fl) = Some f"
    then show "(k', i, t, Some f) \<notin> set es" using view_flight(1) [OF assms(1)] by auto
  qed
  moreover have "busy_ok ?es ?fl busy n"
    using view_busy_distinct [OF assms(1)]
  proof (rule busy_okI)
    fix i' t' f' assume b: "(i', t', f') \<in> set busy"
    show "i' < n \<and> f' < length ?fl \<and> ?fl ! f' = (False, True)" using view_busy(1,2,3) [OF assms(1) b] by (simp add: nth_append)
    fix k' t'' fo assume m: "(k', i', t'', fo) \<in> set ?es"
    have "i' \<noteq> i" using view_busy(4) [OF assms(1) b] assms(2) by blast
    then have "(k', i', t'', fo) \<in> set es" using m uniq by (auto simp: with_flight_set split: if_splits)
    then show "t'' = t' \<and> fo = Some f'" using view_busy(4) [OF assms(1) b] by blast
  qed
  moreover have "flights_owned ?es ?fl busy"
    unfolding flights_owned_def
  proof (intro allI impI)
    fix g assume g: "g < length ?fl" "\<not> fst (?fl ! g)"
    show "if snd (?fl ! g) then \<exists>i t. (i, t, g) \<in> set busy else \<exists>k i t. (k, i, t, Some g) \<in> set ?es"
    proof (cases "g < length fl")
      case True
      have "k' \<noteq> k" if "(k', i', t', Some g) \<in> set es" for k' i' t' using view_unique [OF assms(1)] assms(2) that by blast
      then show ?thesis using True g view_owned [OF assms(1) True] by (simp add: nth_append with_flight_set split: if_splits) blast
    next
      case False
      then show ?thesis using g assms(2) by (auto simp: with_flight_set nth_append less_Suc_eq)
    qed
  qed
  ultimately show ?thesis by (simp add: view_ok_def)
qed

lemma view_take:
  assumes "view_ok es fl busy n" "(k, i, t, Some f) \<in> set es" "\<not> snd (fl ! f)"
  shows "view_ok es (fl[f := (False, True)]) ((i, t, f) # busy) n"
proof -
  let ?fl = "fl[f := (False, True)]" and ?busy = "(i, t, f) # busy"
  note f = view_flight(1,2) [OF assms(1,2)]
  have "entry_good ?fl ?busy n e" if "e \<in> set es" for e
  proof -
    obtain k' i' t' fo where e: "e = (k', i', t', fo)" by (cases e) auto
    show ?thesis
    proof (cases "fo = Some f")
      case True
      then have "k' = k \<and> i' = i \<and> t' = t" using view_owner [OF assms(1,2)] that e by blast
      then show ?thesis using view_good [OF assms(1,2)] f True by (simp add: e)
    next
      case False
      show ?thesis by (rule entry_good_cong [OF view_good [OF assms(1) that]]) (use False e in auto)
    qed
  qed
  then have "entries_ok es ?fl ?busy n" using assms(1) by (simp add: view_ok_def entries_ok_def)
  moreover have "busy_ok es ?fl ?busy n"
  proof -
    have idle: "(i', t', f) \<notin> set busy" for i' t' by (rule view_idle [OF assms(1,3) f(1)])
    have "t' = t \<and> fo = Some f" if "(k', i, t', fo) \<in> set es" for k' t' fo
    proof -
      have "apart (k', i, t', fo) (k, i, t, Some f)" using assms(1,2) that unfolding view_ok_def entries_ok_def by blast
      then have "k' = k" by simp
      then show ?thesis using view_unique [OF assms(1,2)] that by blast
    qed
    moreover have "i < n" using view_good [OF assms(1,2)] by simp
    moreover have "f' \<noteq> f" if "(i', t', f') \<in> set busy" for i' t' f' using that idle by blast
    moreover have "distinct (map (\<lambda>(i, t, f). f) ?busy)" using view_busy_distinct [OF assms(1)] idle by auto
    ultimately show ?thesis using view_busy(1-4) [OF assms(1)] f
      by (intro busy_okI) (auto simp: nth_list_update)
  qed
  moreover have "flights_owned es ?fl ?busy"
    unfolding flights_owned_def
  proof (intro allI impI)
    fix g assume g: "g < length ?fl" "\<not> fst (?fl ! g)"
    show "if snd (?fl ! g) then \<exists>i t. (i, t, g) \<in> set ?busy else \<exists>k i t. (k, i, t, Some g) \<in> set es"
      using g f view_owned [OF assms(1), of g] by (cases "g = f") (auto split: if_splits)
  qed
  ultimately show ?thesis by (simp add: view_ok_def)
qed

text \<open>The end of a running flight: its entry, if it is still there, is free again.\<close>

lemma view_finish:
  assumes "view_ok es fl busy n" "(i, t, f) \<in> set busy"
    "\<And>k' i' t'. (k', i', t', Some f) \<in> set es \<Longrightarrow> k' = k"
    "\<And>i' t' fo. (k, i', t', fo) \<in> set es \<Longrightarrow> fo = Some f"
  shows "view_ok (with_flight k None es) (fl[f := (True, True)]) (remove1 (i, t, f) busy) n"
proof -
  let ?es = "with_flight k None es" and ?fl = "fl[f := (True, True)]" and ?busy = "remove1 (i, t, f) busy"
  have dist: "distinct busy" using view_busy_distinct [OF assms(1)] by (rule distinct_map [THEN iffD1, THEN conjunct1])
  have dm: "distinct (map (\<lambda>(i, t, f). f) ?busy)"
  proof -
    have "inj_on (\<lambda>(i, t, f). f) (set busy)" using assms(1) by (simp add: view_ok_def busy_ok_def distinct_map)
    then show ?thesis using dist by (auto simp: distinct_map intro: inj_on_subset)
  qed
  have other: "f' \<noteq> f \<and> (i', t', f') \<in> set busy" if "(i', t', f') \<in> set ?busy" for i' t' f'
    using that dist view_busy(5) [OF assms(1,2), of i' t'] by auto
  have keep: "(i', t', f') \<in> set ?busy" if "(i', t', f') \<in> set busy" "f' \<noteq> f" for i' t' f' using that dist by simp
  have "entries_ok ?es ?fl ?busy n"
  proof (rule view_with_flight [OF assms(1)])
    fix e assume e: "e \<in> set ?es"
    obtain k' i' t' fo where e': "e = (k', i', t', fo)" by (cases e) auto
    show "entry_good ?fl ?busy n e"
    proof (cases "k' = k")
      case True
      then obtain fo' where "(k, i', t', fo') \<in> set es" "fo = None" using e by (auto simp: e' with_flight_set)
      then show ?thesis using view_good [OF assms(1)] True by (fastforce simp: e')
    next
      case False
      then have m: "(k', i', t', fo) \<in> set es" using e by (simp add: e' with_flight_set)
      then have "fo \<noteq> Some f" using assms(3) False by blast
      then show ?thesis unfolding e'
        by (intro entry_good_cong [OF view_good [OF assms(1) m]]) (auto simp: nth_list_update keep)
    qed
  qed simp
  moreover have "busy_ok ?es ?fl ?busy n"
  proof -
    have "i' < n \<and> f' < length ?fl \<and> ?fl ! f' = (False, True) \<and> (\<forall>(k', i'', t'', fo) \<in> set ?es. i'' = i' \<longrightarrow> t'' = t' \<and> fo = Some f')"
      if b: "(i', t', f') \<in> set ?busy" for i' t' f'
    proof -
      note o = other [OF b]
      have m: "t'' = t' \<and> fo = Some f'" if "(k', i', t'', fo) \<in> set es" for k' t'' fo
        using view_busy(4) [OF assms(1)] o that by blast
      have "(k, i', t'', fo) \<notin> set es" for t'' fo using m [of k t'' fo] assms(4) [of i' t'' fo] o by auto
      then have "t'' = t' \<and> fo = Some f'" if "(k', i', t'', fo) \<in> set ?es" for k' t'' fo
        using that m by (auto simp: with_flight_set split: if_splits)
      then show ?thesis using o view_busy(1,2,3) [OF assms(1)] by (auto simp: nth_list_update)
    qed
    then show ?thesis by (intro busy_okI [OF dm]) blast+
  qed
  moreover have "flights_owned ?es ?fl ?busy"
    unfolding flights_owned_def
  proof (intro allI impI)
    fix g assume g: "g < length ?fl" "\<not> fst (?fl ! g)"
    then have n: "g \<noteq> f" by auto
    have gl: "g < length fl" "\<not> fst (fl ! g)" using g n by simp_all
    have "k' \<noteq> k" if "(k', i', t', Some g) \<in> set es" for k' i' t' using assms(4) that n by blast
    then show "if snd (?fl ! g) then \<exists>i t. (i, t, g) \<in> set ?busy else \<exists>k i t. (k, i, t, Some g) \<in> set ?es"
      using view_owned [OF assms(1) gl] n keep by (simp add: with_flight_set split: if_splits) blast+
  qed
  ultimately show ?thesis by (simp add: view_ok_def)
qed

section \<open>The operations and the invariant\<close>

lemma view_simps [simp]:
  "entries_view (set_flight f g c) = entries_view c" "flights_view (change_entry k h c) = flights_view c"
  "fc_busy (set_flight f g c) = fc_busy c" "fc_busy (change_entry k h c) = fc_busy c"
  "fc_created (set_flight f g c) = fc_created c" "fc_created (change_entry k h c) = fc_created c"
  "fc_wake (set_flight f g c) = fc_wake c" "fc_wake (change_entry k h c) = fc_wake c"
  "fc_looking (set_flight f g c) = fc_looking c" "fc_looking (change_entry k h c) = fc_looking c"
  "fc_idle (set_flight f g c) = fc_idle c" "fc_idle (change_entry k h c) = fc_idle c"
  "fc_closed (set_flight f g c) = fc_closed c" "fc_closed (change_entry k h c) = fc_closed c"
  "fc_entries (set_flight f g c) = fc_entries c" "fc_flights (change_entry k h c) = fc_flights c"
  "length (fc_flights (set_flight f g c)) = length (fc_flights c)"
  "fc_sequence (set_flight f g c) = fc_sequence c" "fc_sequence (change_entry k h c) = fc_sequence c"
  by (simp_all add: set_flight_def change_entry_def entries_view_def flights_view_def)

lemma drop_simps [simp]:
  "flights_view (drop_entry k c) = flights_view c" "fc_busy (drop_entry k c) = fc_busy c" "fc_created (drop_entry k c) = fc_created c"
  "fc_wake (drop_entry k c) = fc_wake c" "fc_looking (drop_entry k c) = fc_looking c" "fc_idle (drop_entry k c) = fc_idle c"
  "fc_closed (drop_entry k c) = fc_closed c" "fc_flights (drop_entry k c) = fc_flights c"
  "entries_view (drop_entry k c) = filter (\<lambda>e. fst e \<noteq> k) (entries_view c)"
  by (simp_all add: drop_entry_def entries_view_def flights_view_def AList.delete_eq filter_map comp_def split_def eq_commute)

lemma map_entry_as_map: "AList.map_entry k g es = map (\<lambda>(k', e). (k', if k' = k then g e else e)) es" if "distinct (map fst es)"
  using that
proof (induction es)
  case (Cons x es)
  have "map (\<lambda>(k', e). (k', if k' = k then g e else e)) es = es" if "\<forall>x \<in> set es. k \<noteq> fst x"
    by (rule map_idI) (use that in auto)
  then show ?case using Cons by (cases x) (auto simp: image_iff)
qed simp

lemma entries_view_keys: "map fst (entries_view c) = map fst (fc_entries c)"
  by (simp add: entries_view_def comp_def split_def)

lemma fast_ok_view: "fast_ok c \<Longrightarrow> view_ok (entries_view c) (flights_view c) (fc_busy c) (fc_created c)"
  by (simp add: fast_ok_def)

lemma fast_ok_distinct: "fast_ok c \<Longrightarrow> distinct (map fst (fc_entries c))"
  unfolding entries_view_keys [symmetric] by (simp add: fast_ok_def view_ok_def entries_ok_def)

lemma change_entry_view:
  assumes "distinct (map fst (fc_entries c))" "\<And>e. fe_id (h e) = fe_id e \<and> fe_target (h e) = fe_target e \<and> fe_flight (h e) = fe_flight e"
  shows "entries_view (change_entry k h c) = entries_view c"
  using assms by (auto simp: entries_view_def change_entry_def map_entry_as_map)

lemma change_flight_view:
  assumes "distinct (map fst (fc_entries c))" "\<And>e. fe_id (h e) = fe_id e \<and> fe_target (h e) = fe_target e \<and> fe_flight (h e) = fo"
  shows "entries_view (change_entry k h c) = with_flight k fo (entries_view c)"
  using assms by (auto simp: entries_view_def change_entry_def map_entry_as_map with_flight_def)

lemma set_flight_view:
  "flights_view (set_flight f g c) = (flights_view c)[f := (ff_done (g (fc_flights c ! f)), ff_running (g (fc_flights c ! f)))]"
  by (simp add: flights_view_def set_flight_def map_update)

lemma flights_view_nth: "f < length (fc_flights c) \<Longrightarrow> flights_view c ! f = (ff_done (fc_flights c ! f), ff_running (fc_flights c ! f))"
  by (simp add: flights_view_def)

lemma length_flights_view [simp]: "length (flights_view c) = length (fc_flights c)"
  by (simp add: flights_view_def)

lemma entry_in_view: "map_of (fc_entries c) k = Some e \<Longrightarrow> (k, fe_id e, fe_target e, fe_flight e) \<in> set (entries_view c)"
  by (force simp: entries_view_def dest: map_of_SomeD)

lemma entry_set_view: "(k, e) \<in> set (fc_entries c) \<Longrightarrow> (k, fe_id e, fe_target e, fe_flight e) \<in> set (entries_view c)"
  by (force simp: entries_view_def)

lemma queued_update:
  assumes "f < length fl"
  shows "queued (fl[f := x]) + (if fl ! f = (False, False) then 1 else 0) = queued fl + (if x = (False, False) then 1 else 0)"
proof -
  obtain M where M: "mset fl = add_mset (fl ! f) M" using assms by (metis insert_DiffM nth_mem_mset)
  then show ?thesis using assms by (simp add: queued_def mset_update)
qed

lemma queued_append: "queued (fl @ [(False, False)]) = queued fl + 1"
  by (simp add: queued_def)

lemma wake_ok_fewer:
  assumes "wake_ok c" "queued (flights_view c') \<le> queued (flights_view c)"
    "fc_wake c' = fc_wake c" "fc_looking c' = fc_looking c" "fc_idle c' = fc_idle c" "length (fc_busy c') = length (fc_busy c)"
  shows "wake_ok c'"
  using assms by (simp add: wake_ok_def) linarith

lemma fast_ok_same:
  assumes "fast_ok c" "entries_view c' = entries_view c" "flights_view c' = flights_view c" "fc_busy c' = fc_busy c"
    "fc_created c' = fc_created c" "fc_wake c' = fc_wake c" "fc_looking c' = fc_looking c" "fc_idle c' = fc_idle c"
  shows "fast_ok c'"
  using assms by (auto simp: fast_ok_def intro: wake_ok_fewer [of c])

lemma changed_entry_ok:
  assumes "fast_ok c" "\<And>e. fe_id (h e) = fe_id e \<and> fe_target (h e) = fe_target e \<and> fe_flight (h e) = fe_flight e"
  shows "fast_ok (change_entry k h c)"
  using change_entry_view [OF fast_ok_distinct [OF assms(1)] assms(2)] by (intro fast_ok_same [OF assms(1)]) simp_all

lemma mark_flight_ok:
  assumes "fast_ok c" "f < length (fc_flights c)" "\<And>x. ff_done (g x) = ff_done x \<and> ff_running (g x) = ff_running x"
  shows "fast_ok (set_flight f g c)"
proof -
  have "flights_view (set_flight f g c) = flights_view c"
    using assms(2,3) by (simp add: set_flight_view flights_view_nth [symmetric] list_update_id)
  then show ?thesis by (intro fast_ok_same [OF assms(1)]) simp_all
qed

lemma add_entry_ok:
  assumes "fast_ok c" "map_of (fc_entries c) (fast_key (ft_route t) (ft_host t)) = None" "length (fc_entries c) < fast_capacity"
    "plain_host (ft_host t)"
  shows "fast_ok (fst (add_entry t now c))"
proof -
  let ?k = "fast_key (ft_route t) (ft_host t)" and ?t = "t\<lparr>ft_host := fast_host (ft_host t)\<rparr>"
  have new: "?k \<notin> fst ` set (fc_entries c)" using assms(2) by (simp add: map_of_eq_None_iff)
  have v: "entries_view (fst (add_entry t now c)) = entries_view c @ [(?k, fc_created c, ?t, None)]"
    using new by (simp add: add_entry_def entries_view_def update_new new_fast_entry_def Let_def)
  have "?k \<notin> fst ` set (entries_view c)"
    using new unfolding set_map [symmetric] entries_view_keys by simp
  moreover have "length (entries_view c) < fast_capacity" using assms(3) by (simp add: entries_view_def)
  moreover have "?k = fast_key (ft_route ?t) (ft_host ?t)" using assms(4) by (simp add: fast_key_def plain_host_def)
  ultimately have "view_ok (entries_view c @ [(?k, fc_created c, ?t, None)]) (flights_view c) (fc_busy c) (fc_created c + 1)"
    by (rule view_add [OF fast_ok_view [OF assms(1)]])
  then show ?thesis using assms(1) v
    by (auto simp: fast_ok_def add_entry_def Let_def flights_view_def intro: wake_ok_fewer [of c])
qed

lemma drop_free_ok:
  assumes "fast_ok c" "map_of (fc_entries c) k = Some e" "fe_flight e = None"
  shows "fast_ok (drop_entry k c)"
  using view_drop_running [OF fast_ok_view [OF assms(1)] entry_in_view [OF assms(2)]] assms
  by (auto simp: fast_ok_def intro: wake_ok_fewer [of c])

lemma entry_flight:
  assumes "fast_ok c" "(k, e) \<in> set (fc_entries c)" "fe_flight e = Some f"
  shows "f < length (fc_flights c)" "\<not> ff_done (fc_flights c ! f)"
proof -
  have "(k, fe_id e, fe_target e, Some f) \<in> set (entries_view c)" using entry_set_view [OF assms(2)] assms(3) by simp
  then show "f < length (fc_flights c)" "\<not> ff_done (fc_flights c ! f)"
    using view_flight(1,2) [OF fast_ok_view [OF assms(1)]] by (auto simp: flights_view_nth)
qed

lemma drop_queued_ok:
  assumes "fast_ok c" "map_of (fc_entries c) k = Some e" "fe_flight e = Some f" "\<not> ff_running (fc_flights c ! f)"
  shows "fast_ok (drop_entry k (end_flight f ips err c))"
proof -
  note f = entry_flight [OF assms(1) map_of_SomeD [OF assms(2)] assms(3)]
  have v: "flights_view (end_flight f ips err c) = (flights_view c)[f := (True, False)]"
    using assms(4) by (simp add: end_flight_def set_flight_view)
  have "\<not> snd (flights_view c ! f)" using f assms(4) by (simp add: flights_view_nth)
  then have "view_ok (filter (\<lambda>x. fst x \<noteq> k) (entries_view c)) ((flights_view c)[f := (True, False)]) (fc_busy c) (fc_created c)"
    using view_drop_flight [OF fast_ok_view [OF assms(1)]] entry_in_view [OF assms(2)] assms(3) by simp
  moreover have "queued ((flights_view c)[f := (True, False)]) \<le> queued (flights_view c)"
    using queued_update [of f "flights_view c" "(True, False)"] f by simp
  ultimately show ?thesis using assms(1) v
    by (auto simp: fast_ok_def end_flight_def intro: wake_ok_fewer [of c])
qed

lemma drop_running_ok:
  assumes "fast_ok c" "map_of (fc_entries c) k = Some e" "fe_flight e = Some f" "ff_running (fc_flights c ! f)"
  shows "fast_ok (drop_entry k (set_flight f (\<lambda>x. x\<lparr>ff_cancelled := True\<rparr>) c))"
proof -
  note f = entry_flight [OF assms(1) map_of_SomeD [OF assms(2)] assms(3)]
  have "fast_ok (set_flight f (\<lambda>x. x\<lparr>ff_cancelled := True\<rparr>) c)" (is "fast_ok ?c") by (rule mark_flight_ok [OF assms(1) f(1)]) simp
  moreover have "view_ok (filter (\<lambda>x. fst x \<noteq> k) (entries_view ?c)) (flights_view ?c) (fc_busy ?c) (fc_created ?c)"
    by (rule view_drop_running [OF fast_ok_view [OF calculation] entry_in_view [of ?c k e]])
      (use assms f in \<open>simp_all add: flights_view_nth set_flight_def\<close>)
  ultimately show ?thesis by (auto simp: fast_ok_def intro: wake_ok_fewer [of ?c])
qed

lemma schedule_ok:
  assumes "fast_ok c"
  shows "fast_ok (schedule k foreground c)"
proof (cases "map_of (fc_entries c) k")
  case (Some e)
  show ?thesis
  proof (cases "fc_closed c \<or> fe_flight e \<noteq> None")
    case False
    let ?c = "schedule k foreground c"
    have s: "entries_view ?c = with_flight k (Some (length (flights_view c))) (entries_view c)"
      "flights_view ?c = flights_view c @ [(False, False)]" "fc_busy ?c = fc_busy c" "fc_created ?c = fc_created c"
      "fc_looking ?c = fc_looking c" "fc_idle ?c = fc_idle c" "fc_wake ?c = (if fc_wake c < fast_workers then fc_wake c + 1 else fc_wake c)"
      using Some False change_flight_view [OF fast_ok_distinct [OF assms], of "\<lambda>e. e\<lparr>fe_flight := Some (length (fc_flights c))\<rparr>"]
      by (simp_all add: schedule_def entries_view_def flights_view_def new_fast_flight_def change_entry_def)
    have "view_ok (entries_view ?c) (flights_view ?c) (fc_busy ?c) (fc_created ?c)"
      unfolding s using view_schedule [OF fast_ok_view [OF assms]] entry_in_view [OF Some] False by simp
    moreover have "wake_ok ?c" using assms by (auto simp: fast_ok_def wake_ok_def s queued_append)
    ultimately show ?thesis by (simp add: fast_ok_def)
  qed (use Some assms in \<open>simp add: schedule_def\<close>)
qed (use assms in \<open>simp add: schedule_def\<close>)

lemma least_used_in:
  assumes "pred_option (\<lambda>(k, e). (k, e) \<in> set fs \<and> evictable c e) best" "set es \<subseteq> set fs"
  shows "pred_option (\<lambda>(k, e). (k, e) \<in> set fs \<and> evictable c e) (least_used c es best)"
  using assms
proof (induction es arbitrary: best)
  case (Cons x es)
  obtain k e where x: "x = (k, e)" by (cases x)
  show ?case unfolding x least_used.simps
    by (rule Cons.IH) (use Cons.prems in \<open>auto simp: x split: option.split\<close>)
qed simp

lemma entry_locked_ok:
  assumes "fast_ok c" "plain_host (ft_host t)"
  shows "fast_ok (fst (entry_locked allowed t foreground now c))"
proof -
  let ?key = "fast_key (ft_route t) (ft_host t)"
  have evict: "fast_ok (fst (add_entry t now (drop_entry k (case fe_flight e of None \<Rightarrow> c | Some f \<Rightarrow> end_flight f [] (Some FastYielded) c))))"
    if new: "map_of (fc_entries c) ?key = None" and l: "least_used c (fc_entries c) None = Some (k, e)" for k e
  proof -
    note d = fast_ok_distinct [OF assms(1)]
    have m: "(k, e) \<in> set (fc_entries c)" "evictable c e"
      using least_used_in [of "fc_entries c" c None "fc_entries c"] l by simp_all
    then have mk: "map_of (fc_entries c) k = Some e" using d by simp
    let ?c = "drop_entry k (case fe_flight e of None \<Rightarrow> c | Some f \<Rightarrow> end_flight f [] (Some FastYielded) c)"
    have ok: "fast_ok ?c"
      using drop_free_ok [OF assms(1) mk] drop_queued_ok [OF assms(1) mk] m(2) by (auto simp: evictable_def split: option.splits)
    have e: "fc_entries ?c = AList.delete k (fc_entries c)"
      by (auto simp: drop_entry_def end_flight_def split: option.splits)
    have "length (fc_entries c) \<le> fast_capacity"
      using fast_ok_view [OF assms(1)] by (simp add: view_ok_def entries_ok_def entries_view_def)
    then have "length (fc_entries ?c) < fast_capacity"
      using m(1) delete_smaller [of k "fc_entries c"] unfolding e by force
    moreover have "map_of (fc_entries ?c) ?key = None" using new unfolding e by (simp add: delete_conv')
    ultimately show ?thesis by (intro add_entry_ok [OF ok]) (simp_all add: assms)
  qed
  show ?thesis
    using assms evict add_entry_ok [OF assms(1) _ _ assms(2)]
    by (auto simp: entry_locked_def Let_def not_less split: option.splits)
qed

lemma entry_locked_closed [simp]: "fc_closed (fst (entry_locked allowed t foreground now c)) = fc_closed c"
  by (auto simp: entry_locked_def add_entry_def drop_entry_def end_flight_def Let_def split: option.splits)

lemma schedule_closed [simp]: "fc_closed (schedule k foreground c) = fc_closed c"
  by (simp add: schedule_def change_entry_def split: option.splits)

lemma fast_lookup_ok:
  assumes "fast_ok c" "plain_host host"
  shows "fast_ok (fst (fast_lookup allowed caller_done now route host c))"
proof -
  let ?t = "\<lparr>ft_route = route, ft_host = host\<rparr>"
  have l: "fast_ok (fst (entry_locked allowed ?t True now c))" by (rule entry_locked_ok [OF assms(1)]) (simp add: assms(2))
  have u: "fast_ok (change_entry k (\<lambda>e. e\<lparr>fe_last_used := now\<rparr>) c1)" if "fast_ok c1" for k c1
    by (rule changed_entry_ok [OF that]) simp
  have m: "fast_ok (set_flight f (\<lambda>x. x\<lparr>ff_foreground := True\<rparr>) (change_entry k (\<lambda>e. e\<lparr>fe_last_used := now\<rparr>) c1))"
    if "fast_ok c1" "map_of (fc_entries c1) k = Some e" "fe_flight e = Some f" for k c1 e f
    by (rule mark_flight_ok [OF u [OF that(1)]]) (use entry_flight [OF that(1) map_of_SomeD [OF that(2)] that(3)] in simp_all)
  show ?thesis using l assms(1)
    by (auto simp: fast_lookup_def Let_def u m schedule_ok split: option.splits prod.splits)
qed

lemma fast_lookup_closed [simp]: "fc_closed (fst (fast_lookup allowed caller_done now route host c)) = fc_closed c"
proof -
  let ?t = "\<lparr>ft_route = route, ft_host = host\<rparr>"
  obtain c1 k where "entry_locked allowed ?t True now c = (c1, k)" by (cases "entry_locked allowed ?t True now c")
  moreover have "fc_closed (fst (entry_locked allowed ?t True now c)) = fc_closed c" by simp
  ultimately show ?thesis by (simp add: fast_lookup_def Let_def split: option.splits)
qed

lemma refresh_soon_ok: "fast_ok c \<Longrightarrow> fast_ok (refresh_soon allowed now route host c)"
  by (auto simp: refresh_soon_def Let_def intro!: changed_entry_ok schedule_ok split: option.splits)

lemma refresh_soon_closed [simp]: "fc_closed (refresh_soon allowed now route host c) = fc_closed c"
  by (simp add: refresh_soon_def Let_def split: option.splits)

lemma fast_maintain_ok:
  assumes "fast_ok c" "\<forall>t \<in> set targets. plain_host (ft_host t)"
  shows "fast_ok (fast_maintain allowed targets now c)"
proof -
  have s: "fast_ok c \<Longrightarrow> fast_ok (schedule_due allowed now ks c)" for ks c
    by (induction ks arbitrary: c) (auto simp: schedule_ok split: option.splits)
  have w: "fast_ok c \<Longrightarrow> \<forall>t \<in> set ts. plain_host (ft_host t) \<Longrightarrow> fast_ok (warm_targets allowed now ts c)" for ts c
    by (induction ts arbitrary: c) (auto simp: entry_locked_ok)
  show ?thesis using assms by (auto simp: fast_maintain_def Let_def intro!: s w dest: in_set_takeD)
qed

lemma fast_maintain_closed [simp]: "fc_closed (fast_maintain allowed targets now c) = fc_closed c"
proof -
  have "fc_closed (schedule_due allowed now ks c) = fc_closed c" for ks c
    by (induction ks arbitrary: c) (auto split: option.splits)
  moreover have "fc_closed (warm_targets allowed now ts c) = fc_closed c" for ts c by (induction ts arbitrary: c) auto
  ultimately show ?thesis by (simp add: fast_maintain_def Let_def)
qed

text \<open>The choice of a worker: a waiting flight that no other one precedes.\<close>

definition waits :: "fast_cache \<Rightarrow> fast_entry \<Rightarrow> nat \<Rightarrow> bool" where
  "waits c e f \<longleftrightarrow> fe_flight e = Some f \<and> \<not> ff_running (fc_flights c ! f)"

lemma before_flight_order: "\<not> before_flight x y \<Longrightarrow> before_flight x z \<Longrightarrow> before_flight y z"
  "before_flight x y \<Longrightarrow> \<not> before_flight z y \<Longrightarrow> \<not> before_flight z x"
  by (auto simp: before_flight_def)

lemma next_flight_best:
  assumes "\<And>e f. best = Some (e, f) \<Longrightarrow> waits c e f \<and> (\<exists>k. (k, e) \<in> set fs)" "set es \<subseteq> set fs"
  shows "case next_flight c es best of
      None \<Rightarrow> best = None \<and> (\<forall>(k, e) \<in> set es. \<forall>f. \<not> waits c e f)
    | Some (e, f) \<Rightarrow> waits c e f \<and> (\<exists>k. (k, e) \<in> set fs)
        \<and> (\<forall>(k', e') \<in> set es. \<forall>f'. waits c e' f' \<longrightarrow> \<not> before_flight (fc_flights c ! f') (fc_flights c ! f))
        \<and> (case best of None \<Rightarrow> True | Some (e', f') \<Rightarrow> \<not> before_flight (fc_flights c ! f') (fc_flights c ! f))"
  using assms
proof (induction c es best rule: next_flight.induct)
  case (1 c best)
  then show ?case by (auto simp: before_flight_def split: option.splits)
next
  case (2 c k e es best)
  let ?best = "case fe_flight e of None \<Rightarrow> best
      | Some f \<Rightarrow> if ff_running (fc_flights c ! f) then best
        else (case best of None \<Rightarrow> Some (e, f)
            | Some (e', f') \<Rightarrow> if before_flight (fc_flights c ! f) (fc_flights c ! f') then Some (e, f) else best)"
  have IH: "case next_flight c es ?best of
      None \<Rightarrow> ?best = None \<and> (\<forall>(k, e) \<in> set es. \<forall>f. \<not> waits c e f)
    | Some (e, f) \<Rightarrow> waits c e f \<and> (\<exists>k. (k, e) \<in> set fs)
        \<and> (\<forall>(k', e') \<in> set es. \<forall>f'. waits c e' f' \<longrightarrow> \<not> before_flight (fc_flights c ! f') (fc_flights c ! f))
        \<and> (case ?best of None \<Rightarrow> True | Some (e', f') \<Rightarrow> \<not> before_flight (fc_flights c ! f') (fc_flights c ! f))"
    by (rule "2.IH") (use 2(2,3) in \<open>auto simp: waits_def split: option.splits if_splits\<close>)
  have b: "best = None \<and> (\<forall>f. \<not> waits c e f)" if "?best = None"
    using that by (auto simp: waits_def split: option.splits if_splits)
  have c: "(\<forall>f'. waits c e f' \<longrightarrow> \<not> before_flight (fc_flights c ! f') x)
      \<and> (case best of None \<Rightarrow> True | Some (e', f') \<Rightarrow> \<not> before_flight (fc_flights c ! f') x)"
    if "case ?best of None \<Rightarrow> True | Some (e', f') \<Rightarrow> \<not> before_flight (fc_flights c ! f') x" for x
    using that by (auto simp: waits_def before_flight_def split: option.splits if_splits)
  show ?case
  proof (cases "next_flight c es ?best")
    case None
    then show ?thesis using IH b by auto
  next
    case (Some p)
    then show ?thesis using IH c by (cases p) auto
  qed
qed

lemma worker_look_ok:
  assumes "fast_ok c" "0 < fc_looking c" "\<not> fc_closed c"
  shows "fast_ok (worker_look allowed c)"
proof (cases "next_flight c (fc_entries c) None")
  case None
  have "\<forall>(k, e) \<in> set (fc_entries c). \<forall>f. \<not> waits c e f"
    using next_flight_best [of None c "fc_entries c" "fc_entries c"] None by simp
  then have nw: "(k, i, t, Some f) \<in> set (entries_view c) \<Longrightarrow> ff_running (fc_flights c ! f)" for k i t f
    by (auto simp: entries_view_def waits_def)
  have "flights_view c ! f \<noteq> (False, False)" if "f < length (fc_flights c)" for f
    using view_owned [OF fast_ok_view [OF assms(1)], of f] nw that by (auto simp: flights_view_nth; blast)
  then have "(False, False) \<notin> set (flights_view c)" by (metis in_set_conv_nth length_flights_view)
  then have "queued (flights_view c) = 0" by (simp add: queued_def)
  then show ?thesis using assms None
    by (auto simp: worker_look_def fast_ok_def wake_ok_def entries_view_def flights_view_def)
next
  case (Some p)
  obtain e f where p: "p = (e, f)" by (cases p)
  have "waits c e f \<and> (\<exists>k. (k, e) \<in> set (fc_entries c))"
    using next_flight_best [of None c "fc_entries c" "fc_entries c"] Some by (simp add: p)
  then obtain k where e: "(k, e) \<in> set (fc_entries c)" "fe_flight e = Some f" "\<not> ff_running (fc_flights c ! f)" by (auto simp: waits_def)
  note f = entry_flight [OF assms(1) e(1,2)]
  let ?c = "worker_look allowed c"
  have s: "entries_view ?c = entries_view c" "flights_view ?c = (flights_view c)[f := (False, True)]"
    "fc_busy ?c = (fe_id e, fe_target e, f) # fc_busy c" "fc_created ?c = fc_created c" "fc_wake ?c = fc_wake c"
    "fc_looking ?c = fc_looking c - 1" "fc_idle ?c = fc_idle c"
    using assms(3) Some f by (simp_all add: worker_look_def p entries_view_def flights_view_def set_flight_def map_update)
  have fv: "flights_view c ! f = (False, False)" using f e(3) by (simp add: flights_view_nth)
  then have "view_ok (entries_view ?c) (flights_view ?c) (fc_busy ?c) (fc_created ?c)"
    unfolding s using view_take [OF fast_ok_view [OF assms(1)]] entry_set_view [OF e(1)] e(2) by simp
  moreover have "wake_ok ?c"
    using assms(1,2) queued_update [of f "flights_view c" "(False, True)"] f fv by (auto simp: fast_ok_def wake_ok_def s)
  ultimately show ?thesis by (simp add: fast_ok_def)
qed

lemma worker_wake_ok: "fast_ok c \<Longrightarrow> 0 < fc_idle c \<Longrightarrow> 0 < fc_wake c \<Longrightarrow> fast_ok (worker_wake c)"
  by (auto simp: worker_wake_def fast_ok_def wake_ok_def entries_view_def flights_view_def)

lemma with_flight_absent: "k \<notin> fst ` set es \<Longrightarrow> with_flight k fo es = es"
  unfolding with_flight_def by (rule map_idI) (force split: prod.splits)

lemma refreshed_entry_fields [simp]: "fe_id (refreshed_entry now out e) = fe_id e"
  "fe_target (refreshed_entry now out e) = fe_target e" "fe_flight (refreshed_entry now out e) = None"
  by (simp_all add: refreshed_entry_def split: sum.splits)

lemma worker_done_ok:
  assumes "fast_ok c" "w \<in> set (fc_busy c)" "\<not> fc_closed c"
  shows "fast_ok (worker_done now expired result w c)"
proof -
  obtain i t f where w: "w = (i, t, f)" by (cases w) auto
  let ?key = "fast_key (ft_route t) (ft_host t)" and ?c = "worker_done now expired result w c"
  note v = fast_ok_view [OF assms(1)] and b = assms(2) [unfolded w]
  have own: "k' = ?key \<and> i' = i" if "(k', i', t', Some f) \<in> set (entries_view c)" for k' i' t'
  proof -
    have "(i', t', f) \<in> set (fc_busy c)" using view_flight(3) [OF v that] view_busy(3) [OF v b] by simp
    then have "i' = i \<and> t' = t" using view_busy(5) [OF v b] by blast
    then show ?thesis using view_good [OF v that] by simp
  qed
  have wake: "wake_ok ?c" if "flights_view ?c = (flights_view c)[f := (True, True)]" "fc_busy ?c = remove1 w (fc_busy c)"
      "fc_wake ?c = fc_wake c" "fc_looking ?c = fc_looking c + 1" "fc_idle ?c = fc_idle c"
  proof -
    have "length (remove1 w (fc_busy c)) + 1 = length (fc_busy c)" using assms(2) length_pos_if_in_set [OF assms(2)] by (simp add: length_remove1)
    then show ?thesis
      using assms(1) that queued_update [of f "flights_view c" "(True, True)"] view_busy(2,3) [OF v b]
      by (auto simp: fast_ok_def wake_ok_def)
  qed
  show ?thesis
  proof (cases "map_option fe_id (map_of (fc_entries c) ?key) = Some i")
    case True
    then obtain e where e: "map_of (fc_entries c) ?key = Some e" "fe_id e = i" by auto
    let ?out = "fast_outcome expired (ft_host t) result"
    have s: "entries_view ?c = with_flight ?key None (entries_view c)" "flights_view ?c = (flights_view c)[f := (True, True)]"
      "fc_busy ?c = remove1 w (fc_busy c)" "fc_created ?c = fc_created c" "fc_wake ?c = fc_wake c"
      "fc_looking ?c = fc_looking c + 1" "fc_idle ?c = fc_idle c"
    proof -
      show "entries_view ?c = with_flight ?key None (entries_view c)"
        using change_flight_view [OF fast_ok_distinct [OF assms(1)], of "refreshed_entry now ?out" None ?key] e assms(3)
        by (simp add: worker_done_def w Let_def end_flight_def set_flight_def entries_view_def change_entry_def)
      show "flights_view ?c = (flights_view c)[f := (True, True)]"
        using e assms(3) view_busy(2,3) [OF v b]
        by (simp add: worker_done_def w Let_def end_flight_def set_flight_def flights_view_def map_update change_entry_def)
    qed (use e assms(3) in \<open>simp_all add: worker_done_def w Let_def end_flight_def set_flight_def change_entry_def\<close>)
    have at: "fo = Some f" if "(?key, i', t', fo) \<in> set (entries_view c)" for i' t' fo
    proof -
      have "(i', t', fo) = (i, fe_target e, fe_flight e)" using view_unique [OF v that entry_in_view [OF e(1)]] e(2) by simp
      then show ?thesis using view_busy(4) [OF v b, of ?key] that by blast
    qed
    have "view_ok (with_flight ?key None (entries_view c)) ((flights_view c)[f := (True, True)]) (remove1 w (fc_busy c)) (fc_created c)"
      unfolding w
    proof (rule view_finish [OF v b])
      show "k' = ?key" if "(k', i', t', Some f) \<in> set (entries_view c)" for k' i' t' using own [OF that] by simp
      show "fo = Some f" if "(?key, i', t', fo) \<in> set (entries_view c)" for i' t' fo using at [OF that] .
    qed
    then have "view_ok (entries_view ?c) (flights_view ?c) (fc_busy ?c) (fc_created ?c)" by (simp only: s)
    then show ?thesis using wake [OF s(2,3,5,6,7)] by (simp add: fast_ok_def)
  next
    case False
    have s: "entries_view ?c = entries_view c" "flights_view ?c = (flights_view c)[f := (True, True)]"
      "fc_busy ?c = remove1 w (fc_busy c)" "fc_created ?c = fc_created c" "fc_wake ?c = fc_wake c"
      "fc_looking ?c = fc_looking c + 1" "fc_idle ?c = fc_idle c"
      using False view_busy(2,3) [OF v b]
      by (simp_all add: worker_done_def w Let_def end_flight_def set_flight_def entries_view_def flights_view_def map_update)
    have no: "(k', i', t', Some f) \<notin> set (entries_view c)" for k' i' t'
    proof
      assume m: "(k', i', t', Some f) \<in> set (entries_view c)"
      then have "(?key, i, t', Some f) \<in> set (entries_view c)" using own by blast
      then obtain e where "(?key, e) \<in> set (fc_entries c)" "fe_id e = i" by (auto simp: entries_view_def)
      then have "map_of (fc_entries c) ?key = Some e" using fast_ok_distinct [OF assms(1)] by (simp add: map_of_eq_Some_iff)
      then show False using False \<open>fe_id e = i\<close> by simp
    qed
    obtain k where k: "k \<notin> fst ` set (entries_view c)" using ex_new_if_finite [OF infinite_UNIV_listI, of "fst ` set (entries_view c)"] by auto
    have "view_ok (with_flight k None (entries_view c)) ((flights_view c)[f := (True, True)]) (remove1 w (fc_busy c)) (fc_created c)"
      unfolding w
    proof (rule view_finish [OF v b])
      show "k' = k" if "(k', i', t', Some f) \<in> set (entries_view c)" for k' i' t' using no that by blast
      show "fo = Some f" if "(k, i', t', fo) \<in> set (entries_view c)" for i' t' fo using k that by force
    qed
    then have "view_ok (entries_view ?c) (flights_view ?c) (fc_busy ?c) (fc_created ?c)"
      by (simp only: s with_flight_absent [OF k])
    then show ?thesis using wake [OF s(2,3,5,6,7)] by (simp add: fast_ok_def)
  qed
qed

lemma worker_done_closed [simp]: "fc_closed (worker_done now expired result w c) = fc_closed c"
  by (simp add: worker_done_def end_flight_def set_flight_def change_entry_def Let_def split: prod.splits)

lemma prune_entries_ok:
  "fast_ok c \<Longrightarrow> distinct (map fst es) \<Longrightarrow> set es \<subseteq> set (fc_entries c) \<Longrightarrow> fast_ok (prune_entries allowed es c)"
proof (induction es arbitrary: c)
  case (Cons x es)
  obtain k e where x: "x = (k, e)" by (cases x)
  let ?c = "drop_entry k (case fe_flight e of None \<Rightarrow> c
      | Some f \<Rightarrow> if ff_running (fc_flights c ! f) then set_flight f (\<lambda>x. x\<lparr>ff_cancelled := True\<rparr>) c
          else end_flight f [] (Some FastDisabled) c)"
  have m: "map_of (fc_entries c) k = Some e" using Cons.prems fast_ok_distinct [OF Cons.prems(1)] by (simp add: x)
  have "fast_ok ?c"
    using drop_free_ok [OF Cons.prems(1) m] drop_queued_ok [OF Cons.prems(1) m] drop_running_ok [OF Cons.prems(1) m]
    by (simp split: option.splits)
  moreover have "set es \<subseteq> set (fc_entries ?c)"
  proof -
    have "fc_entries ?c = AList.delete k (fc_entries c)" by (auto simp: drop_entry_def end_flight_def split: option.splits)
    then show ?thesis using Cons.prems(2,3) by (force simp: x delete_filter)
  qed
  ultimately show ?case using Cons by (simp add: x)
qed simp

lemma prune_entries_closed: "fc_closed (prune_entries allowed es c) = fc_closed c"
  by (induction allowed es c rule: prune_entries.induct) (auto simp: end_flight_def split: option.splits)

lemma new_fast_cache_ok: "fast_ok new_fast_cache"
  by (simp add: new_fast_cache_def fast_ok_def wake_ok_def view_ok_defs entries_view_def flights_view_def queued_def)

lemma fast_run_ok: "fast_run c \<Longrightarrow> \<not> fc_closed c \<Longrightarrow> fast_ok c"
proof (induction rule: fast_run.induct)
  case (looks c allowed)
  then have "\<not> fc_closed c" by (auto simp: worker_look_def)
  then show ?case using looks worker_look_ok by blast
next
  case (prunes c allowed)
  then show ?case by (simp add: prune_disallowed_def prune_entries_closed prune_entries_ok fast_ok_distinct)
qed (simp_all add: new_fast_cache_ok fast_lookup_ok refresh_soon_ok fast_maintain_ok worker_done_ok,
  use worker_wake_ok in \<open>simp add: worker_wake_def\<close>)

section \<open>Properties\<close>

text \<open>(C35) No bootstrap is lost: while the cache is open it holds at most 256 entries, every flight that has not ended waits
  in the queue of some entry or is looked up by one of the two workers, so whoever waits for it is answered; and while a
  flight is queued and a worker sleeps, a wake-up is pending or a worker is about to look.\<close>

theorem bootstrap_never_lost:
  assumes "fast_run c" "\<not> fc_closed c"
  shows "length (fc_entries c) \<le> 256 \<and> length (fc_busy c) \<le> 2
    \<and> (\<forall>f < length (fc_flights c). ff_done (fc_flights c ! f)
         \<or> (if ff_running (fc_flights c ! f) then f \<in> (\<lambda>(i, t, f). f) ` set (fc_busy c)
            else Some f \<in> fe_flight ` snd ` set (fc_entries c)))
    \<and> (fc_idle c = 0 \<or> 0 < fc_wake c + fc_looking c
         \<or> list_all (\<lambda>(k, e). case fe_flight e of None \<Rightarrow> True | Some f \<Rightarrow> ff_running (fc_flights c ! f)) (fc_entries c))"
proof -
  note ok = fast_run_ok [OF assms]
  note v = fast_ok_view [OF ok]
  have "ff_done (fc_flights c ! f) \<or> (if ff_running (fc_flights c ! f) then f \<in> (\<lambda>(i, t, f). f) ` set (fc_busy c)
      else Some f \<in> fe_flight ` snd ` set (fc_entries c))" if "f < length (fc_flights c)" for f
  proof (cases "ff_done (fc_flights c ! f)")
    case False
    then have "if ff_running (fc_flights c ! f) then \<exists>i t. (i, t, f) \<in> set (fc_busy c) else \<exists>k i t. (k, i, t, Some f) \<in> set (entries_view c)"
      using view_owned [OF v, of f] that by (simp add: flights_view_nth)
    then show ?thesis by (cases "ff_running (fc_flights c ! f)") (force simp: entries_view_def)+
  qed simp
  moreover have "list_all (\<lambda>(k, e). case fe_flight e of None \<Rightarrow> True | Some f \<Rightarrow> ff_running (fc_flights c ! f)) (fc_entries c)"
    if "0 < fc_idle c" "fc_wake c + fc_looking c = 0"
  proof -
    have "queued (flights_view c) = 0" using ok that by (auto simp: fast_ok_def wake_ok_def min_def split: if_splits)
    then have q: "(False, False) \<notin> set (flights_view c)" by (simp add: queued_def)
    have "ff_running (fc_flights c ! f)" if "(k, e) \<in> set (fc_entries c)" "fe_flight e = Some f" for k e f
    proof (rule ccontr)
      assume "\<not> ff_running (fc_flights c ! f)"
      then have "flights_view c ! f = (False, False)" using entry_flight [OF ok that] by (simp add: flights_view_nth)
      then show False using q entry_flight(1) [OF ok that] by (metis length_flights_view nth_mem)
    qed
    then show ?thesis by (auto simp: list_all_iff split: option.splits)
  qed
  moreover have "length (fc_entries c) \<le> 256" using v by (simp add: view_ok_def entries_ok_def entries_view_def fast_capacity_def)
  moreover have "length (fc_busy c) \<le> 2" using ok by (simp add: fast_ok_def wake_ok_def fast_workers_def)
  ultimately show ?thesis by fastforce
qed

text \<open>Making room for a new name never ends a lookup that runs or that a request waits for, and refreshes are handed to
  the workers in order: what a request waits for before the rest, and the oldest first.\<close>

theorem bootstrap_order:
  "(let c' = fst (entry_locked allowed t foreground now c) in
      \<forall>f < length (fc_flights c). \<not> (ff_running (fc_flights c ! f) \<or> ff_foreground (fc_flights c ! f)) \<or> fc_flights c' ! f = fc_flights c ! f)
    \<and> (case next_flight c (fc_entries c) None of
         None \<Rightarrow> list_all (\<lambda>(k, e). case fe_flight e of None \<Rightarrow> True | Some f \<Rightarrow> ff_running (fc_flights c ! f)) (fc_entries c)
       | Some (e, f) \<Rightarrow> fe_flight e = Some f \<and> \<not> ff_running (fc_flights c ! f)
           \<and> list_all (\<lambda>(k, e'). case fe_flight e' of None \<Rightarrow> True
               | Some f' \<Rightarrow> ff_running (fc_flights c ! f') \<or> \<not> before_flight (fc_flights c ! f') (fc_flights c ! f)) (fc_entries c))"
proof -
  have "pred_option (\<lambda>(k, e). (k, e) \<in> set (fc_entries c) \<and> evictable c e) (least_used c (fc_entries c) None)"
    by (rule least_used_in) simp_all
  then have "\<not> (ff_running (fc_flights c ! f) \<or> ff_foreground (fc_flights c ! f))
      \<or> fc_flights (fst (entry_locked allowed t foreground now c)) ! f = fc_flights c ! f" if "f < length (fc_flights c)" for f
    using that
    by (cases "map_option fe_flight (map_option snd (least_used c (fc_entries c) None)) = Some (Some f)")
      (auto simp: entry_locked_def add_entry_def drop_entry_def end_flight_def set_flight_def Let_def evictable_def nth_list_update
        split: option.splits if_splits)
  moreover have "case next_flight c (fc_entries c) None of
         None \<Rightarrow> list_all (\<lambda>(k, e). case fe_flight e of None \<Rightarrow> True | Some f \<Rightarrow> ff_running (fc_flights c ! f)) (fc_entries c)
       | Some (e, f) \<Rightarrow> fe_flight e = Some f \<and> \<not> ff_running (fc_flights c ! f)
           \<and> list_all (\<lambda>(k, e'). case fe_flight e' of None \<Rightarrow> True
               | Some f' \<Rightarrow> ff_running (fc_flights c ! f') \<or> \<not> before_flight (fc_flights c ! f') (fc_flights c ! f)) (fc_entries c)"
    using next_flight_best [of None c "fc_entries c" "fc_entries c"]
    by (fastforce simp: list_all_iff waits_def split: option.splits)
  ultimately show ?thesis by (simp add: Let_def)
qed

lemma drop_broken_valid: "valid_utf8 (drop_broken s) \<and> length (drop_broken s) \<le> length s \<and> (\<exists>t. s = drop_broken s @ t)"
proof (induction s rule: drop_broken.induct)
  case (1 s)
  show ?case
  proof (cases "valid_utf8 s")
    case False
    then have "s \<noteq> []" by auto
    then have "s = butlast s @ [last s]" by simp
    moreover have "drop_broken s = drop_broken (butlast s)" using False by (subst drop_broken.simps) simp
    ultimately show ?thesis using "1.IH" [OF False] by (metis append_assoc length_append le_add1)
  qed (simp add: drop_broken.simps)
qed

lemma clip_error_fits: "length (clip_error s) \<le> 512"
  using drop_broken_valid [of "take 512 s"] by (auto simp: clip_error_def)

text \<open>A lookup answers at once with the addresses of the last refresh as long as they are at most two hours old, asking
  for a new refresh when they are more than an hour old; a refresh is asked for at most once a minute, and only while none is under way.\<close>

theorem bootstrap_answers:
  assumes "map_of (fc_entries c) (fast_key route host) = Some e" "allowed route host" "\<not> fc_closed c"
  shows "let (c', a) = fast_lookup allowed False now route host c;
      answered = (fe_ips e \<noteq> [] \<and> (now < fe_expires e \<or> now < fe_stale_until e));
      asked = (fe_flight e = None \<and> \<not> now < fe_retry_at e \<and> (fe_ips e = [] \<or> \<not> now < fe_expires e)) in
    length (fc_flights c') = length (fc_flights c) + (if asked then 1 else 0)
    \<and> a = (if answered then FastIps (fe_ips e)
         else if asked then FastWait (length (fc_flights c))
         else (case fe_flight e of None \<Rightarrow> FastError (FastBootstrap host (fe_last_error e)) | Some f \<Rightarrow> FastWait f))"
proof -
  have l: "entry_locked allowed \<lparr>ft_route = route, ft_host = host\<rparr> True now c = (c, Some (fast_key route host))"
    using assms by (simp add: entry_locked_def)
  have m: "map_of (AList.map_entry k g es) k = map_option g (map_of es k)" for k g and es :: "(string \<times> fast_entry) list"
    by (induction es) auto
  show ?thesis
    using assms by (auto simp: fast_lookup_def l Let_def schedule_def change_entry_def set_flight_def m split: option.splits)
qed

definition demo_fast :: fast_cache where
  "demo_fast = worker_look (\<lambda>_ _. True) (fst (fast_lookup (\<lambda>_ _. True) False 0 ''nfqws'' ''dns.example'' new_fast_cache))"

lemma demo_fast_run: "fast_run demo_fast \<and> \<not> fc_closed demo_fast \<and> map (\<lambda>(i, t, f). f) (fc_busy demo_fast) = [0]"
proof -
  have p: "plain_host ''dns.example''" by code_simp
  have "0 < fc_looking (fst (fast_lookup (\<lambda>_ _. True) False 0 ''nfqws'' ''dns.example'' new_fast_cache))" by code_simp
  then have "fast_run demo_fast" unfolding demo_fast_def by (intro looks looks_up starts p)
  moreover have "\<not> fc_closed demo_fast \<and> map (\<lambda>(i, t, f). f) (fc_busy demo_fast) = [0]" by code_simp
  ultimately show ?thesis by blast
qed

theorem bootstrap_never_lost_witness:
  "length (fc_entries demo_fast) \<le> 256 \<and> map (\<lambda>(i, t, f). f) (fc_busy demo_fast) = [0]"
  using bootstrap_never_lost [of demo_fast] demo_fast_run by simp

theorem bootstrap_answers_witness:
  "snd (fast_lookup (\<lambda>_ _. True) False 5 ''nfqws'' ''dns.example'' demo_fast) = FastWait 0"
proof -
  have m: "map_of (fc_entries demo_fast) (fast_key ''nfqws'' ''dns.example'')
      = Some ((new_fast_entry 0 \<lparr>ft_route = ''nfqws'', ft_host = ''dns.example''\<rparr> 0)\<lparr>fe_flight := Some 0\<rparr>)" by code_simp
  have "\<not> fc_closed demo_fast" by code_simp
  then show ?thesis using bootstrap_answers [OF m, of "\<lambda>_ _. True" 5]
    by (simp add: new_fast_entry_def Let_def split_def)
qed

end
