(* ===== verification/Dns_Resolver.thy ===== *)
theory Dns_Resolver
  imports Shadow_Fallback Shadow_Match Dns_Pools
begin

text \<open>
  A client's request to the DNS server (\<open>internal/services/dnsserver/resolver.go\<close>): reading the query, the answer of
  the blocker or of the cache, and the answer made of a lookup's result; the checks on a reply of an upstream; the race
  of \<open>resolveConfigured\<close> between the pairs of upstream and route.

  The decoder, the reply with an error code and the test for a domain name (\<open>miekg/dns\<close>) are the parameter \<open>dns_codec\<close>. The
  lookup between \<open>resolve_front\<close> and \<open>resolve_back\<close> is that of \<open>Resolver_Flights\<close>. The blocker and the cache are read
  once by each of the two.
\<close>

section \<open>Queries\<close>

record dns_codec =
  dk_lib :: dns_lib
  dk_unpack :: "bytes \<Rightarrow> dns_msg option"
  dk_set_rcode :: "dns_msg \<Rightarrow> nat \<Rightarrow> dns_msg"
  dk_domain_name :: "string \<Rightarrow> bool"

datatype resolve_error = BadSize | BadMessage | BadQuestion | BadName | ServerStopped | CallerDone | PackFailed | LookupFailed string

definition opcode_query :: nat where "opcode_query = 0"

definition parse_query :: "dns_codec \<Rightarrow> bytes \<Rightarrow> resolve_error + (dns_msg \<times> question \<times> string)" where
  "parse_query K raw =
     (if length raw < 12 \<or> length raw > 65535 then Inl BadSize
      else (case dk_unpack K raw of
          None \<Rightarrow> Inl BadMessage
        | Some q \<Rightarrow>
            (case dm_question q of
               [qn] \<Rightarrow>
                 (if dm_response q \<or> dm_opcode q \<noteq> opcode_query \<or> dm_answer q \<noteq> [] \<or> dm_ns q \<noteq> [] \<or> dl_tsig (dk_lib K) q
                  then Inl BadQuestion
                  else if \<not> dk_domain_name K (qn_name qn) then Inl BadName
                  else Inr (q, qn, trim_suffix (to_lower (qn_name qn)) ''.''))
             | _ \<Rightarrow> Inl BadQuestion)))"

text \<open>The policy answer: no such name, with a negative lifetime of a minute.\<close>

definition blocked_message :: "dns_codec \<Rightarrow> dns_msg \<Rightarrow> question \<Rightarrow> dns_msg" where
  "blocked_message K q qn = (dk_set_rcode K q rcode_name_error)\<lparr>dm_authoritative := False, dm_authenticated := False,
     dm_recursion_available := True, dm_answer := [],
     dm_ns := [\<lparr>ar_owner = qn_name qn, ar_data = Soa 60, rr_type = 6, rr_class = 1, rr_ttl = 60\<rparr>]\<rparr>"

definition blocked_reply :: "dns_codec \<Rightarrow> dns_msg \<Rightarrow> question \<Rightarrow> bytes option" where
  "blocked_reply K q qn = dl_pack (dk_lib K) (blocked_message K q qn)"

definition new_outcome :: "string \<Rightarrow> outcome" where
  "new_outcome domain = \<lparr>oc_domain = domain, oc_blocked = False, oc_cached = False, oc_category = [], oc_rule = [], oc_source = [],
     oc_block_domain = [], oc_route = [], oc_upstream = []\<rparr>"

text \<open>The route and upstream reported before the lookup answers: those of the provider's resolvers, or the pool's first.\<close>

definition shadow_route :: string where "shadow_route = ''shadow''"

definition expected_outcome :: "pool_config \<Rightarrow> shadow_matcher option \<Rightarrow> string \<Rightarrow> outcome \<Rightarrow> outcome" where
  "expected_outcome cfg shadow domain out =
     (if shadow_matches shadow domain then out\<lparr>oc_route := shadow_route, oc_upstream := []\<rparr>
      else out\<lparr>oc_upstream := (case fst (upstreams_for cfg domain) of [] \<Rightarrow> [] | u # _ \<Rightarrow> up_address u)\<rparr>)"

text \<open>The bytes of the query with its name in lower case are the key of the caches.\<close>

definition lower_query :: "dns_msg \<Rightarrow> question \<Rightarrow> dns_msg" where
  "lower_query q qn = (if to_lower (qn_name qn) \<noteq> qn_name qn then q\<lparr>dm_question := [qn\<lparr>qn_name := to_lower (qn_name qn)\<rparr>]\<rparr> else q)"

datatype front_result = FrontError resolve_error outcome | FrontAnswer bytes outcome | FrontLookup dns_msg question string bytes string outcome

definition front_blocked :: "dns_codec \<Rightarrow> dns_msg \<Rightarrow> question \<Rightarrow> outcome \<Rightarrow> front_result" where
  "front_blocked K q qn out = (case blocked_reply K q qn of None \<Rightarrow> FrontError PackFailed out | Some b \<Rightarrow> FrontAnswer b out)"

definition answer_records :: "dns_msg \<Rightarrow> answer_rr list" where
  "answer_records m = map answer_rr.truncate (dm_answer m)"

definition filter_answer :: "'e filter_engine \<Rightarrow> (string \<Rightarrow> string option) \<Rightarrow> 'e block_snapshot option option \<Rightarrow> question \<Rightarrow> dns_msg
    \<Rightarrow> outcome \<Rightarrow> bool \<times> outcome" where
  "filter_answer F to_ascii blocker qn m out = filter_response F to_ascii blocker [qn_type qn] (answer_records m) out"

text \<open>A kept answer is shown only if the current blocker lets it pass.\<close>

definition front_cached :: "dns_codec \<Rightarrow> 'e filter_engine \<Rightarrow> (string \<Rightarrow> string option) \<Rightarrow> 'e block_snapshot option option
    \<Rightarrow> dns_msg \<Rightarrow> question \<Rightarrow> bytes \<Rightarrow> outcome \<Rightarrow> front_result" where
  "front_cached K F to_ascii blocker q qn b out =
     (case (if blocker = None then None else dk_unpack K b) of
        None \<Rightarrow> FrontAnswer b out
      | Some m \<Rightarrow> (case filter_answer F to_ascii blocker qn m out of
          (True, out') \<Rightarrow> front_blocked K q qn out'
        | (False, _) \<Rightarrow> FrontAnswer b out))"

definition resolve_front :: "dns_codec \<Rightarrow> pool_config \<Rightarrow> shadow_matcher option \<Rightarrow> 'e filter_engine \<Rightarrow> (string \<Rightarrow> string option)
    \<Rightarrow> 'e block_snapshot option option \<Rightarrow> bool \<Rightarrow> bool \<Rightarrow> time \<Rightarrow> bytes \<Rightarrow> dns_cache \<Rightarrow> dns_cache \<times> front_result" where
  "resolve_front K cfg shadow F to_ascii blocker closed caller_done now raw c =
     (case parse_query K raw of
        Inl e \<Rightarrow> (c, FrontError e (new_outcome []))
      | Inr (q, qn, domain) \<Rightarrow>
          (let out = new_outcome domain in
           if closed then (c, FrontError ServerStopped out)
           else if caller_done then (c, FrontError CallerDone out)
           else (case (case blocker of None \<Rightarrow> None | Some published \<Rightarrow> match_dns F to_ascii published domain (qn_type qn) False) of
               Some m \<Rightarrow> (c, front_blocked K q qn (set_blocked domain m out))
             | None \<Rightarrow>
                 (let out1 = expected_outcome cfg shadow domain out; query = q\<lparr>dm_id := 0\<rparr> in
                  case dl_pack (dk_lib K) query of
                    None \<Rightarrow> (c, FrontError PackFailed out1)
                  | Some wire \<Rightarrow>
                      (case dl_pack (dk_lib K) (lower_query query qn) of
                         None \<Rightarrow> (c, FrontError PackFailed out1)
                       | Some key \<Rightarrow>
                           (case cache_get (dk_lib K) now (str_of_bytes key) q c of
                              (c1, Some (b, route, upstream)) \<Rightarrow>
                                (c1, front_cached K F to_ascii blocker q qn b
                                       (out1\<lparr>oc_cached := True, oc_route := route, oc_upstream := upstream\<rparr>))
                            | (c1, None) \<Rightarrow> (c1, FrontLookup q qn (str_of_bytes key) wire domain out1)))))))"

definition resolve_back :: "dns_codec \<Rightarrow> 'e filter_engine \<Rightarrow> (string \<Rightarrow> string option) \<Rightarrow> 'e block_snapshot option option \<Rightarrow> dns_msg
    \<Rightarrow> question \<Rightarrow> outcome \<Rightarrow> lookup_result \<Rightarrow> (resolve_error + bytes) \<times> outcome" where
  "resolve_back K F to_ascii blocker q qn out result =
     (case result of
        Inl e \<Rightarrow> (Inl (LookupFailed e), out)
      | Inr (m, route, upstream) \<Rightarrow>
          (let out1 = out\<lparr>oc_route := route, oc_upstream := upstream\<rparr> in
           case filter_answer F to_ascii blocker qn m out1 of
             (True, out2) \<Rightarrow> ((case blocked_reply K q qn of None \<Rightarrow> Inl PackFailed | Some b \<Rightarrow> Inr b), out2)
           | (False, _) \<Rightarrow> ((case dl_pack (dk_lib K) (answer_to q m) of None \<Rightarrow> Inl PackFailed | Some b \<Rightarrow> Inr b), out1)))"

section \<open>Replies of an upstream\<close>

datatype reply_error = ReplySize | ReplyMalformed | ReplyMismatch | ReplyQuestion | ReplyTruncated | ReplyRcode nat

definition validate_response :: "dns_codec \<Rightarrow> bytes \<Rightarrow> dns_msg \<Rightarrow> reply_error + dns_msg" where
  "validate_response K raw query =
     (if length raw < 12 \<or> length raw > 65535 then Inl ReplySize
      else (case dk_unpack K raw of
          None \<Rightarrow> Inl ReplyMalformed
        | Some resp \<Rightarrow>
            (if \<not> dm_response resp \<or> dm_opcode resp \<noteq> dm_opcode query \<or> dm_id resp \<noteq> dm_id query then Inl ReplyMismatch
             else (case (dm_question resp, dm_question query) of
                 ([a], [b]) \<Rightarrow>
                   (if \<not> equal_fold (qn_name a) (qn_name b) \<or> qn_type a \<noteq> qn_type b \<or> qn_class a \<noteq> qn_class b then Inl ReplyQuestion
                    else if dm_truncated resp then Inl ReplyTruncated
                    else if dm_rcode resp \<noteq> rcode_success \<and> dm_rcode resp \<noteq> rcode_name_error then Inl (ReplyRcode (dm_rcode resp))
                    else Inr resp)
               | _ \<Rightarrow> Inl ReplyMismatch))))"

text \<open>The reply when a query cannot be served; a query that cannot be read is answered by its id and the code alone.\<close>

definition error_reply :: "dns_codec \<Rightarrow> bytes \<Rightarrow> nat \<Rightarrow> bytes" where
  "error_reply K raw rcode =
     (case dk_unpack K raw of
        Some q \<Rightarrow> (case dl_pack (dk_lib K) (dk_set_rcode K q rcode) of None \<Rightarrow> [] | Some b \<Rightarrow> b)
      | None \<Rightarrow>
          (if length raw \<ge> 2 then take 2 raw else [0, 0]) @ be_bytes 2 (or 0x8000 (rcode mod 65536)) @ replicate 8 0)"

section \<open>Answers belong to their questions\<close>

text \<open>What the library documents of a reply: it keeps the id and the first question.\<close>

definition replies_to :: "dns_codec \<Rightarrow> bool" where
  "replies_to K \<longleftrightarrow> (\<forall>q rcode. dm_id (dk_set_rcode K q rcode) = dm_id q \<and> dm_question (dk_set_rcode K q rcode) = take 1 (dm_question q))"

definition answers_query :: "dns_codec \<Rightarrow> dns_msg \<Rightarrow> bytes \<Rightarrow> bool" where
  "answers_query K q b \<longleftrightarrow> (\<exists>m. dl_pack (dk_lib K) m = Some b \<and> dm_id m = dm_id q \<and> dm_question m = dm_question q)"

lemma parse_query_question: "parse_query K raw = Inr (q, qn, domain) \<Longrightarrow> dm_question q = [qn]"
  by (auto simp: parse_query_def split: if_splits option.splits list.splits)

lemma blocked_answers: "replies_to K \<Longrightarrow> dm_question q = [qn] \<Longrightarrow> blocked_reply K q qn = Some b \<Longrightarrow> answers_query K q b"
  unfolding answers_query_def blocked_reply_def
  by (intro exI [of _ "blocked_message K q qn"]) (simp add: blocked_message_def replies_to_def)

lemma answer_to_answers: "dl_pack (dk_lib K) (answer_to q m) = Some b \<Longrightarrow> answers_query K q b"
  unfolding answers_query_def by (intro exI [of _ "answer_to q m"]) (simp add: answer_to_def)

lemma cache_get_answers: "cache_get (dk_lib K) now key q c = (c1, Some (b, route, upstream)) \<Longrightarrow> answers_query K q b"
  by (auto simp: cache_get_def intro: answer_to_answers split: option.splits if_splits)

lemma front_blocked_answers:
  "replies_to K \<Longrightarrow> dm_question q = [qn] \<Longrightarrow> front_blocked K q qn out = FrontAnswer b out' \<Longrightarrow> answers_query K q b"
  by (auto simp: front_blocked_def intro: blocked_answers split: option.splits)

lemma front_cached_answers:
  "replies_to K \<Longrightarrow> dm_question q = [qn] \<Longrightarrow> answers_query K q b0 \<Longrightarrow> front_cached K F to_ascii blocker q qn b0 out = FrontAnswer b out'
    \<Longrightarrow> answers_query K q b"
  by (auto simp: front_cached_def intro: front_blocked_answers split: option.splits prod.splits bool.splits if_splits)

lemma front_cached_no_lookup: "front_cached K F to_ascii blocker q qn b out \<noteq> FrontLookup a0 a1 a2 a3 a4 a5"
  by (auto simp: front_cached_def front_blocked_def split: option.splits prod.splits bool.splits)

lemma resolve_front_cases:
  assumes "resolve_front K cfg shadow F to_ascii blocker closed caller_done now raw c = (c1, r)" "replies_to K"
  shows "(r = FrontAnswer b out \<longrightarrow> (\<exists>q qn domain. parse_query K raw = Inr (q, qn, domain) \<and> answers_query K q b))
    \<and> (r = FrontLookup q qn key wire domain out \<longrightarrow> parse_query K raw = Inr (q, qn, domain)
        \<and> (case blocker of None \<Rightarrow> True | Some published \<Rightarrow> match_dns F to_ascii published domain (qn_type qn) False = None)
        \<and> dl_pack (dk_lib K) (q\<lparr>dm_id := 0\<rparr>) = Some wire)"
proof (cases "parse_query K raw")
  case (Inr p)
  obtain q' qn' domain' where p: "p = (q', qn', domain')" by (cases p) auto
  note ques = parse_query_question [OF Inr [unfolded p]]
  show ?thesis using assms(1)
    by (auto simp: resolve_front_def Inr p Let_def front_cached_no_lookup front_blocked_def
        intro: blocked_answers [OF assms(2) ques]
        dest!: cache_get_answers dest: front_cached_answers [OF assms(2) ques, rotated] split: if_splits option.splits prod.splits)
qed (use assms(1) in \<open>auto simp: resolve_front_def\<close>)

text \<open>(C36) Every answer sent to a client carries the id and the question of its query, whether it comes from the blocker, the
  cache or an upstream; and a name the blocker refuses is never looked up.\<close>

theorem answers_belong_to_queries:
  assumes "replies_to K"
  shows "case resolve_front K cfg shadow F to_ascii blocker closed caller_done now raw c of
      (_, FrontError e out) \<Rightarrow> True
    | (_, FrontAnswer b out) \<Rightarrow> (\<exists>q qn domain. parse_query K raw = Inr (q, qn, domain) \<and> answers_query K q b)
    | (_, FrontLookup q qn key wire domain out) \<Rightarrow>
        parse_query K raw = Inr (q, qn, domain) \<and> dl_pack (dk_lib K) (q\<lparr>dm_id := 0\<rparr>) = Some wire
        \<and> (case blocker of None \<Rightarrow> True | Some published \<Rightarrow> match_dns F to_ascii published domain (qn_type qn) False = None)
        \<and> (case resolve_back K F to_ascii blocker' q qn out result of (Inl _, _) \<Rightarrow> True | (Inr b, _) \<Rightarrow> answers_query K q b)"
proof -
  obtain c1 r where r: "resolve_front K cfg shadow F to_ascii blocker closed caller_done now raw c = (c1, r)" by (cases "resolve_front K cfg shadow F to_ascii blocker closed caller_done now raw c")
  note f = resolve_front_cases [OF r assms]
  show ?thesis
  proof (cases r)
    case (FrontLookup q qn key wire domain out)
    then have p: "parse_query K raw = Inr (q, qn, domain)" using f by blast
    have "answers_query K q b" if "resolve_back K F to_ascii blocker' q qn out result = (Inr b, out')" for b out'
      using that parse_query_question [OF p]
      by (auto simp: resolve_back_def Let_def intro: blocked_answers [OF assms] answer_to_answers
          split: sum.splits option.splits prod.splits bool.splits)
    then show ?thesis using f by (auto simp: r FrontLookup split: prod.splits sum.splits)
  qed (use f in \<open>auto simp: r\<close>)
qed

text \<open>The policy in force when an answer leaves applies to it: an answer that a lookup or the cache supplied reaches the
  client only if the current blocker lets the question and every record reachable from it pass; otherwise the client gets
  the policy answer.\<close>

theorem answers_pass_current_policy:
  "(case resolve_back K F to_ascii blocker q qn out (Inr (m, route, upstream)) of
      (r, out') \<Rightarrow>
        (if fst (filter_answer F to_ascii blocker qn m (out\<lparr>oc_route := route, oc_upstream := upstream\<rparr>))
         then r = (case blocked_reply K q qn of None \<Rightarrow> Inl PackFailed | Some b \<Rightarrow> Inr b)
           \<and> out' = snd (filter_answer F to_ascii blocker qn m (out\<lparr>oc_route := route, oc_upstream := upstream\<rparr>))
         else r = (case dl_pack (dk_lib K) (answer_to q m) of None \<Rightarrow> Inl PackFailed | Some b \<Rightarrow> Inr b)
           \<and> out' = out\<lparr>oc_route := route, oc_upstream := upstream\<rparr>))
    \<and> (case front_cached K F to_ascii blocker q qn b out of
        FrontAnswer b' out' \<Rightarrow>
          if (case dk_unpack K b of None \<Rightarrow> True
             | Some m \<Rightarrow> if blocker = None then True else fst (filter_answer F to_ascii blocker qn m out) = False)
          then b' = b \<and> out' = out else blocked_reply K q qn = Some b'
      | FrontError e out' \<Rightarrow> e = PackFailed | FrontLookup _ _ _ _ _ _ \<Rightarrow> False)"
  by (auto simp: resolve_back_def front_cached_def front_blocked_def Let_def split: option.splits prod.splits bool.splits)


definition demo_query :: dns_msg where
  "demo_query = demo_answer\<lparr>dm_id := 7, dm_response := False, dm_answer := []\<rparr>"

definition demo_codec :: dns_codec where
  "demo_codec = \<lparr>dk_lib = demo_lib, dk_unpack = (\<lambda>_. Some demo_query),
     dk_set_rcode = (\<lambda>q r. q\<lparr>dm_response := True, dm_rcode := r, dm_question := take 1 (dm_question q)\<rparr>), dk_domain_name = (\<lambda>_. True)\<rparr>"

definition demo_pool :: pool_config where
  "demo_pool = \<lparr>pc_default_upstream = \<lparr>up_address = ''u'', up_bootstrap = []\<rparr>, pc_default_pool = [], pc_rules = [], pc_awg_fallback = ''auto'',
     pc_route_mode = ''auto'', pc_scheduler = True, pc_disabled = []\<rparr>"

theorem answers_belong_to_queries_witness:
  "answers_query demo_codec demo_query [7] \<and> resolve_back demo_codec plain_engine Some None demo_query \<lparr>qn_name = ''a.'', qn_type = 1, qn_class = 1\<rparr>
     (new_outcome ''a'') (Inr (demo_answer, ''nfqws'', ''u'')) = (Inr [7], (new_outcome ''a'')\<lparr>oc_route := ''nfqws'', oc_upstream := ''u''\<rparr>)"
proof -
  let ?qn = "\<lparr>qn_name = ''a.'', qn_type = 1, qn_class = 1\<rparr>"
  have r: "replies_to demo_codec" by (simp add: replies_to_def demo_codec_def)
  have f: "resolve_front demo_codec demo_pool None plain_engine Some None False False 0 (replicate 12 0) empty_cache
      = (empty_cache, FrontLookup demo_query ?qn (str_of_bytes [0]) [0] ''a'' ((new_outcome ''a'')\<lparr>oc_upstream := ''u''\<rparr>))"
    by code_simp
  have b: "resolve_back demo_codec plain_engine Some None demo_query ?qn ((new_outcome ''a'')\<lparr>oc_upstream := ''u''\<rparr>) (Inr (demo_answer, ''nfqws'', ''u''))
      = (Inr [7], (new_outcome ''a'')\<lparr>oc_route := ''nfqws'', oc_upstream := ''u''\<rparr>)"
    "resolve_back demo_codec plain_engine Some None demo_query ?qn (new_outcome ''a'') (Inr (demo_answer, ''nfqws'', ''u''))
      = (Inr [7], (new_outcome ''a'')\<lparr>oc_route := ''nfqws'', oc_upstream := ''u''\<rparr>)"
    by code_simp+
  show ?thesis
    using answers_belong_to_queries [OF r, where cfg = demo_pool and shadow = None and F = plain_engine and to_ascii = Some and blocker = None
        and closed = False and caller_done = False and now = 0 and raw = "replicate 12 0" and c = empty_cache
        and blocker' = None and result = "Inr (demo_answer, ''nfqws'', ''u'')"]
    by (simp only: f b prod.case front_result.case option.case sum.case simp_thms)
qed

end
