(* ===== verification/Dns_Race.thy ===== *)
theory Dns_Race
  imports Dns_Resolver Dns_Scheduler
begin

text \<open>
  The race of a lookup over the pairs of upstream and route (\<open>resolveConfigured\<close> of
  \<open>internal/services/dnsserver/resolver.go\<close>). One dispatcher starts the attempts in their order, each needing one of the
  32 slots that all lookups share; the attempts end in any order; one collector takes their results in the order of
  arrival. The context of the race ends when an answer wins, the client leaves, time runs out or the server stops.

  \<open>ra_others\<close> are the slots other lookups hold. The state of the race is what the three goroutines share, and an
  operation is what one of them does between two blocking points.
\<close>

section \<open>State and operations\<close>

definition max_route_attempts :: nat where "max_route_attempts = 32"

datatype race_outcome = Collecting | Won nat dns_msg | Lost

record race =
  ra_next :: nat
  ra_running :: "nat list"
  ra_others :: nat
  ra_results :: "(nat \<times> (string + dns_msg)) list"
  ra_remaining :: nat
  ra_failures :: "string list"
  ra_done :: bool
  ra_canceled :: nat
  ra_outcome :: race_outcome

definition new_race :: "(upstream \<times> dns_route) list \<Rightarrow> race" where
  "new_race ordered = \<lparr>ra_next = 0, ra_running = [], ra_others = 0, ra_results = [], ra_remaining = length ordered,
     ra_failures = replicate (length ordered) [], ra_done = False, ra_canceled = 0, ra_outcome = Collecting\<rparr>"

text \<open>The dispatcher got a slot; a method disabled meanwhile gives it back at once.\<close>

definition dispatch :: "bool \<Rightarrow> string \<Rightarrow> race \<Rightarrow> race" where
  "dispatch enabled disabled_error r =
     (if enabled then r\<lparr>ra_next := ra_next r + 1, ra_running := ra_running r @ [ra_next r]\<rparr>
      else r\<lparr>ra_next := ra_next r + 1, ra_results := ra_results r @ [(ra_next r, Inl disabled_error)]\<rparr>)"

definition canceled_attempt :: "bool \<Rightarrow> string + dns_msg \<Rightarrow> race \<Rightarrow> bool" where
  "canceled_attempt method_disabled result r = (case result of Inl _ \<Rightarrow> ra_done r \<or> method_disabled | Inr _ \<Rightarrow> False)"

text \<open>An attempt returned. Once the context ended the result may be dropped.\<close>

definition attempt_end :: "nat \<Rightarrow> string + dns_msg \<Rightarrow> bool \<Rightarrow> bool \<Rightarrow> race \<Rightarrow> race" where
  "attempt_end i result method_disabled delivered r =
     r\<lparr>ra_running := remove1 i (ra_running r),
       ra_canceled := ra_canceled r + (if canceled_attempt method_disabled result r then 1 else 0),
       ra_results := (if delivered \<or> \<not> ra_done r then ra_results r @ [(i, result)] else ra_results r)\<rparr>"

text \<open>What a failure is reported as: the route, an arrow in UTF-8, the upstream and the error.\<close>

definition failure_text :: "upstream \<times> dns_route \<Rightarrow> string \<Rightarrow> string" where
  "failure_text p e = ro_name (snd p) @ str_of_bytes [32, 226, 134, 146, 32] @ up_address (fst p) @ '': '' @ e"

definition collect :: "(upstream \<times> dns_route) list \<Rightarrow> race \<Rightarrow> race" where
  "collect ordered r =
     (case ra_results r of
        [] \<Rightarrow> r
      | (i, Inl e) # rest \<Rightarrow>
          r\<lparr>ra_results := rest, ra_remaining := ra_remaining r - 1,
            ra_failures := (ra_failures r)[i := failure_text (ordered ! i) e]\<rparr>
      | (i, Inr m) # rest \<Rightarrow> r\<lparr>ra_results := rest, ra_done := True, ra_outcome := Won i m\<rparr>)"

text \<open>The error when no answer came: the reasons in the order of the candidates.\<close>

definition vpn_only_text :: string where
  "vpn_only_text =
     str_of_bytes [209, 128, 208, 181, 208, 182, 208, 184, 208, 188, 32, 194, 171, 209, 130, 208, 190, 208,
     187, 209, 140, 208, 186, 208, 190, 32, 86, 80, 78, 194, 187, 58, 32, 208, 189, 208, 181, 209, 130, 32,
     208, 180, 208, 190, 209, 129, 209, 130, 209, 131, 208, 191, 208, 189, 209, 139, 209, 133, 32, 208, 178,
     208, 186, 208, 187, 209, 142, 209, 135, 209, 145, 208, 189, 208, 189, 209, 139, 209, 133, 32, 208, 188,
     208, 181, 209, 130, 208, 190, 208, 180, 208, 190, 208, 178, 32, 68, 111, 72, 32, 209, 135, 208, 181, 209,
     128, 208, 181, 208, 183, 32, 65, 87, 71, 59, 32, 208, 191, 209, 128, 208, 190, 208, 178, 208, 181, 209,
     128, 209, 140, 209, 130, 208, 181, 32, 86, 80, 78, 45, 208, 191, 208, 190, 208, 180, 208, 186, 208, 187,
     209, 142, 209, 135, 208, 181, 208, 189, 208, 184, 208, 181, 32, 208, 184, 32, 208, 178, 209, 139, 208,
     186, 208, 187, 209, 142, 209, 135, 208, 181, 208, 189, 208, 189, 209, 139, 208, 181, 32, 208, 188, 208,
     181, 209, 130, 208, 190, 208, 180, 209, 139]"

definition no_method_text :: string where
  "no_method_text =
     str_of_bytes [208, 189, 208, 181, 209, 130, 32, 208, 180, 208, 190, 209, 129, 209, 130, 209, 131, 208,
     191, 208, 189, 209, 139, 209, 133, 32, 208, 178, 208, 186, 208, 187, 209, 142, 209, 135, 209, 145, 208,
     189, 208, 189, 209, 139, 209, 133, 32, 208, 188, 208, 181, 209, 130, 208, 190, 208, 180, 208, 190, 208,
     178, 32, 208, 178, 32, 208, 178, 209, 139, 208, 177, 209, 128, 208, 176, 208, 189, 208, 189, 208, 190,
     208, 188, 32, 208, 191, 209, 131, 208, 187, 208, 181, 32, 68, 111, 72, 58, 32, 208, 191, 209, 128, 208,
     190, 208, 178, 208, 181, 209, 128, 209, 140, 209, 130, 208, 181, 32, 208, 178, 209, 139, 208, 186, 208,
     187, 209, 142, 209, 135, 208, 181, 208, 189, 208, 189, 209, 139, 208, 181, 32, 208, 188, 208, 181, 209,
     130, 208, 190, 208, 180, 209, 139, 44, 32, 78, 70, 81, 87, 83, 32, 208, 184, 32, 65, 87, 71, 45, 208,
     191, 208, 190, 208, 180, 208, 186, 208, 187, 209, 142, 209, 135, 208, 181, 208, 189, 208, 184, 209, 143]"

definition unavailable_text :: string where
  "unavailable_text =
     str_of_bytes [68, 78, 83, 32, 208, 189, 208, 181, 208, 180, 208, 190, 209, 129, 209, 130, 209, 131, 208,
     191, 208, 181, 208, 189, 58, 32]"

definition race_reasons :: "bool \<Rightarrow> string option \<Rightarrow> race \<Rightarrow> string list" where
  "race_reasons vpn_only ended r =
     (let failures = filter (\<lambda>f. f \<noteq> []) (ra_failures r) in
      (if failures = [] then [if vpn_only then vpn_only_text else no_method_text] else failures)
        @ (case ended of None \<Rightarrow> [] | Some e \<Rightarrow> [e]))"

text \<open>The result of the race, with the error of its context if that ended.\<close>

definition race_result :: "(upstream \<times> dns_route) list \<Rightarrow> bool \<Rightarrow> string option \<Rightarrow> race \<Rightarrow> lookup_result" where
  "race_result ordered vpn_only ended r =
     (case ra_outcome r of
        Won i m \<Rightarrow> Inr (m, ro_id (snd (ordered ! i)), up_address (fst (ordered ! i)))
      | _ \<Rightarrow> Inl (unavailable_text @ join_on ''; '' (race_reasons vpn_only ended r)))"

section \<open>Runs\<close>

text \<open>The log holds the results the collector took.\<close>

inductive race_run :: "(upstream \<times> dns_route) list \<Rightarrow> race \<Rightarrow> (nat \<times> (string + dns_msg)) list \<Rightarrow> bool"
  for ordered :: "(upstream \<times> dns_route) list" where
  starts: "race_run ordered (new_race ordered) []"
| dispatches: "race_run ordered r log \<Longrightarrow> \<not> ra_done r \<Longrightarrow> ra_next r < length ordered
    \<Longrightarrow> ra_others r + length (ra_running r) < max_route_attempts \<Longrightarrow> race_run ordered (dispatch enabled disabled_error r) log"
| shares: "race_run ordered r log \<Longrightarrow> n + length (ra_running r) \<le> max_route_attempts \<Longrightarrow> race_run ordered (r\<lparr>ra_others := n\<rparr>) log"
| returns: "race_run ordered r log \<Longrightarrow> i \<in> set (ra_running r) \<Longrightarrow> race_run ordered (attempt_end i result method_disabled delivered r) log"
| collects: "race_run ordered r log \<Longrightarrow> ra_outcome r = Collecting \<Longrightarrow> 0 < ra_remaining r \<Longrightarrow> ra_results r = x # rest
    \<Longrightarrow> race_run ordered (collect ordered r) (log @ [x])"
| exhausts: "race_run ordered r log \<Longrightarrow> ra_outcome r = Collecting \<Longrightarrow> ra_remaining r = 0
    \<Longrightarrow> race_run ordered (r\<lparr>ra_outcome := Lost, ra_done := True\<rparr>) log"
| leaves: "race_run ordered r log \<Longrightarrow> race_run ordered (r\<lparr>ra_done := True\<rparr>) log"
| gives_up: "race_run ordered r log \<Longrightarrow> ra_outcome r = Collecting \<Longrightarrow> ra_done r \<Longrightarrow> race_run ordered (r\<lparr>ra_outcome := Lost\<rparr>) log"

definition failed :: "nat \<times> (string + dns_msg) \<Rightarrow> bool" where
  "failed x = isl (snd x)"

definition log_failures :: "(upstream \<times> dns_route) list \<Rightarrow> (nat \<times> (string + dns_msg)) list \<Rightarrow> string list" where
  "log_failures ordered log =
     fold (\<lambda>(i, x) fs. case x of Inl e \<Rightarrow> fs[i := failure_text (ordered ! i) e] | Inr _ \<Rightarrow> fs) log (replicate (length ordered) [])"

definition race_known :: "race \<Rightarrow> (nat \<times> (string + dns_msg)) list \<Rightarrow> nat list" where
  "race_known r log = ra_running r @ map fst (ra_results r) @ map fst log"

definition race_ok :: "(upstream \<times> dns_route) list \<Rightarrow> race \<Rightarrow> (nat \<times> (string + dns_msg)) list \<Rightarrow> bool" where
  "race_ok ordered r log \<longleftrightarrow>
     ra_next r \<le> length ordered \<and> distinct (race_known r log) \<and> set (race_known r log) \<subseteq> {..<ra_next r}
     \<and> (ra_done r \<or> set (race_known r log) = {..<ra_next r})
     \<and> ra_others r + length (ra_running r) \<le> max_route_attempts
     \<and> ra_failures r = log_failures ordered log
     \<and> (case ra_outcome r of
          Won i m \<Rightarrow> ra_done r \<and> (\<exists>pre. log = pre @ [(i, Inr m)] \<and> list_all failed pre)
        | Lost \<Rightarrow> ra_done r \<and> list_all failed log
        | Collecting \<Rightarrow> list_all failed log \<and> length log + ra_remaining r = length ordered)"

lemma race_run_ok: "race_run ordered r log \<Longrightarrow> race_ok ordered r log"
proof (induction rule: race_run.induct)
  case starts
  then show ?case by (simp add: race_ok_def new_race_def race_known_def log_failures_def)
next
  case (dispatches r log enabled disabled_error)
  then show ?case
    by (cases "ra_outcome r") (auto simp: race_ok_def dispatch_def race_known_def lessThan_Suc)
next
  case (shares r log n)
  then show ?case by (cases "ra_outcome r") (simp_all add: race_ok_def race_known_def)
next
  case (returns r log i result method_disabled delivered)
  then have "distinct (ra_running r)" "i \<in> set (ra_running r)" by (simp_all add: race_ok_def race_known_def)
  then have "set (remove1 i (ra_running r)) = set (ra_running r) - {i}" "length (remove1 i (ra_running r)) \<le> length (ra_running r)"
    by (simp_all add: length_remove1)
  then show ?case using returns
    by (cases "ra_outcome r") (auto simp: race_ok_def attempt_end_def race_known_def)
next
  case (collects r log x rest)
  obtain i y where x: "x = (i, y)" by (cases x)
  have f: "log_failures ordered (log @ [(i, y)]) = (case y of Inl e \<Rightarrow> (log_failures ordered log)[i := failure_text (ordered ! i) e]
      | Inr _ \<Rightarrow> log_failures ordered log)" for i y by (simp add: log_failures_def split: sum.split)
  show ?case using collects
    by (cases y) (auto simp: race_ok_def collect_def race_known_def f x failed_def)
qed (auto simp: race_ok_def race_known_def split: race_outcome.splits)


text \<open>The race never hangs: as long as its context lives and no answer has won, either a pair is still to be started, an
  attempt runs, a result waits, or every pair has failed.\<close>

theorem race_progress:
  assumes "race_run ordered r log" "ra_outcome r = Collecting" "\<not> ra_done r"
  shows "ra_next r < length ordered \<or> ra_running r \<noteq> [] \<or> ra_results r \<noteq> [] \<or> ra_remaining r = 0"
proof -
  note ok = race_run_ok [OF assms(1), unfolded race_ok_def]
  have "ra_remaining r = 0" if "ra_next r \<ge> length ordered" "ra_running r = []" "ra_results r = []"
  proof -
    have "set (map fst log) = {..<length ordered}" "distinct (map fst log)" using ok assms(2,3) that by (auto simp: race_known_def)
    then have "length log = length ordered" by (metis card_lessThan distinct_card length_map)
    then show ?thesis using ok assms(2) by simp
  qed
  then show ?thesis by (meson not_less)
qed

definition demo_pairs :: "(upstream \<times> dns_route) list" where
  "demo_pairs = [(\<lparr>up_address = ''u1'', up_bootstrap = []\<rparr>, \<lparr>ro_id = ''nfqws'', ro_name = ''NFQWS'', ro_available = True, ro_error = []\<rparr>),
     (\<lparr>up_address = ''u1'', up_bootstrap = []\<rparr>, \<lparr>ro_id = ''awg:1'', ro_name = ''AWG'', ro_available = True, ro_error = []\<rparr>)]"

definition demo_race :: race where
  "demo_race = attempt_end 1 (Inr demo_answer) False True (attempt_end 0 (Inl ''reset'') False True
     (dispatch True [] (dispatch True [] (new_race demo_pairs))))"

lemma demo_race_run: "race_run demo_pairs demo_race []"
  unfolding demo_race_def
proof (intro returns dispatches starts)
qed (simp_all add: new_race_def demo_pairs_def dispatch_def attempt_end_def max_route_attempts_def)

lemma demo_race_results: "ra_results demo_race = [(0, Inl ''reset''), (1, Inr demo_answer)] \<and> ra_outcome demo_race = Collecting
    \<and> ra_remaining demo_race = 2 \<and> \<not> ra_done demo_race"
  by code_simp


theorem race_progress_witness: "ra_results demo_race \<noteq> [] \<and> ra_next demo_race = 2"
proof -
  have "ra_running demo_race = []" "ra_next demo_race = 2" "length demo_pairs = 2" by code_simp+
  then show ?thesis using race_progress [OF demo_race_run] demo_race_results by simp
qed

end
