(* ===== verification/Socket_Pools.thy ===== *)
theory Socket_Pools
  imports Go_Time Go_Text Assoc "HOL-Library.Multiset"
begin

text \<open>
  The pools of warm WebSocket connections of the Telegram relay (\<open>internal/services/tgws/wspool.go\<close>): \<open>ws_pool\<close> for the
  native endpoints, with its background refills and health checks, and \<open>worker_pool\<close> for the worker domains.

  A connection is a number. A Go map is an association list. An operation is one section under the pool's mutex; the refill
  goroutines and the one check that the maintenance goroutine has under way are part of the state. What the network does
  (the outcome of a dial, the health of an idle connection) is an argument. \<open>connect_one\<close> is the loop that opens one connection.
\<close>

section \<open>What a pool of connections promises\<close>

text \<open>The runs of a pool whose step tells which connections it lent, which it closed, and which closed ones it closed again.\<close>

inductive pool_run :: "('e \<Rightarrow> 's \<Rightarrow> 's \<times> nat list \<times> nat list \<times> nat list) \<Rightarrow> ('e \<Rightarrow> 's \<Rightarrow> bool) \<Rightarrow> ('e \<Rightarrow> nat list) \<Rightarrow> 's
    \<Rightarrow> 's \<Rightarrow> nat list \<Rightarrow> nat list \<Rightarrow> nat list \<Rightarrow> nat list \<Rightarrow> bool"
  for step :: "'e \<Rightarrow> 's \<Rightarrow> 's \<times> nat list \<times> nat list \<times> nat list" and possible :: "'e \<Rightarrow> 's \<Rightarrow> bool" and gets :: "'e \<Rightarrow> nat list"
    and start :: 's where
  pool_start: "pool_run step possible gets start start [] [] [] []"
| pool_step: "pool_run step possible gets start s lent shut again got \<Longrightarrow> possible e s \<Longrightarrow> distinct (got @ gets e)
    \<Longrightarrow> step e s = (s', lent', shut', again')
    \<Longrightarrow> pool_run step possible gets start s' (lent @ lent') (shut @ shut') (again @ again') (got @ gets e)"

locale lending_pool =
  fixes step :: "'e \<Rightarrow> 's \<Rightarrow> 's \<times> nat list \<times> nat list \<times> nat list"
    and possible :: "'e \<Rightarrow> 's \<Rightarrow> bool"
    and gets :: "'e \<Rightarrow> nat list"
    and start :: 's
    and owned :: "'s \<Rightarrow> nat list"
    and stale :: "'s \<Rightarrow> nat set"
    and ok :: "'s \<Rightarrow> bool"
  assumes start_ok: "ok start" "owned start = []" "stale start = {}"
    and step_ok: "ok s \<Longrightarrow> possible e s \<Longrightarrow> distinct (owned s @ gets e) \<Longrightarrow> step e s = (s', lent, shut, again) \<Longrightarrow> ok s'"
    and conserves: "ok s \<Longrightarrow> possible e s \<Longrightarrow> distinct (owned s @ gets e) \<Longrightarrow> step e s = (s', lent, shut, again)
      \<Longrightarrow> mset (owned s @ gets e) = mset (owned s' @ lent @ shut)"
    and stale_shut: "ok s \<Longrightarrow> possible e s \<Longrightarrow> distinct (owned s @ gets e) \<Longrightarrow> step e s = (s', lent, shut, again)
      \<Longrightarrow> set again \<subseteq> stale s \<and> stale s' \<subseteq> stale s \<union> set shut"
begin

lemma run_conserves:
  assumes "pool_run step possible gets start s lent shut again got"
  shows "ok s \<and> distinct got \<and> mset got = mset (owned s @ lent @ shut) \<and> set again \<subseteq> set shut \<and> stale s \<subseteq> set shut"
  using assms
proof (induction rule: pool_run.induct)
  case pool_start
  then show ?case using start_ok by simp
next
  case (pool_step s lent shut again got e s' lent' shut' again')
  have m: "mset got = mset (owned s @ lent @ shut)" using pool_step.IH by simp
  then have "set (owned s) \<subseteq> set got" by (metis Un_upper1 set_append set_mset_mset)
  moreover have "distinct (owned s @ lent @ shut)" using pool_step.IH m by (metis mset_eq_imp_distinct_iff)
  ultimately have d: "distinct (owned s @ gets e)" using pool_step.hyps(3) by auto
  note laws = step_ok [OF _ pool_step.hyps(2) d pool_step.hyps(4)] conserves [OF _ pool_step.hyps(2) d pool_step.hyps(4)]
    stale_shut [OF _ pool_step.hyps(2) d pool_step.hyps(4)]
  show ?case using pool_step.IH laws pool_step.hyps(3) by (auto simp: ac_simps)
qed

text \<open>A connection is lent at most once, one that was lent is never closed by the pool, and none is lost.\<close>

lemma run_safe:
  assumes "pool_run step possible gets start s lent shut again got"
  shows "distinct lent \<and> set lent \<inter> (set shut \<union> set again) = {} \<and> set lent \<inter> set (owned s) = {}
    \<and> set got = set (owned s) \<union> set lent \<union> set shut"
proof -
  note c = run_conserves [OF assms]
  then have "distinct (owned s @ lent @ shut)" by (metis mset_eq_imp_distinct_iff)
  moreover have "set got = set (owned s @ lent @ shut)" using c by (metis set_mset_mset)
  ultimately show ?thesis using c by auto
qed

end

text \<open>A run computed from its events; \<open>None\<close> when an event is not possible where it stands.\<close>

fun play_pool :: "('e \<Rightarrow> 's \<Rightarrow> 's \<times> nat list \<times> nat list \<times> nat list) \<Rightarrow> ('e \<Rightarrow> 's \<Rightarrow> bool) \<Rightarrow> ('e \<Rightarrow> nat list) \<Rightarrow> 'e list
    \<Rightarrow> 's \<times> nat list \<times> nat list \<times> nat list \<times> nat list \<Rightarrow> ('s \<times> nat list \<times> nat list \<times> nat list \<times> nat list) option" where
  "play_pool step possible gets [] r = Some r"
| "play_pool step possible gets (e # es) (s, lent, shut, again, got) =
     (if possible e s \<and> distinct (got @ gets e)
      then (case step e s of (s', lent', shut', again') \<Rightarrow>
        play_pool step possible gets es (s', lent @ lent', shut @ shut', again @ again', got @ gets e))
      else None)"

lemma play_pool_run:
  "play_pool step possible gets es (s, lent, shut, again, got) = Some (s', lent', shut', again', got')
    \<Longrightarrow> pool_run step possible gets start s lent shut again got \<Longrightarrow> pool_run step possible gets start s' lent' shut' again' got'"
proof (induction es arbitrary: s lent shut again got)
  case (Cons e es)
  obtain s1 l1 c1 a1 where e: "step e s = (s1, l1, c1, a1)" by (cases "step e s") auto
  have "possible e s" "distinct (got @ gets e)" using Cons.prems(1) by (auto split: if_splits)
  then have "pool_run step possible gets start s1 (lent @ l1) (shut @ c1) (again @ a1) (got @ gets e)"
    using pool_run.pool_step [OF Cons.prems(2) _ _ e] by blast
  then show ?case using Cons.IH [of s1 "lent @ l1" "shut @ c1" "again @ a1" "got @ gets e"] Cons.prems(1) e by (simp split: if_splits)
qed simp

section \<open>The pool of native endpoints\<close>

record pool_key =
  pk_dc :: int
  pk_media :: bool
  pk_test :: bool
  pk_target :: string

record pooled_ws =
  pw_ws :: nat
  pw_created :: time

text \<open>A refill goroutine: the key and generation it was started for, and what it has left to collect.\<close>

record refill =
  rl_key :: pool_key
  rl_generation :: nat
  rl_started :: bool
  rl_quiet :: bool
  rl_left :: nat
  rl_connected :: nat
  rl_queue_only :: bool

record ws_pool =
  wp_target :: nat
  wp_done :: bool
  wp_idle :: "(pool_key \<times> pooled_ws list) list"
  wp_checking :: "(nat \<times> nat) list"
  wp_refilling :: "(pool_key \<times> nat) list"
  wp_domains :: "(pool_key \<times> string list) list"
  wp_failures :: "(pool_key \<times> nat) list"
  wp_refill_after :: "(pool_key \<times> time) list"
  wp_generation :: nat
  wp_refills :: "refill list"
  wp_checks :: nat
  wp_probe :: "(pool_key \<times> nat \<times> nat) option"

definition pool_max_age :: duration where "pool_max_age = secs 120"
definition pool_check_interval :: duration where "pool_check_interval = secs 5"

definition new_ws_pool :: "int \<Rightarrow> ws_pool" where
  "new_ws_pool target = \<lparr>wp_target = nat target, wp_done = False, wp_idle = [], wp_checking = [], wp_refilling = [], wp_domains = [],
     wp_failures = [], wp_refill_after = [], wp_generation = 0, wp_refills = [], wp_checks = 0, wp_probe = None\<rparr>"

definition at_key :: "('k \<times> 'v list) list \<Rightarrow> 'k \<Rightarrow> 'v list" where
  "at_key m k = (case map_of m k of None \<Rightarrow> [] | Some xs \<Rightarrow> xs)"

definition ws_bucket :: "ws_pool \<Rightarrow> pool_key \<Rightarrow> pooled_ws list" where
  "ws_bucket s k = at_key (wp_idle s) k"

definition set_bucket :: "pool_key \<Rightarrow> pooled_ws list \<Rightarrow> ws_pool \<Rightarrow> ws_pool" where
  "set_bucket k b s = s\<lparr>wp_idle := AList.update k b (wp_idle s)\<rparr>"

text \<open>The scan of a bucket: the connection to lend, the rest of the bucket, the connections to close and a check to wait for.\<close>

fun scan_bucket :: "(nat \<Rightarrow> bool) \<Rightarrow> time \<Rightarrow> (nat \<times> nat) list \<Rightarrow> pooled_ws list \<Rightarrow> pooled_ws list \<Rightarrow> nat list \<Rightarrow> nat option
    \<Rightarrow> nat option \<times> pooled_ws list \<times> nat list \<times> nat option" where
  "scan_bucket healthy now checking kept [] shut waiting = (None, kept, shut, waiting)"
| "scan_bucket healthy now checking kept (p # ps) shut waiting =
     (case map_of checking (pw_ws p) of
        Some done_id \<Rightarrow> scan_bucket healthy now checking (kept @ [p]) ps shut (Some done_id)
      | None \<Rightarrow>
          (if time_sub now (pw_created p) \<ge> pool_max_age \<or> \<not> healthy (pw_ws p)
           then scan_bucket healthy now checking kept ps (shut @ [pw_ws p]) waiting
           else (Some (pw_ws p), kept @ ps, shut, waiting)))"

datatype ws_answer = WsNone | WsLent nat | WsWait nat | WsMiss

definition ws_acquire :: "(nat \<Rightarrow> bool) \<Rightarrow> pool_key \<Rightarrow> time \<Rightarrow> ws_pool \<Rightarrow> ws_pool \<times> ws_answer \<times> nat list" where
  "ws_acquire healthy k now s =
     (if wp_target s = 0 \<or> pk_target k = [] \<or> wp_done s then (s, WsNone, [])
      else (case scan_bucket healthy now (wp_checking s) [] (ws_bucket s k) [] None of
          (hit, rest, shut, waiting) \<Rightarrow>
            (set_bucket k rest s,
             (case hit of Some ws \<Rightarrow> WsLent ws | None \<Rightarrow> (case waiting of Some d \<Rightarrow> WsWait d | None \<Rightarrow> WsMiss)),
             shut)))"

definition ws_reset :: "ws_pool \<Rightarrow> ws_pool \<times> nat list" where
  "ws_reset s = (s\<lparr>wp_idle := [], wp_checking := [], wp_generation := wp_generation s + 1, wp_refilling := [], wp_domains := [],
     wp_failures := [], wp_refill_after := []\<rparr>, map pw_ws (concat (map snd (wp_idle s))))"

definition schedule_refill :: "pool_key \<Rightarrow> time \<Rightarrow> string list \<Rightarrow> ws_pool \<Rightarrow> ws_pool" where
  "schedule_refill k now domains s =
     (if wp_target s = 0 \<or> wp_done s then s
      else (let s1 = s\<lparr>wp_domains := AList.update k domains (wp_domains s)\<rparr> in
        if map_of (wp_refilling s) k \<noteq> None
          \<or> now < (case map_of (wp_refill_after s) k of None \<Rightarrow> zero_time | Some t \<Rightarrow> t) then s1
        else s1\<lparr>wp_refilling := AList.update k (wp_generation s) (wp_refilling s),
          wp_refills := wp_refills s @ [\<lparr>rl_key = k, rl_generation = wp_generation s, rl_started = False, rl_quiet = False, rl_left = 0,
            rl_connected = 0, rl_queue_only = True\<rparr>]\<rparr>))"

text \<open>\<open>refill\<close>: the sections that compute what is needed, take the result of a dial, and report.\<close>

definition refill_begin :: "nat \<Rightarrow> ws_pool \<Rightarrow> ws_pool" where
  "refill_begin i s =
     (let r = wp_refills s ! i; needed = wp_target s - length (ws_bucket s (rl_key r));
          quiet = (wp_done s \<or> wp_generation s \<noteq> rl_generation r \<or> needed = 0) in
      s\<lparr>wp_refills := (wp_refills s)[i := r\<lparr>rl_started := True, rl_quiet := quiet, rl_left := (if quiet then 0 else needed)\<rparr>]\<rparr>)"

definition refill_result :: "nat \<Rightarrow> nat option \<Rightarrow> bool \<Rightarrow> time \<Rightarrow> ws_pool \<Rightarrow> ws_pool \<times> nat list" where
  "refill_result i ws queue_error now s =
     (let r = wp_refills s ! i; r1 = r\<lparr>rl_left := rl_left r - 1, rl_queue_only := rl_queue_only r \<and> queue_error\<rparr> in
      case ws of
        None \<Rightarrow> (s\<lparr>wp_refills := (wp_refills s)[i := r1]\<rparr>, [])
      | Some w \<Rightarrow>
          (if \<not> wp_done s \<and> wp_generation s = rl_generation r
           then (set_bucket (rl_key r) (ws_bucket s (rl_key r) @ [\<lparr>pw_ws = w, pw_created = now\<rparr>])
                   (s\<lparr>wp_refills := (wp_refills s)[i := r1\<lparr>rl_connected := rl_connected r + 1\<rparr>]\<rparr>), [])
           else (s\<lparr>wp_refills := (wp_refills s)[i := r1]\<rparr>, [w])))"

definition refill_backoff :: "nat \<Rightarrow> duration" where
  "refill_backoff failures =
     (let shift = min 12 (failures - 1); delay = secs (2 ^ shift) in if delay > secs 3600 then secs 3600 else delay)"

definition drop_refill :: "nat \<Rightarrow> ws_pool \<Rightarrow> ws_pool" where
  "drop_refill i s =
     (let r = wp_refills s ! i in
      s\<lparr>wp_refills := take i (wp_refills s) @ drop (Suc i) (wp_refills s),
        wp_refilling := (if map_of (wp_refilling s) (rl_key r) = Some (rl_generation r)
          then AList.delete (rl_key r) (wp_refilling s) else wp_refilling s)\<rparr>)"

definition refill_end :: "nat \<Rightarrow> time \<Rightarrow> ws_pool \<Rightarrow> ws_pool" where
  "refill_end i now s =
     (let r = wp_refills s ! i; k = rl_key r in
      drop_refill i
        (if rl_quiet r \<or> wp_done s \<or> wp_generation s \<noteq> rl_generation r then s
         else if rl_connected r > 0
         then s\<lparr>wp_failures := AList.delete k (wp_failures s), wp_refill_after := AList.delete k (wp_refill_after s)\<rparr>
         else if rl_queue_only r then s\<lparr>wp_refill_after := AList.update k (now + secs 1) (wp_refill_after s)\<rparr>
         else (let n = (case map_of (wp_failures s) k of None \<Rightarrow> 0 | Some n \<Rightarrow> n) + 1 in
           s\<lparr>wp_failures := AList.update k n (wp_failures s), wp_refill_after := AList.update k (now + refill_backoff n) (wp_refill_after s)\<rparr>)))"

text \<open>\<open>rotate\<close>: a connection is reserved, checked outside the mutex, and released or removed.\<close>

definition check_begin :: "pool_key \<Rightarrow> nat \<Rightarrow> nat \<Rightarrow> ws_pool \<Rightarrow> ws_pool" where
  "check_begin k ws generation s =
     (if wp_generation s \<noteq> generation \<or> wp_done s then s
      else if ws \<notin> pw_ws ` set (ws_bucket s k) \<or> map_of (wp_checking s) ws \<noteq> None then s
      else s\<lparr>wp_checking := AList.update ws (wp_checks s) (wp_checking s), wp_checks := wp_checks s + 1,
             wp_probe := Some (k, ws, wp_checks s)\<rparr>)"

fun remove_ws :: "nat \<Rightarrow> pooled_ws list \<Rightarrow> pooled_ws list" where
  "remove_ws ws [] = []"
| "remove_ws ws (p # ps) = (if pw_ws p = ws then ps else p # remove_ws ws ps)"

text \<open>The connections closed, and those closed although the pool had given them up before.\<close>

definition check_end :: "bool \<Rightarrow> ws_pool \<Rightarrow> ws_pool \<times> nat list \<times> nat list" where
  "check_end healthy s =
     (case wp_probe s of
        None \<Rightarrow> (s, [], [])
      | Some (k, ws, d) \<Rightarrow>
          (let s1 = s\<lparr>wp_probe := None\<rparr> in
           if map_of (wp_checking s) ws = Some d
           then (let s2 = s1\<lparr>wp_checking := AList.delete ws (wp_checking s)\<rparr> in
             if healthy then (s2, [], []) else (set_bucket k (remove_ws ws (ws_bucket s k)) s2, [ws], []))
           else (s1, [], if healthy then [] else [ws])))"

fun schedule_low :: "time \<Rightarrow> (pool_key \<times> string list) list \<Rightarrow> ws_pool \<Rightarrow> ws_pool" where
  "schedule_low now [] s = s"
| "schedule_low now ((k, domains) # ks) s =
     schedule_low now ks (if length (ws_bucket s k) < wp_target s then schedule_refill k now domains s else s)"

definition rotate_end :: "time \<Rightarrow> ws_pool \<Rightarrow> ws_pool" where
  "rotate_end now s = schedule_low now (wp_domains s) s"

definition key_delay :: "time \<Rightarrow> ws_pool \<Rightarrow> pool_key \<Rightarrow> duration \<Rightarrow> duration" where
  "key_delay now s k delay =
     (let d = fold (\<lambda>p d. min d (max 1000000 (time_sub (pw_created p + pool_max_age) now))) (ws_bucket s k) delay in
      if map_of (wp_refilling s) k = None \<and> length (ws_bucket s k) < wp_target s
      then (case map_of (wp_refill_after s) k of None \<Rightarrow> d | Some after \<Rightarrow> if after = zero_time then d else min d (max 1000000 (time_sub after now)))
      else d)"

definition maintenance_delay :: "time \<Rightarrow> ws_pool \<Rightarrow> duration" where
  "maintenance_delay now s = fold (key_delay now s) (map fst (wp_domains s)) pool_check_interval"

definition ws_domains_for :: "int \<Rightarrow> bool \<Rightarrow> string list" where
  "ws_domains_for dc0 media =
     (let dc = (if dc0 = 203 then 2 else dc0); a = ''kws'' @ itoa dc @ ''-1.web.telegram.org''; b = ''kws'' @ itoa dc @ ''.web.telegram.org'' in
      if media then [a, b] else [b])"

section \<open>The contract of the pool of native endpoints\<close>

datatype ws_event =
    WsAcquire "nat \<Rightarrow> bool" pool_key time | WsSchedule pool_key time "string list" | WsRefillBegin nat
  | WsRefillResult nat "nat option" bool time | WsRefillEnd nat time | WsCheckBegin pool_key nat nat | WsCheckEnd bool
  | WsRotateEnd time | WsReset | WsStop

fun ws_step :: "ws_event \<Rightarrow> ws_pool \<Rightarrow> ws_pool \<times> nat list \<times> nat list \<times> nat list" where
  "ws_step (WsAcquire healthy k now) s =
     (case ws_acquire healthy k now s of (s', a, shut) \<Rightarrow> (s', (case a of WsLent ws \<Rightarrow> [ws] | _ \<Rightarrow> []), shut, []))"
| "ws_step (WsSchedule k now domains) s = (schedule_refill k now domains s, [], [], [])"
| "ws_step (WsRefillBegin i) s = (refill_begin i s, [], [], [])"
| "ws_step (WsRefillResult i ws queue_error now) s = (case refill_result i ws queue_error now s of (s', shut) \<Rightarrow> (s', [], shut, []))"
| "ws_step (WsRefillEnd i now) s = (refill_end i now s, [], [], [])"
| "ws_step (WsCheckBegin k ws generation) s = (check_begin k ws generation s, [], [], [])"
| "ws_step (WsCheckEnd healthy) s = (case check_end healthy s of (s', shut, again) \<Rightarrow> (s', [], shut, again))"
| "ws_step (WsRotateEnd now) s = (rotate_end now s, [], [], [])"
| "ws_step WsReset s = (case ws_reset s of (s', shut) \<Rightarrow> (s', [], shut, []))"
| "ws_step WsStop s = (s\<lparr>wp_done := True\<rparr>, [], [], [])"

fun ws_possible :: "ws_event \<Rightarrow> ws_pool \<Rightarrow> bool" where
  "ws_possible (WsRefillBegin i) s \<longleftrightarrow> i < length (wp_refills s) \<and> \<not> rl_started (wp_refills s ! i)"
| "ws_possible (WsRefillResult i ws queue_error now) s \<longleftrightarrow> i < length (wp_refills s) \<and> 0 < rl_left (wp_refills s ! i)"
| "ws_possible (WsRefillEnd i now) s \<longleftrightarrow> i < length (wp_refills s) \<and> rl_started (wp_refills s ! i) \<and> rl_left (wp_refills s ! i) = 0"
| "ws_possible (WsCheckBegin k ws generation) s \<longleftrightarrow> wp_probe s = None"
| "ws_possible (WsCheckEnd healthy) s \<longleftrightarrow> wp_probe s \<noteq> None"
| "ws_possible _ s \<longleftrightarrow> True"

fun ws_gets :: "ws_event \<Rightarrow> nat list" where
  "ws_gets (WsRefillResult i (Some ws) queue_error now) = [ws]"
| "ws_gets _ = []"

definition ws_owned :: "ws_pool \<Rightarrow> nat list" where
  "ws_owned s = map pw_ws (concat (map snd (wp_idle s)))"

text \<open>The connection under check when a reset took it away meanwhile.\<close>

definition ws_stale :: "ws_pool \<Rightarrow> nat set" where
  "ws_stale s = (case wp_probe s of None \<Rightarrow> {} | Some (k, ws, d) \<Rightarrow> if map_of (wp_checking s) ws = Some d then {} else {ws})"

definition check_ok :: "ws_pool \<Rightarrow> bool" where
  "check_ok s \<longleftrightarrow> wp_checking s = [] \<or>
     (case wp_probe s of None \<Rightarrow> False | Some (k, ws, d) \<Rightarrow> wp_checking s = [(ws, d)] \<and> ws \<in> pw_ws ` set (ws_bucket s k))"

text \<open>What the running refills of a key may still add.\<close>

definition left_of :: "pool_key \<Rightarrow> nat \<Rightarrow> refill \<Rightarrow> nat" where
  "left_of k g r = (if rl_key r = k \<and> rl_generation r = g then rl_left r else 0)"

fun pending_of :: "pool_key \<Rightarrow> nat \<Rightarrow> refill list \<Rightarrow> nat" where
  "pending_of k g [] = 0"
| "pending_of k g (r # rs) = left_of k g r + pending_of k g rs"

definition refills_ok :: "ws_pool \<Rightarrow> bool" where
  "refills_ok s \<longleftrightarrow> distinct (map (\<lambda>r. (rl_key r, rl_generation r)) (wp_refills s))
     \<and> (\<forall>r \<in> set (wp_refills s). rl_generation r \<le> wp_generation s
          \<and> (rl_generation r = wp_generation s \<longrightarrow> map_of (wp_refilling s) (rl_key r) = Some (rl_generation r))
          \<and> (\<not> rl_started r \<longrightarrow> rl_left r = 0))
     \<and> (\<forall>k. length (ws_bucket s k) + pending_of k (wp_generation s) (wp_refills s) \<le> wp_target s)"

definition ws_ok :: "ws_pool \<Rightarrow> bool" where
  "ws_ok s \<longleftrightarrow> distinct (map fst (wp_idle s)) \<and> check_ok s \<and> refills_ok s"

lemma at_key_update: "at_key (AList.update k b m) k' = (if k' = k then b else at_key m k')"
  by (simp add: at_key_def update_conv')

lemma set_bucket_simps [simp]:
  "ws_bucket (set_bucket k b s) k' = (if k' = k then b else ws_bucket s k')"
  "wp_target (set_bucket k b s) = wp_target s" "wp_checking (set_bucket k b s) = wp_checking s"
  "wp_probe (set_bucket k b s) = wp_probe s" "wp_refills (set_bucket k b s) = wp_refills s"
  "wp_generation (set_bucket k b s) = wp_generation s" "wp_refilling (set_bucket k b s) = wp_refilling s"
  "distinct (map fst (wp_idle s)) \<Longrightarrow> distinct (map fst (wp_idle (set_bucket k b s)))"
  by (simp_all add: set_bucket_def ws_bucket_def at_key_update distinct_update)

lemma owned_set_bucket:
  assumes "distinct (map fst (wp_idle s))"
  shows "mset (ws_owned (set_bucket k b s)) + mset (map pw_ws (ws_bucket s k)) = mset (ws_owned s) + mset (map pw_ws b)"
proof -
  have "mset (concat (map snd (AList.update k b m))) + mset (at_key m k) = mset (concat (map snd m)) + mset b"
    if "distinct (map fst m)" for m
    using that
  proof (induction m)
    case (Cons x m)
    then show ?case by (cases x) (auto simp: at_key_def ac_simps)
  qed (simp add: at_key_def)
  from this [OF assms] show ?thesis
    by (simp add: ws_owned_def set_bucket_def ws_bucket_def flip: image_mset_union mset_map) (metis image_mset_union mset_map)
qed

lemma bucket_owned: "set (map pw_ws (ws_bucket s k)) \<subseteq> set (ws_owned s)"
proof (cases "map_of (wp_idle s) k")
  case (Some b)
  then have "b \<in> set (map snd (wp_idle s))" by (force dest!: map_of_SomeD)
  then have "set b \<subseteq> set (concat (map snd (wp_idle s)))" by auto
  then show ?thesis using Some by (auto simp: ws_owned_def ws_bucket_def at_key_def)
qed (simp add: ws_bucket_def at_key_def)

definition option_list :: "'a option \<Rightarrow> 'a list" where
  "option_list o' = (case o' of None \<Rightarrow> [] | Some x \<Rightarrow> [x])"

lemma scan_bucket_props:
  "scan_bucket healthy now checking kept b shut waiting = (hit, rest, shut', waiting') \<Longrightarrow>
    mset (map pw_ws kept) + mset (map pw_ws b) + mset shut = mset (map pw_ws rest) + mset shut' + mset (option_list hit)
    \<and> length rest \<le> length kept + length b
    \<and> set kept \<subseteq> set rest \<and> (\<forall>p \<in> set b. map_of checking (pw_ws p) \<noteq> None \<longrightarrow> p \<in> set rest)
    \<and> (\<forall>ws. hit = Some ws \<longrightarrow> map_of checking ws = None \<and> healthy ws
          \<and> (\<exists>p \<in> set b. pw_ws p = ws \<and> time_sub now (pw_created p) < pool_max_age))"
proof (induction b arbitrary: kept shut waiting)
  case (Cons p b)
  show ?case
  proof (cases "map_of checking (pw_ws p)")
    case (Some d)
    then show ?thesis using Cons.prems Cons.IH [of "kept @ [p]" shut "Some d"] by auto
  next
    case None
    show ?thesis
    proof (cases "time_sub now (pw_created p) \<ge> pool_max_age \<or> \<not> healthy (pw_ws p)")
      case True
      then have "scan_bucket healthy now checking kept b (shut @ [pw_ws p]) waiting = (hit, rest, shut', waiting')"
        using Cons.prems None by auto
      then show ?thesis using Cons.IH [of kept "shut @ [pw_ws p]" waiting] None by auto
    next
      case False
      then show ?thesis using Cons.prems None by (auto simp: option_list_def)
    qed
  qed
qed (auto simp: option_list_def)

definition ws_safe :: "ws_pool \<Rightarrow> nat list \<Rightarrow> ws_pool \<times> nat list \<times> nat list \<times> nat list \<Rightarrow> bool" where
  "ws_safe s got r \<longleftrightarrow> (case r of (s', lent, shut, again) \<Rightarrow>
     ws_ok s' \<and> mset (ws_owned s) + mset got = mset (ws_owned s') + mset lent + mset shut
     \<and> set again \<subseteq> ws_stale s \<and> ws_stale s' \<subseteq> ws_stale s \<union> set shut)"

lemma acquire_safe:
  assumes "ws_ok s"
  shows "ws_safe s [] (ws_step (WsAcquire healthy k now) s)"
proof (cases "wp_target s = 0 \<or> pk_target k = [] \<or> wp_done s")
  case True
  then show ?thesis using assms by (auto simp: ws_acquire_def ws_safe_def)
next
  case False
  obtain hit rest shut waiting where sc: "scan_bucket healthy now (wp_checking s) [] (ws_bucket s k) [] None = (hit, rest, shut, waiting)"
    by (cases "scan_bucket healthy now (wp_checking s) [] (ws_bucket s k) [] None") auto
  note p = scan_bucket_props [OF sc]
  let ?s = "set_bucket k rest s"
  have d: "distinct (map fst (wp_idle s))" using assms by (simp add: ws_ok_def)
  have "check_ok ?s"
  proof (cases "wp_checking s = []")
    case False
    then obtain k' ws d where c: "wp_probe s = Some (k', ws, d)" "wp_checking s = [(ws, d)]" "ws \<in> pw_ws ` set (ws_bucket s k')"
      using assms by (auto simp: ws_ok_def check_ok_def split: option.splits)
    then have "k' = k \<Longrightarrow> ws \<in> pw_ws ` set rest" using p by (auto simp: image_iff)
    then show ?thesis using c by (auto simp: check_ok_def)
  qed (simp add: check_ok_def)
  moreover have "refills_ok ?s"
  proof -
    have "length (ws_bucket s k') + pending_of k' (wp_generation s) (wp_refills s) \<le> wp_target s" for k'
      using assms by (simp add: ws_ok_def refills_ok_def)
    then have "length (ws_bucket ?s k') + pending_of k' (wp_generation s) (wp_refills s) \<le> wp_target s" for k'
      using p by (cases "k' = k") (auto intro: order_trans [OF add_le_mono1])
    then show ?thesis using assms by (simp add: ws_ok_def refills_ok_def)
  qed
  ultimately have "ws_ok ?s" using d by (simp add: ws_ok_def)
  moreover have "mset (ws_owned s) = mset (ws_owned ?s) + mset (option_list hit) + mset shut"
    using owned_set_bucket [OF d, of k rest] p by (simp add: ac_simps)
  moreover have "ws_stale ?s = ws_stale s" by (simp add: ws_stale_def split: option.split prod.split)
  ultimately show ?thesis using False sc
    by (auto simp: ws_acquire_def ws_safe_def option_list_def split: option.splits)
qed

lemma pending_append: "pending_of k g (rs @ ts) = pending_of k g rs + pending_of k g ts"
  by (induction rs) simp_all

lemma pending_update: "i < length rs \<Longrightarrow> pending_of k g (rs[i := r']) + left_of k g (rs ! i) = pending_of k g rs + left_of k g r'"
proof (induction rs arbitrary: i)
  case (Cons r rs)
  then show ?case by (cases i) (simp_all add: add.assoc add.left_commute)
qed simp

lemma pending_zero: "(\<And>r. r \<in> set rs \<Longrightarrow> left_of k g r = 0) \<Longrightarrow> pending_of k g rs = 0"
  by (induction rs) simp_all

lemma pending_unique:
  assumes "distinct (map (\<lambda>r. (rl_key r, rl_generation r)) rs)" "r \<in> set rs"
  shows "pending_of (rl_key r) (rl_generation r) rs = rl_left r"
  using assms
proof (induction rs)
  case (Cons a rs)
  show ?case
  proof (cases "a = r")
    case True
    have "left_of (rl_key r) (rl_generation r) x = 0" if "x \<in> set rs" for x
      using Cons.prems(1) True that by (auto simp: left_of_def image_iff)
    then have "pending_of (rl_key r) (rl_generation r) rs = 0" by (rule pending_zero)
    then show ?thesis using True by (simp add: left_of_def)
  next
    case False
    then have "left_of (rl_key r) (rl_generation r) a = 0" using Cons.prems by (auto simp: image_iff left_of_def)
    then show ?thesis using Cons False by simp
  qed
qed simp

lemma same_pool_safe:
  assumes "ws_ok s" "refills_ok s'" "wp_idle s' = wp_idle s" "wp_checking s' = wp_checking s" "wp_probe s' = wp_probe s"
  shows "ws_safe s [] (s', [], [], [])"
  using assms by (auto simp: ws_safe_def ws_ok_def check_ok_def ws_owned_def ws_stale_def ws_bucket_def split: option.splits)

lemma schedule_ok_refills:
  assumes "refills_ok s"
  shows "refills_ok (schedule_refill k now domains s)"
proof (cases "wp_target s = 0 \<or> wp_done s \<or> map_of (wp_refilling s) k \<noteq> None")
  case True
  then show ?thesis using assms by (auto simp: schedule_refill_def refills_ok_def Let_def ws_bucket_def)
next
  case False
  then have "(rl_key r, rl_generation r) \<noteq> (k, wp_generation s)" if "r \<in> set (wp_refills s)" for r
    using assms that by (auto simp: refills_ok_def)
  then show ?thesis using assms False
    by (auto simp: schedule_refill_def refills_ok_def Let_def ws_bucket_def pending_append left_of_def update_conv' image_iff)
qed

lemma schedule_same [simp]:
  "wp_idle (schedule_refill k now domains s) = wp_idle s" "wp_checking (schedule_refill k now domains s) = wp_checking s"
  "wp_probe (schedule_refill k now domains s) = wp_probe s"
  by (simp_all add: schedule_refill_def Let_def)

lemma schedule_low_same:
  "wp_idle (schedule_low now ks s) = wp_idle s \<and> wp_checking (schedule_low now ks s) = wp_checking s
    \<and> wp_probe (schedule_low now ks s) = wp_probe s \<and> (refills_ok s \<longrightarrow> refills_ok (schedule_low now ks s))"
  by (induction now ks s rule: schedule_low.induct) (auto simp: schedule_ok_refills)

lemma refill_keys:
  assumes "refills_ok s" "i < length (wp_refills s)" "rl_key r' = rl_key (wp_refills s ! i)" "rl_generation r' = rl_generation (wp_refills s ! i)"
  shows "map (\<lambda>r. (rl_key r, rl_generation r)) ((wp_refills s)[i := r']) = map (\<lambda>r. (rl_key r, rl_generation r)) (wp_refills s)"
  using assms(2-4) by (simp add: map_update) (metis (no_types, lifting) list_update_id map_update)

lemma refill_update_ok:
  assumes "refills_ok s" "i < length (wp_refills s)" "rl_key r' = rl_key (wp_refills s ! i)" "rl_generation r' = rl_generation (wp_refills s ! i)"
    "rl_started r'" "wp_refills s' = (wp_refills s)[i := r']" "wp_generation s' = wp_generation s" "wp_refilling s' = wp_refilling s"
    "\<And>k. length (ws_bucket s' k) + pending_of k (wp_generation s) ((wp_refills s)[i := r']) \<le> wp_target s'"
  shows "refills_ok s'"
proof -
  have "rl_generation r \<le> wp_generation s \<and> (rl_generation r = wp_generation s \<longrightarrow> map_of (wp_refilling s) (rl_key r) = Some (rl_generation r))
      \<and> (\<not> rl_started r \<longrightarrow> rl_left r = 0)" if "r \<in> set ((wp_refills s)[i := r'])" for r
  proof (cases "r = r'")
    case True
    have "wp_refills s ! i \<in> set (wp_refills s)" using assms(2) by simp
    then show ?thesis using assms(1,3,4,5) True unfolding refills_ok_def by metis
  next
    case False
    then have "r \<in> set (wp_refills s)" using that set_update_subset_insert [of "wp_refills s" i r'] by auto
    then show ?thesis using assms(1) unfolding refills_ok_def by blast
  qed
  then show ?thesis using assms unfolding refills_ok_def by (simp add: refill_keys [OF assms(1-4)])
qed

lemma refill_begin_safe:
  assumes "ws_ok s" "i < length (wp_refills s)" "\<not> rl_started (wp_refills s ! i)"
  shows "ws_safe s [] (refill_begin i s, [], [], [])"
proof (rule same_pool_safe [OF assms(1)])
  have ok: "refills_ok s" using assms(1) by (simp add: ws_ok_def)
  let ?r = "wp_refills s ! i" and ?rs = "wp_refills s"
  let ?n = "wp_target s - length (ws_bucket s (rl_key ?r))"
  let ?q = "wp_done s \<or> wp_generation s \<noteq> rl_generation ?r \<or> ?n = 0"
  let ?r' = "?r\<lparr>rl_started := True, rl_quiet := ?q, rl_left := (if ?q then 0 else ?n)\<rparr>"
  have m: "?r \<in> set ?rs" using assms(2) by simp
  have z: "rl_left ?r = 0" using ok m assms(3) unfolding refills_ok_def by blast
  have b: "length (ws_bucket s k) + pending_of k (wp_generation s) ?rs \<le> wp_target s" for k using ok unfolding refills_ok_def by blast
  show "refills_ok (refill_begin i s)"
  proof (rule refill_update_ok [OF ok assms(2), of ?r'])
    show "length (ws_bucket (refill_begin i s) k) + pending_of k (wp_generation s) (?rs[i := ?r']) \<le> wp_target (refill_begin i s)" for k
    proof (cases "rl_key ?r = k \<and> rl_generation ?r = wp_generation s")
      case True
      then have "pending_of k (wp_generation s) ?rs = 0" using pending_unique [OF _ m] ok z by (auto simp: refills_ok_def)
      then have "pending_of k (wp_generation s) (?rs[i := ?r']) = rl_left ?r'"
        using pending_update [OF assms(2), of k "wp_generation s" ?r'] True z by (simp add: left_of_def)
      then show ?thesis using True b [of k] by (auto simp: refill_begin_def Let_def ws_bucket_def)
    next
      case False
      then show ?thesis using pending_update [OF assms(2), of k "wp_generation s" ?r'] b [of k]
        by (auto simp: refill_begin_def Let_def ws_bucket_def left_of_def)
    qed
  qed (simp_all add: refill_begin_def Let_def)
qed (simp_all add: refill_begin_def Let_def)

lemma refill_result_safe:
  assumes "ws_ok s" "i < length (wp_refills s)" "0 < rl_left (wp_refills s ! i)"
  shows "ws_safe s (ws_gets (WsRefillResult i ws queue_error now)) (ws_step (WsRefillResult i ws queue_error now) s)"
proof -
  have ok: "refills_ok s" and d: "distinct (map fst (wp_idle s))" using assms(1) by (simp_all add: ws_ok_def)
  let ?r = "wp_refills s ! i" and ?rs = "wp_refills s"
  have m: "?r \<in> set ?rs" using assms(2) by simp
  have st: "rl_started ?r" using ok m assms(3) unfolding refills_ok_def by fastforce
  have b: "length (ws_bucket s k) + pending_of k (wp_generation s) ?rs \<le> wp_target s" for k using ok unfolding refills_ok_def by blast
  have q: "refills_ok (s\<lparr>wp_refills := ?rs[i := r']\<rparr>)"
    if "rl_key r' = rl_key ?r" "rl_generation r' = rl_generation ?r" "rl_started r'" "rl_left r' = rl_left ?r - 1" for r'
  proof (rule refill_update_ok [OF ok assms(2) that(1,2,3)])
    show "length (ws_bucket (s\<lparr>wp_refills := ?rs[i := r']\<rparr>) k) + pending_of k (wp_generation s) (?rs[i := r']) \<le> wp_target (s\<lparr>wp_refills := ?rs[i := r']\<rparr>)" for k
      using pending_update [OF assms(2), of k "wp_generation s" r'] b [of k] that by (auto simp: left_of_def ws_bucket_def split: if_splits)
  qed simp_all
  let ?r1 = "?r\<lparr>rl_left := rl_left ?r - 1, rl_queue_only := rl_queue_only ?r \<and> queue_error\<rparr>"
  show ?thesis
  proof (cases ws)
    case None
    then show ?thesis using same_pool_safe [OF assms(1) q [of ?r1]] st by (simp add: refill_result_def Let_def)
  next
    case (Some w)
    show ?thesis
    proof (cases "\<not> wp_done s \<and> wp_generation s = rl_generation ?r")
      case False
      have "ws_safe s [] (s\<lparr>wp_refills := ?rs[i := ?r1]\<rparr>, [], [], [])" by (rule same_pool_safe [OF assms(1) q [of ?r1]]) (use st in simp_all)
      then show ?thesis using False Some by (auto simp: refill_result_def Let_def ws_safe_def)
    next
      case True
      let ?r2 = "?r1\<lparr>rl_connected := rl_connected ?r + 1\<rparr>" and ?k = "rl_key ?r"
      let ?b = "ws_bucket s ?k @ [\<lparr>pw_ws = w, pw_created = now\<rparr>]"
      let ?s = "set_bucket ?k ?b (s\<lparr>wp_refills := ?rs[i := ?r2]\<rparr>)"
      have bk: "ws_bucket (s\<lparr>wp_refills := x\<rparr>) k = ws_bucket s k" for x k by (simp add: ws_bucket_def)
      have "refills_ok ?s"
      proof (rule refill_update_ok [OF ok assms(2), of ?r2])
        show "length (ws_bucket ?s k) + pending_of k (wp_generation s) (?rs[i := ?r2]) \<le> wp_target ?s" for k
          using pending_update [OF assms(2), of k "wp_generation s" ?r2] b [of k] True assms(3) by (auto simp: left_of_def bk)
      qed (use st in simp_all)
      moreover have "check_ok ?s"
        using assms(1) by (auto simp: ws_ok_def check_ok_def bk split: option.splits)
      ultimately have "ws_ok ?s" using d by (simp add: ws_ok_def)
      moreover have "mset (ws_owned ?s) = mset (ws_owned s) + {#w#}"
        using owned_set_bucket [of "s\<lparr>wp_refills := ?rs[i := ?r2]\<rparr>" ?k ?b] d by (simp add: bk ws_owned_def)
      moreover have "ws_stale ?s = ws_stale s" by (simp add: ws_stale_def split: option.split prod.split)
      ultimately show ?thesis using True Some by (simp add: refill_result_def Let_def ws_safe_def)
    qed
  qed
qed

lemma pending_drop: "i < length rs \<Longrightarrow> rl_left (rs ! i) = 0 \<Longrightarrow> pending_of k g (take i rs @ drop (Suc i) rs) = pending_of k g rs"
proof (induction rs arbitrary: i)
  case (Cons r rs)
  then show ?case by (cases i) (auto simp: left_of_def)
qed simp

lemma refill_end_safe:
  assumes "ws_ok s" "i < length (wp_refills s)" "rl_left (wp_refills s ! i) = 0"
  shows "ws_safe s [] (refill_end i now s, [], [], [])"
proof -
  let ?r = "wp_refills s ! i" and ?rs = "wp_refills s"
  let ?left = "take i ?rs @ drop (Suc i) ?rs"
  have ok: "refills_ok s" using assms(1) by (simp add: ws_ok_def)
  have split: "?rs = take i ?rs @ ?r # drop (Suc i) ?rs" using assms(2) by (rule id_take_nth_drop)
  have d: "distinct (map (\<lambda>r. (rl_key r, rl_generation r)) (take i ?rs @ ?r # drop (Suc i) ?rs))"
    using ok split by (simp add: refills_ok_def)
  have sub: "set ?left \<subseteq> set ?rs" by (auto dest: in_set_takeD in_set_dropD)
  have other: "(rl_key r, rl_generation r) \<noteq> (rl_key ?r, rl_generation ?r)" if "r \<in> set ?left" for r
    using d that by (auto simp: image_iff)
  have "refills_ok (drop_refill i s0)"
    if "wp_refills s0 = ?rs" "wp_refilling s0 = wp_refilling s" "wp_generation s0 = wp_generation s" "wp_idle s0 = wp_idle s" "wp_target s0 = wp_target s" for s0
  proof -
    let ?R = "if map_of (wp_refilling s) (rl_key ?r) = Some (rl_generation ?r) then AList.delete (rl_key ?r) (wp_refilling s)
      else wp_refilling s"
    have R: "map_of ?R (rl_key r) = Some (rl_generation r)"
      if "r \<in> set ?left" "map_of (wp_refilling s) (rl_key r) = Some (rl_generation r)" for r
      using that(2) other [OF that(1)] by (auto simp: delete_conv')
    have "\<forall>r \<in> set ?left. rl_generation r \<le> wp_generation s
        \<and> (rl_generation r = wp_generation s \<longrightarrow> map_of ?R (rl_key r) = Some (rl_generation r))
        \<and> (\<not> rl_started r \<longrightarrow> rl_left r = 0)"
      using ok sub R unfolding refills_ok_def by blast
    moreover have "distinct (map (\<lambda>r. (rl_key r, rl_generation r)) ?left)" using d by simp
    moreover have "length (ws_bucket s k) + pending_of k (wp_generation s) ?left \<le> wp_target s" for k
      using ok pending_drop [OF assms(2,3)] by (simp add: refills_ok_def)
    moreover have "wp_refills (drop_refill i s0) = ?left" "wp_refilling (drop_refill i s0) = ?R"
      "wp_generation (drop_refill i s0) = wp_generation s" "wp_target (drop_refill i s0) = wp_target s"
      "ws_bucket (drop_refill i s0) k = ws_bucket s k" for k
      using that by (simp_all add: drop_refill_def Let_def ws_bucket_def)
    ultimately show ?thesis unfolding refills_ok_def by simp
  qed
  then have "refills_ok (refill_end i now s)" by (simp add: refill_end_def Let_def)
  then show ?thesis
    by (rule same_pool_safe [OF assms(1)]) (simp_all add: refill_end_def drop_refill_def Let_def)
qed

lemma check_begin_safe:
  assumes "ws_ok s" "wp_probe s = None"
  shows "ws_safe s [] (check_begin k ws generation s, [], [], [])"
  using assms by (auto simp: check_begin_def ws_safe_def ws_ok_def check_ok_def refills_ok_def ws_stale_def ws_owned_def ws_bucket_def)

lemma remove_ws_mset: "ws \<in> pw_ws ` set b \<Longrightarrow> mset (map pw_ws b) = mset (map pw_ws (remove_ws ws b)) + {#ws#}"
  by (induction b) auto

lemma length_remove_ws: "length (remove_ws ws b) \<le> length b"
  by (induction b) auto

lemma check_end_safe:
  assumes "ws_ok s"
  shows "ws_safe s [] (ws_step (WsCheckEnd healthy) s)"
proof (cases "wp_probe s")
  case None
  then show ?thesis using assms by (simp add: check_end_def ws_safe_def)
next
  case (Some p)
  obtain k ws d where p: "p = (k, ws, d)" by (cases p) auto
  note ok = assms [unfolded ws_ok_def]
  show ?thesis
  proof (cases "map_of (wp_checking s) ws = Some d")
    case False
    then have "wp_checking s = []" using ok Some p by (auto simp: check_ok_def)
    then show ?thesis using ok Some p
      by (auto simp: check_end_def ws_safe_def ws_ok_def check_ok_def refills_ok_def ws_stale_def ws_owned_def ws_bucket_def)
  next
    case True
    then have c: "wp_checking s = [(ws, d)]" "ws \<in> pw_ws ` set (ws_bucket s k)" using ok Some p by (auto simp: check_ok_def)
    let ?s = "s\<lparr>wp_probe := None, wp_checking := []\<rparr>" and ?b = "remove_ws ws (ws_bucket s k)"
    have bk: "ws_bucket ?s k' = ws_bucket s k'" for k' by (simp add: ws_bucket_def)
    have "refills_ok ?s" using ok by (simp add: refills_ok_def bk)
    moreover have "refills_ok (set_bucket k ?b ?s)"
    proof -
      have "length (ws_bucket s k') + pending_of k' (wp_generation s) (wp_refills s) \<le> wp_target s" for k'
        using ok by (simp add: refills_ok_def)
      then have "length (ws_bucket (set_bucket k ?b ?s) k') + pending_of k' (wp_generation s) (wp_refills s) \<le> wp_target s" for k'
        using length_remove_ws [of ws "ws_bucket s k"] by (cases "k' = k") (auto simp: bk intro: order_trans [OF add_le_mono1])
      then show ?thesis using ok by (simp add: refills_ok_def)
    qed
    moreover have "mset (ws_owned s) = mset (ws_owned (set_bucket k ?b ?s)) + {#ws#}"
      using owned_set_bucket [of ?s k ?b] ok remove_ws_mset [OF c(2)] by (simp add: bk) (simp add: ws_owned_def)
    ultimately show ?thesis using ok Some p True c(1)
      by (auto simp: check_end_def ws_safe_def ws_ok_def check_ok_def ws_stale_def ws_owned_def Let_def)
  qed
qed

lemma reset_safe:
  assumes "ws_ok s"
  shows "ws_safe s [] (ws_step WsReset s)"
proof -
  have st: "ws_stale (fst (ws_reset s)) \<subseteq> ws_stale s \<union> set (ws_owned s)"
  proof (cases "wp_probe s")
    case (Some p)
    then show ?thesis using assms bucket_owned [of s "fst p"]
      by (cases p) (auto simp: ws_reset_def ws_stale_def ws_ok_def check_ok_def)
  qed (simp add: ws_reset_def ws_stale_def)
  have "pending_of k (wp_generation s + 1) (wp_refills s) = 0" for k
    by (rule pending_zero) (use assms in \<open>auto simp: left_of_def ws_ok_def refills_ok_def\<close>)
  moreover have "r \<in> set (wp_refills s) \<Longrightarrow> rl_generation r \<le> wp_generation s" for r
    using assms by (simp add: ws_ok_def refills_ok_def)
  ultimately have "ws_ok (fst (ws_reset s))" using assms
    by (fastforce simp: ws_reset_def ws_ok_def check_ok_def refills_ok_def ws_bucket_def at_key_def)
  then show ?thesis using st by (simp add: ws_safe_def ws_reset_def ws_owned_def)
qed

lemma ws_step_safe:
  assumes "ws_ok s" "ws_possible e s"
  shows "ws_safe s (ws_gets e) (ws_step e s)"
proof (cases e)
  case (WsRefillResult i ws queue_error now)
  then show ?thesis using refill_result_safe [OF assms(1)] assms(2) by simp
next
  case (WsRotateEnd now)
  then show ?thesis using same_pool_safe [OF assms(1)] schedule_low_same [of now "wp_domains s" s] assms(1)
    by (simp add: rotate_end_def ws_ok_def)
next
  case (WsSchedule k now domains)
  then show ?thesis using same_pool_safe [OF assms(1) schedule_ok_refills] assms(1) by (simp add: ws_ok_def)
next
  case WsStop
  then show ?thesis using assms(1)
    by (auto simp: ws_safe_def ws_ok_def check_ok_def refills_ok_def ws_bucket_def ws_owned_def ws_stale_def split: option.splits)
qed (use assms acquire_safe [OF assms(1)] refill_begin_safe [OF assms(1)] refill_end_safe [OF assms(1)] check_begin_safe [OF assms(1)]
    check_end_safe [OF assms(1)] reset_safe [OF assms(1)] in auto)

lemma new_ws_pool_ok: "ws_ok (new_ws_pool target) \<and> ws_owned (new_ws_pool target) = [] \<and> ws_stale (new_ws_pool target) = {}"
  by (simp add: ws_ok_def new_ws_pool_def check_ok_def refills_ok_def ws_bucket_def at_key_def ws_owned_def ws_stale_def)

interpretation ws: lending_pool ws_step ws_possible ws_gets "new_ws_pool target" ws_owned ws_stale ws_ok for target
proof unfold_locales
  fix s e s' lent shut again
  assume a: "ws_ok s" "ws_possible e s" "ws_step e s = (s', lent, shut, again)"
  note safe = ws_step_safe [OF a(1,2), unfolded a(3) ws_safe_def prod.case]
  show "ws_ok s'" "mset (ws_owned s @ ws_gets e) = mset (ws_owned s' @ lent @ shut)"
    "set again \<subseteq> ws_stale s \<and> ws_stale s' \<subseteq> ws_stale s \<union> set shut"
    using safe by (simp_all add: ac_simps)
qed (simp_all add: new_ws_pool_ok)

text \<open>(C39) The pool never lends a connection twice, never closes one it lent, and loses none: whatever a dial delivered is idle in
  the pool, was lent, or was closed; and no bucket ever holds more than the configured number, although refills, health
  checks and resets run concurrently.\<close>

theorem pooled_connections_safe:
  assumes "pool_run ws_step ws_possible ws_gets (new_ws_pool target) s lent shut again got"
  shows "distinct lent \<and> set lent \<inter> (set shut \<union> set again) = {} \<and> set lent \<inter> set (ws_owned s) = {}
    \<and> set got = set (ws_owned s) \<union> set lent \<union> set shut
    \<and> length (ws_bucket s k) \<le> nat target"
proof -
  have "wp_target s = nat target"
    using assms
  proof (induction rule: pool_run.induct)
    case (pool_step s lent shut again got e s' lent' shut' again')
    have low: "wp_target (schedule_refill k now domains s) = wp_target s" for k now domains s by (simp add: schedule_refill_def Let_def)
    have "wp_target (schedule_low now ks s) = wp_target s" for now ks s
      by (induction now ks s rule: schedule_low.induct) (simp_all add: low)
    then have "wp_target (fst (ws_step e s)) = wp_target s"
      by (cases e) (auto simp: low ws_acquire_def refill_begin_def refill_result_def refill_end_def drop_refill_def check_begin_def
        check_end_def rotate_end_def ws_reset_def Let_def split: option.splits prod.splits)
    then show ?case using pool_step by simp
  qed (simp add: new_ws_pool_def)
  moreover have "refills_ok s" using ws.run_conserves [OF assms] by (simp add: ws_ok_def)
  ultimately have "length (ws_bucket s k) \<le> nat target" by (auto simp: refills_ok_def dest: spec [of _ k])
  then show ?thesis using ws.run_safe [OF assms] by simp
qed

definition demo_pool_key :: pool_key where
  "demo_pool_key = \<lparr>pk_dc = 2, pk_media = False, pk_test = False, pk_target = ''1''\<rparr>"

definition demo_pool_events :: "ws_event list" where
  "demo_pool_events = [WsSchedule demo_pool_key 5 [''d''], WsRefillBegin 0, WsRefillResult 0 (Some 7) False 6, WsRefillResult 0 (Some 8) False 6,
     WsRefillEnd 0 6, WsCheckBegin demo_pool_key 7 0, WsAcquire (\<lambda>_. True) demo_pool_key 7, WsReset, WsCheckEnd False]"

lemma pooled_connections_safe_witness:
  "case play_pool ws_step ws_possible ws_gets demo_pool_events (new_ws_pool 2, [], [], [], []) of
     None \<Rightarrow> False
   | Some (s, lent, shut, again, got) \<Rightarrow> lent = [8] \<and> shut = [7] \<and> again = [7] \<and> distinct lent \<and> set lent \<inter> (set shut \<union> set again) = {}
       \<and> set got = set (ws_owned s) \<union> set lent \<union> set shut \<and> length (ws_bucket s demo_pool_key) \<le> 2"
proof -
  have "case play_pool ws_step ws_possible ws_gets demo_pool_events (new_ws_pool 2, [], [], [], []) of
     None \<Rightarrow> False | Some (s, lent, shut, again, got) \<Rightarrow> lent = [8] \<and> shut = [7] \<and> again = [7]"
    by code_simp
  then obtain s got where r: "play_pool ws_step ws_possible ws_gets demo_pool_events (new_ws_pool 2, [], [], [], []) = Some (s, [8], [7], [7], got)"
    by (auto split: option.splits)
  show ?thesis using pooled_connections_safe [OF play_pool_run [OF r pool_start], of demo_pool_key] by (simp add: r insert_commute)
qed

text \<open>What the pool lends is healthy, younger than two minutes, and not under a health check.\<close>

theorem lent_connections_fresh:
  "case ws_acquire healthy k now s of (s', a, shut) \<Rightarrow>
     (case a of
        WsLent ws \<Rightarrow> healthy ws \<and> map_of (wp_checking s) ws = None
          \<and> list_ex (\<lambda>p. pw_ws p = ws \<and> time_sub now (pw_created p) < secs 120) (ws_bucket s k)
      | _ \<Rightarrow> True)"
proof -
  obtain hit rest shut waiting where sc: "scan_bucket healthy now (wp_checking s) [] (ws_bucket s k) [] None = (hit, rest, shut, waiting)"
    by (cases "scan_bucket healthy now (wp_checking s) [] (ws_bucket s k) [] None") auto
  show ?thesis using scan_bucket_props [OF sc]
    by (auto simp: ws_acquire_def sc list_ex_iff pool_max_age_def split: option.splits)
qed

lemma refill_backoff_bounds: "secs 1 \<le> refill_backoff n \<and> refill_backoff n \<le> secs 3600"
proof -
  have "(1 :: int) \<le> 2 ^ min 12 (n - 1)" by simp
  then show ?thesis by (simp add: refill_backoff_def secs_def Let_def)
qed

lemma maintenance_delay_bounds: "1000000 \<le> maintenance_delay now s \<and> maintenance_delay now s \<le> pool_check_interval"
proof -
  have items: "1000000 \<le> fold (\<lambda>p d. min d (max 1000000 (time_sub (pw_created p + pool_max_age) now))) b delay
      \<and> fold (\<lambda>p d. min d (max 1000000 (time_sub (pw_created p + pool_max_age) now))) b delay \<le> delay"
    if "1000000 \<le> delay" for b delay
    using that
  proof (induction b arbitrary: delay)
    case (Cons p b)
    then show ?case using Cons.IH [of "min delay (max 1000000 (time_sub (pw_created p + pool_max_age) now))"] by simp
  qed simp
  have key: "1000000 \<le> key_delay now s k delay \<and> key_delay now s k delay \<le> delay" if "1000000 \<le> delay" for k delay
    using items [OF that, of "ws_bucket s k"] by (auto simp: key_delay_def Let_def split: option.splits)
  have "1000000 \<le> fold (key_delay now s) ks delay \<and> fold (key_delay now s) ks delay \<le> delay" if "1000000 \<le> delay" for ks delay
    using that
  proof (induction ks arbitrary: delay)
    case (Cons k ks)
    have step: "1000000 \<le> key_delay now s k delay" "key_delay now s k delay \<le> delay" using key [OF Cons.prems, of k] by simp_all
    show ?case using Cons.IH [OF step(1)] order_trans [OF _ step(2)] by simp
  qed simp
  then show ?thesis unfolding maintenance_delay_def by (simp add: pool_check_interval_def secs_def)
qed

section \<open>Opening one connection\<close>

text \<open>
  \<open>connectOneResult\<close>. The outcomes of the dials, the preference for fronting read at each domain and the state of the context
  before and after each dial are arguments; so is the answer of the wait for one of the four dial slots.
\<close>

datatype dial_error = QueueError | DialFailed string | ContextDone

record dial_env =
  de_slot :: bool
  de_prefer :: "nat \<Rightarrow> bool"
  de_before :: "nat \<Rightarrow> bool \<Rightarrow> bool"
  de_dial :: "nat \<Rightarrow> bool \<Rightarrow> nat option \<times> dial_error option"
  de_after :: "nat \<Rightarrow> bool \<Rightarrow> bool"

text \<open>What a loop leaves: the function returned, with the preference it stored, or goes on with the last failure; and the count of \<open>wsErrors\<close>.\<close>

datatype dial_state = DialReturn "nat option" "dial_error option" "(nat \<times> bool) option" nat | DialOn "dial_error option" nat

definition dial_once :: "dial_env \<Rightarrow> nat \<Rightarrow> bool \<Rightarrow> dial_error option \<Rightarrow> nat \<Rightarrow> dial_state" where
  "dial_once env i fronted failure errors =
     (if de_before env i fronted then DialReturn None (Some ContextDone) None errors
      else (case de_dial env i fronted of
          (Some ws, None) \<Rightarrow> DialReturn (Some ws) None (Some (i, fronted)) errors
        | (_, err) \<Rightarrow>
            (if err = Some QueueError then DialReturn None (if failure \<noteq> None then failure else err) None errors
             else if de_after env i fronted then DialReturn None (Some ContextDone) None errors
             else DialOn err (errors + 1))))"

definition dial_modes :: "bool \<Rightarrow> dial_env \<Rightarrow> nat \<Rightarrow> bool list" where
  "dial_modes fronting env i = (if fronting then [de_prefer env i, \<not> de_prefer env i] else [False])"

fun connect_modes :: "dial_env \<Rightarrow> nat \<Rightarrow> bool list \<Rightarrow> dial_error option \<Rightarrow> nat \<Rightarrow> dial_state" where
  "connect_modes env i [] failure errors = DialOn failure errors"
| "connect_modes env i (m # ms) failure errors =
     (case dial_once env i m failure errors of DialOn f n \<Rightarrow> connect_modes env i ms f n | r \<Rightarrow> r)"

fun connect_domains :: "bool \<Rightarrow> dial_env \<Rightarrow> nat \<Rightarrow> string list \<Rightarrow> dial_error option \<Rightarrow> nat \<Rightarrow> dial_state" where
  "connect_domains fronting env i [] failure errors = DialOn failure errors"
| "connect_domains fronting env i (d # ds) failure errors =
     (case connect_modes env i (dial_modes fronting env i) failure errors of
        DialOn f n \<Rightarrow> connect_domains fronting env (i + 1) ds f n
      | r \<Rightarrow> r)"

definition connect_one :: "bool \<Rightarrow> dial_env \<Rightarrow> string list \<Rightarrow> nat option \<times> dial_error option \<times> (nat \<times> bool) option \<times> nat" where
  "connect_one fronting env domains =
     (if \<not> de_slot env then (None, Some ContextDone, None, 0)
      else (case connect_domains fronting env 0 domains None 0 of
          DialReturn ws err pref n \<Rightarrow> (ws, err, pref, n)
        | DialOn f n \<Rightarrow> (None, f, None, n)))"

text \<open>The server name and the time limit, in seconds, of a dial.\<close>

definition dial_plan :: "string list \<Rightarrow> nat \<Rightarrow> bool \<Rightarrow> string \<times> nat" where
  "dial_plan domains i fronted = (if fronted then (''sprinthost.ru'', 7) else (domains ! i, 8))"

definition first_fronted :: "bool \<Rightarrow> dial_env \<Rightarrow> nat \<Rightarrow> nat \<Rightarrow> (nat \<times> bool) list" where
  "first_fronted fronting env i n = concat (map (\<lambda>j. map (Pair j) (dial_modes fronting env j)) [i..<n])"

text \<open>The nested loops are one walk over the attempts, in order.\<close>

fun walk_attempts :: "dial_env \<Rightarrow> (nat \<times> bool) list \<Rightarrow> dial_error option \<Rightarrow> nat \<Rightarrow> dial_state" where
  "walk_attempts env [] failure errors = DialOn failure errors"
| "walk_attempts env ((i, m) # as) failure errors =
     (case dial_once env i m failure errors of DialOn f n \<Rightarrow> walk_attempts env as f n | r \<Rightarrow> r)"

lemma walk_append: "walk_attempts env (as @ bs) f n = (case walk_attempts env as f n of DialOn f' n' \<Rightarrow> walk_attempts env bs f' n' | r \<Rightarrow> r)"
  by (induction env as f n rule: walk_attempts.induct) (auto split: dial_state.split)

lemma connect_modes_walk: "connect_modes env i ms f n = walk_attempts env (map (Pair i) ms) f n"
  by (induction ms arbitrary: f n) (auto split: dial_state.split)

lemma connect_domains_walk:
  "connect_domains fronting env i ds f n = walk_attempts env (first_fronted fronting env i (i + length ds)) f n"
proof (induction ds arbitrary: i f n)
  case (Cons d ds)
  have "first_fronted fronting env i (i + length (d # ds))
      = map (Pair i) (dial_modes fronting env i) @ first_fronted fronting env (i + 1) (i + 1 + length ds)"
    unfolding first_fronted_def by (subst upt_conv_Cons) simp_all
  then show ?case by (simp add: Cons.IH connect_modes_walk walk_append split: dial_state.split)
qed (simp add: first_fronted_def)

text \<open>A connection comes from the first attempt that delivers one: every attempt before it was made and failed for another reason
  than the full queue of handshakes, and the context was alive throughout.\<close>

definition attempt_fails :: "dial_env \<Rightarrow> nat \<times> bool \<Rightarrow> bool" where
  "attempt_fails env a = (case a of (i, m) \<Rightarrow> \<not> de_before env i m \<and> \<not> de_after env i m
     \<and> (case de_dial env i m of (ws, err) \<Rightarrow> (ws = None \<or> err \<noteq> None) \<and> err \<noteq> Some QueueError))"

lemma dial_once_fails: "attempt_fails env (i, m) \<Longrightarrow> \<exists>f'. dial_once env i m f n = DialOn f' (n + 1)"
  by (auto simp: attempt_fails_def dial_once_def split: prod.splits option.splits)

lemma dial_once_goes_on: "dial_once env i m f n = DialOn f' n' \<Longrightarrow> attempt_fails env (i, m) \<and> n' = n + 1"
  by (auto simp: attempt_fails_def dial_once_def split: prod.splits option.splits if_splits)

lemma dial_once_wins:
  "dial_once env i m f n = DialReturn (Some ws) e p n' \<longleftrightarrow>
    \<not> de_before env i m \<and> de_dial env i m = (Some ws, None) \<and> e = None \<and> p = Some (i, m) \<and> n' = n"
  by (auto simp: dial_once_def split: prod.splits option.splits if_splits)

definition connects :: "dial_env \<Rightarrow> nat \<times> bool \<Rightarrow> nat \<Rightarrow> bool" where
  "connects env a ws \<longleftrightarrow> (case a of (i, m) \<Rightarrow> \<not> de_before env i m \<and> de_dial env i m = (Some ws, None))"

lemma walk_wins:
  "(\<exists>e p n'. walk_attempts env as f n = DialReturn (Some ws) e p n') \<longleftrightarrow>
    (case dropWhile (attempt_fails env) as of [] \<Rightarrow> False | a # _ \<Rightarrow> connects env a ws)"
proof (induction env as f n rule: walk_attempts.induct)
  case (2 env i m as f n)
  show ?case
  proof (cases "dial_once env i m f n")
    case (DialOn f' k)
    then show ?thesis using 2 [OF DialOn] dial_once_goes_on [OF DialOn] by simp
  next
    case (DialReturn w e p k)
    have no: "\<not> attempt_fails env (i, m)" using dial_once_fails [of env i m f n] DialReturn by auto
    have "(\<exists>e p n'. walk_attempts env ((i, m) # as) f n = DialReturn (Some ws) e p n') \<longleftrightarrow> w = Some ws" using DialReturn by simp
    also have "\<dots> \<longleftrightarrow> (\<exists>e p n'. dial_once env i m f n = DialReturn (Some ws) e p n')" using DialReturn by auto
    also have "\<dots> \<longleftrightarrow> connects env (i, m) ws" by (simp only: dial_once_wins) (auto simp: connects_def)
    finally show ?thesis using no by simp
  qed
qed simp

lemma connect_one_first:
  "fst (connect_one fronting env domains) = Some ws \<longleftrightarrow> de_slot env
    \<and> (case dropWhile (attempt_fails env) (first_fronted fronting env 0 (length domains)) of [] \<Rightarrow> False | a # _ \<Rightarrow> connects env a ws)"
proof -
  have "fst (connect_one fronting env domains) = Some ws \<longleftrightarrow>
      de_slot env \<and> (\<exists>e p n. walk_attempts env (first_fronted fronting env 0 (length domains)) None 0 = DialReturn (Some ws) e p n)"
    by (auto simp: connect_one_def connect_domains_walk split: dial_state.splits)
  then show ?thesis by (simp only: walk_wins)
qed

section \<open>The pool of worker domains\<close>

record worker_key =
  wk_dc :: int
  wk_target :: string

record pooled_worker =
  pk_ws :: nat
  pk_created :: time
  pk_domain :: string

record worker_refill =
  wr_key :: worker_key
  wr_generation :: nat
  wr_cancelled :: bool
  wr_dialing :: bool

record worker_pool =
  cp_target :: nat
  cp_idle :: "(worker_key \<times> pooled_worker list) list"
  cp_refilling :: "(worker_key \<times> nat) list"
  cp_refills :: "worker_refill list"
  cp_generation :: nat
  cp_closed :: bool

definition new_worker_pool :: "int \<Rightarrow> worker_pool" where
  "new_worker_pool target = \<lparr>cp_target = nat (min 1 target), cp_idle = [], cp_refilling = [], cp_refills = [], cp_generation = 0, cp_closed = False\<rparr>"

fun scan_workers :: "(nat \<Rightarrow> bool) \<Rightarrow> time \<Rightarrow> string list \<Rightarrow> pooled_worker list \<Rightarrow> nat list \<Rightarrow> pooled_worker option \<times> pooled_worker list \<times> nat list" where
  "scan_workers healthy now domains [] shut = (None, [], shut)"
| "scan_workers healthy now domains (p # ps) shut =
     (if pk_domain p \<notin> set domains \<or> time_sub now (pk_created p) \<ge> secs 100 \<or> \<not> healthy (pk_ws p)
      then scan_workers healthy now domains ps (shut @ [pk_ws p])
      else (Some p, ps, shut))"

definition worker_acquire :: "(nat \<Rightarrow> bool) \<Rightarrow> worker_key \<Rightarrow> string list \<Rightarrow> time \<Rightarrow> worker_pool \<Rightarrow> worker_pool \<times> pooled_worker option \<times> nat list" where
  "worker_acquire healthy k domains now s =
     (if cp_closed s then (s, None, [])
      else (case scan_workers healthy now domains (at_key (cp_idle s) k) [] of
          (hit, rest, shut) \<Rightarrow> (s\<lparr>cp_idle := AList.update k rest (cp_idle s)\<rparr>, hit, shut)))"

definition worker_schedule :: "worker_key \<Rightarrow> worker_pool \<Rightarrow> worker_pool" where
  "worker_schedule k s =
     (if cp_target s = 0 \<or> map_of (cp_refilling s) k \<noteq> None \<or> cp_closed s then s
      else s\<lparr>cp_refilling := AList.update k (cp_generation s) (cp_refilling s),
             cp_refills := cp_refills s @ [\<lparr>wr_key = k, wr_generation = cp_generation s, wr_cancelled = False, wr_dialing = False\<rparr>]\<rparr>)"

definition worker_refill_exit :: "nat \<Rightarrow> worker_pool \<Rightarrow> worker_pool" where
  "worker_refill_exit i s =
     (let r = cp_refills s ! i in
      s\<lparr>cp_refills := take i (cp_refills s) @ drop (Suc i) (cp_refills s),
        cp_refilling := (if map_of (cp_refilling s) (wr_key r) = Some (wr_generation r)
          then AList.delete (wr_key r) (cp_refilling s) else cp_refilling s)\<rparr>)"

definition worker_refill_begin :: "nat \<Rightarrow> worker_pool \<Rightarrow> worker_pool" where
  "worker_refill_begin i s =
     (let r = cp_refills s ! i in
      if cp_target s \<le> length (at_key (cp_idle s) (wr_key r)) \<or> cp_closed s \<or> wr_generation r \<noteq> cp_generation s \<or> wr_cancelled r
      then worker_refill_exit i s else s\<lparr>cp_refills := (cp_refills s)[i := r\<lparr>wr_dialing := True\<rparr>]\<rparr>)"

text \<open>A dial of one domain succeeded, failed for good, or failed so that the next domain is tried.\<close>

datatype worker_dial = DialConnected nat string | DialStop | DialNext

definition worker_refill_dial :: "nat \<Rightarrow> worker_dial \<Rightarrow> time \<Rightarrow> worker_pool \<Rightarrow> worker_pool \<times> nat list" where
  "worker_refill_dial i dial now s =
     (let r = cp_refills s ! i in
      case dial of
        DialNext \<Rightarrow> (s, [])
      | DialStop \<Rightarrow> (worker_refill_exit i s, [])
      | DialConnected ws domain \<Rightarrow>
          (if cp_closed s \<or> wr_cancelled r \<or> wr_generation r \<noteq> cp_generation s then (worker_refill_exit i s, [ws])
           else (worker_refill_exit i (s\<lparr>cp_idle := AList.update (wr_key r)
                   (at_key (cp_idle s) (wr_key r) @ [\<lparr>pk_ws = ws, pk_created = now, pk_domain = domain\<rparr>]) (cp_idle s)\<rparr>), [])))"

definition worker_clear :: "worker_pool \<Rightarrow> worker_pool \<times> nat list" where
  "worker_clear s =
     (s\<lparr>cp_generation := cp_generation s + 1, cp_idle := [], cp_refilling := [],
        cp_refills := map (\<lambda>r. r\<lparr>wr_cancelled := True\<rparr>) (cp_refills s)\<rparr>, map pk_ws (concat (map snd (cp_idle s))))"

definition worker_close :: "worker_pool \<Rightarrow> worker_pool \<times> nat list" where
  "worker_close s = (if cp_closed s then (s, []) else worker_clear (s\<lparr>cp_closed := True\<rparr>))"

datatype worker_event =
    WorkerAcquire "nat \<Rightarrow> bool" worker_key "string list" time | WorkerSchedule worker_key | WorkerBegin nat
  | WorkerDial nat worker_dial time | WorkerReset | WorkerClose

fun worker_step :: "worker_event \<Rightarrow> worker_pool \<Rightarrow> worker_pool \<times> nat list \<times> nat list \<times> nat list" where
  "worker_step (WorkerAcquire healthy k domains now) s =
     (case worker_acquire healthy k domains now s of (s', hit, shut) \<Rightarrow> (s', map pk_ws (option_list hit), shut, []))"
| "worker_step (WorkerSchedule k) s = (worker_schedule k s, [], [], [])"
| "worker_step (WorkerBegin i) s = (worker_refill_begin i s, [], [], [])"
| "worker_step (WorkerDial i dial now) s = (case worker_refill_dial i dial now s of (s', shut) \<Rightarrow> (s', [], shut, []))"
| "worker_step WorkerReset s = (case worker_clear s of (s', shut) \<Rightarrow> (s', [], shut, []))"
| "worker_step WorkerClose s = (case worker_close s of (s', shut) \<Rightarrow> (s', [], shut, []))"

fun worker_possible :: "worker_event \<Rightarrow> worker_pool \<Rightarrow> bool" where
  "worker_possible (WorkerBegin i) s \<longleftrightarrow> i < length (cp_refills s) \<and> \<not> wr_dialing (cp_refills s ! i)"
| "worker_possible (WorkerDial i dial now) s \<longleftrightarrow> i < length (cp_refills s) \<and> wr_dialing (cp_refills s ! i)"
| "worker_possible _ s \<longleftrightarrow> True"

fun worker_gets :: "worker_event \<Rightarrow> nat list" where
  "worker_gets (WorkerDial i (DialConnected ws domain) now) = [ws]"
| "worker_gets _ = []"

definition worker_owned :: "worker_pool \<Rightarrow> nat list" where
  "worker_owned s = map pk_ws (concat (map snd (cp_idle s)))"

definition worker_ok :: "worker_pool \<Rightarrow> bool" where
  "worker_ok s \<longleftrightarrow> distinct (map fst (cp_idle s)) \<and> (cp_closed s \<longrightarrow> cp_idle s = [])"

lemma buckets_update:
  "distinct (map fst m) \<Longrightarrow> mset (concat (map snd (AList.update k b m))) + mset (at_key m k) = mset (concat (map snd m)) + mset b"
proof (induction m)
  case (Cons x m)
  then show ?case by (cases x) (auto simp: at_key_def ac_simps)
qed (simp add: at_key_def)

lemma worker_owned_update:
  assumes "distinct (map fst (cp_idle s))"
  shows "mset (worker_owned (s\<lparr>cp_idle := AList.update k b (cp_idle s)\<rparr>)) + mset (map pk_ws (at_key (cp_idle s) k))
    = mset (worker_owned s) + mset (map pk_ws b)"
  using buckets_update [OF assms, of k b]
  by (simp add: worker_owned_def flip: image_mset_union mset_map) (metis image_mset_union mset_map)

lemma scan_workers_props:
  "scan_workers healthy now domains b shut = (hit, rest, shut') \<Longrightarrow>
    mset (map pk_ws b) + mset shut = mset (map pk_ws rest) + mset shut' + mset (map pk_ws (option_list hit))"
proof (induction b arbitrary: shut)
  case (Cons p b)
  then show ?case using Cons.IH [of "shut @ [pk_ws p]"] by (auto simp: option_list_def ac_simps split: if_splits)
qed (auto simp: option_list_def)

lemma worker_exit_same [simp]: "cp_idle (worker_refill_exit i s) = cp_idle s" "cp_closed (worker_refill_exit i s) = cp_closed s"
  by (simp_all add: worker_refill_exit_def Let_def)

lemma worker_step_safe:
  assumes "worker_ok s" "worker_step e s = (s', lent, shut, again)"
  shows "worker_ok s' \<and> mset (worker_owned s) + mset (worker_gets e) = mset (worker_owned s') + mset lent + mset shut \<and> again = []"
proof (cases e)
  case (WorkerAcquire healthy k domains now)
  show ?thesis
  proof (cases "cp_closed s")
    case True
    then show ?thesis using assms WorkerAcquire by (auto simp: worker_acquire_def option_list_def)
  next
    case False
    obtain hit rest shut0 where sc: "scan_workers healthy now domains (at_key (cp_idle s) k) [] = (hit, rest, shut0)"
      by (cases "scan_workers healthy now domains (at_key (cp_idle s) k) []") auto
    have "distinct (map fst (cp_idle s))" using assms(1) by (simp add: worker_ok_def)
    from worker_owned_update [OF this, of k rest] this show ?thesis
      using assms False sc scan_workers_props [OF sc] WorkerAcquire
      by (auto simp: worker_acquire_def worker_ok_def distinct_update ac_simps)
  qed
next
  case (WorkerDial i dial now)
  have "distinct (map fst (cp_idle s))" using assms(1) by (simp add: worker_ok_def)
  from worker_owned_update [OF this, of "wr_key (cp_refills s ! i)"
      "at_key (cp_idle s) (wr_key (cp_refills s ! i)) @ [\<lparr>pk_ws = ws, pk_created = now, pk_domain = d\<rparr>]" for ws d] this
  show ?thesis using assms WorkerDial
    by (cases dial) (auto simp: worker_refill_dial_def worker_ok_def worker_owned_def distinct_update Let_def split: if_splits)
qed (use assms in \<open>auto simp: worker_schedule_def worker_refill_begin_def worker_clear_def worker_close_def worker_ok_def worker_owned_def Let_def
    split: if_splits\<close>)

text \<open>At most one connection per key is warm: a refill that dials is the only one of its key and generation, and its bucket is empty.\<close>

definition worker_slots :: "worker_pool \<Rightarrow> bool" where
  "worker_slots s \<longleftrightarrow> cp_target s \<le> 1 \<and> distinct (map (\<lambda>r. (wr_key r, wr_generation r)) (cp_refills s))
     \<and> (\<forall>r \<in> set (cp_refills s). wr_generation r \<le> cp_generation s
          \<and> (wr_generation r = cp_generation s \<longrightarrow> map_of (cp_refilling s) (wr_key r) = Some (wr_generation r)
               \<and> (wr_dialing r \<longrightarrow> at_key (cp_idle s) (wr_key r) = [])))
     \<and> (\<forall>k. length (at_key (cp_idle s) k) \<le> 1)"

lemma scan_workers_fewer:
  "scan_workers healthy now domains b shut = (hit, rest, shut') \<Longrightarrow> length rest \<le> length b \<and> (b = [] \<longrightarrow> rest = [])"
  by (induction b arbitrary: shut) (auto split: if_splits intro: le_SucI)

lemma worker_exit_slots:
  assumes "worker_slots s" "i < length (cp_refills s)"
  shows "worker_slots (worker_refill_exit i s)"
proof -
  let ?r = "cp_refills s ! i" and ?rs = "cp_refills s" and ?s = "worker_refill_exit i s"
  let ?left = "take i ?rs @ drop (Suc i) ?rs"
  have "?rs = take i ?rs @ ?r # drop (Suc i) ?rs" using assms(2) by (rule id_take_nth_drop)
  then have d: "distinct (map (\<lambda>r. (wr_key r, wr_generation r)) (take i ?rs @ ?r # drop (Suc i) ?rs))"
    using assms(1) by (simp add: worker_slots_def)
  have "map_of (cp_refilling ?s) (wr_key r) = map_of (cp_refilling s) (wr_key r)"
    if "r \<in> set ?left" "map_of (cp_refilling s) (wr_key r) = Some (wr_generation r)" for r
    using d that by (auto simp: worker_refill_exit_def Let_def delete_conv' image_iff)
  moreover have "set ?left \<subseteq> set ?rs" by (auto dest: in_set_takeD in_set_dropD)
  ultimately have "\<forall>r \<in> set ?left. wr_generation r \<le> cp_generation s
          \<and> (wr_generation r = cp_generation s \<longrightarrow> map_of (cp_refilling ?s) (wr_key r) = Some (wr_generation r)
               \<and> (wr_dialing r \<longrightarrow> at_key (cp_idle s) (wr_key r) = []))"
    using assms(1) unfolding worker_slots_def by (metis (no_types, lifting) subsetD)
  moreover have "cp_refills ?s = ?left" "cp_generation ?s = cp_generation s" "cp_target ?s = cp_target s" "cp_idle ?s = cp_idle s"
    by (simp_all add: worker_refill_exit_def Let_def)
  ultimately show ?thesis using assms(1) d unfolding worker_slots_def by simp
qed

lemma worker_dialing_slots:
  assumes "worker_slots s" "i < length (cp_refills s)" "at_key (cp_idle s) (wr_key (cp_refills s ! i)) = []"
  shows "worker_slots (s\<lparr>cp_refills := (cp_refills s)[i := (cp_refills s ! i)\<lparr>wr_dialing := True\<rparr>]\<rparr>)"
proof -
  let ?r = "cp_refills s ! i" and ?rs = "cp_refills s"
  have "map (\<lambda>r. (wr_key r, wr_generation r)) (?rs[i := ?r\<lparr>wr_dialing := True\<rparr>]) = map (\<lambda>r. (wr_key r, wr_generation r)) ?rs"
    by (simp add: map_update) (metis (no_types, lifting) list_update_id map_update)
  moreover have "r = ?r\<lparr>wr_dialing := True\<rparr> \<or> r \<in> set ?rs" if "r \<in> set (?rs[i := ?r\<lparr>wr_dialing := True\<rparr>])" for r
    using that set_update_subset_insert [of ?rs i] by auto
  moreover have "?r \<in> set ?rs" using assms(2) by simp
  ultimately show ?thesis using assms(1,3) unfolding worker_slots_def by fastforce
qed

lemma worker_fill_slots:
  assumes "worker_slots s" "i < length (cp_refills s)" "wr_dialing (cp_refills s ! i)" "wr_generation (cp_refills s ! i) = cp_generation s"
  shows "worker_slots (worker_refill_exit i (s\<lparr>cp_idle := AList.update (wr_key (cp_refills s ! i))
    (at_key (cp_idle s) (wr_key (cp_refills s ! i)) @ [p]) (cp_idle s)\<rparr>))"
proof -
  let ?r = "cp_refills s ! i" and ?rs = "cp_refills s" and ?k = "wr_key (cp_refills s ! i)"
  let ?s = "worker_refill_exit i (s\<lparr>cp_idle := AList.update ?k (at_key (cp_idle s) ?k @ [p]) (cp_idle s)\<rparr>)"
  let ?left = "take i ?rs @ drop (Suc i) ?rs"
  have "?r \<in> set ?rs" using assms(2) by simp
  then have empty: "at_key (cp_idle s) ?k = []" using assms(1,3,4) unfolding worker_slots_def by blast
  have split: "?rs = take i ?rs @ ?r # drop (Suc i) ?rs" using assms(2) by (rule id_take_nth_drop)
  then have "distinct (map (\<lambda>r. (wr_key r, wr_generation r)) (take i ?rs @ ?r # drop (Suc i) ?rs))"
    using assms(1) by (simp add: worker_slots_def)
  then have other: "wr_key r \<noteq> ?k" if "r \<in> set ?left" "wr_generation r = cp_generation s" for r
    using that assms(4) by (auto simp: image_iff)
  have exit: "worker_slots (worker_refill_exit i s)" by (rule worker_exit_slots [OF assms(1,2)])
  have same: "cp_refills ?s = ?left" "cp_refills (worker_refill_exit i s) = ?left" "cp_generation ?s = cp_generation (worker_refill_exit i s)"
    "cp_generation (worker_refill_exit i s) = cp_generation s"
    "cp_target ?s = cp_target (worker_refill_exit i s)" "cp_refilling ?s = cp_refilling (worker_refill_exit i s)"
    by (simp_all add: worker_refill_exit_def Let_def)
  have idle: "at_key (cp_idle ?s) k = (if k = ?k then [p] else at_key (cp_idle s) k)" for k by (simp add: at_key_update empty)
  show ?thesis
    using exit other unfolding worker_slots_def same idle by (auto simp: worker_exit_same)
qed

lemma worker_step_slots:
  assumes "worker_slots s" "worker_possible e s"
  shows "worker_slots (fst (worker_step e s))"
proof (cases e)
  case (WorkerAcquire healthy k domains now)
  obtain hit rest shut0 where sc: "scan_workers healthy now domains (at_key (cp_idle s) k) [] = (hit, rest, shut0)"
    by (cases "scan_workers healthy now domains (at_key (cp_idle s) k) []") auto
  note f = scan_workers_fewer [OF sc]
  have "length rest \<le> 1" using f assms(1) unfolding worker_slots_def by (meson order_trans)
  then show ?thesis using assms(1) f sc WorkerAcquire by (auto simp: worker_acquire_def worker_slots_def at_key_update)
next
  case (WorkerSchedule k)
  show ?thesis
  proof (cases "cp_target s = 0 \<or> map_of (cp_refilling s) k \<noteq> None \<or> cp_closed s")
    case False
    then have "(wr_key r, wr_generation r) \<noteq> (k, cp_generation s)" if "r \<in> set (cp_refills s)" for r
      using assms(1) that by (auto simp: worker_slots_def)
    then show ?thesis using assms(1) False WorkerSchedule
      by (auto simp: worker_schedule_def worker_slots_def update_conv' image_iff)
  qed (use assms(1) WorkerSchedule in \<open>simp add: worker_schedule_def\<close>)
next
  case (WorkerBegin i)
  let ?b = "at_key (cp_idle s) (wr_key (cp_refills s ! i))"
  have "cp_target s \<le> length ?b \<or> ?b = []" using assms(1) by (cases ?b) (auto simp: worker_slots_def)
  then show ?thesis using WorkerBegin assms worker_exit_slots [OF assms(1), of i] worker_dialing_slots [OF assms(1), of i]
    by (auto simp: worker_refill_begin_def Let_def)
next
  case (WorkerDial i dial now)
  then show ?thesis using assms worker_exit_slots [OF assms(1), of i] worker_fill_slots [OF assms(1), of i]
    by (cases dial) (auto simp: worker_refill_dial_def Let_def)
qed (use assms(1) in \<open>auto simp: worker_clear_def worker_close_def worker_slots_def at_key_def o_def
    intro: le_SucI\<close>)

lemma new_worker_pool_ok:
  "worker_ok (new_worker_pool target) \<and> worker_slots (new_worker_pool target) \<and> worker_owned (new_worker_pool target) = []"
  by (auto simp: worker_ok_def worker_slots_def new_worker_pool_def at_key_def worker_owned_def)

interpretation workers: lending_pool worker_step worker_possible worker_gets "new_worker_pool target" worker_owned "\<lambda>_. {}"
  "\<lambda>s. worker_ok s \<and> worker_slots s" for target
proof unfold_locales
  fix s e s' lent shut again
  assume a: "worker_ok s \<and> worker_slots s" "worker_possible e s" "worker_step e s = (s', lent, shut, again)"
  note safe = worker_step_safe [OF conjunct1 [OF a(1)] a(3)] worker_step_slots [OF conjunct2 [OF a(1)] a(2), unfolded a(3) fst_conv]
  show "worker_ok s' \<and> worker_slots s'" "mset (worker_owned s @ worker_gets e) = mset (worker_owned s' @ lent @ shut)"
    "set again \<subseteq> {} \<and> {} \<subseteq> {} \<union> set shut"
    using safe by (simp_all add: ac_simps)
qed (simp_all add: new_worker_pool_ok)

text \<open>(C40) The pool of worker domains never lends a connection twice, never closes one it lent and loses none, whatever late
  results a reset or the shutdown meets; a router keeps at most one warm connection per data centre and target; and a closed
  pool keeps none.\<close>

theorem worker_connections_safe:
  assumes "pool_run worker_step worker_possible worker_gets (new_worker_pool target) s lent shut again got"
  shows "distinct lent \<and> set lent \<inter> (set shut \<union> set again) = {} \<and> set lent \<inter> set (worker_owned s) = {}
    \<and> set got = set (worker_owned s) \<union> set lent \<union> set shut
    \<and> length (at_key (cp_idle s) k) \<le> 1 \<and> (if cp_closed s then worker_owned s = [] else True)"
  using workers.run_safe [OF assms] workers.run_conserves [OF assms] by (auto simp: worker_slots_def worker_ok_def worker_owned_def)

definition demo_worker_events :: "worker_event list" where
  "demo_worker_events = (let k = \<lparr>wk_dc = 2, wk_target = ''1''\<rparr> in
     [WorkerSchedule k, WorkerBegin 0, WorkerReset, WorkerSchedule k, WorkerBegin 1, WorkerDial 1 DialNext 5, WorkerDial 0 (DialConnected 3 ''d'') 6,
      WorkerDial 0 (DialConnected 4 ''d'') 6, WorkerAcquire (\<lambda>_. True) k [''d''] 7, WorkerClose])"

lemma worker_connections_safe_witness:
  "case play_pool worker_step worker_possible worker_gets demo_worker_events (new_worker_pool 9, [], [], [], []) of
     None \<Rightarrow> False
   | Some (s, lent, shut, again, got) \<Rightarrow> lent = [4] \<and> shut = [3] \<and> distinct lent \<and> set lent \<inter> (set shut \<union> set again) = {}
       \<and> set got = set (worker_owned s) \<union> set lent \<union> set shut \<and> (if cp_closed s then worker_owned s = [] else True)"
proof -
  have "case play_pool worker_step worker_possible worker_gets demo_worker_events (new_worker_pool 9, [], [], [], []) of
     None \<Rightarrow> False | Some (s, lent, shut, again, got) \<Rightarrow> lent = [4] \<and> shut = [3]"
    by code_simp
  then obtain s again got where
    r: "play_pool worker_step worker_possible worker_gets demo_worker_events (new_worker_pool 9, [], [], [], []) = Some (s, [4], [3], again, got)"
    by (auto split: option.splits)
  show ?thesis using worker_connections_safe [OF play_pool_run [OF r pool_start]] by (simp add: r insert_commute)
qed

end
