(* ===== verification/Strategy_Catalog.thy ===== *)
theory Strategy_Catalog
  imports Go_Text
begin

text \<open>
  The strategies of the DPI bypass engine: the catalog and its checks (\<open>internal/services/strategy/core/catalog/strategy.go\<close>),
  the filter for strategies a probe over HTTPS can judge (\<open>internal/app/strategy_https.go\<close>), their variants for a run and
  their place in the engine's configuration (\<open>internal/app/app.go\<close>).

  The texts of errors are constructors. A regular expression of the source is the scanner of its matches, leftmost first.
\<close>

section \<open>The catalog\<close>

record strategy =
  st_id :: string
  st_name :: string
  st_l7 :: string
  st_args :: string
  st_source :: string

definition strategy_args :: "strategy \<Rightarrow> string list" where
  "strategy_args s = str_fields (st_args s)"

definition builtin_strategies :: "strategy list" where
  "builtin_strategies = [
     \<lparr>st_id = ''tls-fake-multisplit-google'', st_name = ''fake(tls google,seq-10000)+multisplit midsld seqovl'', st_l7 = ''tls'',
       st_args = ''--filter-tcp=443 --filter-l7=tls --payload=tls_client_hello ''
         @ ''--lua-desync=fake:blob=tls_clienthello:tls_mod=rnd,dupsid,sni=www.google.com:tcp_seq=-10000 ''
         @ ''--lua-desync=multisplit:pos=1,midsld:seqovl=1:seqovl_pattern=tls_clienthello'', st_source = ''builtin''\<rparr>,
     \<lparr>st_id = ''tls-fake-ack-multisplit'', st_name = ''fake(0x0,seq-10000,ack-66000)+multisplit'', st_l7 = ''tls'',
       st_args = ''--filter-tcp=443 --filter-l7=tls --payload=tls_client_hello ''
         @ ''--lua-desync=fake:blob=0x00000000:tcp_seq=-10000:tcp_ack=-66000:tls_mod=rnd,dupsid,sni=www.google.com:repeats=2 ''
         @ ''--lua-desync=multisplit:pos=1,midsld'', st_source = ''builtin''\<rparr>,
     \<lparr>st_id = ''tls-multisplit-sniext'', st_name = ''multisplit at sniext+midsld'', st_l7 = ''tls'',
       st_args = ''--filter-tcp=443 --filter-l7=tls --payload=tls_client_hello ''
         @ ''--lua-desync=multisplit:pos=1,sniext,midsld'', st_source = ''builtin''\<rparr>,
     \<lparr>st_id = ''tls-multidisorder-midsld'', st_name = ''multidisorder at midsld'', st_l7 = ''tls'',
       st_args = ''--filter-tcp=443 --filter-l7=tls --payload=tls_client_hello ''
         @ ''--lua-desync=multidisorder:pos=1,midsld'', st_source = ''builtin''\<rparr>,
     \<lparr>st_id = ''tls-fake-badsum-multisplit'', st_name = ''fake(badsum)+multisplit midsld'', st_l7 = ''tls'',
       st_args = ''--filter-tcp=443 --filter-l7=tls --payload=tls_client_hello ''
         @ ''--lua-desync=fake:blob=tls_clienthello:badsum ''
         @ ''--lua-desync=multisplit:pos=1,midsld:seqovl=1:seqovl_pattern=tls_clienthello'', st_source = ''builtin''\<rparr>,
     \<lparr>st_id = ''tls-fakedsplit-midsld'', st_name = ''fakedsplit midsld seqovl fake seq-10000'', st_l7 = ''tls'',
       st_args = ''--filter-tcp=443 --filter-l7=tls --payload=tls_client_hello ''
         @ ''--lua-desync=fakedsplit:pos=midsld:seqovl=1:seqovl_pattern=tls_clienthello:tcp_seq=-10000'', st_source = ''builtin''\<rparr>,
     \<lparr>st_id = ''tls-fake-md5-multisplit'', st_name = ''fake(tcp_md5)+multisplit midsld'', st_l7 = ''tls'',
       st_args = ''--filter-tcp=443 --filter-l7=tls --payload=tls_client_hello ''
         @ ''--lua-desync=fake:blob=tls_clienthello:tcp_md5 ''
         @ ''--lua-desync=multisplit:pos=1,midsld'', st_source = ''builtin''\<rparr>,
     \<lparr>st_id = ''http-methodeol'', st_name = ''http_methodeol badsum'', st_l7 = ''http'',
       st_args = ''--filter-tcp=80 --filter-l7=http --payload=http_req ''
         @ ''--lua-desync=http_methodeol:badsum'', st_source = ''builtin''\<rparr>]"

definition tls_filter :: string where
  "tls_filter = ''--filter-tcp=443 --filter-l7=tls --payload=tls_client_hello ''"
definition http_filter :: string where
  "http_filter = ''--filter-tcp=80 --filter-l7=http --payload=http_req ''"

definition tls_candidate :: "string \<Rightarrow> string \<Rightarrow> string \<Rightarrow> strategy" where
  "tls_candidate i n desync =
     \<lparr>st_id = ''auto-'' @ i, st_name = n, st_l7 = ''tls'', st_args = tls_filter @ desync, st_source = ''auto''\<rparr>"
definition http_candidate :: "string \<Rightarrow> string \<Rightarrow> string \<Rightarrow> strategy" where
  "http_candidate i n desync =
     \<lparr>st_id = ''auto-'' @ i, st_name = n, st_l7 = ''http'', st_args = http_filter @ desync, st_source = ''auto''\<rparr>"

definition auto_candidates :: "strategy list" where
  "auto_candidates = [
     tls_candidate ''ms-1'' ''multisplit pos=1''
       ''--lua-desync=multisplit:pos=1'',
     tls_candidate ''ms-midsld'' ''multisplit midsld''
       ''--lua-desync=multisplit:pos=1,midsld'',
     tls_candidate ''ms-midsld2'' ''multisplit 2,midsld-2''
       ''--lua-desync=multisplit:pos=2,midsld-2'',
     tls_candidate ''ms-sniext'' ''multisplit sniext+1''
       ''--lua-desync=multisplit:pos=1,sniext+1'',
     tls_candidate ''ms-host'' ''multisplit host+1''
       ''--lua-desync=multisplit:pos=1,host+1'',
     tls_candidate ''ms-sld'' ''multisplit sld+1''
       ''--lua-desync=multisplit:pos=sld+1'',
     tls_candidate ''ms-ovl1'' ''multisplit midsld seqovl1''
       ''--lua-desync=multisplit:pos=1,midsld:seqovl=1:seqovl_pattern=tls_clienthello'',
     tls_candidate ''ms-ovl336'' ''multisplit midsld seqovl336''
       ''--lua-desync=multisplit:pos=1,midsld:seqovl=336:seqovl_pattern=tls_clienthello'',
     tls_candidate ''ms-ovl681'' ''multisplit midsld seqovl681''
       ''--lua-desync=multisplit:pos=1,midsld:seqovl=681:seqovl_pattern=tls_clienthello'',
     tls_candidate ''md-midsld'' ''multidisorder midsld''
       ''--lua-desync=multidisorder:pos=1,midsld'',
     tls_candidate ''md-sniext'' ''multidisorder sniext+1''
       ''--lua-desync=multidisorder:pos=1,sniext+1'',
     tls_candidate ''md-ovl1'' ''multidisorder midsld seqovl1''
       ''--lua-desync=multidisorder:pos=1,midsld:seqovl=1:seqovl_pattern=tls_clienthello'',
     tls_candidate ''md-multi'' ''multidisorder midsld+sniext''
       ''--lua-desync=multidisorder:pos=1,midsld,sniext+1'',
     tls_candidate ''fds-midsld'' ''fakedsplit midsld seqovl1 fake seq-10000''
       ''--lua-desync=fakedsplit:pos=midsld:seqovl=1:seqovl_pattern=tls_clienthello:tcp_seq=-10000'',
     tls_candidate ''fdd-midsld'' ''fakeddisorder midsld seqovl1 fake seq-10000''
       ''--lua-desync=fakeddisorder:pos=midsld:seqovl=1:seqovl_pattern=tls_clienthello:tcp_seq=-10000'',
     tls_candidate ''fake-google-ms'' ''fake(google sni,seq-10000)+multisplit''
       ''--lua-desync=fake:blob=tls_clienthello:tls_mod=rnd,dupsid,sni=www.google.com:tcp_seq=-10000 --lua-desync=multisplit:pos=1,midsld'',
     tls_candidate ''fake-ack-ms'' ''fake(0x0,seq-10000,ack-66000)+multisplit''
       ''--lua-desync=fake:blob=0x00000000:tcp_seq=-10000:tcp_ack=-66000:repeats=2 --lua-desync=multisplit:pos=1,midsld'',
     tls_candidate ''fake-badsum-ms'' ''fake(badsum)+multisplit ovl''
       ''--lua-desync=fake:blob=tls_clienthello:badsum --lua-desync=multisplit:pos=1,midsld:seqovl=1:seqovl_pattern=tls_clienthello'',
     tls_candidate ''fake-md5-ms'' ''fake(tcp_md5)+multisplit''
       ''--lua-desync=fake:blob=tls_clienthello:tcp_md5 --lua-desync=multisplit:pos=1,midsld'',
     tls_candidate ''fake-rep-md'' ''fake(rep6,seq-10000,ack)+multidisorder''
       ''--lua-desync=fake:blob=tls_clienthello:repeats=6:tcp_seq=-10000:tcp_ack=-66000 --lua-desync=multidisorder:pos=1,midsld'',
     tls_candidate ''fake-ttl-ms'' ''fake(ip_ttl=4)+multisplit''
       ''--lua-desync=fake:blob=tls_clienthello:ip_ttl=4:ip6_ttl=4 --lua-desync=multisplit:pos=1,midsld'',
     tls_candidate ''fake-autottl-ms'' ''fake(autottl,seq-10000)+multisplit''
       ''--lua-desync=fake:blob=tls_clienthello:ip_autottl=0,3-20:tcp_seq=-10000 --lua-desync=multisplit:pos=1,midsld'',
     tls_candidate ''fake-rep-fds'' ''fake(rep2,seq-10000)+fakedsplit(seq-10000)''
       ''--lua-desync=fake:blob=tls_clienthello:repeats=2:tcp_seq=-10000 --lua-desync=fakedsplit:pos=midsld:tcp_seq=-10000'',
     tls_candidate ''fake-padencap-ms'' ''fake(padencap,seq-10000)+multisplit sniext''
       ''--lua-desync=fake:blob=tls_clienthello:tls_mod=rnd,padencap:tcp_seq=-10000 --lua-desync=multisplit:pos=1,sniext+1'',
     tls_candidate ''fake-google'' ''fake(google sni,seq-10000) only''
       ''--lua-desync=fake:blob=tls_clienthello:tls_mod=rnd,dupsid,sni=www.google.com:tcp_seq=-10000'',
     tls_candidate ''ms-sld2'' ''multisplit sld+2''
       ''--lua-desync=multisplit:pos=sld+2'',
     tls_candidate ''ms-multi3'' ''multisplit 1,sniext+1,host+1,midsld''
       ''--lua-desync=multisplit:pos=1,sniext+1,host+1,midsld'',
     tls_candidate ''ms-tsup'' ''multisplit midsld tcp_ts_up''
       ''--lua-desync=multisplit:pos=1,midsld:tcp_ts_up'',
     tls_candidate ''ms-ovl-tsup'' ''multisplit midsld seqovl tcp_ts_up''
       ''--lua-desync=multisplit:pos=1,midsld:seqovl=1:seqovl_pattern=tls_clienthello:tcp_ts_up'',
     tls_candidate ''md-host'' ''multidisorder host+1''
       ''--lua-desync=multidisorder:pos=1,host+1'',
     tls_candidate ''md-tsup'' ''multidisorder midsld tcp_ts_up''
       ''--lua-desync=multidisorder:pos=1,midsld:tcp_ts_up'',
     tls_candidate ''fake-fonts-ms'' ''fake(fonts.google sni,seq-10000,ts)+multisplit''
       ''--lua-desync=fake:blob=tls_clienthello:tls_mod=rnd,dupsid,sni=fonts.google.com:tcp_seq=-10000 --lua-desync=multisplit:pos=1,midsld:seqovl=1:seqovl_pattern=tls_clienthello:tcp_ts_up'',
     tls_candidate ''fake-ack-sni-ms'' ''fake(0x0,seq-10000,ack,sni)+multisplit''
       ''--lua-desync=fake:blob=0x00000000:tcp_seq=-10000:tcp_ack=-66000:tls_mod=rnd,dupsid,sni=www.google.com:repeats=2 --lua-desync=multisplit:pos=1,midsld'',
     tls_candidate ''fake-sni-ts-ms'' ''fake(google sni,seq-10000,ts)+multisplit ovl''
       ''--lua-desync=fake:blob=tls_clienthello:tls_mod=rnd,dupsid,sni=www.google.com:tcp_seq=-10000:tcp_ts_up --lua-desync=multisplit:pos=1,midsld:seqovl=1:seqovl_pattern=tls_clienthello'',
     tls_candidate ''fake-msft-md'' ''fake(microsoft sni,seq-10000)+multidisorder''
       ''--lua-desync=fake:blob=tls_clienthello:tls_mod=rnd,dupsid,sni=www.microsoft.com:tcp_seq=-10000 --lua-desync=multidisorder:pos=1,midsld'',
     tls_candidate ''fake-md5-ts-ms'' ''fake(md5,ts)+multisplit''
       ''--lua-desync=fake:blob=tls_clienthello:tcp_md5:tcp_ts_up --lua-desync=multisplit:pos=1,midsld'',
     tls_candidate ''fake-ttl2-md'' ''fake(ttl2)+multidisorder''
       ''--lua-desync=fake:blob=tls_clienthello:ip_ttl=2:ip6_ttl=2 --lua-desync=multidisorder:pos=1,midsld'',
     tls_candidate ''fake-2x-ms'' ''fake x2 (rep+ack,seq-10000)+multisplit''
       ''--lua-desync=fake:blob=tls_clienthello:repeats=2:tcp_seq=-10000 --lua-desync=fake:blob=tls_clienthello:tcp_ack=-66000:tcp_seq=-10000 --lua-desync=multisplit:pos=1,midsld'',
     tls_candidate ''fds-ts'' ''fakedsplit midsld seqovl tcp_ts_up fake seq-10000''
       ''--lua-desync=fakedsplit:pos=midsld:seqovl=1:seqovl_pattern=tls_clienthello:tcp_ts_up:tcp_seq=-10000'',
     tls_candidate ''fdd-sniext'' ''fakeddisorder sniext+1 seqovl fake seq-10000''
       ''--lua-desync=fakeddisorder:pos=sniext+1:seqovl=1:seqovl_pattern=tls_clienthello:tcp_seq=-10000'',
     tls_candidate ''fdd-badsum-md5'' ''fakeddisorder midsld badsum md5''
       ''--lua-desync=fakeddisorder:pos=midsld:badsum:tcp_md5'',
     tls_candidate ''hfs-sniext'' ''hostfakesplit midhost seqovl(sniext)''
       ''--lua-desync=hostfakesplit:midhost=host-2:seqovl=sniext+3:seqovl_pattern=tls_clienthello:badsum:tcp_md5:tcp_ts_up --lua-desync=hostfakesplit:tcp_md5:tcp_ts_up'',
     tls_candidate ''hfs-google'' ''hostfakesplit host=google badsum + fake seq-10000''
       ''--lua-desync=hostfakesplit:host=www.google.com:seqovl=sniext+3:seqovl_pattern=tls_clienthello:badsum --lua-desync=hostfakesplit:tcp_ts_up:tcp_seq=-10000'',
     http_candidate ''methodeol'' ''http_methodeol badsum''
       ''--lua-desync=http_methodeol:badsum'',
     http_candidate ''ms-method'' ''multisplit method+2''
       ''--lua-desync=multisplit:pos=method+2'',
     http_candidate ''fake-ms'' ''fake(http_req,seq-10000)+multisplit''
       ''--lua-desync=fake:blob=http_req:tcp_seq=-10000 --lua-desync=multisplit:pos=method+2'',
     http_candidate ''md-method'' ''multidisorder method+2,host+1''
       ''--lua-desync=multidisorder:pos=method+2,host+1'',
     http_candidate ''ms-method-host'' ''multisplit method+2,host+1''
       ''--lua-desync=multisplit:pos=method+2,host+1'',
     http_candidate ''fake-md-method'' ''fake(http,seq-10000)+multidisorder method''
       ''--lua-desync=fake:blob=http_req:tcp_seq=-10000 --lua-desync=multidisorder:pos=method+2'']"

definition lua_methods :: "string list" where
  "lua_methods = [''circular'', ''fake'', ''multisplit'', ''multidisorder'', ''split'', ''disorder'', ''fakedsplit'', ''fakeddisorder'', ''hostfakesplit'', ''http_methodeol'', ''syndata'', ''send'', ''pktmod'', ''tamper'']"

definition dpi_modes :: "string list" where
  "dpi_modes = [''fake'', ''split'', ''split2'', ''disorder'', ''disorder2'', ''fakedsplit'', ''fakeddisorder'', ''multisplit'', ''multidisorder'', ''syndata'', ''ipfrag2'', ''udplen'', ''tamper'']"

section \<open>The checks of an argument line\<close>

datatype line_error =
    EmptyLine | NewForbidden | UnknownLua string | UnknownMode string | StrayToken string | Unsupported string | BadPorts string | NotHttps

text \<open>\<open>strings.Cut\<close> at one byte.\<close>

definition cut_on :: "char \<Rightarrow> string \<Rightarrow> string \<times> string" where
  "cut_on c s = (takeWhile (\<lambda>x. x \<noteq> c) s, tl (dropWhile (\<lambda>x. x \<noteq> c) s))"

definition desync_method :: "string \<Rightarrow> string" where
  "desync_method v = (case index_of (CHR '':'') v of Some i \<Rightarrow> take i v | None \<Rightarrow> v)"

definition check_token :: "string \<Rightarrow> line_error option" where
  "check_token tok =
     (if tok = ''--new'' \<or> has_prefix tok ''--new='' then Some NewForbidden
      else if has_prefix tok ''--lua-desync='' then
        (let m = desync_method (trim_prefix tok ''--lua-desync='') in if m \<noteq> [] \<and> m \<notin> set lua_methods then Some (UnknownLua m) else None)
      else if has_prefix tok ''--dpi-desync='' then
        map_option UnknownMode (find (\<lambda>m. m \<noteq> [] \<and> m \<notin> set dpi_modes)
          (map trim_space (split_on (CHR '','') (trim_prefix tok ''--dpi-desync=''))))
      else if \<not> has_prefix tok ''-'' then Some (StrayToken tok) else None)"

fun first_error :: "('a \<Rightarrow> 'e option) \<Rightarrow> 'a list \<Rightarrow> 'e option" where
  "first_error f [] = None"
| "first_error f (x # xs) = (case f x of Some e \<Rightarrow> Some e | None \<Rightarrow> first_error f xs)"

definition validate_line :: "string \<Rightarrow> line_error option" where
  "validate_line line = (let l = trim_space line in if l = [] then Some EmptyLine else first_error check_token (str_fields l))"

section \<open>Strategies a probe over HTTPS can judge\<close>

text \<open>\<open>strconv.ParseUint\<close> in base ten, of at most \<open>bits\<close> bits.\<close>

definition parse_uint :: "nat \<Rightarrow> string \<Rightarrow> nat option" where
  "parse_uint bits s = (if s \<noteq> [] \<and> list_all is_digit s \<and> dec_val s < 2 ^ bits then Some (dec_val s) else None)"

definition port_item :: "string \<Rightarrow> string \<Rightarrow> bool \<Rightarrow> line_error + bool" where
  "port_item value item matched =
     (if item = ''*'' then Inr True
      else (let negated = has_prefix item ''~''; rest = trim_prefix item ''~''; lo_text = fst (cut_on (CHR ''-'') rest);
                hi_text = (if CHR ''-'' \<in> set rest then snd (cut_on (CHR ''-'') rest) else lo_text) in
        case (parse_uint 16 lo_text, parse_uint 16 hi_text) of
          (Some lo, Some hi) \<Rightarrow>
            (if lo > hi then Inl (BadPorts value) else Inr (matched \<or> (lo \<le> 443 \<and> 443 \<le> hi) \<noteq> negated))
        | _ \<Rightarrow> Inl (BadPorts value)))"

definition https_port_filter :: "string \<Rightarrow> line_error + bool" where
  "https_port_filter value = fold_res (port_item value) (split_on (CHR '','') value) False"

definition https_protocol_filter :: "string \<Rightarrow> string \<Rightarrow> bool" where
  "https_protocol_filter value protocol =
     (\<not> has_prefix value ''~'' \<and> list_ex (\<lambda>item. item = protocol \<or> item = ''all'' \<or> item = ''known'') (split_on (CHR '','') value))"

record https_scan =
  hs_tcp_seen :: bool
  hs_tcp_matches :: bool
  hs_other_transport :: bool
  hs_l3_seen :: bool
  hs_ipv4_matches :: bool
  hs_tls_matches :: bool
  hs_payload_matches :: bool
  hs_desync_matches :: bool

definition https_start :: https_scan where
  "https_start = \<lparr>hs_tcp_seen = False, hs_tcp_matches = False, hs_other_transport = False, hs_l3_seen = False, hs_ipv4_matches = False,
     hs_tls_matches = True, hs_payload_matches = True, hs_desync_matches = False\<rparr>"

text \<open>What one \<open>--lua-desync\<close> instruction does under the payload selector in force.\<close>

definition instance_matches :: "bool \<Rightarrow> string \<Rightarrow> bool" where
  "instance_matches payload value =
     fold (\<lambda>parameter m. if has_prefix parameter ''payload='' then m \<and> https_protocol_filter (trim_prefix parameter ''payload='') ''tls_client_hello'' else m)
       (tl (split_on (CHR '':'') value)) payload"

definition https_token :: "string \<Rightarrow> https_scan \<Rightarrow> line_error + https_scan" where
  "https_token token s =
     (case cut_on (CHR ''='') token of (key, value) \<Rightarrow>
        if key = ''--skip'' \<or> key = ''--template'' \<or> key = ''--import'' then Inl (Unsupported key)
        else if key = ''--filter-tcp'' then
          (case https_port_filter value of
             Inl e \<Rightarrow> Inl e
           | Inr m \<Rightarrow> Inr (s\<lparr>hs_tcp_seen := True, hs_tcp_matches := hs_tcp_matches s \<or> m\<rparr>))
        else if key = ''--filter-udp'' \<or> key = ''--filter-icmp'' \<or> key = ''--filter-ipp'' then Inr (s\<lparr>hs_other_transport := True\<rparr>)
        else if key = ''--filter-l3'' then
          Inr (s\<lparr>hs_l3_seen := True, hs_ipv4_matches := hs_ipv4_matches s \<or> ''ipv4'' \<in> set (split_on (CHR '','') value)\<rparr>)
        else if key = ''--filter-l7'' then Inr (s\<lparr>hs_tls_matches := https_protocol_filter value ''tls''\<rparr>)
        else if key = ''--payload'' then Inr (s\<lparr>hs_payload_matches := https_protocol_filter value ''tls_client_hello''\<rparr>)
        else if key = ''--lua-desync'' then
          (let m = fst (cut_on (CHR '':'') value) in
           Inr (s\<lparr>hs_desync_matches := hs_desync_matches s
             \<or> (m \<noteq> [] \<and> m \<noteq> ''http_methodeol'' \<and> instance_matches (hs_payload_matches s) value)\<rparr>))
        else if key = ''--dpi-desync'' then Inr (s\<lparr>hs_desync_matches := hs_desync_matches s \<or> value \<noteq> []\<rparr>)
        else Inr s)"

definition https_verdict :: "string list \<Rightarrow> line_error option" where
  "https_verdict tokens =
     (case fold_res https_token tokens https_start of
        Inl e \<Rightarrow> Some e
      | Inr s \<Rightarrow>
          (if (hs_tcp_seen s \<and> \<not> hs_tcp_matches s) \<or> (\<not> hs_tcp_seen s \<and> hs_other_transport s)
            \<or> (hs_l3_seen s \<and> \<not> hs_ipv4_matches s) \<or> \<not> hs_tls_matches s \<or> \<not> hs_desync_matches s
           then Some NotHttps else None))"

definition validate_https :: "string \<Rightarrow> line_error option" where
  "validate_https line = (case validate_line line of Some e \<Rightarrow> Some e | None \<Rightarrow> https_verdict (str_fields line))"

definition https_run_strategies :: "strategy list \<Rightarrow> strategy list" where
  "https_run_strategies ss = filter (\<lambda>s. validate_https (st_args s) = None) ss"

section \<open>What the HTTPS check decides\<close>

text \<open>The values given to a flag, in order; the payload selector in force after some tokens; an instruction that takes effect.\<close>

definition flag_values :: "string \<Rightarrow> string list \<Rightarrow> string list" where
  "flag_values k tokens = map snd (filter (\<lambda>kv. fst kv = k) (map (cut_on (CHR ''='')) tokens))"

definition payload_allows :: "string list \<Rightarrow> bool" where
  "payload_allows before =
     (let vs = flag_values ''--payload'' before in if vs = [] then True else https_protocol_filter (last vs) ''tls_client_hello'')"

definition takes_effect :: "string list \<Rightarrow> string \<Rightarrow> bool" where
  "takes_effect before token =
     (case cut_on (CHR ''='') token of (key, value) \<Rightarrow>
        (key = ''--lua-desync'' \<and> fst (cut_on (CHR '':'') value) \<notin> {[], ''http_methodeol''} \<and> payload_allows before
          \<and> list_all (\<lambda>p. if has_prefix p ''payload='' then https_protocol_filter (trim_prefix p ''payload='') ''tls_client_hello'' else True)
              (tl (split_on (CHR '':'') value)))
        \<or> (key = ''--dpi-desync'' \<and> value \<noteq> []))"

definition any_effect :: "string list \<Rightarrow> bool" where
  "any_effect tokens = list_ex (\<lambda>i. takes_effect (take i tokens) (tokens ! i)) [0..<length tokens]"

definition supported_token :: "string \<Rightarrow> bool" where
  "supported_token token =
     (case cut_on (CHR ''='') token of (key, value) \<Rightarrow>
        key \<notin> {''--skip'', ''--template'', ''--import''} \<and> (if key = ''--filter-tcp'' then https_port_filter value \<in> range Inr else True))"

definition handles_https :: "string list \<Rightarrow> bool" where
  "handles_https tokens \<longleftrightarrow>
     (if flag_values ''--filter-tcp'' tokens = []
      then list_all (\<lambda>k. flag_values k tokens = []) [''--filter-udp'', ''--filter-icmp'', ''--filter-ipp'']
      else list_ex (\<lambda>v. https_port_filter v = Inr True) (flag_values ''--filter-tcp'' tokens))
     \<and> (if flag_values ''--filter-l3'' tokens = [] then True
        else list_ex (\<lambda>v. ''ipv4'' \<in> set (split_on (CHR '','') v)) (flag_values ''--filter-l3'' tokens))
     \<and> (if flag_values ''--filter-l7'' tokens = [] then True else https_protocol_filter (last (flag_values ''--filter-l7'' tokens)) ''tls'')
     \<and> any_effect tokens"

lemma flag_values_snoc:
  "flag_values k (ts @ [t]) = flag_values k ts @ (case cut_on (CHR ''='') t of (x, v) \<Rightarrow> if x = k then [v] else [])"
  by (simp add: flag_values_def split: prod.split)

definition scan_of :: "string list \<Rightarrow> https_scan" where
  "scan_of ts =
     \<lparr>hs_tcp_seen = flag_values ''--filter-tcp'' ts \<noteq> [],
      hs_tcp_matches = list_ex (\<lambda>v. https_port_filter v = Inr True) (flag_values ''--filter-tcp'' ts),
      hs_other_transport = (flag_values ''--filter-udp'' ts \<noteq> [] \<or> flag_values ''--filter-icmp'' ts \<noteq> [] \<or> flag_values ''--filter-ipp'' ts \<noteq> []),
      hs_l3_seen = flag_values ''--filter-l3'' ts \<noteq> [],
      hs_ipv4_matches = list_ex (\<lambda>v. ''ipv4'' \<in> set (split_on (CHR '','') v)) (flag_values ''--filter-l3'' ts),
      hs_tls_matches = (if flag_values ''--filter-l7'' ts = [] then True else https_protocol_filter (last (flag_values ''--filter-l7'' ts)) ''tls''),
      hs_payload_matches = payload_allows ts,
      hs_desync_matches = any_effect ts\<rparr>"

lemma instance_matches_iff:
  "instance_matches b value \<longleftrightarrow> b \<and> list_all (\<lambda>p. if has_prefix p ''payload='' then
     https_protocol_filter (trim_prefix p ''payload='') ''tls_client_hello'' else True) (tl (split_on (CHR '':'') value))"
proof -
  have "fold (\<lambda>p m. if has_prefix p ''payload='' then m \<and> f p else m) ps b
      \<longleftrightarrow> b \<and> list_all (\<lambda>p. if has_prefix p ''payload='' then f p else True) ps" for f ps
    by (induction ps arbitrary: b) auto
  then show ?thesis by (simp add: instance_matches_def)
qed

lemma effect_snoc: "any_effect (ts @ [t]) \<longleftrightarrow> any_effect ts \<or> takes_effect ts t"
  by (auto simp: any_effect_def list_ex_iff nth_append less_Suc_eq)

lemma payload_snoc: "payload_allows (ts @ [t]) \<longleftrightarrow>
    (case cut_on (CHR ''='') t of (x, v) \<Rightarrow> if x = ''--payload'' then https_protocol_filter v ''tls_client_hello'' else payload_allows ts)"
  by (simp add: payload_allows_def flag_values_snoc Let_def split: prod.split)

lemma flag_cases:
  "k = a1 \<or> k = a2 \<or> k = a3 \<or> k = b \<or> k = c1 \<or> k = c2 \<or> k = c3 \<or> k = d \<or> k = e \<or> k = f \<or> k = g \<or> k = h
    \<or> (k \<noteq> a1 \<and> k \<noteq> a2 \<and> k \<noteq> a3 \<and> k \<noteq> b \<and> k \<noteq> c1 \<and> k \<noteq> c2 \<and> k \<noteq> c3 \<and> k \<noteq> d \<and> k \<noteq> e \<and> k \<noteq> f \<and> k \<noteq> g \<and> k \<noteq> h)"
  by auto

lemma scan_step:
  "https_token t (scan_of ts) = Inr s \<longleftrightarrow> supported_token t \<and> s = scan_of (ts @ [t])"
proof (cases "cut_on (CHR ''='') t")
  case (Pair k v)
  note defs = https_token_def scan_of_def effect_snoc flag_values_snoc takes_effect_def supported_token_def payload_snoc Pair
  show ?thesis
    using flag_cases [of k "''--skip''" "''--template''" "''--import''" "''--filter-tcp''" "''--filter-udp''" "''--filter-icmp''"
      "''--filter-ipp''" "''--filter-l3''" "''--filter-l7''" "''--payload''" "''--lua-desync''" "''--dpi-desync''"]
  proof (elim disjE)
    assume "k = ''--filter-tcp''"
    then show ?thesis by (cases "https_port_filter v") (auto simp: defs)
  next
    assume "k = ''--lua-desync''"
    then show ?thesis by (auto simp: defs instance_matches_iff Let_def)
  qed (auto simp: defs)
qed

lemma fold_scan: "fold_res https_token ts https_start = Inr s \<longleftrightarrow> list_all supported_token ts \<and> s = scan_of ts"
proof (induction ts arbitrary: s rule: rev_induct)
  case Nil
  show ?case by (auto simp: https_start_def scan_of_def flag_values_def payload_allows_def any_effect_def)
next
  case (snoc t ts)
  show ?case
  proof (cases "fold_res https_token ts https_start")
    case (Inl e)
    then show ?thesis using snoc.IH by (auto simp: fold_res_append)
  next
    case (Inr s')
    then show ?thesis using snoc.IH [of s'] scan_step [of t ts s] by (cases "https_token t (scan_of ts)") (auto simp: fold_res_append)
  qed
qed

text \<open>(C4) A strategy is judged by an HTTPS probe exactly when its argument line is well formed and, read as a profile, it handles
  IPv4 TLS on TCP port 443: the port filters, if any, admit 443, no other transport is selected instead, the L3 filters admit
  IPv4, the last L7 filter admits TLS, and some desync instruction applies to a TLS client hello under the payload selector in
  force where it stands.\<close>

theorem https_strategies_exact:
  "validate_https line = None \<longleftrightarrow>
     validate_line line = None \<and> list_all supported_token (str_fields line) \<and> handles_https (str_fields line)"
proof -
  have "https_verdict ts = None \<longleftrightarrow> list_all supported_token ts \<and> handles_https ts" for ts
  proof (cases "fold_res https_token ts https_start")
    case (Inl e)
    then show ?thesis using fold_scan [of ts "scan_of ts"] by (simp add: https_verdict_def)
  next
    case (Inr s)
    then have "list_all supported_token ts \<and> s = scan_of ts" using fold_scan by blast
    then show ?thesis using Inr by (auto simp: https_verdict_def handles_https_def scan_of_def)
  qed
  then show ?thesis by (simp add: validate_https_def split: option.split)
qed

section \<open>Evaluation on plain text\<close>

text \<open>On printable ASCII the fields are what the blanks separate.\<close>

definition plain_char :: "char \<Rightarrow> bool" where
  "plain_char c \<longleftrightarrow> (of_char c :: nat) = 32 \<or> (33 \<le> (of_char c :: nat) \<and> (of_char c :: nat) < 127)"

lemma blank_iff: "(of_char c = (32 :: nat)) = (c = CHR '' '')"
  using of_char_eq_iff [of c "CHR '' ''", where 'a = nat] by simp

lemma space_len_plain: "plain_char c \<Longrightarrow> space_len (c # s) = (if c = CHR '' '' then 1 else 0)"
proof (cases "c = CHR '' ''")
  case False
  assume "plain_char c"
  then have "33 \<le> (of_char c :: nat) \<and> (of_char c :: nat) < 127" using False by (simp add: plain_char_def blank_iff)
  then show ?thesis using False by (simp add: space_len_def utf8_spaces_def codes_def)
qed (simp add: space_len_def utf8_spaces_def codes_def)

lemma trim_left_plain: "list_all plain_char s \<Longrightarrow> trim_left s = dropWhile (\<lambda>c. c = CHR '' '') s"
proof (induction s)
  case (Cons c s)
  then have "space_len (c # s) = (if c = CHR '' '' then 1 else 0)" by (simp add: space_len_plain)
  then show ?case using Cons by (subst trim_left.simps) auto
qed simp

lemma word_len_plain: "list_all plain_char s \<Longrightarrow> word_len s = length (takeWhile (\<lambda>c. c \<noteq> CHR '' '') s)"
proof (induction s)
  case (Cons c s)
  then show ?case by (subst word_len.simps) (simp add: space_len_plain)
qed (simp add: word_len.simps)

lemma space_len_end_plain: "plain_char c \<Longrightarrow> c \<noteq> CHR '' '' \<Longrightarrow> space_len_end (s @ [c]) = 0"
  by (auto simp: space_len_end_def utf8_spaces_def codes_def plain_char_def blank_iff drop_Cons' dest!: arg_cong [where f = last])

lemma split_blank: "split_on (CHR '' '') s = (let w = takeWhile (\<lambda>c. c \<noteq> CHR '' '') s; r = dropWhile (\<lambda>c. c \<noteq> CHR '' '') s in
    if r = [] then [w] else w # split_on (CHR '' '') (tl r))"
  by (induction s) (auto simp: Let_def)

lemma str_fields_plain:
  "list_all plain_char s \<Longrightarrow> str_fields s = filter (\<lambda>w. w \<noteq> []) (split_on (CHR '' '') s)"
proof (induction "length s" arbitrary: s rule: less_induct)
  case less
  define t where "t = dropWhile (\<lambda>c. c = CHR '' '') s"
  define w where "w = takeWhile (\<lambda>c. c \<noteq> CHR '' '') t"
  define r where "r = dropWhile (\<lambda>c. c \<noteq> CHR '' '') t"
  have lead: "filter (\<lambda>w. w \<noteq> []) (split_on (CHR '' '') s) = filter (\<lambda>w. w \<noteq> []) (split_on (CHR '' '') t)"
    unfolding t_def by (induction s) auto
  have tl: "trim_left s = t" unfolding t_def by (rule trim_left_plain [OF less.prems])
  have pt: "list_all plain_char t" using less.prems unfolding t_def by (auto simp: list_all_iff dest: set_dropWhileD)
  show ?case
  proof (cases "t = []")
    case True
    have "str_fields s = []" using True tl by (subst str_fields.simps) simp
    then show ?thesis using lead unfolding True by simp
  next
    case False
    have "hd t \<noteq> CHR '' ''" using hd_dropWhile [OF False [unfolded t_def]] by (simp add: t_def)
    then have w: "w \<noteq> []" using False unfolding w_def by (cases t) auto
    have t: "t = w @ r" by (simp add: w_def r_def)
    have "list_all plain_char r" using pt t by simp
    moreover have "length r < length s"
      using w t length_dropWhile_le [of "\<lambda>c. c = CHR '' ''" s, folded t_def] by (cases w) auto
    ultimately have "str_fields r = filter (\<lambda>w. w \<noteq> []) (split_on (CHR '' '') r)" using less.hyps by blast
    moreover have "filter (\<lambda>w. w \<noteq> []) (split_on (CHR '' '') t) = w # filter (\<lambda>w. w \<noteq> []) (split_on (CHR '' '') r)"
    proof (cases r)
      case Nil
      then show ?thesis using w split_blank [of t, folded w_def r_def] by simp
    next
      case (Cons c r')
      have "c = CHR '' ''" using hd_dropWhile [of "\<lambda>c. c \<noteq> CHR '' ''" t, folded r_def] Cons by auto
      then show ?thesis using w Cons split_blank [of t, folded w_def r_def] by (simp add: Let_def)
    qed
    moreover have "str_fields s = w # str_fields r"
    proof -
      have "word_len t = length w" unfolding w_def by (rule word_len_plain [OF pt])
      then have "take (word_len t) t = w" "drop (word_len t) t = r" by (simp_all add: t)
      then show ?thesis using False tl by (subst str_fields.simps) (simp add: Let_def)
    qed
    ultimately show ?thesis using lead by simp
  qed
qed

lemma trim_space_plain:
  assumes "list_all plain_char s" "s \<noteq> []" "hd s \<noteq> CHR '' ''" "last s \<noteq> CHR '' ''"
  shows "trim_space s = s"
proof -
  have "trim_left s = s" using assms by (cases s) (auto simp: trim_left_plain)
  moreover have "space_len_end s = 0"
    using assms space_len_end_plain [of "last s" "butlast s"] by (auto simp: list_all_iff)
  ultimately show ?thesis by (simp add: trim_space_def trim_right.simps)
qed

section \<open>What the catalog promises\<close>

text \<open>An instruction that sends forged segments makes them unacceptable to the real server.\<close>

definition fooled_token :: "string \<Rightarrow> bool" where
  "fooled_token tok =
     (case cut_on (CHR ''='') tok of (key, value) \<Rightarrow>
        if key = ''--lua-desync'' \<and> desync_method value \<in> set [''fake'', ''fakedsplit'', ''fakeddisorder'', ''hostfakesplit'']
        then list_ex (\<lambda>p. p \<in> set [''badsum'', ''tcp_md5''] \<or> list_ex (has_prefix p) [''tcp_seq='', ''tcp_ack='', ''ip_ttl='', ''ip_autottl=''])
          (tl (split_on (CHR '':'') value))
        else True)"

definition plain_line :: "string \<Rightarrow> bool" where
  "plain_line line \<longleftrightarrow> line \<noteq> [] \<and> list_all plain_char line \<and> hd line \<noteq> CHR '' '' \<and> last line \<noteq> CHR '' ''"

definition plain_fields :: "string \<Rightarrow> string list" where
  "plain_fields line = filter (\<lambda>w. w \<noteq> []) (split_on (CHR '' '') line)"

lemma plain_line_fields: "plain_line line \<Longrightarrow> str_fields line = plain_fields line"
  by (simp add: plain_line_def plain_fields_def str_fields_plain)

lemma plain_line_validate: "plain_line line \<Longrightarrow> validate_line line = first_error check_token (plain_fields line)"
  using trim_space_plain [of line] by (simp add: validate_line_def plain_line_def plain_fields_def str_fields_plain Let_def)

definition catalog_entry_ok :: "strategy \<Rightarrow> bool" where
  "catalog_entry_ok s \<longleftrightarrow> plain_line (st_args s) \<and> (let fs = plain_fields (st_args s) in
     first_error check_token fs = None \<and> (https_verdict fs = None) = (st_l7 s = ''tls'') \<and> list_all fooled_token fs)"

text \<open>Evaluated a part at a time.\<close>

lemma builtin_entries: "list_all catalog_entry_ok builtin_strategies" by code_simp
lemma auto_entries_1: "list_all catalog_entry_ok (take 12 auto_candidates)" by code_simp
lemma auto_entries_2: "list_all catalog_entry_ok (take 12 (drop 12 auto_candidates))" by code_simp
lemma auto_entries_3: "list_all catalog_entry_ok (take 12 (drop 24 auto_candidates))" by code_simp
lemma auto_entries_4: "list_all catalog_entry_ok (drop 36 auto_candidates)" by code_simp

lemma list_in_parts: "xs = take a xs @ take b (drop a xs) @ take c (drop (b + a) xs) @ drop (c + (b + a)) xs"
proof -
  have "drop (b + a) xs = take c (drop (b + a) xs) @ drop (c + (b + a)) xs" by (metis append_take_drop_id drop_drop)
  moreover have "drop a xs = take b (drop a xs) @ drop (b + a) xs" by (metis append_take_drop_id drop_drop)
  ultimately show ?thesis by (metis append_take_drop_id)
qed

lemma catalog_entries: "list_all catalog_entry_ok (builtin_strategies @ auto_candidates)"
proof -
  have "list_all catalog_entry_ok auto_candidates"
    by (subst list_in_parts [of _ 12 12 12]) (simp add: auto_entries_1 auto_entries_2 auto_entries_3 auto_entries_4)
  then show ?thesis using builtin_entries by simp
qed

lemma catalog_ids: "distinct (map st_id (builtin_strategies @ auto_candidates))"
  by code_simp

text \<open>Every strategy of the built-in catalog and of the automatic search passes the check of argument lines; the HTTPS
  filter keeps exactly those meant for TLS; every instruction that sends forged segments carries a fooling of its own, as the
  catalog's comment demands; and no two have the same identifier.\<close>

theorem catalog_sound:
  "list_all (\<lambda>s. validate_line (st_args s) = None \<and> (validate_https (st_args s) = None \<longleftrightarrow> st_l7 s = ''tls'')
      \<and> list_all fooled_token (strategy_args s)) (builtin_strategies @ auto_candidates)
    \<and> distinct (map st_id (builtin_strategies @ auto_candidates))
    \<and> https_run_strategies auto_candidates = filter (\<lambda>s. st_l7 s = ''tls'') auto_candidates"
proof -
  have ok: "validate_line (st_args s) = None \<and> (validate_https (st_args s) = None \<longleftrightarrow> st_l7 s = ''tls'')
      \<and> list_all fooled_token (strategy_args s)" if "catalog_entry_ok s" for s
    using that plain_line_fields [of "st_args s"] plain_line_validate [of "st_args s"]
    by (simp add: catalog_entry_ok_def validate_https_def strategy_args_def Let_def)
  then show ?thesis using catalog_entries catalog_ids by (auto simp: list_all_iff https_run_strategies_def intro!: filter_cong)
qed

end
