(* ===== verification/Strategy_Config.thy ===== *)
theory Strategy_Config
  imports Strategy_Catalog Go_Utf8
begin

text \<open>
  Custom strategies, the variants of strategies a run tests, and the place of the chosen strategy in the engine's
  configuration file (\<open>internal/app/app.go\<close>, \<open>internal/app/automation.go\<close>, \<open>internal/services/blobs/blobs.go\<close>).

  The store, the identifiers it draws and the blobs found on disk are arguments. A group name in a replacement template is
  ASCII here.
\<close>

section \<open>Lines and custom strategies\<close>

fun clean_loop :: "string list \<Rightarrow> string list \<Rightarrow> string list" where
  "clean_loop seen [] = []"
| "clean_loop seen (s # ss) =
     (let t = trim_space s in if t = [] \<or> t \<in> set seen then clean_loop seen ss else t # clean_loop (t # seen) ss)"

definition clean_lines :: "string list \<Rightarrow> string list" where
  "clean_lines ss = clean_loop [] ss"

lemma clean_loop_props:
  "distinct (clean_loop seen ss) \<and> set (clean_loop seen ss) = (trim_space ` set ss) - insert [] (set seen)"
proof (induction seen ss rule: clean_loop.induct)
  case (2 seen s ss)
  then show ?case by (auto simp: Let_def)
qed simp

lemma clean_lines_props: "distinct (clean_lines ss) \<and> set (clean_lines ss) = (trim_space ` set ss) - {[]}"
  using clean_loop_props [of "[]" ss] by (simp add: clean_lines_def)

definition all_strategies :: "strategy list \<Rightarrow> strategy list" where
  "all_strategies custom = builtin_strategies @ custom"

definition get_strategy :: "strategy list \<Rightarrow> string \<Rightarrow> strategy option" where
  "get_strategy custom i = find (\<lambda>s. st_id s = i) (all_strategies custom)"

fun replace_custom :: "strategy \<Rightarrow> strategy list \<Rightarrow> strategy list option" where
  "replace_custom s [] = None"
| "replace_custom s (c # cs) = (if st_id c = st_id s then Some (s # cs) else map_option (Cons c) (replace_custom s cs))"

text \<open>\<open>fresh\<close> is the identifier the store draws.\<close>

definition save_custom :: "string \<Rightarrow> strategy \<Rightarrow> strategy list \<Rightarrow> line_error + strategy list" where
  "save_custom fresh s0 custom =
     (let s = s0\<lparr>st_source := ''custom''\<rparr> in
      case validate_line (st_args s) of
        Some e \<Rightarrow> Inl e
      | None \<Rightarrow>
          Inr (if st_id s = [] then custom @ [s\<lparr>st_id := ''custom-'' @ fresh\<rparr>]
               else (case replace_custom s custom of Some cs \<Rightarrow> cs | None \<Rightarrow> custom @ [s])))"

definition delete_custom :: "string \<Rightarrow> strategy list \<Rightarrow> strategy list" where
  "delete_custom i custom = filter (\<lambda>s. st_id s \<noteq> i) custom"

inductive custom_reachable :: "strategy list \<Rightarrow> bool" where
  custom_empty: "custom_reachable []"
| custom_saved: "custom_reachable cs \<Longrightarrow> ''custom-'' @ fresh \<notin> st_id ` set cs \<Longrightarrow> save_custom fresh s cs = Inr cs' \<Longrightarrow> custom_reachable cs'"
| custom_deleted: "custom_reachable cs \<Longrightarrow> custom_reachable (delete_custom i cs)"

definition custom_ok :: "strategy list \<Rightarrow> bool" where
  "custom_ok cs \<longleftrightarrow> distinct (map st_id cs)
     \<and> list_all (\<lambda>s. validate_line (st_args s) = None \<and> st_source s = ''custom'' \<and> st_id s \<noteq> []) cs"

lemma replace_custom_ids:
  "replace_custom s cs = Some cs' \<Longrightarrow> map st_id cs' = map st_id cs \<and> set cs' \<subseteq> insert s (set cs)"
  by (induction cs arbitrary: cs') (auto split: if_splits)

lemma replace_custom_none: "replace_custom s cs = None \<Longrightarrow> st_id s \<notin> st_id ` set cs"
  by (induction cs) (auto split: if_splits)

lemma save_custom_ok:
  assumes "custom_ok cs" "''custom-'' @ fresh \<notin> st_id ` set cs" "save_custom fresh s cs = Inr cs'"
  shows "custom_ok cs'"
proof -
  let ?s = "s\<lparr>st_source := ''custom''\<rparr>"
  have v: "validate_line (st_args s) = None" using assms(3) by (auto simp: save_custom_def Let_def split: option.splits)
  show ?thesis
  proof (cases "st_id s = []")
    case True
    then have "cs' = cs @ [?s\<lparr>st_id := ''custom-'' @ fresh\<rparr>]" using assms(3) v by (simp add: save_custom_def)
    then show ?thesis using assms(1,2) v by (auto simp: custom_ok_def)
  next
    case False
    show ?thesis
    proof (cases "replace_custom ?s cs")
      case None
      then have "cs' = cs @ [?s]" using assms(3) v False by (simp add: save_custom_def)
      then show ?thesis using assms(1) v False replace_custom_none [OF None] by (auto simp: custom_ok_def)
    next
      case (Some cs2)
      then have "cs' = cs2" using assms(3) v False by (simp add: save_custom_def)
      then show ?thesis using assms(1) v False replace_custom_ids [OF Some] by (auto simp: custom_ok_def list_all_iff)
    qed
  qed
qed

text \<open>(C11) Whatever is saved and deleted, the custom strategies have distinct identifiers, every one passed the check of
  argument lines, and every one is marked as custom.\<close>

theorem custom_strategies_well_formed:
  assumes "custom_reachable cs"
  shows "distinct (map st_id cs) \<and> list_all (\<lambda>s. validate_line (st_args s) = None \<and> st_source s = ''custom'' \<and> st_id s \<noteq> []) cs"
proof -
  have "custom_ok cs"
    using assms
  proof (induction rule: custom_reachable.induct)
    case (custom_deleted cs i)
    then show ?case by (auto simp: custom_ok_def delete_custom_def list_all_iff distinct_map inj_on_def)
  next
    case (custom_saved cs fresh s cs')
    then show ?case using save_custom_ok by blast
  qed (simp add: custom_ok_def)
  then show ?thesis by (simp add: custom_ok_def)
qed

section \<open>Variants of a strategy in a run\<close>

text \<open>The class \<open>\s\<close> of Go's regular expressions; what \<open>[^\s:]+\<close> takes.\<close>

definition re_space :: "char \<Rightarrow> bool" where
  "re_space c \<longleftrightarrow> (of_char c :: nat) \<in> {9, 10, 12, 13, 32}"

definition value_len :: "string \<Rightarrow> nat" where
  "value_len s = length (takeWhile (\<lambda>c. \<not> re_space c \<and> c \<noteq> CHR '':'') s)"

text \<open>The replacement of \<open>(sni=)[^\s:]+\<close>, given the expansion of the template.\<close>

function replace_sni :: "string \<Rightarrow> string \<Rightarrow> string" where
  "replace_sni new s =
     (if s = [] then []
      else if has_prefix s ''sni='' \<and> 0 < value_len (drop 4 s)
      then new @ replace_sni new (drop (4 + value_len (drop 4 s)) s)
      else hd s # replace_sni new (tl s))"
  by pat_completeness auto
termination by (relation "measure (length \<circ> snd)") auto

declare replace_sni.simps [simp del]

function has_sni :: "string \<Rightarrow> bool" where
  "has_sni s = (if s = [] then False else if has_prefix s ''sni='' \<and> 0 < value_len (drop 4 s) then True else has_sni (tl s))"
  by pat_completeness auto
termination by (relation "measure length") auto

declare has_sni.simps [simp del]

text \<open>The replacement of \<open>([\s:])blob=[^\s:]+\<close> by the separator, \<open>blob=\<close> and the name.\<close>

function replace_blob :: "string \<Rightarrow> string \<Rightarrow> string" where
  "replace_blob new s =
     (if s = [] then []
      else if (re_space (hd s) \<or> hd s = CHR '':'') \<and> has_prefix (tl s) ''blob='' \<and> 0 < value_len (drop 6 s)
      then hd s # ''blob='' @ new @ replace_blob new (drop (6 + value_len (drop 6 s)) s)
      else hd s # replace_blob new (tl s))"
  by pat_completeness auto
termination by (relation "measure (length \<circ> snd)") auto

declare replace_blob.simps [simp del]

function has_blob :: "string \<Rightarrow> bool" where
  "has_blob s = (if s = [] then False
     else if (re_space (hd s) \<or> hd s = CHR '':'') \<and> has_prefix (tl s) ''blob='' \<and> 0 < value_len (drop 6 s) then True
     else has_blob (tl s))"
  by pat_completeness auto
termination by (relation "measure length") auto

declare has_blob.simps [simp del]

text \<open>The template of a replacement (\<open>Regexp.Expand\<close>); a group that does not exist is empty.\<close>

definition name_char :: "char \<Rightarrow> bool" where
  "name_char c \<longleftrightarrow> is_digit c \<or> c = CHR ''_'' \<or> (let n = (of_char c :: nat) in (65 \<le> n \<and> n \<le> 90) \<or> (97 \<le> n \<and> n \<le> 122))"

definition group_number :: "string \<Rightarrow> nat option" where
  "group_number n = (if list_all is_digit n \<and> length n \<le> 8 \<and> (length n > 1 \<longrightarrow> hd n \<noteq> CHR ''0'') then Some (dec_val n) else None)"

text \<open>The text a name stands for and what follows it, given the template after the dollar sign.\<close>

definition template_name :: "string list \<Rightarrow> string \<Rightarrow> (string \<times> string) option" where
  "template_name groups s =
     (let brace = (s \<noteq> [] \<and> hd s = CHR ''{''); t = (if brace then tl s else s); n = takeWhile name_char t; r = dropWhile name_char t;
          text = (case group_number n of Some k \<Rightarrow> (if k < length groups then groups ! k else []) | None \<Rightarrow> []) in
      if n = [] then None
      else if brace then (if r \<noteq> [] \<and> hd r = CHR ''}'' then Some (text, tl r) else None)
      else Some (text, r))"

lemma template_name_shorter: "template_name groups s = Some (v, r) \<Longrightarrow> length r < length s"
proof -
  assume a: "template_name groups s = Some (v, r)"
  let ?t = "if s \<noteq> [] \<and> hd s = CHR ''{'' then tl s else s"
  have len: "length (takeWhile name_char ?t) + length (dropWhile name_char ?t) = length ?t"
    by (metis length_append takeWhile_dropWhile_id)
  have "takeWhile name_char ?t \<noteq> [] \<and> length r \<le> length (dropWhile name_char ?t)"
    using a by (auto simp: template_name_def Let_def split: if_splits)
  then show ?thesis using len by (cases "takeWhile name_char ?t") (auto split: if_splits)
qed

function expand_template :: "string list \<Rightarrow> string \<Rightarrow> string" where
  "expand_template groups s =
     (case s of
        [] \<Rightarrow> []
      | c # r \<Rightarrow>
          (if c \<noteq> CHR ''$'' then c # expand_template groups r
           else if r \<noteq> [] \<and> hd r = CHR ''$'' then CHR ''$'' # expand_template groups (tl r)
           else (case template_name groups r of
               None \<Rightarrow> CHR ''$'' # expand_template groups r
             | Some (v, rest) \<Rightarrow> v @ expand_template groups rest)))"
  by pat_completeness auto
termination
  by (relation "measure (length \<circ> snd)") (auto dest: template_name_shorter)

declare expand_template.simps [simp del]

text \<open>\<open>expandSNIs\<close> and \<open>buildRunStrategies\<close>; a blob is its name in the engine and its path.\<close>

definition sni_variant :: "strategy \<Rightarrow> string \<Rightarrow> strategy" where
  "sni_variant s d = s\<lparr>st_id := st_id s @ ''/sni='' @ d, st_name := ''(sni '' @ d @ '') '' @ st_name s,
     st_args := replace_sni (expand_template [[], ''sni=''] (''${1}'' @ d)) (st_args s)\<rparr>"

definition expand_snis :: "strategy list \<Rightarrow> string list \<Rightarrow> strategy list" where
  "expand_snis base domains =
     (if domains = [] then base
      else concat (map (\<lambda>s. if has_sni (st_args s) then map (sni_variant s) domains @ [s] else [s]) base))"

definition lua_ident_char :: "char \<Rightarrow> bool" where
  "lua_ident_char c \<longleftrightarrow> name_char c"

function fold_ident :: "string \<Rightarrow> string" where
  "fold_ident s = (if s = [] then []
     else if lua_ident_char (hd s) then hd s # fold_ident (tl s)
     else CHR ''_'' # fold_ident (drop (max 1 (rune_len s)) s))"
  by pat_completeness auto
termination by (relation "measure length") auto

declare fold_ident.simps [simp del]

definition lua_ident :: "string \<Rightarrow> string" where
  "lua_ident s = (let t = fold_ident s in if t = [] \<or> is_digit (hd t) then ''b_'' @ t else t)"

definition blob_variant :: "strategy \<Rightarrow> string \<times> string \<Rightarrow> strategy" where
  "blob_variant s b = s\<lparr>st_id := st_id s @ ''/'' @ fst b, st_name := ''['' @ fst b @ ''] '' @ st_name s,
     st_args := ''--blob='' @ fst b @ '':@'' @ snd b @ '' '' @ replace_blob (fst b) (st_args s)\<rparr>"

definition build_run_strategies :: "(string \<Rightarrow> (string \<times> string) option) \<Rightarrow> strategy list \<Rightarrow> string list \<Rightarrow> strategy list" where
  "build_run_strategies resolve base names =
     (let blobs = List.map_filter resolve names in
      if blobs = [] then base
      else concat (map (\<lambda>s. if has_blob (st_args s) then map (blob_variant s) blobs @ [s] else [s]) base))"

lemma lua_ident_valid: "lua_ident s \<noteq> [] \<and> list_all name_char (lua_ident s) \<and> \<not> is_digit (hd (lua_ident s))"
proof -
  have u: "name_char (CHR ''_'')" "name_char (CHR ''b'')" "\<not> is_digit (CHR ''b'')" by (simp_all add: name_char_def is_digit_def)
  have "list_all name_char (fold_ident s)"
  proof (induction s rule: fold_ident.induct)
    case (1 s)
    then show ?case using u by (subst fold_ident.simps) (auto simp: lua_ident_char_def)
  qed
  then show ?thesis using u by (auto simp: lua_ident_def Let_def)
qed

text \<open>A template without a dollar sign stands for itself.\<close>

lemma expand_plain: "CHR ''$'' \<notin> set s \<Longrightarrow> expand_template groups s = s"
proof (induction s)
  case (Cons c s)
  then show ?case by (subst expand_template.simps) auto
qed (simp add: expand_template.simps)

section \<open>The strategy in the configuration file\<close>

definition args_marker :: string where "args_marker = ''NFQWS_ARGS='' @ [CHR 0x22]"

fun find_sub :: "string \<Rightarrow> string \<Rightarrow> (string \<times> string) option" where
  "find_sub m [] = (if m = [] then Some ([], []) else None)"
| "find_sub m (c # s) = (if has_prefix (c # s) m then Some ([], drop (length m) (c # s))
     else (case find_sub m s of None \<Rightarrow> None | Some (pre, r) \<Rightarrow> Some (c # pre, r)))"

text \<open>The first match of \<open>(NFQWS_ARGS=")[^"]*(")\<close>: what precedes it, the text between the quotes, what follows.\<close>

definition find_block :: "string \<Rightarrow> (string \<times> string \<times> string) option" where
  "find_block s =
     (case find_sub args_marker s of
        None \<Rightarrow> None
      | Some (pre, r) \<Rightarrow>
          (if CHR 0x22 \<in> set r
           then Some (pre, takeWhile (\<lambda>c. c \<noteq> CHR 0x22) r, tl (dropWhile (\<lambda>c. c \<noteq> CHR 0x22) r)) else None))"

lemma find_sub_Some: "find_sub m s = Some (pre, r) \<Longrightarrow> s = pre @ m @ r"
proof (induction s arbitrary: pre)
  case (Cons c s)
  show ?case
  proof (cases "has_prefix (c # s) m")
    case True
    then show ?thesis using Cons.prems by (auto simp: has_prefix_iff)
  next
    case False
    then show ?thesis using Cons by (auto split: option.splits)
  qed
qed (auto split: if_splits)

lemma find_block_Some: "find_block s = Some (pre, body, rest) \<Longrightarrow> s = pre @ args_marker @ body @ CHR 0x22 # rest \<and> CHR 0x22 \<notin> set body"
proof -
  assume a: "find_block s = Some (pre, body, rest)"
  then obtain r where r: "find_sub args_marker s = Some (pre, r)" "CHR 0x22 \<in> set r" "body = takeWhile (\<lambda>c. c \<noteq> CHR 0x22) r"
      "rest = tl (dropWhile (\<lambda>c. c \<noteq> CHR 0x22) r)"
    by (auto simp: find_block_def split: option.splits if_splits)
  have "dropWhile (\<lambda>c. c \<noteq> CHR 0x22) r = CHR 0x22 # rest"
    using r(2,4) hd_dropWhile [of "\<lambda>c. c \<noteq> CHR 0x22" r] by (cases "dropWhile (\<lambda>c. c \<noteq> CHR 0x22) r") auto
  then have "r = body @ CHR 0x22 # rest" using r(3) by (metis takeWhile_dropWhile_id)
  then show ?thesis using find_sub_Some [OF r(1)] r(3) by (auto dest: set_takeWhileD)
qed

function replace_args :: "string \<Rightarrow> string \<Rightarrow> string" where
  "replace_args template s =
     (case find_block s of
        None \<Rightarrow> s
      | Some (pre, body, rest) \<Rightarrow>
          pre @ expand_template [args_marker @ body @ [CHR 0x22], args_marker, [CHR 0x22]] template @ replace_args template rest)"
  by pat_completeness auto
termination
  by (relation "measure (length \<circ> snd)") (auto dest!: find_block_Some)

declare replace_args.simps [simp del]

fun escape_repl :: "string \<Rightarrow> string" where
  "escape_repl [] = []"
| "escape_repl (c # s) = (if c = CHR ''$'' then ''$$'' @ escape_repl s else c # escape_repl s)"

definition apply_strategy_args :: "string \<Rightarrow> string \<Rightarrow> string" where
  "apply_strategy_args line conf = replace_args (''${1}'' @ escape_repl line @ ''${2}'') conf"

definition read_conf_args :: "string \<Rightarrow> string" where
  "read_conf_args conf =
     (case find_block conf of
        None \<Rightarrow> []
      | Some (pre, body, rest) \<Rightarrow>
          (let full = args_marker @ body @ [CHR 0x22] in
           case (index_of (CHR 0x22) full, last_index (CHR 0x22) full) of
             (Some a, Some b) \<Rightarrow> (if b \<le> a then [] else take (b - a - 1) (drop (a + 1) full))
           | _ \<Rightarrow> []))"

text \<open>The escaped line comes out of the expansion unchanged.\<close>

lemma expand_cons: "c \<noteq> CHR ''$'' \<Longrightarrow> expand_template gs (c # s) = c # expand_template gs s"
  by (subst expand_template.simps) simp

lemma expand_group:
  assumes "k < length gs" "group_number n = Some k" "n \<noteq> []" "list_all name_char n"
  shows "expand_template gs (CHR ''$'' # CHR ''{'' # n @ CHR ''}'' # s) = gs ! k @ expand_template gs s"
proof -
  have "\<not> name_char (CHR ''}'')" by (simp add: name_char_def is_digit_def Let_def)
  then have "takeWhile name_char (n @ CHR ''}'' # s) = n" "dropWhile name_char (n @ CHR ''}'' # s) = CHR ''}'' # s"
    using assms(4) by (auto simp: list_all_iff takeWhile_append2 dropWhile_append2)
  then show ?thesis using assms by (subst expand_template.simps) (simp add: template_name_def)
qed

lemma expand_escaped: "expand_template gs (escape_repl s @ t) = s @ expand_template gs t"
proof (induction s)
  case (Cons c s)
  then show ?case by (cases "c = CHR ''$''") (subst expand_template.simps, simp, simp add: expand_cons)
qed simp

lemma expand_args: "expand_template [g0, g1, g2] (''${1}'' @ escape_repl line @ ''${2}'') = g1 @ line @ g2"
proof -
  have d: "group_number ''1'' = Some 1" "group_number ''2'' = Some 2" "list_all name_char ''1''" "list_all name_char ''2''"
    by code_simp+
  show ?thesis
    using expand_group [of 1 "[g0, g1, g2]" "''1''" "escape_repl line @ ''${2}''"] d
      expand_group [of 2 "[g0, g1, g2]" "''2''" "[]"] by (simp add: expand_escaped expand_template.simps [of _ "[]"])
qed

lemma find_sub_here: "find_sub m (m @ y) = Some ([], y)"
proof (cases m)
  case Nil
  then show ?thesis by (cases y) (auto simp: has_prefix_iff)
next
  case (Cons c m')
  have "has_prefix (m @ y) m" by (simp add: has_prefix_iff)
  then show ?thesis using Cons by simp
qed

lemma find_sub_agrees: "find_sub m (pre @ m @ x) = Some (pre, x) \<Longrightarrow> find_sub m (pre @ m @ y) = Some (pre, y)"
proof (induction pre)
  case Nil
  then show ?case by (simp add: find_sub_here)
next
  case (Cons c pre)
  have "take (length m) ((c # pre @ m) @ z) = take (length m) (c # pre @ m)" for z by (subst take_append) simp
  from this [of x] this [of y] have same: "has_prefix ((c # pre) @ m @ x) m = has_prefix ((c # pre) @ m @ y) m"
    by (simp add: has_prefix_def)
  show ?case
  proof (cases "has_prefix ((c # pre) @ m @ x) m")
    case True
    then show ?thesis using Cons.prems by simp
  next
    case False
    then have "find_sub m (pre @ m @ x) = Some (pre, x)" using Cons.prems by (auto split: option.splits)
    then show ?thesis using Cons.IH False same by simp
  qed
qed

lemma cut_at: "q \<notin> set a \<Longrightarrow> takeWhile (\<lambda>c. c \<noteq> q) (a @ q # b) = a \<and> dropWhile (\<lambda>c. c \<noteq> q) (a @ q # b) = q # b"
  by (induction a) auto


text \<open>A quotation mark passes the check of argument lines and cuts the line short.\<close>

lemma quoted_line_is_cut:
  "validate_line (''--a='' @ [CHR 0x22] @ ''b'') = None
    \<and> read_conf_args (apply_strategy_args (''--a='' @ [CHR 0x22] @ ''b'') (args_marker @ ''x'' @ [CHR 0x22])) = ''--a=''"
  by code_simp


lemma custom_strategies_well_formed_witness:
  "let s = \<lparr>st_id = [], st_name = ''n'', st_l7 = ''tls'', st_args = ''--lua-desync=fake'', st_source = []\<rparr>;
       cs = [s\<lparr>st_id := ''custom-1'', st_source := ''custom''\<rparr>] in
     save_custom ''1'' s [] = Inr cs \<and> distinct (map st_id cs)
     \<and> list_all (\<lambda>s. validate_line (st_args s) = None \<and> st_source s = ''custom'' \<and> st_id s \<noteq> []) cs"
proof -
  let ?s = "\<lparr>st_id = [], st_name = ''n'', st_l7 = ''tls'', st_args = ''--lua-desync=fake'', st_source = []\<rparr> :: strategy"
  let ?cs = "[?s\<lparr>st_id := ''custom-1'', st_source := ''custom''\<rparr>]"
  have s: "save_custom ''1'' ?s [] = Inr ?cs" by code_simp
  have "custom_reachable ?cs" by (rule custom_saved [OF custom_empty _ s]) simp
  from custom_strategies_well_formed [OF this] s show ?thesis unfolding Let_def by blast
qed

end
