(* ===== verification/Strategy_Runs.thy ===== *)
theory Strategy_Runs
  imports Strategy_Config Stable_Sort Assoc "HOL-Library.Signed_Division" "HOL-Library.Word"
begin

text \<open>
  Test runs of the strategies (\<open>internal/app/run.go\<close>, \<open>types.go\<close>, \<open>automation.go\<close>): what is tested, how a measurement is
  judged, how results are ranked, kept and picked, and the pool of workers that carries a run out.

  What the network and the engine answer is the record \<open>test_env\<close>. The score \<open>float64\<close> is the parameter \<open>score_ops\<close> over a
  linearly ordered type: neither quantity of the quotient is ever negative or a NaN. A Go map is an association list.
\<close>

section \<open>Judging a measurement\<close>

text \<open>What is appended to the text of an error when the queue gives no evidence.\<close>

datatype queue_note = CounterBefore string | CounterAfter string | QueueSilent

record probe_result =
  po_host :: string
  po_code :: int
  po_size :: int
  po_ttfb :: int
  po_speed :: int
  po_ok :: bool
  po_truncated :: bool
  po_local_error :: bool
  po_err :: string
  po_note :: "queue_note option"

datatype verdict = VOk | VCap16k | VLocalError | VDns | VReset | VRefused | VTimeout | VError

record target_check =
  tc_host :: string
  tc_blocked :: bool
  tc_verdict :: verdict
  tc_err :: string

definition contains_sub :: "string \<Rightarrow> string \<Rightarrow> bool" where
  "contains_sub s m \<longleftrightarrow> find_sub m s \<noteq> None"

definition classify_probe :: "string \<Rightarrow> probe_result \<Rightarrow> target_check" where
  "classify_probe host r =
     (let tc = \<lparr>tc_host = host, tc_blocked = False, tc_verdict = VOk, tc_err = po_err r\<rparr>; e = to_lower (po_err r) in
      if po_local_error r then tc\<lparr>tc_verdict := VLocalError\<rparr>
      else if po_truncated r then tc\<lparr>tc_verdict := VCap16k, tc_blocked := True\<rparr>
      else if po_code r \<noteq> 0 then tc
      else tc\<lparr>tc_blocked := True, tc_verdict :=
        (if contains_sub e ''no such host'' \<or> contains_sub e ''lookup'' \<or> contains_sub e ''server misbehaving'' then VDns
         else if contains_sub e ''reset'' \<or> contains_sub e ''forcibly closed'' then VReset
         else if contains_sub e ''refused'' then VRefused
         else if contains_sub e ''timeout'' \<or> contains_sub e ''deadline'' then VTimeout
         else VError)\<rparr>)"

fun blocked_targets :: "target_check list \<Rightarrow> target_check + string list" where
  "blocked_targets [] = Inr []"
| "blocked_targets (tc # tcs) =
     (if tc_verdict tc = VLocalError then Inl tc
      else (case blocked_targets tcs of
          Inl e \<Rightarrow> Inl e
        | Inr bs \<Rightarrow> Inr (if tc_blocked tc then tc_host tc # bs else bs)))"

lemma blocked_targets_exact:
  "blocked_targets (map (\<lambda>t. classify_probe t (f t)) ts) =
    (case find (\<lambda>t. po_local_error (f t)) ts of
       Some t \<Rightarrow> Inl (classify_probe t (f t))
     | None \<Rightarrow> Inr (filter (\<lambda>t. po_truncated (f t) \<or> po_code (f t) = 0) ts))"
proof (induction ts)
  case (Cons t ts)
  have "tc_verdict (classify_probe t (f t)) = VLocalError \<longleftrightarrow> po_local_error (f t)" "tc_host (classify_probe t (f t)) = t"
    "\<not> po_local_error (f t) \<Longrightarrow> tc_blocked (classify_probe t (f t)) \<longleftrightarrow> po_truncated (f t) \<or> po_code (f t) = 0"
    by (auto simp: classify_probe_def Let_def)
  then show ?case using Cons.IH by (simp split: option.splits)
qed simp

text \<open>One target under test: the counter of the queue is read before and after the request.\<close>

definition failed_probe :: "string \<Rightarrow> queue_note \<Rightarrow> probe_result" where
  "failed_probe host note = \<lparr>po_host = host, po_code = 0, po_size = 0, po_ttfb = 0, po_speed = 0, po_ok = False,
     po_truncated = False, po_local_error = False, po_err = [], po_note = Some note\<rparr>"

definition probe_queued_target :: "string \<Rightarrow> probe_result \<Rightarrow> string + 32 word \<Rightarrow> string + 32 word \<Rightarrow> probe_result" where
  "probe_queued_target host r before after =
     (case before of
        Inl e \<Rightarrow> failed_probe host (CounterBefore e)
      | Inr b \<Rightarrow>
          (case after of
             Inl e \<Rightarrow> r\<lparr>po_ok := False, po_note := Some (CounterAfter e)\<rparr>
           | Inr a \<Rightarrow> (if a \<noteq> b then r else r\<lparr>po_ok := False, po_note := Some QueueSilent\<rparr>)))"

section \<open>What is tested\<close>

record dns_choice =
  dc_id :: string
  dc_name :: string

text \<open>\<open>runDNSChoices\<close>: \<^term>\<open>None\<close> is the system resolver. Later servers win where an identifier is used twice.\<close>

definition run_dns_choices :: "dns_choice list \<Rightarrow> string list \<Rightarrow> dns_choice option list" where
  "run_dns_choices servers ids =
     (if ids = [] then [None]
      else (let out = List.map_filter (\<lambda>i. if i = [] \<or> i = ''system'' then Some None
                        else map_option Some (find (\<lambda>s. dc_id s = i) (rev servers))) ids in
        if out = [] then [None] else out))"

type_synonym run_job = "strategy \<times> dns_choice option"

definition run_plan :: "strategy list \<Rightarrow> dns_choice option list \<Rightarrow> run_job list" where
  "run_plan ss choices = concat (map (\<lambda>s. map (Pair s) choices) ss)"

definition max_threads :: int where "max_threads = 8"

definition run_threads :: "int \<Rightarrow> nat \<Rightarrow> int" where
  "run_threads requested jobs =
     (let t = (if requested \<le> 0 then 4 else requested); t = (if t > max_threads then max_threads else t) in
      if t > int jobs then int jobs else t)"

datatype run_refusal = NoTargets | NoStrategies | NoHttpsStrategies | RunActive

text \<open>The checks of \<open>StartRun\<close> before the run is registered: the plan and the number of workers.\<close>

definition plan_run :: "(string \<Rightarrow> (string \<times> string) option) \<Rightarrow> string list \<Rightarrow> dns_choice list \<Rightarrow> strategy list \<Rightarrow> string list
    \<Rightarrow> bool \<Rightarrow> string list \<Rightarrow> string list \<Rightarrow> string list \<Rightarrow> int \<Rightarrow> run_refusal + (run_job list \<times> int)" where
  "plan_run resolve snis servers custom targets auto ids blobs dns threads =
     (if targets = [] then Inl NoTargets
      else (let base = (if auto then auto_candidates
                        else if ids = [] then all_strategies custom
                        else filter (\<lambda>s. st_id s \<in> set ids) (all_strategies custom));
                ss = expand_snis (build_run_strategies resolve base blobs) snis in
        if ss = [] then Inl NoStrategies
        else if https_run_strategies ss = [] then Inl NoHttpsStrategies
        else (let plan = run_plan (https_run_strategies ss) (run_dns_choices servers dns) in
          Inr (plan, run_threads threads (length plan)))))"

lemma run_dns_choices_nonempty: "run_dns_choices servers ids \<noteq> []"
  by (simp add: run_dns_choices_def Let_def)

lemma plan_run_ok:
  assumes "plan_run resolve snis servers custom targets auto ids blobs dns threads = Inr (plan, n)"
  shows "plan \<noteq> [] \<and> list_all (\<lambda>(s, d). validate_https (st_args s) = None) plan \<and> 1 \<le> n \<and> n \<le> 8 \<and> n \<le> int (length plan)"
proof -
  obtain ss where p: "plan = run_plan (https_run_strategies ss) (run_dns_choices servers dns)" "https_run_strategies ss \<noteq> []"
      "n = run_threads threads (length plan)"
    using assms by (auto simp: plan_run_def Let_def split: if_splits)
  obtain s ss' where s: "https_run_strategies ss = s # ss'" using p(2) by (cases "https_run_strategies ss") auto
  obtain c cs where c: "run_dns_choices servers dns = c # cs" using run_dns_choices_nonempty by (meson neq_Nil_conv)
  have ne: "plan \<noteq> []" using p(1) s c by (simp add: run_plan_def)
  moreover have "validate_https (st_args t) = None" if "(t, d) \<in> set plan" for t d
    using that p(1) by (auto simp: run_plan_def https_run_strategies_def)
  moreover have "1 \<le> length plan" using ne by (cases plan) auto
  ultimately show ?thesis using p(3) by (auto simp: run_threads_def max_threads_def Let_def list_all_iff)
qed

section \<open>Testing one strategy\<close>

record 'f score_ops =
  sc_zero :: 'f
  sc_score :: "int \<Rightarrow> int \<Rightarrow> 'f"

text \<open>\<open>sc_score speed ttfb\<close> is \<open>coefficient\<close>: the speed, scaled down as the latency grows.\<close>

record 'f strategy_result =
  sr_id :: string
  sr_name :: string
  sr_args :: string
  sr_dns :: string
  sr_dns_id :: string
  sr_total :: nat
  sr_ok :: nat
  sr_ttfb :: int
  sr_speed :: int
  sr_coef :: 'f
  sr_success :: bool
  sr_failed :: bool
  sr_per_target :: "probe_result list"

record test_env =
  te_start :: bool
  te_rules :: bool
  te_cancelled :: "nat \<Rightarrow> bool"
  te_fetch :: "nat \<Rightarrow> probe_result"
  te_before :: "nat \<Rightarrow> string + 32 word"
  te_after :: "nat \<Rightarrow> string + 32 word"

fun probe_targets :: "test_env \<Rightarrow> nat \<Rightarrow> string list \<Rightarrow> probe_result list" where
  "probe_targets env i [] = []"
| "probe_targets env i (t # ts) =
     (if te_cancelled env i then []
      else probe_queued_target t (te_fetch env i) (te_before env i) (te_after env i) # probe_targets env (i + 1) ts)"

definition system_dns_name :: string where
  "system_dns_name = map char_of [0xD0 :: nat, 0xA1, 0xD0, 0xB8, 0xD1, 0x81, 0xD1, 0x82, 0xD0, 0xB5, 0xD0, 0xBC, 0xD0, 0xBD, 0xD1, 0x8B, 0xD0, 0xB9]"

definition sum_of :: "(probe_result \<Rightarrow> int) \<Rightarrow> probe_result list \<Rightarrow> int" where
  "sum_of f rs = sum_list (map f rs)"

definition test_strategy :: "'f score_ops \<Rightarrow> test_env \<Rightarrow> run_job \<Rightarrow> string list \<Rightarrow> 'f strategy_result" where
  "test_strategy F env job targets =
     (case job of (s, dns) \<Rightarrow>
        (let base = \<lparr>sr_id = st_id s, sr_name = st_name s, sr_args = st_args s,
               sr_dns = (case dns of None \<Rightarrow> system_dns_name | Some d \<Rightarrow> dc_name d), sr_dns_id = (case dns of None \<Rightarrow> [] | Some d \<Rightarrow> dc_id d),
               sr_total = length targets, sr_ok = 0, sr_ttfb = 0, sr_speed = 0, sr_coef = sc_zero F, sr_success = False,
               sr_failed = False, sr_per_target = []\<rparr> in
         if validate_https (st_args s) \<noteq> None \<or> \<not> te_start env then base\<lparr>sr_failed := True\<rparr>
         else (let probes = probe_targets env 0 targets in
           if \<not> te_rules env then base\<lparr>sr_failed := True, sr_per_target := probes\<rparr>
           else (let probed = filter (\<lambda>p. po_host p \<noteq> []) probes; good = filter po_ok probed; n = int (length good);
                     ttfb = sum_of po_ttfb good sdiv n; speed = sum_of po_speed good sdiv n in
             base\<lparr>sr_per_target := probed, sr_ok := length good,
               sr_ttfb := (if good \<noteq> [] then ttfb else 0), sr_speed := (if good \<noteq> [] then speed else 0),
               sr_coef := (if good \<noteq> [] then sc_score F speed ttfb else sc_zero F),
               sr_success := length good = length targets \<and> targets \<noteq> []\<rparr>))))"

text \<open>Evidence that target \<open>i\<close> went through the strategy: its request succeeded and the queue counted packets meanwhile.\<close>

definition evidence :: "test_env \<Rightarrow> nat \<Rightarrow> bool" where
  "evidence env i \<longleftrightarrow> po_ok (te_fetch env i)
     \<and> (case (te_before env i, te_after env i) of (Inr b, Inr a) \<Rightarrow> a \<noteq> b | _ \<Rightarrow> False)"

lemma length_probe_targets: "length (probe_targets env i ts) \<le> length ts"
  by (induction ts arbitrary: i) auto

lemma probe_targets_all:
  "length (probe_targets env i ts) = length ts \<Longrightarrow> list_all po_ok (probe_targets env i ts)
    \<Longrightarrow> list_all (evidence env) [i..<i + length ts]"
proof (induction ts arbitrary: i)
  case (Cons t ts)
  have go: "\<not> te_cancelled env i" using Cons.prems(1) by (auto split: if_splits)
  then have "evidence env i" using Cons.prems(2)
    by (auto simp: evidence_def probe_queued_target_def failed_probe_def split: sum.splits if_splits)
  moreover have "list_all (evidence env) [i + 1..<i + 1 + length ts]"
    using Cons.IH [of "i + 1"] Cons.prems go by simp
  moreover have "[i..<i + length (t # ts)] = i # [i + 1..<i + 1 + length ts]" by (subst upt_conv_Cons) simp_all
  ultimately show ?case by simp
qed simp

text \<open>(C3) A strategy is credited with success only on evidence: its profile handles HTTPS, the engine was started and the
  isolation of the test was intact, and for every target the request succeeded while the counter of the strategy's own queue
  moved. Traffic that went around the queue, for instance through a VPN, never counts.\<close>

theorem success_needs_evidence:
  "if sr_success (test_strategy F env (s, dns) targets)
   then targets \<noteq> [] \<and> validate_https (st_args s) = None \<and> te_start env \<and> te_rules env
     \<and> list_all (evidence env) [0..<length targets]
   else True"
proof -
  let ?ps = "probe_targets env 0 targets"
  let ?good = "filter po_ok (filter (\<lambda>p. po_host p \<noteq> []) ?ps)"
  have "list_all (evidence env) [0..<0 + length targets]" if l: "length ?good = length targets"
  proof (rule probe_targets_all)
    show len: "length ?ps = length targets"
      using l length_probe_targets [of env 0 targets] length_filter_le [of po_ok "filter (\<lambda>p. po_host p \<noteq> []) ?ps"]
        length_filter_le [of "\<lambda>p. po_host p \<noteq> []" ?ps] by linarith
    have "?good = filter (\<lambda>p. po_ok p \<and> po_host p \<noteq> []) ?ps" by (simp add: conj_commute)
    then have "filter (\<lambda>p. po_ok p \<and> po_host p \<noteq> []) ?ps = ?ps" using l len
      by (metis (no_types, lifting) filter_id_conv length_filter_less less_irrefl)
    then show "list_all po_ok ?ps" by (metis (no_types, lifting) filter_id_conv list_all_iff)
  qed
  then show ?thesis by (simp add: test_strategy_def Let_def)
qed

section \<open>Ranking, picking and keeping results\<close>

definition result_before :: "('f :: linorder) strategy_result \<Rightarrow> 'f strategy_result \<Rightarrow> bool" where
  "result_before a b \<longleftrightarrow> (if sr_success a \<noteq> sr_success b then sr_success a else sr_coef a > sr_coef b)"

definition sort_results :: "('f :: linorder) strategy_result list \<Rightarrow> 'f strategy_result list" where
  "sort_results rs = stable_sort result_before rs"

definition pick_eligible :: "'f strategy_result \<Rightarrow> bool" where
  "pick_eligible r \<longleftrightarrow> sr_success r \<and> 0 < sr_total r \<and> sr_ok r = sr_total r \<and> validate_https (sr_args r) = None"

fun pick_loop :: "('f :: linorder) strategy_result list \<Rightarrow> 'f strategy_result option \<Rightarrow> 'f strategy_result option" where
  "pick_loop [] best = best"
| "pick_loop (r # rs) best =
     (if \<not> pick_eligible r then pick_loop rs best
      else pick_loop rs (case best of None \<Rightarrow> Some r | Some b \<Rightarrow> if sr_coef r > sr_coef b then Some r else Some b))"

definition auto_pick_winner :: "('f :: linorder) strategy_result list \<Rightarrow> 'f strategy_result option" where
  "auto_pick_winner rs = pick_loop rs None"

lemma pick_loop_best:
  "case pick_loop rs best of
     None \<Rightarrow> best = None \<and> list_all (\<lambda>r. \<not> pick_eligible r) rs
   | Some w \<Rightarrow> (Some w = best \<or> w \<in> set rs \<and> pick_eligible w) \<and> list_all (\<lambda>r. pick_eligible r \<longrightarrow> sr_coef r \<le> sr_coef w) rs
       \<and> (case best of None \<Rightarrow> True | Some b \<Rightarrow> sr_coef b \<le> sr_coef w)"
proof (induction rs best rule: pick_loop.induct)
  case (2 r rs best)
  show ?case
  proof (cases "pick_eligible r")
    case True
    show ?thesis using 2(2) [OF notI] True by (cases best) (auto split: option.splits if_splits)
  next
    case False
    show ?thesis using 2(1) [OF False] False by (auto split: option.splits)
  qed
qed (auto split: option.split)

lemma result_before_order: "result_before a b \<Longrightarrow> \<not> result_before b a"
  "\<not> result_before b a \<Longrightarrow> \<not> result_before c b \<Longrightarrow> \<not> result_before c a"
  by (auto simp: result_before_def split: if_splits)


text \<open>The strategies kept for a list of targets.\<close>

record 'f saved_strategy =
  sv_id :: string
  sv_name :: string
  sv_args :: string
  sv_dns :: string
  sv_dns_id :: string
  sv_ttfb :: int
  sv_speed :: int
  sv_coef :: 'f
  sv_found :: int
  sv_run :: string

definition saved_of :: "int \<Rightarrow> string \<Rightarrow> 'f strategy_result \<Rightarrow> 'f saved_strategy" where
  "saved_of now run r = \<lparr>sv_id = sr_id r, sv_name = sr_name r, sv_args = sr_args r, sv_dns = sr_dns r, sv_dns_id = sr_dns_id r,
     sv_ttfb = sr_ttfb r, sv_speed = sr_speed r, sv_coef = sr_coef r, sv_found = now, sv_run = run\<rparr>"

definition keep_one :: "int \<Rightarrow> string \<Rightarrow> ('f :: linorder) strategy_result \<Rightarrow> (string \<times> 'f saved_strategy) list
    \<Rightarrow> (string \<times> 'f saved_strategy) list" where
  "keep_one now run r m =
     (if \<not> sr_success r then m
      else (case map_of m (sr_id r) of
          None \<Rightarrow> AList.update (sr_id r) (saved_of now run r) m
        | Some prev \<Rightarrow>
            (if sr_args r \<noteq> sv_args prev \<or> sr_coef r > sv_coef prev then AList.update (sr_id r) (saved_of now run r) m else m)))"

definition keep_better :: "int \<Rightarrow> string \<Rightarrow> ('f :: linorder) strategy_result list \<Rightarrow> (string \<times> 'f saved_strategy) list
    \<Rightarrow> (string \<times> 'f saved_strategy) list" where
  "keep_better now run rs m = fold (keep_one now run) rs m"

definition saved_map :: "'f saved_strategy list \<Rightarrow> (string \<times> 'f saved_strategy) list" where
  "saved_map ss = fold (\<lambda>s m. AList.update (sv_id s) s m) ss []"

text \<open>\<open>sort.Slice\<close> leaves entries of equal score in an order of its own; here they keep theirs.\<close>

definition merge_successful :: "int \<Rightarrow> string \<Rightarrow> ('f :: linorder) strategy_result list \<Rightarrow> 'f saved_strategy list \<Rightarrow> 'f saved_strategy list" where
  "merge_successful now run results current =
     stable_sort (\<lambda>a b. sv_coef a > sv_coef b) (map snd (keep_better now run results (saved_map current)))"

definition keyed :: "(string \<times> 'f saved_strategy) list \<Rightarrow> bool" where
  "keyed m \<longleftrightarrow> distinct (map fst m) \<and> list_all (\<lambda>(k, v). sv_id v = k) m"

lemma keyed_update: "keyed m \<Longrightarrow> sv_id v = k \<Longrightarrow> keyed (AList.update k v m)"
  by (auto simp: keyed_def distinct_update list_all_iff dest: update_set)

lemma keyed_saved: "keyed (saved_map ss)"
proof -
  have "keyed m \<Longrightarrow> keyed (fold (\<lambda>s m. AList.update (sv_id s) s m) ss m)" for m
    by (induction ss arbitrary: m) (simp_all add: keyed_update)
  then show ?thesis by (simp add: saved_map_def keyed_def)
qed

lemma keyed_keep_one: "keyed m \<Longrightarrow> keyed (keep_one now run r m)"
  by (auto simp: keep_one_def keyed_update saved_of_def split: option.split)

lemma keyed_keep: "keyed m \<Longrightarrow> keyed (keep_better now run rs m)"
  unfolding keep_better_def by (induction rs arbitrary: m) (simp_all add: keyed_keep_one)

lemma keep_one_at:
  "map_of (keep_one now run r m) k =
    (if sr_success r \<and> sr_id r = k \<and> (case map_of m k of None \<Rightarrow> True | Some p \<Rightarrow> sr_args r \<noteq> sv_args p \<or> sr_coef r > sv_coef p)
     then Some (saved_of now run r) else map_of m k)"
  by (auto simp: keep_one_def update_conv' split: option.split)

lemma keep_better_other: "list_all (\<lambda>r. \<not> (sr_success r \<and> sr_id r = k)) rs \<Longrightarrow> map_of (keep_better now run rs m) k = map_of m k"
  unfolding keep_better_def by (induction rs arbitrary: m) (auto simp: keep_one_at)

abbreviation wins_at :: "string \<Rightarrow> 'f strategy_result \<Rightarrow> bool" where
  "wins_at k r \<equiv> sr_success r \<and> sr_id r = k"

lemma keep_better_best:
  assumes "\<forall>r \<in> set rs. wins_at k r \<longrightarrow> sr_args r = a" "map_of m k = Some p" "sv_args p = a"
  shows "\<exists>q. map_of (keep_better now run rs m) k = Some q \<and> sv_args q = a \<and> sv_coef p \<le> sv_coef q
    \<and> (\<forall>r \<in> set rs. wins_at k r \<longrightarrow> sr_coef r \<le> sv_coef q)"
  using assms
proof (induction rs arbitrary: m p)
  case (Cons r rs)
  define p' where "p' = (if wins_at k r \<and> sr_coef r > sv_coef p then saved_of now run r else p)"
  have p': "map_of (keep_one now run r m) k = Some p'" "sv_args p' = a" "sv_coef p \<le> sv_coef p'" "wins_at k r \<longrightarrow> sr_coef r \<le> sv_coef p'"
    using Cons.prems by (auto simp: p'_def keep_one_at saved_of_def)
  obtain q where q: "map_of (keep_better now run rs (keep_one now run r m)) k = Some q" "sv_args q = a" "sv_coef p' \<le> sv_coef q"
      "\<forall>r \<in> set rs. wins_at k r \<longrightarrow> sr_coef r \<le> sv_coef q"
    using Cons.IH [OF _ p'(1,2)] Cons.prems(1) by auto
  then show ?case using p'(3,4) by (auto simp: keep_better_def intro: order_trans)
qed (simp add: keep_better_def)

lemma keep_better_found:
  assumes "\<forall>r \<in> set rs. wins_at k r \<longrightarrow> sr_args r = a" "\<exists>r \<in> set rs. wins_at k r"
  shows "\<exists>q. map_of (keep_better now run rs m) k = Some q \<and> sv_args q = a \<and> (\<forall>r \<in> set rs. wins_at k r \<longrightarrow> sr_coef r \<le> sv_coef q)"
  using assms
proof (induction rs arbitrary: m)
  case (Cons r rs)
  have fold: "keep_better now run (r # rs) m = keep_better now run rs (keep_one now run r m)" by (simp add: keep_better_def)
  show ?case
  proof (cases "wins_at k r")
    case True
    define p where "p = (case map_of (keep_one now run r m) k of Some p \<Rightarrow> p | None \<Rightarrow> saved_of now run r)"
    have p: "map_of (keep_one now run r m) k = Some p" "sv_args p = a" "sr_coef r \<le> sv_coef p"
      using True Cons.prems(1) by (auto simp: p_def keep_one_at saved_of_def split: option.split)
    show ?thesis using keep_better_best [OF _ p(1,2), of rs now run] Cons.prems(1) p(3) fold by (auto intro: order_trans)
  next
    case False
    then have "\<forall>x \<in> set rs. wins_at k x \<longrightarrow> sr_args x = a" "\<exists>x \<in> set rs. wins_at k x" using Cons.prems by auto
    from Cons.IH [OF this, of "keep_one now run r m"] show ?thesis using False fold by auto
  qed
qed simp

lemma keyed_at: "keyed m \<Longrightarrow> (j, v) \<in> set m \<Longrightarrow> sv_id v = j"
  by (auto simp: keyed_def list_all_iff)

lemma kept_as_map:
  assumes "keyed m" "mset kept = mset (map snd m)"
  shows "distinct (map sv_id kept)" "set kept = snd ` set m" "map_of (map (\<lambda>v. (sv_id v, v)) kept) i = map_of m i"
proof -
  have ids: "map sv_id (map snd m) = map fst m" using keyed_at [OF assms(1)] by auto
  have "mset (map sv_id kept) = mset (map sv_id (map snd m))"
    using arg_cong [OF assms(2), of "image_mset sv_id"] by (simp only: mset_map)
  then have "mset (map sv_id kept) = mset (map fst m)" by (simp only: ids)
  from mset_eq_imp_distinct_iff [OF this] show d: "distinct (map sv_id kept)" using assms(1) by (simp add: keyed_def)
  show sub: "set kept = snd ` set m" using mset_eq_setD [OF assms(2)] by simp
  show "map_of (map (\<lambda>v. (sv_id v, v)) kept) i = map_of m i"
  proof (cases "map_of m i")
    case (Some v)
    then have iv: "(i, v) \<in> set m" by (rule map_of_SomeD)
    have v: "v \<in> set kept" unfolding sub by (rule image_eqI [OF _ iv]) simp
    have "(i, v) \<in> set (map (\<lambda>v. (sv_id v, v)) kept)" using imageI [OF v, of "\<lambda>v. (sv_id v, v)"] keyed_at [OF assms(1) iv] by simp
    moreover have "distinct (map fst (map (\<lambda>v. (sv_id v, v)) kept))" using d by (simp add: o_def)
    ultimately show ?thesis unfolding Some by (rule map_of_is_SomeI [rotated])
  next
    case None
    have "i \<notin> fst ` set m" using None by (simp add: map_of_eq_None_iff)
    moreover have "sv_id v \<in> fst ` set m" if v: "v \<in> set kept" for v
    proof -
      obtain j where j: "(j, v) \<in> set m" using v unfolding sub by auto
      show ?thesis using keyed_at [OF assms(1) j] image_eqI [OF _ j, of j fst] by simp
    qed
    ultimately have "i \<notin> fst ` set (map (\<lambda>v. (sv_id v, v)) kept)" by auto
    then show ?thesis unfolding None by (rule iffD2 [OF map_of_eq_None_iff])
  qed
qed

lemma mset_merge: "mset (merge_successful now run results current) = mset (map snd (keep_better now run results (saved_map current)))"
  by (simp add: merge_successful_def)

lemma kept_sorted: "sorted_wrt (\<lambda>a b. sv_coef b \<le> sv_coef a) (merge_successful now run results current)"
proof -
  have "sorted_wrt (\<lambda>a b. \<not> sv_coef b > sv_coef a) (merge_successful now run results current)"
    unfolding merge_successful_def
  proof (rule sorted_stable_sort)
    fix a b :: "'a saved_strategy"
    assume "sv_coef b < sv_coef a"
    then show "\<not> sv_coef a < sv_coef b" by (rule less_not_sym)
  next
    fix a b c :: "'a saved_strategy"
    assume "\<not> sv_coef a < sv_coef b" "\<not> sv_coef b < sv_coef c"
    then show "\<not> sv_coef a < sv_coef c" unfolding not_less by (rule order_trans [rotated])
  qed
  then show ?thesis by (simp only: not_less)
qed

lemma kept_found:
  assumes "list_all (\<lambda>r. list_all (\<lambda>r'. if sr_success r \<and> sr_success r' \<and> sr_id r = sr_id r' then sr_args r = sr_args r' else True) results) results"
    "r \<in> set results" "sr_success r"
  shows "\<exists>v \<in> set (merge_successful now run results current). sv_id v = sr_id r \<and> sv_args v = sr_args r \<and> sr_coef r \<le> sv_coef v"
proof -
  let ?m = "keep_better now run results (saved_map current)"
  have km: "keyed ?m" by (intro keyed_keep keyed_saved)
  have same: "\<forall>x \<in> set results. wins_at (sr_id r) x \<longrightarrow> sr_args x = sr_args r"
  proof (intro ballI impI)
    fix x
    assume x: "x \<in> set results" "wins_at (sr_id r) x"
    have "if sr_success r \<and> sr_success x \<and> sr_id r = sr_id x then sr_args r = sr_args x else True"
      using assms(1,2) x(1) unfolding list_all_iff by blast
    then show "sr_args x = sr_args r" using assms(3) x(2) by simp
  qed
  have "\<exists>x \<in> set results. wins_at (sr_id r) x" using assms(2,3) by blast
  from keep_better_found [OF same this, of now run "saved_map current"] obtain q where
    q: "map_of ?m (sr_id r) = Some q" "sv_args q = sr_args r" "sr_coef r \<le> sv_coef q" using assms(2,3) by blast
  have iq: "(sr_id r, q) \<in> set ?m" by (rule map_of_SomeD [OF q(1)])
  have "q \<in> set (merge_successful now run results current)"
    unfolding kept_as_map(2) [OF km mset_merge] by (rule image_eqI [OF _ iq]) simp
  then show ?thesis using keyed_at [OF km iq] q(2,3) by blast
qed


definition demo_result :: "string \<Rightarrow> nat \<Rightarrow> nat strategy_result" where
  "demo_result args coef = \<lparr>sr_id = ''s'', sr_name = ''S'', sr_args = args, sr_dns = [], sr_dns_id = [], sr_total = 1, sr_ok = 1,
     sr_ttfb = 10, sr_speed = 20, sr_coef = coef, sr_success = True, sr_failed = False, sr_per_target = []\<rparr>"

definition demo_kept :: "nat saved_strategy list" where
  "demo_kept = merge_successful 7 ''run'' [demo_result ''--x'' 3, demo_result ''--x'' 5, demo_result ''--x'' 4] []"


section \<open>Carrying a run out\<close>

text \<open>
  \<open>executeRun\<close> after the baseline: the feeder hands job numbers to idle workers; a worker that received one tests it unless the
  run was cancelled, raises the counter of results, then appends its result under the application's mutex and publishes the count
  it saw. Workers may be added while the feeder runs.
\<close>

datatype run_status = RunRunning | RunDone | RunCancelled | RunError

record 'r run_exec =
  re_jobs :: nat
  re_next :: nat
  re_idle :: nat
  re_received :: "nat list"
  re_testing :: "nat list"
  re_counted :: "(nat \<times> 'r \<times> nat) list"
  re_count :: nat
  re_results :: "(nat \<times> 'r) list"
  re_done :: nat
  re_started :: nat
  re_feeding :: bool
  re_cancelled :: bool
  re_status :: run_status

definition run_exec_start :: "nat \<Rightarrow> 'r run_exec" where
  "run_exec_start jobs = \<lparr>re_jobs = jobs, re_next = 0, re_idle = 0, re_received = [], re_testing = [], re_counted = [], re_count = 0,
     re_results = [], re_done = 0, re_started = 0, re_feeding = True, re_cancelled = False, re_status = RunRunning\<rparr>"

datatype 'r run_event =
    StartWorker bool | FeedJob | BeginTest nat | DropJob nat | EndTest nat 'r | PublishResult nat | StopFeeding | CancelRun | FinishRun

definition remove_nth :: "nat \<Rightarrow> 'a list \<Rightarrow> 'a list" where
  "remove_nth i xs = take i xs @ drop (Suc i) xs"

fun run_event_possible :: "'r run_event \<Rightarrow> 'r run_exec \<Rightarrow> bool" where
  "run_event_possible (StartWorker ready) s \<longleftrightarrow> re_status s = RunRunning"
| "run_event_possible FeedJob s \<longleftrightarrow> re_feeding s \<and> 0 < re_idle s \<and> re_next s < re_jobs s"
| "run_event_possible (BeginTest i) s \<longleftrightarrow> i < length (re_received s) \<and> \<not> re_cancelled s"
| "run_event_possible (DropJob i) s \<longleftrightarrow> i < length (re_received s) \<and> re_cancelled s"
| "run_event_possible (EndTest i r) s \<longleftrightarrow> i < length (re_testing s)"
| "run_event_possible (PublishResult i) s \<longleftrightarrow> i < length (re_counted s)"
| "run_event_possible StopFeeding s \<longleftrightarrow> re_feeding s \<and> 0 < re_started s \<and> (re_next s = re_jobs s \<or> re_cancelled s)"
| "run_event_possible CancelRun s \<longleftrightarrow> re_status s = RunRunning"
| "run_event_possible FinishRun s \<longleftrightarrow> \<not> re_feeding s \<and> re_status s = RunRunning \<and> re_received s = [] \<and> re_testing s = [] \<and> re_counted s = []"

text \<open>The results are sorted at the end, which the ranking above describes; here they keep the order in which they came.\<close>

fun run_event_step :: "'r run_event \<Rightarrow> 'r run_exec \<Rightarrow> 'r run_exec" where
  "run_event_step (StartWorker ready) s =
     (if \<not> re_feeding s \<or> int (re_started s) \<ge> max_threads \<or> \<not> ready then s
      else s\<lparr>re_started := re_started s + 1, re_idle := re_idle s + 1\<rparr>)"
| "run_event_step FeedJob s =
     s\<lparr>re_idle := re_idle s - 1, re_received := re_received s @ [re_next s], re_next := re_next s + 1\<rparr>"
| "run_event_step (BeginTest i) s =
     s\<lparr>re_received := remove_nth i (re_received s), re_testing := re_testing s @ [re_received s ! i]\<rparr>"
| "run_event_step (DropJob i) s = s\<lparr>re_received := remove_nth i (re_received s)\<rparr>"
| "run_event_step (EndTest i r) s =
     s\<lparr>re_testing := remove_nth i (re_testing s), re_count := re_count s + 1,
       re_counted := re_counted s @ [(re_testing s ! i, r, re_count s + 1)]\<rparr>"
| "run_event_step (PublishResult i) s =
     (case re_counted s ! i of (job, r, n) \<Rightarrow>
        s\<lparr>re_counted := remove_nth i (re_counted s), re_results := re_results s @ [(job, r)], re_done := n, re_idle := re_idle s + 1\<rparr>)"
| "run_event_step StopFeeding s = s\<lparr>re_feeding := False\<rparr>"
| "run_event_step CancelRun s = s\<lparr>re_cancelled := True\<rparr>"
| "run_event_step FinishRun s = s\<lparr>re_status := (if re_cancelled s then RunCancelled else RunDone)\<rparr>"

inductive run_reaches :: "nat \<Rightarrow> 'r run_exec \<Rightarrow> bool" for jobs where
  run_begins: "run_reaches jobs (run_exec_start jobs)"
| run_goes_on: "run_reaches jobs s \<Longrightarrow> run_event_possible e s \<Longrightarrow> run_event_step e s = s' \<Longrightarrow> run_reaches jobs s'"

definition run_tracked :: "'r run_exec \<Rightarrow> nat list" where
  "run_tracked s = re_received s @ re_testing s @ map fst (re_counted s) @ map fst (re_results s)"

definition run_workers_ok :: "nat \<Rightarrow> 'r run_exec \<Rightarrow> bool" where
  "run_workers_ok jobs s \<longleftrightarrow> re_jobs s = jobs \<and> re_next s \<le> jobs \<and> re_started s \<le> 8
     \<and> re_idle s + length (re_received s) + length (re_testing s) + length (re_counted s) \<le> re_started s"

definition run_jobs_ok :: "nat \<Rightarrow> 'r run_exec \<Rightarrow> bool" where
  "run_jobs_ok jobs s \<longleftrightarrow> distinct (run_tracked s) \<and> set (run_tracked s) \<subseteq> {..<re_next s}
     \<and> (re_cancelled s \<or> set (run_tracked s) = {..<re_next s} \<and> (re_feeding s \<or> re_next s = jobs))"

definition run_counts_ok :: "'r run_exec \<Rightarrow> bool" where
  "run_counts_ok s \<longleftrightarrow> re_count s = length (re_counted s) + length (re_results s) \<and> re_done s \<le> re_count s
     \<and> (\<forall>c \<in> set (re_counted s). snd (snd c) \<le> re_count s)"

definition run_status_ok :: "'r run_exec \<Rightarrow> bool" where
  "run_status_ok s \<longleftrightarrow> re_status s \<noteq> RunError
     \<and> (re_status s = RunRunning \<or> \<not> re_feeding s \<and> re_received s = [] \<and> re_testing s = [] \<and> re_counted s = [])
     \<and> (re_status s = RunDone \<longrightarrow> \<not> re_cancelled s)"

definition run_exec_ok :: "nat \<Rightarrow> 'r run_exec \<Rightarrow> bool" where
  "run_exec_ok jobs s \<longleftrightarrow> run_workers_ok jobs s \<and> run_jobs_ok jobs s \<and> run_counts_ok s \<and> run_status_ok s"

lemma mset_remove_nth: "i < length xs \<Longrightarrow> add_mset (xs ! i) (mset (remove_nth i xs)) = mset xs"
  by (metis add_mset_add_single id_take_nth_drop mset.simps(2) mset_append remove_nth_def union_mset_add_mset_right)

lemma length_remove_nth: "i < length xs \<Longrightarrow> length (remove_nth i xs) = length xs - 1"
  by (simp add: remove_nth_def)

lemma map_remove_nth: "map f (remove_nth i xs) = remove_nth i (map f xs)"
  by (simp add: remove_nth_def take_map drop_map)

lemma same_tracked: "mset (run_tracked s') = mset (run_tracked s) \<Longrightarrow>
    distinct (run_tracked s') = distinct (run_tracked s) \<and> set (run_tracked s') = set (run_tracked s)"
  by (metis mset_eq_imp_distinct_iff mset_eq_setD)

lemma run_event_moves:
  assumes "run_event_possible e s"
  shows "case e of
      BeginTest i \<Rightarrow> mset (run_tracked (run_event_step e s)) = mset (run_tracked s)
    | EndTest i r \<Rightarrow> mset (run_tracked (run_event_step e s)) = mset (run_tracked s)
    | PublishResult i \<Rightarrow> mset (run_tracked (run_event_step e s)) = mset (run_tracked s)
    | DropJob i \<Rightarrow> add_mset (re_received s ! i) (mset (run_tracked (run_event_step e s))) = mset (run_tracked s)
    | FeedJob \<Rightarrow> mset (run_tracked (run_event_step e s)) = add_mset (re_next s) (mset (run_tracked s))
    | _ \<Rightarrow> run_tracked (run_event_step e s) = run_tracked s"
proof (cases e)
  case (BeginTest i)
  then show ?thesis using assms mset_remove_nth [of i "re_received s"] by (simp add: run_tracked_def ac_simps)
next
  case (DropJob i)
  then show ?thesis using assms mset_remove_nth [of i "re_received s"] by (simp add: run_tracked_def flip: union_mset_add_mset_left)
next
  case (EndTest i r)
  then show ?thesis using assms mset_remove_nth [of i "re_testing s"] by (simp add: run_tracked_def ac_simps)
next
  case (PublishResult i)
  obtain j r n where c: "re_counted s ! i = (j, r, n)" by (cases "re_counted s ! i") auto
  have i: "i < length (map fst (re_counted s))" using assms PublishResult by simp
  have "add_mset j (mset (map fst (remove_nth i (re_counted s)))) = mset (map fst (re_counted s))"
    using mset_remove_nth [OF i] i c by (simp only: map_remove_nth) simp
  then show ?thesis using PublishResult c by (simp add: run_tracked_def ac_simps)
qed (simp_all add: run_tracked_def)

lemma run_step_workers:
  assumes "run_workers_ok jobs s" "run_event_possible e s"
  shows "run_workers_ok jobs (run_event_step e s)"
proof (cases e)
  case (PublishResult i)
  then show ?thesis using assms by (cases "re_counted s ! i") (auto simp: run_workers_ok_def length_remove_nth)
qed (use assms in \<open>auto simp: run_workers_ok_def length_remove_nth max_threads_def\<close>)

lemma run_step_counts:
  assumes "run_counts_ok s" "run_event_possible e s"
  shows "run_counts_ok (run_event_step e s)"
proof (cases e)
  case (EndTest i r)
  then show ?thesis using assms by (auto simp: run_counts_ok_def intro: le_SucI)
next
  case (PublishResult i)
  obtain j r n where c: "re_counted s ! i = (j, r, n)" by (cases "re_counted s ! i") auto
  have i: "i < length (re_counted s)" using assms(2) PublishResult by simp
  have "(j, r, n) \<in> set (re_counted s)" using nth_mem [OF i] c by simp
  moreover have "set (remove_nth i (re_counted s)) \<subseteq> set (re_counted s)" by (auto simp: remove_nth_def dest: in_set_takeD in_set_dropD)
  moreover have "\<forall>c \<in> set (re_counted s). snd (snd c) \<le> re_count s" using assms(1) unfolding run_counts_ok_def by (elim conjE)
  ultimately have "n \<le> re_count s \<and> (\<forall>c \<in> set (remove_nth i (re_counted s)). snd (snd c) \<le> re_count s)"
    by (metis snd_conv subsetD)
  then show ?thesis using assms(1) i PublishResult c length_remove_nth [OF i] by (simp add: run_counts_ok_def)
qed (use assms in \<open>auto simp: run_counts_ok_def\<close>)

lemma run_step_status:
  assumes "run_status_ok s" "run_event_possible e s"
  shows "run_status_ok (run_event_step e s)"
proof (cases e)
  case (PublishResult i)
  then show ?thesis using assms by (cases "re_counted s ! i") (auto simp: run_status_ok_def)
qed (use assms in \<open>auto simp: run_status_ok_def\<close>)

lemma run_step_jobs:
  assumes w: "run_workers_ok jobs s" and ok: "run_jobs_ok jobs s" and e: "run_event_possible e s"
  shows "run_jobs_ok jobs (run_event_step e s)"
proof -
  let ?s = "run_event_step e s"
  have same: "run_jobs_ok jobs ?s"
    if "mset (run_tracked ?s) = mset (run_tracked s)" "re_next ?s = re_next s" "re_cancelled ?s = re_cancelled s" "re_feeding ?s = re_feeding s"
    using ok same_tracked [OF that(1)] that(2-4) unfolding run_jobs_ok_def by simp
  show ?thesis
  proof (cases e)
    case FeedJob
    have m: "mset (run_tracked ?s) = mset (re_next s # run_tracked s)" using run_event_moves [OF e] FeedJob by simp
    have "re_next s \<notin> set (run_tracked s)" using ok by (auto simp: run_jobs_ok_def)
    then have d: "distinct (run_tracked ?s)" using mset_eq_imp_distinct_iff [OF m] ok by (simp add: run_jobs_ok_def)
    have "set (run_tracked ?s) = insert (re_next s) (set (run_tracked s))" using mset_eq_setD [OF m] by simp
    then show ?thesis using ok e d FeedJob unfolding run_jobs_ok_def by (auto simp: lessThan_Suc)
  next
    case (DropJob i)
    have m: "mset (re_received s ! i # run_tracked ?s) = mset (run_tracked s)" using run_event_moves [OF e] DropJob by simp
    have "distinct (run_tracked ?s)" using mset_eq_imp_distinct_iff [OF m] ok by (simp add: run_jobs_ok_def)
    moreover have "set (run_tracked ?s) \<subseteq> set (run_tracked s)" using mset_eq_setD [OF m] by auto
    ultimately show ?thesis using ok e DropJob unfolding run_jobs_ok_def by auto
  next
    case (PublishResult i)
    then show ?thesis using run_event_moves [OF e] by (intro same) (auto split: prod.split)
  next
    case StopFeeding
    then show ?thesis using run_event_moves [OF e] ok e w by (auto simp: run_jobs_ok_def run_workers_ok_def)
  next
    case CancelRun
    then show ?thesis using run_event_moves [OF e] ok by (simp add: run_jobs_ok_def)
  next
    case (StartWorker ready)
    then show ?thesis using run_event_moves [OF e] by (intro same) simp_all
  next
    case (BeginTest i)
    then show ?thesis using run_event_moves [OF e] by (intro same) simp_all
  next
    case (EndTest i r)
    then show ?thesis using run_event_moves [OF e] by (intro same) simp_all
  next
    case FinishRun
    then show ?thesis using run_event_moves [OF e] by (intro same) simp_all
  qed
qed

lemma run_reaches_ok: "run_reaches jobs s \<Longrightarrow> run_exec_ok jobs s"
proof (induction rule: run_reaches.induct)
  case run_begins
  show ?case
    by (simp add: run_exec_ok_def run_workers_ok_def run_jobs_ok_def run_counts_ok_def run_status_ok_def run_exec_start_def run_tracked_def)
next
  case (run_goes_on s e s')
  then show ?case using run_step_workers run_step_jobs run_step_counts run_step_status unfolding run_exec_ok_def by blast
qed


fun play_run :: "'r run_event list \<Rightarrow> 'r run_exec \<Rightarrow> 'r run_exec option" where
  "play_run [] s = Some s"
| "play_run (e # es) s = (if run_event_possible e s then play_run es (run_event_step e s) else None)"

lemma play_run_reaches: "play_run es s = Some s' \<Longrightarrow> run_reaches jobs s \<Longrightarrow> run_reaches jobs s'"
  by (induction es arbitrary: s) (auto intro: run_goes_on split: if_splits)

definition demo_run_events :: "bool run_event list" where
  "demo_run_events = [StartWorker True, StartWorker True, FeedJob, FeedJob, StopFeeding, BeginTest 0, BeginTest 0, EndTest 0 True, EndTest 0 True,
     PublishResult 1, PublishResult 0, FinishRun]"


text \<open>The count a run publishes can stay below the number of its results: the worker that counted last may publish first.\<close>

lemma published_count_may_lag:
  "case play_run demo_run_events (run_exec_start 2) of
     None \<Rightarrow> False | Some s \<Rightarrow> re_status s = RunDone \<and> length (re_results s) = 2 \<and> re_done s = 1"
  by code_simp

text \<open>A run ends: what is left of it, and the events that bring it forward.\<close>

definition run_left :: "'r run_exec \<Rightarrow> nat" where
  "run_left s = 4 * (re_jobs s - re_next s) + 3 * length (re_received s) + 2 * length (re_testing s) + length (re_counted s)
     + (if re_feeding s then 1 else 0) + (if re_status s = RunRunning then 1 else 0)"

fun brings_forward :: "'r run_event \<Rightarrow> bool" where
  "brings_forward (StartWorker ready) = False"
| "brings_forward CancelRun = False"
| "brings_forward _ = True"

lemma run_left_step:
  "run_event_possible e s \<Longrightarrow> (if brings_forward e then 1 else 0) + run_left (run_event_step e s) \<le> run_left s"
proof (cases e)
  case (PublishResult i)
  then show "run_event_possible e s \<Longrightarrow> ?thesis" by (cases "re_counted s ! i") (auto simp: run_left_def length_remove_nth)
qed (auto simp: run_left_def length_remove_nth)

lemma play_run_left: "play_run es s = Some s' \<Longrightarrow> length (filter brings_forward es) + run_left s' \<le> run_left s"
proof (induction es arbitrary: s)
  case (Cons e es)
  then have e: "run_event_possible e s" "play_run es (run_event_step e s) = Some s'" by (auto split: if_splits)
  show ?case using Cons.IH [OF e(2)] run_left_step [OF e(1)] by (auto split: if_splits)
qed simp

definition workers_busy :: "'r run_exec \<Rightarrow> bool" where
  "workers_busy s \<longleftrightarrow> re_cancelled s
     \<or> re_idle s + length (re_received s) + length (re_testing s) + length (re_counted s) = re_started s"

lemma workers_busy_step: "workers_busy s \<Longrightarrow> run_event_possible e s \<Longrightarrow> workers_busy (run_event_step e s)"
proof (cases e)
  case (PublishResult i)
  then show "workers_busy s \<Longrightarrow> run_event_possible e s \<Longrightarrow> ?thesis"
    by (cases "re_counted s ! i") (auto simp: workers_busy_def length_remove_nth)
qed (auto simp: workers_busy_def length_remove_nth)

lemma play_run_busy: "play_run es s = Some s' \<Longrightarrow> workers_busy s \<Longrightarrow> workers_busy s'"
  by (induction es arbitrary: s) (auto simp: workers_busy_step split: if_splits)

text \<open>(C7) A run always ends: whatever the order of its events, at most four for each job and two more bring it forward, and while
  it is not finished and has a worker, one of these can happen.\<close>

theorem run_terminates:
  assumes "play_run es (run_exec_start jobs) = Some s"
  shows "length (filter brings_forward es) \<le> 4 * jobs + 2
    \<and> (if re_status s = RunRunning \<and> 0 < re_started s
       then list_ex (\<lambda>e. run_event_possible e s) [FeedJob, BeginTest 0, DropJob 0, EndTest 0 r, PublishResult 0, StopFeeding, FinishRun]
       else True)"
proof -
  have "length (filter brings_forward es) \<le> 4 * jobs + 2"
    using play_run_left [OF assms] by (simp add: run_left_def run_exec_start_def)
  moreover have "workers_busy s" using play_run_busy [OF assms] by (simp add: workers_busy_def run_exec_start_def)
  moreover have "re_next s \<le> re_jobs s"
    using run_reaches_ok [OF play_run_reaches [OF assms run_begins]] by (simp add: run_exec_ok_def run_workers_ok_def)
  ultimately show ?thesis by (auto simp: workers_busy_def)
qed

lemma run_terminates_witness:
  "length (filter brings_forward demo_run_events) = 10 \<and> length (filter brings_forward demo_run_events) \<le> 4 * 2 + 2"
proof -
  have "case play_run demo_run_events (run_exec_start 2) of None \<Rightarrow> False | Some s \<Rightarrow> True" by code_simp
  then obtain s where "play_run demo_run_events (run_exec_start 2) = Some s" by (auto split: option.splits)
  from run_terminates [OF this] show ?thesis by (simp add: demo_run_events_def)
qed

section \<open>One operation at a time\<close>

text \<open>What the application remembers of runs and block checks; a run is its identifier here.\<close>

record run_registry =
  rg_active :: "string option"
  rg_check :: "string option"
  rg_runs :: "string list"
  rg_order :: "string list"
  rg_pending :: int

definition max_stored_runs :: nat where "max_stored_runs = 30"

fun trim_runs :: "string list \<Rightarrow> string list \<Rightarrow> string list \<times> string list" where
  "trim_runs [] runs = ([], runs)"
| "trim_runs (oldest # order) runs =
     (if length (oldest # order) > max_stored_runs then trim_runs order (removeAll oldest runs) else (oldest # order, runs))"

definition register_run :: "string \<Rightarrow> run_registry \<Rightarrow> run_refusal + run_registry" where
  "register_run i s =
     (if rg_active s \<noteq> None \<or> rg_check s \<noteq> None then Inl RunActive
      else (case trim_runs (rg_order s @ [i]) (List.insert i (rg_runs s)) of
          (order, runs) \<Rightarrow> Inr (s\<lparr>rg_active := Some i, rg_pending := 0, rg_runs := runs, rg_order := order\<rparr>)))"

definition register_check :: "string \<Rightarrow> run_registry \<Rightarrow> run_refusal + run_registry" where
  "register_check i s = (if rg_active s \<noteq> None \<or> rg_check s \<noteq> None then Inl RunActive else Inr (s\<lparr>rg_check := Some i\<rparr>))"

text \<open>A request for more workers before the pool is up is remembered (\<open>AddRunThreads\<close>).\<close>

definition request_threads :: "string \<Rightarrow> int \<Rightarrow> run_registry \<Rightarrow> run_registry option" where
  "request_threads i n s = (if rg_active s = Some i then Some (s\<lparr>rg_pending := n\<rparr>) else None)"

definition registry_ok :: "run_registry \<Rightarrow> bool" where
  "registry_ok s \<longleftrightarrow> (rg_active s = None \<or> rg_check s = None) \<and> length (rg_order s) \<le> max_stored_runs
     \<and> distinct (rg_order s) \<and> set (rg_order s) = set (rg_runs s)
     \<and> (case rg_active s of None \<Rightarrow> True | Some i \<Rightarrow> i \<in> set (rg_order s))"

lemma trim_runs_props:
  "trim_runs order runs = (order', runs') \<Longrightarrow> distinct order \<Longrightarrow> set order = set runs \<Longrightarrow>
    length order' \<le> max_stored_runs \<and> distinct order' \<and> set order' = set runs' \<and> (\<exists>k. order' = drop k order)
    \<and> (order \<noteq> [] \<longrightarrow> order' \<noteq> [])"
proof (induction order runs rule: trim_runs.induct)
  case (2 oldest order runs)
  show ?case
  proof (cases "length (oldest # order) > max_stored_runs")
    case True
    have s: "set order = set (removeAll oldest runs)" using "2.prems" by auto
    have t: "trim_runs order (removeAll oldest runs) = (order', runs')" using "2.prems"(1) True by simp
    have p: "length order' \<le> max_stored_runs \<and> distinct order' \<and> set order' = set runs' \<and> (\<exists>k. order' = drop k order)
        \<and> (order \<noteq> [] \<longrightarrow> order' \<noteq> [])"
      using "2.IH" [OF True t _ s] "2.prems"(2) by simp
    moreover have "order \<noteq> []" using True by (auto simp: max_stored_runs_def)
    ultimately show ?thesis by (metis drop_Suc_Cons)
  next
    case False
    then show ?thesis using 2 by (auto intro: exI [of _ 0])
  qed
qed (auto simp: max_stored_runs_def)

lemma register_run_ok:
  assumes "registry_ok s" "i \<notin> set (rg_order s)" "register_run i s = Inr s'"
  shows "registry_ok s' \<and> rg_active s' = Some i \<and> rg_check s' = None"
proof -
  obtain order runs where t: "trim_runs (rg_order s @ [i]) (List.insert i (rg_runs s)) = (order, runs)" by fastforce
  have free: "rg_active s = None \<and> rg_check s = None" using assms(3) by (auto simp: register_run_def split: if_splits)
  have p: "length order \<le> max_stored_runs" "distinct order" "set order = set runs" "\<exists>k. order = drop k (rg_order s @ [i])" "order \<noteq> []"
    using trim_runs_props [OF t] assms(1,2) by (simp_all add: registry_ok_def)
  obtain k where k: "order = drop k (rg_order s @ [i])" using p(4) by (rule exE)
  then have "k < length (rg_order s @ [i])" using p(5) by (metis drop_all not_less)
  then have "last order = i" using k by (simp only: last_drop last_snoc)
  then have "i \<in> set order" using last_in_set [OF p(5)] by simp
  then show ?thesis using assms(3) free t p(1-3) by (auto simp: register_run_def registry_ok_def)
qed

end
