(* ===== verification/Service_Control.thy ===== *)
theory Service_Control
  imports Strategy_Runs Go_Time
begin

text \<open>
  Automation of the bypass engine (\<open>internal/app/automation.go\<close>) and the control of its service
  (\<open>internal/app/nfqws2_service_control.go\<close>): the manual OFF of the user, the watchdog, and the automatic picks.

  An operation runs under the service mutex; its model returns the new state and the commands it gave, each with its
  success. What the service and the store answer during one operation is the record \<open>svc_env\<close>. The settings in memory and
  on disk are two copies.
\<close>

section \<open>State\<close>

record automation =
  am_mode :: string
  am_auto_pick :: bool
  am_periodic :: bool
  am_interval :: int
  am_last_pick :: int
  am_last_args :: string
  am_last_name :: string
  am_last_error :: string
  am_manual_off :: bool

record svc_state =
  sv_memory :: automation
  sv_disk :: automation
  sv_needs_stop :: bool
  sv_healthy :: nat
  sv_unhealthy :: nat
  sv_last_rx :: int
  sv_last_rx_at :: time
  sv_picking :: bool

datatype svc_command = CmdStart | CmdStop | CmdRestart | CmdWriteStrategy string | CmdFirewall | CmdUpdate

record svc_env =
  ve_running :: bool
  ve_start :: bool
  ve_stop :: bool
  ve_restart :: bool
  ve_save :: bool
  ve_write :: bool
  ve_work :: bool

type_synonym svc_log = "(svc_command \<times> bool) list"

definition default_automation :: automation where
  "default_automation = \<lparr>am_mode = ''off'', am_auto_pick = False, am_periodic = False, am_interval = 24, am_last_pick = 0,
     am_last_args = [], am_last_name = [], am_last_error = [], am_manual_off = False\<rparr>"

text \<open>\<open>loadAutomationState\<close>: the state loaded, and whether it is written back.\<close>

definition load_automation :: "automation option \<Rightarrow> automation \<times> bool" where
  "load_automation stored =
     (let s1 = (case stored of None \<Rightarrow> default_automation | Some s \<Rightarrow> if am_mode s = [] then default_automation else s);
          c1 = (case stored of None \<Rightarrow> True | Some s \<Rightarrow> am_mode s = []);
          s2 = (if am_mode s1 = ''auto'' then s1\<lparr>am_mode := ''on''\<rparr> else s1);
          s3 = (if am_interval s2 \<le> 0 then s2\<lparr>am_interval := 24\<rparr> else s2) in
      (s3, c1 \<or> am_mode s1 = ''auto'' \<or> am_interval s2 \<le> 0))"

definition svc_start :: "automation option \<Rightarrow> bool \<Rightarrow> svc_state" where
  "svc_start stored saved =
     (case load_automation stored of (m, changed) \<Rightarrow>
        \<lparr>sv_memory = m, sv_disk = (if changed \<and> saved then m else case stored of None \<Rightarrow> default_automation | Some d \<Rightarrow> d),
         sv_needs_stop = False, sv_healthy = 0, sv_unhealthy = 0, sv_last_rx = 0, sv_last_rx_at = zero_time, sv_picking = False\<rparr>)"

section \<open>Commands to the service\<close>

definition manual_off :: "svc_state \<Rightarrow> bool" where
  "manual_off s = am_manual_off (sv_memory s)"

text \<open>\<open>persistNfqws2ManualOff\<close>; \<^term>\<open>None\<close> is a failed save.\<close>

definition persist_off :: "svc_env \<Rightarrow> bool \<Rightarrow> svc_state \<Rightarrow> svc_state option" where
  "persist_off env off s =
     (if manual_off s = off then Some s
      else if \<not> ve_save env then None
      else (let m = (sv_memory s)\<lparr>am_manual_off := off\<rparr> in Some (s\<lparr>sv_memory := m, sv_disk := m\<rparr>)))"

definition service_stop :: "svc_env \<Rightarrow> svc_state \<Rightarrow> svc_state \<times> svc_log \<times> bool" where
  "service_stop env s =
     (case persist_off env True s of
        None \<Rightarrow> (s, [], False)
      | Some s1 \<Rightarrow> (s1\<lparr>sv_needs_stop := \<not> ve_stop env\<rparr>, [(CmdStop, ve_stop env)], ve_stop env))"

definition service_start :: "svc_env \<Rightarrow> svc_state \<Rightarrow> svc_state \<times> svc_log \<times> bool" where
  "service_start env s =
     (let was_off = manual_off s; log = (if ve_running env then [] else [(CmdStart, ve_start env)]); ok = (ve_running env \<or> ve_start env);
          cleaned = (s\<lparr>sv_needs_stop := \<not> ve_stop env\<rparr>, log @ [(CmdStop, ve_stop env)], False) in
      if \<not> ok then (if was_off then cleaned else (s, log, False))
      else if \<not> was_off then (s, log, True)
      else (case persist_off env False s of
          None \<Rightarrow> cleaned
        | Some s1 \<Rightarrow> (s1\<lparr>sv_needs_stop := False\<rparr>, log, True)))"

definition service_restart :: "svc_env \<Rightarrow> svc_state \<Rightarrow> svc_state \<times> svc_log \<times> bool" where
  "service_restart env s = (if manual_off s then (s, [], False) else (s, [(CmdRestart, ve_restart env)], ve_restart env))"

definition service_start_automatic :: "svc_env \<Rightarrow> svc_state \<Rightarrow> svc_state \<times> svc_log \<times> bool" where
  "service_start_automatic env s = (if manual_off s then (s, [], False) else (s, [(CmdStart, ve_start env)], ve_start env))"

text \<open>The watchdog's step; the mode is read again under the service mutex.\<close>

definition enforce_automation :: "svc_env \<Rightarrow> bool \<Rightarrow> svc_state \<Rightarrow> svc_state \<times> svc_log" where
  "enforce_automation env fallback s =
     (if manual_off s
      then (if sv_needs_stop s \<or> ve_running env
            then (s\<lparr>sv_needs_stop := \<not> ve_stop env\<rparr>, [(CmdStop, ve_stop env)]) else (s, []))
      else if (am_mode (sv_memory s) = ''on'' \<or> (am_mode (sv_memory s) = ''auto'' \<and> fallback)) \<and> \<not> ve_running env
      then (s, [(CmdStart, ve_start env)]) else (s, []))"

definition restore_manual_off :: "svc_env \<Rightarrow> svc_state \<Rightarrow> svc_state \<times> svc_log" where
  "restore_manual_off env s =
     (if manual_off s then (s\<lparr>sv_needs_stop := \<not> ve_stop env\<rparr>, [(CmdStop, ve_stop env)]) else (s, []))"

definition firewall_apply :: "svc_env \<Rightarrow> bool \<Rightarrow> svc_state \<Rightarrow> svc_log \<times> bool" where
  "firewall_apply env background s = (if manual_off s then ([], background) else ([(CmdFirewall, ve_work env)], ve_work env))"

definition package_update :: "svc_env \<Rightarrow> svc_state \<Rightarrow> svc_state \<times> svc_log \<times> bool" where
  "package_update env s =
     (if manual_off s
      then (s\<lparr>sv_needs_stop := \<not> ve_stop env\<rparr>, [(CmdUpdate, ve_work env), (CmdStop, ve_stop env)], ve_work env \<and> ve_stop env)
      else (s, [(CmdUpdate, ve_work env)], ve_work env))"

section \<open>Automatic picks\<close>

definition auto_pick_allowed :: "string \<Rightarrow> svc_state \<Rightarrow> bool" where
  "auto_pick_allowed reason s =
     (if manual_off s then False
      else if reason = ''manual'' then True
      else if reason = ''first-boot'' then am_auto_pick (sv_memory s)
      else if reason = ''periodic'' then am_auto_pick (sv_memory s) \<and> am_periodic (sv_memory s)
      else False)"

definition should_periodic_pick :: "bool \<Rightarrow> int \<Rightarrow> svc_state \<Rightarrow> bool" where
  "should_periodic_pick healthy now s =
     (let m = sv_memory s; hours = am_interval m in
      if manual_off s \<or> \<not> am_auto_pick m \<or> \<not> am_periodic m \<or> \<not> healthy \<or> sv_picking s \<or> am_last_pick m = 0 then False
      else (let interval = (if secs (hours * 3600) \<le> 0 then secs (24 * 3600) else secs (hours * 3600)) in
        now - secs (am_last_pick m) \<ge> interval))"

text \<open>\<open>runAutoPick\<close>: the start, and the end with the winner of the run, if it has one; the strategy is checked once more before it is written.\<close>

definition pick_begin :: "string \<Rightarrow> svc_state \<Rightarrow> svc_state option" where
  "pick_begin reason s = (if \<not> auto_pick_allowed reason s \<or> sv_picking s then None else Some (s\<lparr>sv_picking := True\<rparr>))"

definition save_memory :: "svc_env \<Rightarrow> automation \<Rightarrow> svc_state \<Rightarrow> svc_state" where
  "save_memory env m s = s\<lparr>sv_memory := m, sv_disk := (if ve_save env then m else sv_disk s)\<rparr>"

definition record_pick_error :: "svc_env \<Rightarrow> string \<Rightarrow> svc_state \<Rightarrow> svc_state" where
  "record_pick_error env err s = save_memory env ((sv_memory s)\<lparr>am_last_error := err\<rparr>) s"

definition apply_picked :: "svc_env \<Rightarrow> string \<Rightarrow> ('f :: linorder) strategy_result \<Rightarrow> svc_state \<Rightarrow> svc_log \<times> bool" where
  "apply_picked env reason r s =
     (if auto_pick_winner [r] = None then ([], False)
      else if manual_off s then ([], False)
      else if reason \<noteq> [] \<and> \<not> auto_pick_allowed reason s then ([], False)
      else if \<not> ve_write env then ([(CmdWriteStrategy (sr_args r), False)], False)
      else ([(CmdWriteStrategy (sr_args r), True), (CmdRestart, ve_restart env)], ve_restart env))"

definition pick_end :: "svc_env \<Rightarrow> string \<Rightarrow> string \<Rightarrow> int \<Rightarrow> ('f :: linorder) strategy_result list \<Rightarrow> svc_state \<Rightarrow> svc_state \<times> svc_log" where
  "pick_end env reason err now results s =
     (let s0 = s\<lparr>sv_picking := False\<rparr> in
      case auto_pick_winner results of
        None \<Rightarrow> (record_pick_error env err s0, [])
      | Some w \<Rightarrow>
          (if \<not> auto_pick_allowed reason s then (s0, [])
           else (case apply_picked env reason w s of
               (log, True) \<Rightarrow> (save_memory env ((sv_memory s)\<lparr>am_last_pick := now, am_last_args := sr_args w, am_last_name := sr_name w,
                   am_last_error := []\<rparr>) s0, log)
             | (log, False) \<Rightarrow> (record_pick_error env err s0, log))))"

text \<open>\<open>maybeRunFirstBootPick\<close>: whether a pick is started.\<close>

definition first_boot :: "svc_env \<Rightarrow> bool \<Rightarrow> int \<Rightarrow> svc_state \<Rightarrow> svc_state \<times> bool" where
  "first_boot env conf_empty now s =
     (if manual_off s \<or> \<not> am_auto_pick (sv_memory s) \<or> am_last_pick (sv_memory s) \<noteq> 0 then (s, False)
      else if \<not> conf_empty
      then (save_memory env ((sv_memory s)\<lparr>am_last_pick := now, am_last_args := ''(pre-existing)''\<rparr>) s, False)
      else (s, True))"

text \<open>\<open>SetAutomationConfig\<close>; \<^term>\<open>None\<close> is a refusal, of the mode or of the save.\<close>

definition set_automation :: "svc_env \<Rightarrow> string \<Rightarrow> bool \<Rightarrow> bool \<Rightarrow> int \<Rightarrow> svc_state \<Rightarrow> svc_state option" where
  "set_automation env mode auto periodic interval s =
     (if mode \<notin> {[], ''off'', ''on'', ''auto''} then None
      else if \<not> ve_save env then None
      else (let m = sv_memory s;
                m1 = m\<lparr>am_mode := (if mode \<noteq> [] then mode else am_mode m), am_auto_pick := auto, am_periodic := periodic,
                       am_interval := (if interval > 0 then interval else am_interval m)\<rparr> in
        Some (s\<lparr>sv_memory := m1, sv_disk := m1, sv_healthy := 0, sv_unhealthy := 0\<rparr>)))"

section \<open>The health of the tunnel\<close>

record tunnel_sample =
  ts_running :: bool
  ts_handshake :: int
  ts_rx :: int

definition stale_handshake :: int where "stale_handshake = 180"
definition tick_interval :: duration where "tick_interval = secs 30"
definition confirm_ticks :: nat where "confirm_ticks = 2"

definition refresh_sample :: "tunnel_sample list \<Rightarrow> time \<Rightarrow> int \<Rightarrow> svc_state \<Rightarrow> svc_state \<times> bool \<times> int" where
  "refresh_sample conns now unix s =
     (case find ts_running conns of
        None \<Rightarrow> (s, False, 0)
      | Some c \<Rightarrow>
          (let age = (if ts_handshake c = 0 then stale_handshake + 1 else unix - ts_handshake c);
               s1 = s\<lparr>sv_last_rx := ts_rx c, sv_last_rx_at := now\<rparr> in
           if age > stale_handshake then (s1, False, age)
           else if sv_last_rx_at s \<noteq> zero_time \<and> time_sub now (sv_last_rx_at s) < 3 * tick_interval
             \<and> ts_rx c = sv_last_rx s \<and> age > stale_handshake div 2
           then (s1, False, age) else (s1, True, age)))"

text \<open>One step of the automation: the commands, and whether a periodic pick is started.\<close>

definition automation_step :: "svc_env \<Rightarrow> tunnel_sample list \<Rightarrow> time \<Rightarrow> int \<Rightarrow> svc_state \<Rightarrow> svc_state \<times> svc_log \<times> bool" where
  "automation_step env conns now unix s =
     (case refresh_sample conns now unix s of
        (s1, healthy, age) \<Rightarrow>
          (let s2 = (if healthy then s1\<lparr>sv_healthy := sv_healthy s1 + 1, sv_unhealthy := 0\<rparr>
                     else s1\<lparr>sv_unhealthy := sv_unhealthy s1 + 1, sv_healthy := 0\<rparr>) in
           case enforce_automation env (sv_unhealthy s2 \<ge> confirm_ticks) s2 of
             (s3, log) \<Rightarrow> (s3, log, should_periodic_pick healthy now s3)))"

section \<open>What the manual OFF promises\<close>

datatype 'f svc_event =
    EvStop | EvStart | EvRestart | EvAutoStart | EvRestore | EvFirewall bool | EvUpdate | EvStep "tunnel_sample list" time int
  | EvPickBegin string | EvPickEnd string string int "'f strategy_result list" | EvFirstBoot bool int
  | EvSet string bool bool int

fun svc_step :: "('f :: linorder) svc_event \<Rightarrow> svc_env \<Rightarrow> svc_state \<Rightarrow> svc_state \<times> svc_log" where
  "svc_step EvStop env s = (case service_stop env s of (s', log, ok) \<Rightarrow> (s', log))"
| "svc_step EvStart env s = (case service_start env s of (s', log, ok) \<Rightarrow> (s', log))"
| "svc_step EvRestart env s = (case service_restart env s of (s', log, ok) \<Rightarrow> (s', log))"
| "svc_step EvAutoStart env s = (case service_start_automatic env s of (s', log, ok) \<Rightarrow> (s', log))"
| "svc_step EvRestore env s = restore_manual_off env s"
| "svc_step (EvFirewall background) env s = (case firewall_apply env background s of (log, ok) \<Rightarrow> (s, log))"
| "svc_step EvUpdate env s = (case package_update env s of (s', log, ok) \<Rightarrow> (s', log))"
| "svc_step (EvStep conns now unix) env s = (case automation_step env conns now unix s of (s', log, pick) \<Rightarrow> (s', log))"
| "svc_step (EvPickBegin reason) env s = (case pick_begin reason s of None \<Rightarrow> (s, []) | Some s' \<Rightarrow> (s', []))"
| "svc_step (EvPickEnd reason err now results) env s = pick_end env reason err now results s"
| "svc_step (EvFirstBoot conf_empty now) env s = (case first_boot env conf_empty now s of (s', pick) \<Rightarrow> (s', []))"
| "svc_step (EvSet mode auto periodic interval) env s =
     (case set_automation env mode auto periodic interval s of None \<Rightarrow> (s, []) | Some s' \<Rightarrow> (s', []))"

fun is_user_start :: "'f svc_event \<Rightarrow> bool" where
  "is_user_start EvStart = True"
| "is_user_start _ = False"

text \<open>A history with, for each command, whether the OFF was in force when its operation began and whether the user asked for a start.\<close>

inductive svc_run :: "automation option \<Rightarrow> (('f :: linorder) svc_event \<times> svc_env) list \<Rightarrow> svc_state
    \<Rightarrow> (svc_command \<times> bool \<times> bool \<times> bool) list \<Rightarrow> bool" for stored where
  svc_begins: "svc_run stored [] (svc_start stored saved) []"
| svc_goes_on: "svc_run stored es s hist \<Longrightarrow> svc_step e env s = (s', log)
    \<Longrightarrow> svc_run stored (es @ [(e, env)]) s' (hist @ map (\<lambda>(c, ok). (c, ok, manual_off s, is_user_start e)) log)"

text \<open>The last command of a history tells what the engine was left to.\<close>

definition off_respected :: "svc_state \<Rightarrow> (svc_command \<times> bool \<times> bool \<times> bool) list \<Rightarrow> bool" where
  "off_respected s hist \<longleftrightarrow>
     list_all (\<lambda>(c, ok, off, asked). if off then c \<in> {CmdStop, CmdUpdate} \<or> (asked \<and> c = CmdStart) else True) hist
     \<and> (if manual_off s \<and> hist \<noteq> [] then (case last hist of (c, ok, off, asked) \<Rightarrow> c = CmdStop \<and> ok = (\<not> sv_needs_stop s)) else True)"

definition off_saved :: "svc_state \<Rightarrow> bool" where
  "off_saved s \<longleftrightarrow> am_manual_off (sv_disk s) = manual_off s"

lemmas pick_defs = pick_begin_def pick_end_def first_boot_def set_automation_def record_pick_error_def save_memory_def apply_picked_def
lemmas service_defs = service_stop_def service_start_def service_restart_def service_start_automatic_def restore_manual_off_def
  firewall_apply_def package_update_def persist_off_def
lemmas watch_defs = automation_step_def refresh_sample_def enforce_automation_def

lemma step_off_commands:
  assumes "svc_step e env s = (s', log)" "manual_off s" "(c, ok) \<in> set log"
  shows "c \<in> {CmdStop, CmdUpdate} \<or> (is_user_start e \<and> c = CmdStart)"
proof (cases e)
  case (EvStep conns now unix)
  have "manual_off (fst (refresh_sample conns now unix s)) = manual_off s"
    by (simp add: refresh_sample_def manual_off_def Let_def split: option.split)
  then show ?thesis using assms EvStep
    by (auto simp: automation_step_def enforce_automation_def manual_off_def Let_def split: prod.splits if_splits)
next
  case (EvPickEnd reason err now results)
  have "\<not> auto_pick_allowed reason s" using assms(2) by (simp add: auto_pick_allowed_def)
  then show ?thesis using assms EvPickEnd by (auto simp: pick_end_def Let_def split: option.splits)
qed (use assms in \<open>auto simp: service_defs pick_defs Let_def split: option.splits prod.splits if_splits\<close>)

lemma step_off_end:
  assumes "svc_step e env s = (s', log)" "manual_off s'"
  shows "(log = [] \<and> manual_off s \<and> sv_needs_stop s' = sv_needs_stop s) \<or> (log \<noteq> [] \<and> last log = (CmdStop, \<not> sv_needs_stop s'))"
proof (cases e)
  case (EvStep conns now unix)
  have "manual_off (fst (refresh_sample conns now unix s)) = manual_off s" "sv_needs_stop (fst (refresh_sample conns now unix s)) = sv_needs_stop s"
    by (simp_all add: refresh_sample_def manual_off_def Let_def split: option.split)
  then show ?thesis using assms EvStep
    by (auto simp: automation_step_def enforce_automation_def manual_off_def Let_def split: prod.splits if_splits)
next
  case (EvPickEnd reason err now results)
  have m: "manual_off s' = manual_off s" using assms(1) EvPickEnd
    by (auto simp: pick_end_def record_pick_error_def save_memory_def manual_off_def Let_def split: option.splits prod.splits bool.splits if_splits)
  then have "\<not> auto_pick_allowed reason s" using assms(2) by (simp add: auto_pick_allowed_def)
  then show ?thesis using assms EvPickEnd m
    by (auto simp: pick_end_def record_pick_error_def save_memory_def Let_def split: option.splits)
qed (use assms in \<open>auto simp: service_defs pick_begin_def first_boot_def set_automation_def save_memory_def manual_off_def Let_def
    split: option.splits prod.splits if_splits\<close>)

lemma step_off_saved:
  assumes "svc_step e env s = (s', log)" "off_saved s"
  shows "off_saved s'"
proof (cases e)
  case (EvStep conns now unix)
  have "sv_memory (fst (refresh_sample conns now unix s)) = sv_memory s" "sv_disk (fst (refresh_sample conns now unix s)) = sv_disk s"
    by (simp_all add: refresh_sample_def Let_def split: option.split)
  then show ?thesis using assms EvStep
    by (auto simp: automation_step_def enforce_automation_def off_saved_def manual_off_def Let_def split: prod.splits if_splits)
next
  case (EvPickEnd reason err now results)
  then show ?thesis using assms
    by (auto simp: pick_end_def record_pick_error_def save_memory_def off_saved_def manual_off_def Let_def
        split: option.splits prod.splits bool.splits if_splits)
qed (use assms in \<open>auto simp: service_defs pick_begin_def first_boot_def set_automation_def save_memory_def off_saved_def manual_off_def Let_def
    split: option.splits prod.splits if_splits\<close>)



fun play_svc :: "(('f :: linorder) svc_event \<times> svc_env) list \<Rightarrow> svc_state \<times> (svc_command \<times> bool \<times> bool \<times> bool) list
    \<Rightarrow> svc_state \<times> (svc_command \<times> bool \<times> bool \<times> bool) list" where
  "play_svc [] r = r"
| "play_svc ((e, env) # es) (s, hist) =
     (case svc_step e env s of (s', log) \<Rightarrow> play_svc es (s', hist @ map (\<lambda>(c, ok). (c, ok, manual_off s, is_user_start e)) log))"

lemma play_svc_run:
  "svc_run stored es0 s hist \<Longrightarrow> play_svc es (s, hist) = (s', hist') \<Longrightarrow> svc_run stored (es0 @ es) s' hist'"
proof (induction es arbitrary: es0 s hist)
  case (Cons x es)
  obtain e env where x: "x = (e, env)" by (cases x)
  obtain s1 log where e: "svc_step e env s = (s1, log)" by (cases "svc_step e env s") auto
  from Cons.IH [OF svc_goes_on [OF Cons.prems(1) e]] Cons.prems(2) show ?case by (simp add: x e)
qed simp

definition demo_svc_env :: svc_env where
  "demo_svc_env = \<lparr>ve_running = True, ve_start = False, ve_stop = False, ve_restart = True, ve_save = True, ve_write = True, ve_work = True\<rparr>"

definition demo_svc_events :: "(nat svc_event \<times> svc_env) list" where
  "demo_svc_events = [(EvStop, demo_svc_env), (EvRestart, demo_svc_env), (EvStep [] 5 5, demo_svc_env),
     (EvStart, demo_svc_env\<lparr>ve_running := False, ve_stop := True\<rparr>)]"


end
