(* ===== verification/Spec2Isabelle.thy ===== *)
theory Spec2Isabelle
  imports Dns_Query Tgws_Ws Tgws_Packets Tgws_FakeTls Route_Table Standby Rule_Store Journals Shadow_Match Blocker Dhcp
    Shadow_Fallback Dns_Scheduler Fast_Dns Dns_Race Socket_Pools Service_Control
begin

text \<open>
  Verification development of the core of a router control panel written in Go: split routing of traffic between
  tunnel connections, the panel's own DNS server with its blocker, the Telegram relay, and the readers of network
  messages all of them rely on. The sources are under \<open>src/internal/\<close>.

  \<^bold>\<open>Conventions\<close> (\<open>Prelude\<close>, \<open>Go_Strings\<close>, \<open>Go_Text\<close>, \<open>Go_Utf8\<close>, \<open>Go_Net\<close>). A Go string is the list of its
  bytes; a byte slice is a list of \<open>8 word\<close>; an index or slice expression of the source that can go out of range is an
  option, \<^term>\<open>None\<close> being the panic; an error is a constructor of the component's own error type in the left summand of
  a sum. Fixed-width integers whose wrap-around matters are words; lengths and counters that stay below the width of
  a Go \<open>int\<close> are naturals. Time is an integer of nanoseconds. State that a mutex protects is passed explicitly, one
  operation being one step. The Go standard library is modelled as far as the source uses it: case mapping, trimming,
  splitting, decimal numbers, UTF-8, JSON strings, addresses and prefixes.

  \<^bold>\<open>Split routing\<close> (\<open>services/awg/match.go\<close>, \<open>services/awgroute\<close>).
  \<^item> \<open>Domain_Match\<close>: the compiled sets of names (exact names, suffix trie, keywords, regular expressions) answer like a
    linear scan over the entries. The contract of a set of plain domains is the locale \<open>plain_domain_set\<close>, interpreted
    on the trie.
  \<^item> \<open>Zones\<close>: routing rules, their effective list and mode (\<open>mode.go\<close>, \<open>expand.go\<close>, \<open>subdomains.go\<close>).
  \<^item> \<open>Route_Table\<close>: \<open>decision.go\<close>, the table the DNS proxy and the packet path consult; it decides as one scan of the
    rules in their order.
  \<^item> \<open>Fallback\<close>, \<open>Standby\<close>: \<open>fallback.go\<close>, \<open>failover.go\<close>, priority lists of backup connections, the acyclicity of
    what they refer to, which connection carries the traffic and which standby connections are woken.
  \<^item> \<open>Recovery\<close>: \<open>recovery_settings.go\<close> and the watchdog of \<open>client_watchdog.go\<close>, as histories of passes over
    one connection: a reconnect is never early, and never withheld for ever.
  \<^item> \<open>Rule_Store\<close>: \<open>pending_rules.go\<close>, \<open>routing_config.go\<close>, \<open>delete_replacement.go\<close> and the parts of \<open>awgroute.go\<close>
    that save, load and move the rules.

  \<^bold>\<open>DNS\<close> (\<open>tools/dns\<close>, \<open>services/awg\<close>, \<open>services/dnsserver\<close>, \<open>services/dnsroute\<close>).
  \<^item> \<open>Dns_Query\<close>, \<open>Dns_Wire\<close>: the query codec of the DoH and DoT clients, and the wire helpers of the DNS proxy.
  \<^item> \<open>Dns_Names\<close>: normalisation of names, and the locale \<open>name_filter\<close>, the contract of a set of masks: what is covered
    after an insertion. \<open>Shadow_Match\<close> (the label trie of \<open>shadow_config.go\<close>) and the exceptions of \<open>Blocker\<close> interpret it.
  \<^item> \<open>Blocker\<close>: \<open>blocker.go\<close>, \<open>response_filter.go\<close>: compiling lists, the verdict for a name, the filter of an answer.
  \<^item> \<open>Journals\<close>: \<open>log.go\<close> and \<open>tools/logbuf\<close>; the locale \<open>bounded_log\<close> says what a bounded log promises, both logs
    interpret it.
  \<^item> \<open>Dhcp\<close>: the messages from which the provider's resolvers are learnt, and the runs of the passive tracker.

  \<^bold>\<open>Telegram relay\<close> (\<open>services/tgws\<close>).
  \<^item> \<open>Tgws_Ws\<close>: WebSocket frames and the reassembly of messages. \<open>Tgws_Packets\<close>: packet boundaries of the three
    transports, in the bridge and over HTTP/2. \<open>Tgws_FakeTls\<close>: the record stream and the authenticated hellos.

  \<^bold>\<open>How they meet.\<close> \<open>Rule_Store\<close> produces the rules that \<open>Zones\<close> makes effective; \<open>Route_Table\<close> compiles them through
  \<open>Domain_Match\<close>; \<open>Standby\<close> replaces the chosen connection by the one \<open>Fallback\<close> selects, and \<open>Recovery\<close> decides when a
  failed one is tried again. The DNS server looks a name up in \<open>Shadow_Match\<close> and \<open>Blocker\<close>, whose normalisation is
  \<open>Dns_Names\<close>, and records what it did in \<open>Journals\<close>; \<open>Dhcp\<close> supplies the servers that shadow names are sent to.

  \<^bold>\<open>Termination.\<close> No definition carries fuel: every loop of the source that is modelled is structural or has a measure
  (bytes left, connections not visited, records left).

  \<^bold>\<open>Parameters.\<close> The regular expression engine, AdGuard's rule engine, SHA-256 and HMAC, the stream ciphers, the
  international name conversion, and the files behind list entries are arguments of the definitions that use them; each
  property that assumes something of them has a witness that instantiates them.

  \<^bold>\<open>Not modelled.\<close> Sockets, TLS and HTTP servers, goroutine scheduling below the granularity of a locked operation,
  the file system and its rollback, the firewall and routing commands sent to the kernel, the SSH deployment of
  servers, the DPI bypass engine's own configuration (\<open>services/nfqws2\<close>, \<open>services/strategy\<close>), the web server and the
  user interface: what they do is the effect of an external program, or glue around the parts above.
\<close>

end
